(* ===== verification/Prelude.thy ===== *)
theory Prelude
  imports Main "HOL-Library.Word" "HOL-Library.AList"
begin

text \<open>
  Shared vocabulary of the development: the machine types of the C++ sources, fact
  collections, and generic lemmas on words, lists and association lists.

  Conventions. \<open>uint8_t\<close>/\<open>uint32_t\<close>/\<open>uint64_t\<close> are the words \<open>u8\<close>/\<open>u32\<close>/\<open>u64\<close> (arithmetic
  wraps as in C++). A \<open>std::vector\<close> is a list and its \<open>size_t\<close> sizes and indices are
  natural numbers: a container never holds \<open>2^64\<close> elements. A \<open>std::unordered_map\<close> is an
  association list with distinct keys whose order stands for the (unspecified) iteration
  order. A \<open>std::string\<close> is a \<open>string\<close>, its characters being bytes.
\<close>

type_synonym u8 = "8 word"
type_synonym u16 = "16 word"
type_synonym u32 = "32 word"
type_synonym u64 = "64 word"
type_synonym bytes = "u8 list"

abbreviation u64_max :: u64 where
  "u64_max \<equiv> - 1"

named_theorems guard_simps "unat characterisations of the overflow guards"
named_theorems inv_intros "an operation preserves its component's invariant"

section \<open>Words\<close>

lemma unat_u64_max [simp]: "unat (- 1 :: 64 word) = 18446744073709551615"
  by (simp add: unsigned_minus_1_eq_mask mask_eq_exp_minus_1)

lemma unat_u64_lt: "unat (x :: u64) < 18446744073709551616"
  using unsigned_less [of x, where ?'a = nat] by simp

lemma unat_max_minus: "unat (u64_max - b) = 18446744073709551615 - unat b"
  by (simp add: unat_sub)

lemma add_guard [guard_simps]:
  "a > u64_max - b \<longleftrightarrow> unat a + unat b \<ge> 18446744073709551616"
  using unat_u64_lt [of b] by (simp add: word_less_nat_alt unat_max_minus) arith

lemma add_guard_uint:
  "a > u64_max - b \<longleftrightarrow> uint a + uint b \<ge> 18446744073709551616"
  unfolding add_guard uint_nat by linarith

lemma unat_add_no_wrap:
  "unat (a :: u64) + unat b < 18446744073709551616 \<Longrightarrow> unat (a + b) = unat a + unat b"
  by (subst unat_add_lem [THEN iffD1]) simp_all

lemma unat_uminus_u64: "(d :: u64) \<noteq> 0 \<Longrightarrow> unat (- d) = 18446744073709551616 - unat d"
proof -
  assume "d \<noteq> 0"
  then have "unat d \<noteq> 0" by (simp add: unat_eq_0)
  then have "unat (u64_max - d + 1) = 18446744073709551616 - unat d"
    using unat_u64_lt [of d] by (subst unat_add_no_wrap) (auto simp: unat_max_minus)
  then show ?thesis by simp
qed

lemma unat_of_nat_u64: "n < 18446744073709551616 \<Longrightarrow> unat (of_nat n :: u64) = n"
  by (simp add: unat_of_nat)

lemma sint_u64: "sint (d :: u64) = uint d - 2 ^ 64 * of_bool (bit d 63)"
proof -
  have "take_bit 64 (uint d) = uint d"
    using unsigned_less [of d, where ?'a = int] by (simp add: take_bit_int_eq_self)
  then show ?thesis
    by (simp add: sint_uint signed_take_bit_eq_take_bit_minus bit_uint_iff)
qed

lemma sle_zero_u64: "0 \<le>s (d :: u64) \<longleftrightarrow> \<not> bit d 63"
  using unsigned_less [of d, where ?'a = int] by (simp add: word_sle_eq sint_u64)

lemma sint_nonneg_u64: "0 \<le>s (d :: u64) \<Longrightarrow> sint d = uint d"
  by (simp add: sint_u64 sle_zero_u64)

lemma sint_neg_u64: "\<not> 0 \<le>s (d :: u64) \<Longrightarrow> sint d = uint d - 18446744073709551616"
  by (simp add: sint_u64 sle_zero_u64)

section \<open>Lists\<close>

text \<open>A search loop \<open>for (i = a; i < n; ++i) if (P(i)) break;\<close> is \<open>List.find P [a..<n]\<close>.\<close>

lemma find_upt_Some:
  "a \<le> k \<Longrightarrow> k < n \<Longrightarrow> P k \<Longrightarrow> \<forall>j. a \<le> j \<and> j < k \<longrightarrow> \<not> P j \<Longrightarrow> List.find P [a..<n] = Some k"
  unfolding find_Some_iff by (intro exI [of _ "k - a"]) (auto simp del: upt_Suc)

section \<open>Association lists as hash maps\<close>

text \<open>Writing one entry of a hash map and reading it back are \<open>AList.update\<close> and \<open>map_of\<close>.\<close>

abbreviation keys :: "('k \<times> 'v) list \<Rightarrow> 'k list" where
  "keys m \<equiv> map fst m"

abbreviation map_ok :: "('k \<times> 'v) list \<Rightarrow> bool" where
  "map_ok m \<equiv> distinct (keys m)"

lemma map_ok_update [simp, intro]: "map_ok m \<Longrightarrow> map_ok (AList.update k v m)"
  by (rule distinct_update)

lemma map_of_update [simp]: "map_of (AList.update k v m) = (map_of m)(k \<mapsto> v)"
  by (rule update_conv')

end
