(* ===== verification/Address_Span.thy ===== *)
theory Address_Span
  imports Prelude
begin

text \<open>
  \<open>src/src/Core/AddressSpan.h\<close>: virtual-address ranges as byte counts that never wrap
  \<open>UINT64_MAX\<close> back to zero. A C++ function that reports success and writes a result
  through a reference returns an option here.
\<close>

definition CheckedAddressAdd :: "u64 \<Rightarrow> u64 \<Rightarrow> u64 option" where
  "CheckedAddressAdd base offset =
     (if offset > u64_max - base then None else Some (base + offset))"

definition CheckedAddressAddSigned :: "u64 \<Rightarrow> u64 \<Rightarrow> u64 option" where
  \<comment> \<open>\<open>delta\<close> is the bit pattern of an \<open>int64_t\<close>\<close>
  "CheckedAddressAddSigned base delta =
     (if 0 \<le>s delta then CheckedAddressAdd base delta
      else let magnitude = (- (delta + 1)) + 1
           in if magnitude > base then None else Some (base - magnitude))"

definition ClampAddressableBytes :: "u64 \<Rightarrow> u64 \<Rightarrow> u64" where
  "ClampAddressableBytes start requested =
     (if requested = 0 \<or> start = 0 then requested
      else let room = u64_max - start + 1
           in if room < requested then room else requested)"

definition AddressInSpan :: "u64 \<Rightarrow> u64 \<Rightarrow> u64 \<Rightarrow> bool" where
  "AddressInSpan start byteCount address \<longleftrightarrow>
     byteCount \<noteq> 0 \<and> address \<ge> start \<and> address - start < byteCount"

definition SaturatingAddressAdd :: "u64 \<Rightarrow> u64 \<Rightarrow> u64" where
  "SaturatingAddressAdd base offset =
     (case CheckedAddressAdd base offset of Some r \<Rightarrow> r | None \<Rightarrow> u64_max)"

lemma CheckedAddressAdd_Some_iff [guard_simps]:
  "CheckedAddressAdd b d = Some r \<longleftrightarrow>
     unat b + unat d < 18446744073709551616 \<and> unat r = unat b + unat d"
proof (cases "unat b + unat d < 18446744073709551616")
  case True
  then show ?thesis
    by (auto simp: CheckedAddressAdd_def add_guard add.commute unat_add_no_wrap word_unat_eq_iff)
next
  case False
  then show ?thesis by (simp add: CheckedAddressAdd_def add_guard add.commute)
qed

lemma CheckedAddressAdd_None_iff [guard_simps]:
  "CheckedAddressAdd b d = None \<longleftrightarrow> 18446744073709551616 \<le> unat b + unat d"
  by (simp add: CheckedAddressAdd_def add_guard add.commute)

lemma unat_SaturatingAddressAdd [guard_simps]:
  "unat (SaturatingAddressAdd b d) = min 18446744073709551615 (unat b + unat d)"
  by (auto simp: SaturatingAddressAdd_def CheckedAddressAdd_Some_iff CheckedAddressAdd_None_iff
      split: option.splits)

lemma AddressInSpan_iff [guard_simps]:
  "AddressInSpan s n a \<longleftrightarrow> unat s \<le> unat a \<and> unat a < unat s + unat n"
proof (cases "s \<le> a")
  case True
  then have "unat (a - s) = unat a - unat s" by (simp add: unat_sub)
  with True show ?thesis
    by (auto simp: AddressInSpan_def word_le_nat_alt word_less_nat_alt unat_gt_0 [symmetric])
next
  case False
  then show ?thesis by (simp add: AddressInSpan_def word_le_nat_alt)
qed

lemma unat_ClampAddressableBytes [guard_simps]:
  "unat s \<noteq> 0 \<Longrightarrow> unat (ClampAddressableBytes s n) = min (unat n) (18446744073709551616 - unat s)"
proof -
  assume s: "unat s \<noteq> 0"
  have "unat (u64_max - s + 1) = 18446744073709551616 - unat s"
    using s unat_u64_lt [of s] by (subst unat_add_no_wrap) (auto simp: unat_max_minus)
  with s show ?thesis
    by (auto simp: ClampAddressableBytes_def Let_def word_less_nat_alt)
qed

section \<open>Properties\<close>

text \<open>The signed checked addition returns exactly the mathematical sum of the address and the
  signed displacement (including \<open>INT64_MIN\<close>), and rejects exactly when that sum is outside
  the 64-bit address space.\<close>

theorem CheckedAddressAddSigned_exact:
  "CheckedAddressAddSigned b d =
     (let s = uint b + sint d
      in if 0 \<le> s \<and> s < 2 ^ 64 then Some (word_of_int s) else None)"
proof (cases "0 \<le>s d")
  case True
  have sum: "word_of_int (uint b + uint d) = b + d" by simp
  from True have "CheckedAddressAddSigned b d = CheckedAddressAdd b d"
    by (simp add: CheckedAddressAddSigned_def)
  also have "\<dots> = (if uint b + uint d < 18446744073709551616 then Some (b + d) else None)"
    by (auto simp: CheckedAddressAdd_def add_guard_uint)
  finally show ?thesis
    using True by (simp only: sum sint_nonneg_u64 Let_def) simp
next
  case False
  then have d: "sint d = uint d - 18446744073709551616" by (simp add: sint_neg_u64)
  have sum: "word_of_int (uint b + (uint d - 18446744073709551616)) = b + d" by simp
  from False have nz: "d \<noteq> 0" by auto
  have m: "- d > b \<longleftrightarrow> uint b + (uint d - 18446744073709551616) < 0"
    using unat_u64_lt [of d] unfolding word_less_nat_alt uint_nat unat_uminus_u64 [OF nz] by linarith
  have "CheckedAddressAddSigned b d = (if - d > b then None else Some (b + d))"
    using False by (simp add: CheckedAddressAddSigned_def)
  moreover have "uint b + (uint d - 18446744073709551616) < 18446744073709551616"
    using unat_u64_lt [of d] unat_u64_lt [of b] unfolding uint_nat by linarith
  ultimately show ?thesis
    by (simp only: sum d m Let_def) simp
qed

end
