(* ===== verification/C_Lib.thy ===== *)
theory C_Lib
  imports Prelude
begin

text \<open>
  The functions of the C and C++ standard libraries the components call, in the C locale:
  character classes, \<open>strtoull\<close> with base 0, \<open>std::string::find\<close>. Characters are bytes.
\<close>

section \<open>Character classes\<close>

definition c_isspace :: "char \<Rightarrow> bool" where
  "c_isspace c \<longleftrightarrow> (let n = (of_char c :: nat) in n = 32 \<or> 9 \<le> n \<and> n \<le> 13)"

definition hex_digit :: "char \<Rightarrow> nat option" where
  "hex_digit c =
     (let n = (of_char c :: nat)
      in if 48 \<le> n \<and> n \<le> 57 then Some (n - 48)
         else if 97 \<le> n \<and> n \<le> 102 then Some (n - 87)
         else if 65 \<le> n \<and> n \<le> 70 then Some (n - 55)
         else None)"

definition c_isdigit :: "char \<Rightarrow> bool" where
  "c_isdigit c \<longleftrightarrow> (let n = (of_char c :: nat) in 48 \<le> n \<and> n \<le> 57)"

definition c_isalpha :: "char \<Rightarrow> bool" where
  "c_isalpha c \<longleftrightarrow> (let n = (of_char c :: nat) in 65 \<le> n \<and> n \<le> 90 \<or> 97 \<le> n \<and> n \<le> 122)"

definition c_isalnum :: "char \<Rightarrow> bool" where
  "c_isalnum c \<longleftrightarrow> c_isalpha c \<or> c_isdigit c"

definition c_tolower :: "char \<Rightarrow> char" where
  "c_tolower c = (let n = (of_char c :: nat) in if 65 \<le> n \<and> n \<le> 90 then char_of (n + 32) else c)"

section \<open>Strings\<close>

definition trim :: "string \<Rightarrow> string" where
  "trim s = rev (dropWhile c_isspace (rev (dropWhile c_isspace s)))"

text \<open>\<open>s.find(tok, p)\<close>: the first index from \<open>p\<close> on at which \<open>tok\<close> occurs.\<close>

definition occurs :: "string \<Rightarrow> string \<Rightarrow> nat \<Rightarrow> bool" where
  "occurs s tok p \<longleftrightarrow> p + length tok \<le> length s \<and> take (length tok) (drop p s) = tok"

definition str_find :: "string \<Rightarrow> string \<Rightarrow> nat \<Rightarrow> nat option" where
  "str_find s tok p = List.find (occurs s tok) [p..<length s + 1]"

lemma str_find_Some:
  "str_find s tok p = Some q \<longleftrightarrow> p \<le> q \<and> occurs s tok q \<and> (\<forall>r. p \<le> r \<and> r < q \<longrightarrow> \<not> occurs s tok r)"
proof
  assume "str_find s tok p = Some q"
  then obtain i where i: "i < length s + 1 - p" "occurs s tok (p + i)" "q = p + i"
    "\<And>j. j < i \<Longrightarrow> \<not> occurs s tok (p + j)"
    by (auto simp: str_find_def find_Some_iff simp del: upt_Suc)
  have "\<not> occurs s tok r" if "p \<le> r" "r < q" for r
    using i(4) [of "r - p"] that i(3) by simp
  with i show "p \<le> q \<and> occurs s tok q \<and> (\<forall>r. p \<le> r \<and> r < q \<longrightarrow> \<not> occurs s tok r)" by simp
next
  assume q: "p \<le> q \<and> occurs s tok q \<and> (\<forall>r. p \<le> r \<and> r < q \<longrightarrow> \<not> occurs s tok r)"
  then have "q \<le> length s" by (auto simp: occurs_def)
  with q show "str_find s tok p = Some q"
    by (auto simp: str_find_def find_Some_iff simp del: upt_Suc intro!: exI [of _ "q - p"])
qed

lemma str_find_None: "str_find s tok p = None \<longleftrightarrow> (\<forall>q \<ge> p. \<not> occurs s tok q)"
  by (auto simp: str_find_def find_None_iff occurs_def)

section \<open>\<open>strtoull(s, &end, 0)\<close>\<close>

definition digit_val :: "char \<Rightarrow> nat option" where
  "digit_val c =
     (let n = (of_char c :: nat)
      in if 48 \<le> n \<and> n \<le> 57 then Some (n - 48)
         else if 97 \<le> n \<and> n \<le> 122 then Some (n - 87)
         else if 65 \<le> n \<and> n \<le> 90 then Some (n - 55)
         else None)"

definition is_digit_in :: "nat \<Rightarrow> char \<Rightarrow> bool" where
  "is_digit_in base c \<longleftrightarrow> (case digit_val c of Some d \<Rightarrow> d < base | None \<Rightarrow> False)"

definition digits_value :: "nat \<Rightarrow> string \<Rightarrow> nat" where
  "digits_value base s = foldl (\<lambda>acc c. acc * base + the (digit_val c)) 0 s"

text \<open>The number after an optional sign: its base, the digits, the rest.\<close>

fun number_base :: "string \<Rightarrow> nat \<times> string" where
  "number_base (z # x # d # rest) =
     (if z = CHR ''0'' \<and> (x = CHR ''x'' \<or> x = CHR ''X'') \<and> is_digit_in 16 d then (16, d # rest)
      else if z = CHR ''0'' then (8, z # x # d # rest) else (10, z # x # d # rest))"
| "number_base (z # rest) = (if z = CHR ''0'' then 8 else 10, z # rest)"
| "number_base [] = (10, [])"

definition strip_sign :: "string \<Rightarrow> bool \<times> string" where
  "strip_sign s = (case s of
     [] \<Rightarrow> (False, [])
   | c # cs \<Rightarrow> if c = CHR ''-'' then (True, cs) else if c = CHR ''+'' then (False, cs) else (False, c # cs))"

text \<open>\<open>None\<close>: no conversion. A magnitude above \<open>ULLONG_MAX\<close> yields \<open>ULLONG_MAX\<close>, whatever the sign;
  otherwise a minus sign negates modulo \<open>2^64\<close>.\<close>

definition strtoull :: "string \<Rightarrow> (u64 \<times> string) option" where
  "strtoull s =
     (let (neg, s1) = strip_sign (dropWhile c_isspace s);
          (base, s2) = number_base s1;
          ds = takeWhile (is_digit_in base) s2
      in if ds = [] then None
         else
           let n = digits_value base ds
           in Some (if n \<ge> 2 ^ 64 then u64_max else if neg then - of_nat n else of_nat n, drop (length ds) s2))"

definition c_str :: "string \<Rightarrow> string" where
  "c_str s = takeWhile (\<lambda>c. of_char c \<noteq> (0 :: nat)) s"

section \<open>Decimal numbers\<close>

definition digit_char :: "nat \<Rightarrow> char" where
  "digit_char d = char_of (48 + d)"

fun dec :: "nat \<Rightarrow> string" where
  "dec n = (if n < 10 then [digit_char n] else dec (n div 10) @ [digit_char (n mod 10)])"

declare dec.simps [simp del]

lemma of_char_digit: "d < 10 \<Longrightarrow> of_char (digit_char d) = (48 + d :: nat)"
  by (simp add: digit_char_def)

lemma digit_val_digit: "d < 10 \<Longrightarrow> digit_val (digit_char d) = Some d"
  by (simp add: digit_val_def of_char_digit Let_def)

lemma dec_digits: "\<forall>c \<in> set (dec n). c_isdigit c"
proof (induction n rule: dec.induct)
  case (1 n)
  then show ?case
    by (subst dec.simps) (auto simp: c_isdigit_def of_char_digit Let_def)
qed

lemma isdigit_in_10: "c_isdigit c \<Longrightarrow> is_digit_in 10 c"
  by (auto simp: c_isdigit_def is_digit_in_def digit_val_def Let_def)

lemma dec_value: "digits_value 10 (dec n) = n"
proof (induction n rule: dec.induct)
  case (1 n)
  show ?case
  proof (cases "n < 10")
    case True
    then show ?thesis by (subst dec.simps) (simp add: digits_value_def digit_val_digit)
  next
    case False
    with 1 show ?thesis by (subst dec.simps) (simp add: digits_value_def digit_val_digit)
  qed
qed

lemma dec_nonempty [simp]: "dec n \<noteq> []"
  by (subst dec.simps) simp

lemma hd_dec: "0 < n \<Longrightarrow> hd (dec n) \<noteq> CHR ''0''"
proof (induction n rule: dec.induct)
  case (1 n)
  show ?case
  proof (cases "n < 10")
    case True
    have "of_char (digit_char n) \<noteq> (of_char CHR ''0'' :: nat)" using True 1(2) by (simp add: of_char_digit)
    then show ?thesis using True by (subst dec.simps) auto
  next
    case False
    with 1 show ?thesis by (subst dec.simps) simp
  qed
qed

lemma digit_not_space: "c_isdigit c \<Longrightarrow> \<not> c_isspace c"
  by (simp add: c_isdigit_def c_isspace_def Let_def)

lemma digit_not_sign: "c_isdigit c \<Longrightarrow> c \<noteq> CHR ''-'' \<and> c \<noteq> CHR ''+''"
  by (auto simp: c_isdigit_def Let_def)

lemma strtoull_dec:
  assumes "n < 2 ^ 64"
  shows "strtoull (dec n) = Some (of_nat n, [])"
proof (cases "n = 0")
  case True
  have "dec 0 = ''0''" by (simp add: dec.simps digit_char_def char_of_def bit_0)
  with True show ?thesis
    by (simp add: strtoull_def strip_sign_def c_isspace_def is_digit_in_def digit_val_def digits_value_def)
next
  case False
  obtain c cs where d: "dec n = c # cs" by (cases "dec n") auto
  have c: "c_isdigit c" "c \<noteq> CHR ''0''" using dec_digits [of n] hd_dec [of n] False d by auto
  have base: "number_base (c # cs) = (10, c # cs)"
    using c(2) by (cases "c # cs" rule: number_base.cases) auto
  have "takeWhile (is_digit_in 10) (dec n) = dec n"
    using dec_digits [of n] isdigit_in_10 by (simp add: takeWhile_eq_all_conv)
  with assms dec_value [of n] c base d show ?thesis
    by (simp add: strtoull_def strip_sign_def digit_not_space digit_not_sign)
qed

end
