(* ===== verification/Sig_Match.thy ===== *)
theory Sig_Match
  imports C_Lib
begin

text \<open>
  \<open>src/src/Core/SigMatch.h\<close>, \<open>SigMatch.cpp\<close>: masked byte-pattern search. A pattern is a list of
  bytes with a mask; \<open>mask ! i = False\<close> is a \<open>??\<close> wildcard. \<open>FindFirstMasked\<close> is modelled with all
  of its paths (the \<open>memchr\<close> fast path with its bail-out, the all-wildcard and short-anchor cases
  and the Boyer-Moore-Horspool loop with its skip table). The two loops whose progress rests on
  the table are \<open>partial_function (option)\<close>: the outer \<open>None\<close> is "does not return", and
  \<open>SIZE_MAX\<close> is the inner \<open>None\<close>. That they return, and return the first match, is proved.
\<close>

record SigPattern =
  pat_bytes :: bytes
  pat_mask :: "bool list"

definition pat_ok :: "SigPattern \<Rightarrow> bool" where
  "pat_ok p \<longleftrightarrow> length (pat_mask p) = length (pat_bytes p)"

section \<open>Parsing\<close>

fun parse_signature_loop :: "string \<Rightarrow> SigPattern \<Rightarrow> SigPattern option" where
  "parse_signature_loop [] out = (if pat_bytes out = [] then None else Some out)"
| "parse_signature_loop (c # cs) out =
     (if c_isspace c then parse_signature_loop cs out
      else if c = CHR ''?'' then
        parse_signature_loop (if cs \<noteq> [] \<and> hd cs = CHR ''?'' then tl cs else cs)
          \<lparr>pat_bytes = pat_bytes out @ [0], pat_mask = pat_mask out @ [False]\<rparr>
      else
        (case cs of
           [] \<Rightarrow> None
         | d # ds \<Rightarrow>
             (case (hex_digit c, hex_digit d) of
                (Some hi, Some lo) \<Rightarrow>
                  parse_signature_loop ds
                    \<lparr>pat_bytes = pat_bytes out @ [of_nat (16 * hi + lo)], pat_mask = pat_mask out @ [True]\<rparr>
              | _ \<Rightarrow> None)))"

definition ParseSignature :: "string \<Rightarrow> SigPattern option" where
  "ParseSignature text = parse_signature_loop text \<lparr>pat_bytes = [], pat_mask = []\<rparr>"

section \<open>Searching\<close>

definition matchAt :: "bytes \<Rightarrow> SigPattern \<Rightarrow> nat \<Rightarrow> bool" where
  "matchAt data pat pos =
     list_all (\<lambda>j. \<not> pat_mask pat ! j \<or> data ! (pos + j) = pat_bytes pat ! j)
       [0..<length (pat_bytes pat)]"

definition memchr :: "bytes \<Rightarrow> u8 \<Rightarrow> nat \<Rightarrow> nat \<Rightarrow> nat option" where
  \<comment> \<open>first index of the byte in \<open>[from, to)\<close>\<close>
  "memchr data b from to = find (\<lambda>i. data ! i = b) [from..<to]"

definition memcmp_eq :: "bytes \<Rightarrow> nat \<Rightarrow> bytes \<Rightarrow> bool" where
  "memcmp_eq data at bs = list_all (\<lambda>j. data ! (at + j) = bs ! j) [0..<length bs]"

text \<open>The fast path for short exact patterns: \<open>Inl r\<close> returns \<open>r\<close>, \<open>Inr cursor\<close> leaves the loop.\<close>

lemma find_upt_ge: "find P [a..<b] = Some k \<Longrightarrow> a \<le> k \<and> k < b \<and> P k"
  by (auto simp: find_Some_iff)

function exact_scan ::
  "bytes \<Rightarrow> bytes \<Rightarrow> nat \<Rightarrow> nat \<Rightarrow> nat \<Rightarrow> nat \<Rightarrow> nat option + nat" where
  "exact_scan data bs stop cursor batchStart candidates =
     (if cursor < stop then
        (case memchr data (bs ! 0) cursor stop of
           None \<Rightarrow> Inl None
         | Some candidate \<Rightarrow>
             if data ! (candidate + (length bs - 1)) = bs ! (length bs - 1) \<and>
                memcmp_eq data candidate bs
             then Inl (Some candidate)
             else if candidates + 1 = 32 then
               (if candidate + 1 - batchStart \<le> 512 then Inr (candidate + 1)
                else exact_scan data bs stop (candidate + 1) (candidate + 1) 0)
             else exact_scan data bs stop (candidate + 1) batchStart (candidates + 1))
      else Inr cursor)"
  by pat_completeness auto
termination
  by (relation "measure (\<lambda>(data, bs, stop, cursor, b, c). stop - cursor)")
    (auto simp: memchr_def dest!: find_upt_ge)

text \<open>The rightmost concrete position (\<open>m\<close> when there is none).\<close>

fun find_anchor :: "bool list \<Rightarrow> nat \<Rightarrow> nat \<Rightarrow> nat" where
  "find_anchor msk m 0 = m"
| "find_anchor msk m (Suc j) = (if msk ! j then j else find_anchor msk m j)"

definition linear_scan :: "bytes \<Rightarrow> SigPattern \<Rightarrow> nat \<Rightarrow> nat option" where
  "linear_scan data pat from =
     find (matchAt data pat) [from..<Suc (length data) - length (pat_bytes pat)]"

text \<open>One pass over the prefix, from \<open>anchor - 1\<close> down to 0; a wildcard caps every unset entry.\<close>

fun build_skip :: "SigPattern \<Rightarrow> nat \<Rightarrow> nat \<Rightarrow> nat list \<Rightarrow> bool list \<Rightarrow> nat list" where
  "build_skip pat anchor 0 skip seen = skip"
| "build_skip pat anchor (Suc j) skip seen =
     (let s = anchor - j
      in if \<not> pat_mask pat ! j
         then map (\<lambda>k. if seen ! k then skip ! k else s) [0..<256]
         else let v = unat (pat_bytes pat ! j)
              in if seen ! v then build_skip pat anchor j skip seen
                 else build_skip pat anchor j (skip[v := s]) (seen[v := True]))"

definition skip_table :: "SigPattern \<Rightarrow> nat \<Rightarrow> nat list" where
  "skip_table pat anchor =
     build_skip pat anchor anchor (replicate 256 (anchor + 1)) (replicate 256 False)"

partial_function (option) bmh_scan ::
  "bytes \<Rightarrow> SigPattern \<Rightarrow> nat \<Rightarrow> nat list \<Rightarrow> nat \<Rightarrow> nat option option" where
  "bmh_scan data pat anchor skip i =
     (if i + length (pat_bytes pat) \<le> length data then
        (let tc = data ! (i + anchor)
         in if tc = pat_bytes pat ! anchor \<and> matchAt data pat i then Some (Some i)
            else bmh_scan data pat anchor skip (i + skip ! unat tc))
      else Some None)"

definition masked_scan :: "bytes \<Rightarrow> SigPattern \<Rightarrow> nat \<Rightarrow> nat option option" where
  "masked_scan data pat from =
     (let m = length (pat_bytes pat); anchor = find_anchor (pat_mask pat) m m
      in if anchor = m then Some (Some from)
         else if anchor < 1 then Some (linear_scan data pat from)
         else bmh_scan data pat anchor (skip_table pat anchor) from)"

definition FindFirstMasked :: "bytes \<Rightarrow> SigPattern \<Rightarrow> nat \<Rightarrow> nat option option" where
  "FindFirstMasked data pat from =
     (let n = length data; m = length (pat_bytes pat)
      in if m = 0 \<or> n < m then Some None
         else if from > n - m then Some None
         else if m \<le> 32 \<and> list_all (\<lambda>j. pat_mask pat ! j) [0..<m] then
           (case exact_scan data (pat_bytes pat) (n - m + 1) from from 0 of
              Inl r \<Rightarrow> Some r
            | Inr cursor \<Rightarrow>
                if cursor \<ge> n - m + 1 then Some None else masked_scan data pat cursor)
         else masked_scan data pat from)"

partial_function (option) find_all_loop ::
  "bytes \<Rightarrow> SigPattern \<Rightarrow> nat \<Rightarrow> (nat \<Rightarrow> bool) option \<Rightarrow> nat \<Rightarrow> nat list \<Rightarrow> nat list option" where
  "find_all_loop data pat maxHits admit pos hits =
     (if pos + length (pat_bytes pat) \<le> length data then
        (case FindFirstMasked data pat pos of
           None \<Rightarrow> None
         | Some None \<Rightarrow> Some hits
         | Some (Some at) \<Rightarrow>
             (if (case admit of None \<Rightarrow> True | Some f \<Rightarrow> f at) then
                (if maxHits \<noteq> 0 \<and> length (hits @ [at]) \<ge> maxHits then Some (hits @ [at])
                 else find_all_loop data pat maxHits admit (at + 1) (hits @ [at]))
              else find_all_loop data pat maxHits admit (at + 1) hits))
      else Some hits)"

definition FindAllMaskedAccepted ::
  "bytes \<Rightarrow> SigPattern \<Rightarrow> nat \<Rightarrow> (nat \<Rightarrow> bool) option \<Rightarrow> nat list option" where
  "FindAllMaskedAccepted data pat maxHits admit =
     (if length (pat_bytes pat) = 0 \<or> length data < length (pat_bytes pat) then Some []
      else find_all_loop data pat maxHits admit 0 [])"

definition FindAllMasked :: "bytes \<Rightarrow> SigPattern \<Rightarrow> nat \<Rightarrow> nat list option" where
  "FindAllMasked data pat maxHits = FindAllMaskedAccepted data pat maxHits None"

section \<open>Specification\<close>

text \<open>The pattern lies inside the span at \<open>i\<close> and every concrete byte agrees.\<close>

definition occurs_at :: "bytes \<Rightarrow> SigPattern \<Rightarrow> nat \<Rightarrow> bool" where
  "occurs_at data pat i \<longleftrightarrow>
     i + length (pat_bytes pat) \<le> length data \<and>
     (\<forall>j < length (pat_bytes pat). pat_mask pat ! j \<longrightarrow> data ! (i + j) = pat_bytes pat ! j)"

definition occurrences :: "bytes \<Rightarrow> SigPattern \<Rightarrow> nat \<Rightarrow> nat list" where
  "occurrences data pat from = filter (occurs_at data pat) [from..<Suc (length data)]"

definition first_occurrence :: "bytes \<Rightarrow> SigPattern \<Rightarrow> nat \<Rightarrow> nat option" where
  "first_occurrence data pat from =
     (case occurrences data pat from of [] \<Rightarrow> None | i # _ \<Rightarrow> Some i)"

lemma matchAt_iff:
  "i + length (pat_bytes pat) \<le> length data \<Longrightarrow> matchAt data pat i \<longleftrightarrow> occurs_at data pat i"
  by (auto simp: matchAt_def occurs_at_def list_all_iff)

lemma occurs_at_exec:
  "occurs_at data pat i \<longleftrightarrow> i + length (pat_bytes pat) \<le> length data \<and> matchAt data pat i"
  using matchAt_iff [of i pat data] by (auto simp: occurs_at_def)

lemmas occurrence_eval = first_occurrence_def occurrences_def occurs_at_exec matchAt_def upt_rec

lemma occurrences_Cons:
  "from \<le> length data \<Longrightarrow> occurrences data pat from =
     (if occurs_at data pat from then [from] else []) @ occurrences data pat (Suc from)"
  by (simp add: occurrences_def upt_conv_Cons del: upt_Suc)

lemma occurrences_skip:
  assumes "a \<le> b" and "\<And>i. a \<le> i \<Longrightarrow> i < b \<Longrightarrow> \<not> occurs_at data pat i"
  shows "occurrences data pat a = occurrences data pat b"
proof -
  have e: "filter (occurs_at data pat) [a..<min b (Suc (length data))] = []"
    using assms(2) by (auto simp: filter_empty_conv)
  show ?thesis
  proof (cases "b \<le> Suc (length data)")
    case True
    then have "[a..<Suc (length data)] = [a..<b] @ [b..<Suc (length data)]"
      using assms(1) upt_add_eq_append [of a b "Suc (length data) - b"] by simp
    with True e show ?thesis by (simp add: occurrences_def min_def)
  next
    case False
    with e show ?thesis by (simp add: occurrences_def min_def)
  qed
qed

lemma occurrences_none:
  "length data < a + length (pat_bytes pat) \<Longrightarrow> occurrences data pat a = []"
  by (auto simp: occurrences_def filter_empty_conv occurs_at_def)

lemma first_occurrence_hit: "occurs_at data pat i \<Longrightarrow> first_occurrence data pat i = Some i"
  using occurrences_Cons [of i data pat] by (auto simp: first_occurrence_def occurs_at_def)

lemma first_occurrence_skip:
  "a \<le> b \<Longrightarrow> (\<And>i. a \<le> i \<Longrightarrow> i < b \<Longrightarrow> \<not> occurs_at data pat i) \<Longrightarrow>
     first_occurrence data pat a = first_occurrence data pat b"
  using occurrences_skip [of a b data pat] by (simp add: first_occurrence_def)

lemma first_occurrence_none:
  "length data < a + length (pat_bytes pat) \<Longrightarrow> first_occurrence data pat a = None"
  by (simp add: first_occurrence_def occurrences_none)

lemma first_occurrence_Some:
  "first_occurrence data pat a = Some i \<longleftrightarrow>
     a \<le> i \<and> occurs_at data pat i \<and> (\<forall>k. a \<le> k \<and> k < i \<longrightarrow> \<not> occurs_at data pat k)"
proof
  assume f: "first_occurrence data pat a = Some i"
  then obtain xs where "occurrences data pat a = i # xs"
    by (auto simp: first_occurrence_def split: list.splits)
  moreover from this have "sorted (i # xs)" 
    by (metis occurrences_def sorted_upt sorted_wrt_filter)
  moreover have "set (occurrences data pat a) = {k. a \<le> k \<and> occurs_at data pat k}"
    by (auto simp: occurrences_def occurs_at_def)
  ultimately show "a \<le> i \<and> occurs_at data pat i \<and> (\<forall>k. a \<le> k \<and> k < i \<longrightarrow> \<not> occurs_at data pat k)"
    by (auto simp: set_eq_iff) (metis less_le_not_le)
next
  assume "a \<le> i \<and> occurs_at data pat i \<and> (\<forall>k. a \<le> k \<and> k < i \<longrightarrow> \<not> occurs_at data pat k)"
  then show "first_occurrence data pat a = Some i"
    using first_occurrence_skip [of a i data pat] first_occurrence_hit [of data pat i] by auto
qed

section \<open>The fast path\<close>

lemma occurs_exact:
  assumes "\<forall>j < length (pat_bytes pat). pat_mask pat ! j" "k + length (pat_bytes pat) \<le> length data"
  shows "occurs_at data pat k \<longleftrightarrow> memcmp_eq data k (pat_bytes pat)"
  using assms by (auto simp: occurs_at_def memcmp_eq_def list_all_iff)

lemma occurs_first_byte:
  assumes "\<forall>j < length (pat_bytes pat). pat_mask pat ! j" "pat_bytes pat \<noteq> []" "occurs_at data pat k"
  shows "data ! k = pat_bytes pat ! 0"
  using assms by (force simp: occurs_at_def)

lemma memcmp_last: "memcmp_eq data k bs \<Longrightarrow> bs \<noteq> [] \<Longrightarrow> data ! (k + (length bs - 1)) = bs ! (length bs - 1)"
  by (simp add: memcmp_eq_def list_all_iff)

lemma memchr_None: "memchr data b from to = None \<Longrightarrow> from \<le> i \<Longrightarrow> i < to \<Longrightarrow> data ! i \<noteq> b"
  by (auto simp: memchr_def find_None_iff)

lemma find_upt_least: "find P [a..<b] = Some k \<Longrightarrow> a \<le> i \<Longrightarrow> i < k \<Longrightarrow> \<not> P i"
proof -
  assume "find P [a..<b] = Some k" "a \<le> i" "i < k"
  then obtain n where n: "n < b - a" "k = a + n" "\<forall>j < n. \<not> P (a + j)"
    by (auto simp: find_Some_iff)
  with \<open>a \<le> i\<close> \<open>i < k\<close> show "\<not> P i"
    by (metis add_diff_inverse_nat less_diff_conv2 not_le add.commute)
qed

lemma memchr_Some:
  assumes "memchr data b from to = Some k"
  shows "from \<le> k" "k < to" "data ! k = b" "\<And>i. from \<le> i \<Longrightarrow> i < k \<Longrightarrow> data ! i \<noteq> b"
  using assms find_upt_ge [of "\<lambda>i. data ! i = b" "from" to k]
    find_upt_least [of "\<lambda>i. data ! i = b" "from" to k]
  by (auto simp: memchr_def)

lemma exact_scan_correct:
  assumes exact: "\<forall>j < length (pat_bytes pat). pat_mask pat ! j" and ne: "pat_bytes pat \<noteq> []"
    and fits: "length (pat_bytes pat) \<le> length data"
  shows "case exact_scan data (pat_bytes pat) (length data - length (pat_bytes pat) + 1) cursor b c of
           Inl r \<Rightarrow> first_occurrence data pat cursor = r
         | Inr k \<Rightarrow> cursor \<le> k \<and> first_occurrence data pat cursor = first_occurrence data pat k"
  using fits
proof (induction data "pat_bytes pat" "length data - length (pat_bytes pat) + 1" cursor b c
    rule: exact_scan.induct)
  case (1 data cursor b c)
  let ?m = "length (pat_bytes pat)"
  let ?stop = "length data - ?m + 1"
  show ?case
  proof (cases "cursor < ?stop")
    case False
    then show ?thesis by (simp add: exact_scan.simps)
  next
    case less: True
    show ?thesis
    proof (cases "memchr data (pat_bytes pat ! 0) cursor ?stop")
      case None
      have "\<not> occurs_at data pat i" if "cursor \<le> i" for i
      proof
        assume occ: "occurs_at data pat i"
        then have "i < ?stop" by (auto simp: occurs_at_def)
        with memchr_None [OF None that] occurs_first_byte [OF exact ne occ] show False by simp
      qed
      then have "first_occurrence data pat cursor = None"
        by (meson first_occurrence_Some not_Some_eq)
      with less None show ?thesis by (simp add: exact_scan.simps)
    next
      case (Some k)
      note k = memchr_Some [OF Some]
      have fit: "k + ?m \<le> length data" using k(2) "1.prems" by simp
      have before: "\<not> occurs_at data pat i" if "cursor \<le> i" "i < k" for i
        using k(4) [OF that] occurs_first_byte [OF exact ne, of data i] by auto
      have hit: "occurs_at data pat k \<longleftrightarrow>
          data ! (k + (?m - 1)) = pat_bytes pat ! (?m - 1) \<and> memcmp_eq data k (pat_bytes pat)"
        using occurs_exact [OF exact fit] memcmp_last [of data k "pat_bytes pat"] ne by auto
      show ?thesis
      proof (cases "occurs_at data pat k")
        case True
        have "first_occurrence data pat cursor = Some k"
          using first_occurrence_skip [OF k(1) before] first_occurrence_hit [OF True] by simp
        with less Some hit True show ?thesis by (simp add: exact_scan.simps)
      next
        case miss: False
        have step: "first_occurrence data pat cursor = first_occurrence data pat (k + 1)"
          using before miss k(1) by (intro first_occurrence_skip) (auto simp: less_Suc_eq)
        show ?thesis
          using "1.hyps"(1) [OF less Some] "1.hyps"(2) [OF less Some] "1.prems" less Some hit miss step k(1)
          by (subst exact_scan.simps) (auto split: sum.splits)
      qed
    qed
  qed
qed

section \<open>The skip table\<close>

lemma find_anchor_le: "find_anchor msk m j = m \<or> find_anchor msk m j < j"
  by (induction j) auto

lemma find_anchor_none: "find_anchor msk m j = m \<Longrightarrow> j \<le> m \<Longrightarrow> i < j \<Longrightarrow> \<not> msk ! i"
  by (induction j) (auto simp: less_Suc_eq split: if_splits)

lemma find_anchor_some: "find_anchor msk m j \<noteq> m \<Longrightarrow> msk ! find_anchor msk m j"
  by (induction j) auto

text \<open>What the table promises: shifts are positive, and every shorter shift would put a different
  concrete byte under the anchor.\<close>

definition skip_safe :: "SigPattern \<Rightarrow> nat \<Rightarrow> nat list \<Rightarrow> nat \<Rightarrow> bool" where
  "skip_safe pat anchor skip v \<longleftrightarrow>
     0 < skip ! v \<and> skip ! v \<le> anchor + 1 \<and>
     (\<forall>s. 0 < s \<and> s < skip ! v \<longrightarrow>
        pat_mask pat ! (anchor - s) \<and> unat (pat_bytes pat ! (anchor - s)) \<noteq> v)"

definition skip_inv :: "SigPattern \<Rightarrow> nat \<Rightarrow> nat \<Rightarrow> nat list \<Rightarrow> bool list \<Rightarrow> bool" where
  "skip_inv pat anchor j skip seen \<longleftrightarrow>
     length skip = 256 \<and> length seen = 256 \<and>
     (\<forall>v < 256. if seen ! v then skip_safe pat anchor skip v
        else skip ! v = anchor + 1 \<and>
          (\<forall>i. j \<le> i \<and> i < anchor \<longrightarrow> pat_mask pat ! i \<and> unat (pat_bytes pat ! i) \<noteq> v))"

lemma skip_inv_safe:
  assumes inv: "skip_inv pat anchor j skip seen" and v: "v < 256" and s: "0 < s" "s \<le> anchor + 1"
    and mid: "\<And>i. anchor < i + s \<Longrightarrow> i < anchor \<Longrightarrow> j \<le> i"
    and cap: "skip' ! v = (if seen ! v then skip ! v else s)"
  shows "skip_safe pat anchor skip' v"
proof (cases "seen ! v")
  case True
  with inv v have "skip_safe pat anchor skip v" by (simp add: skip_inv_def)
  then show ?thesis by (simp add: skip_safe_def cap True)
next
  case False
  have "pat_mask pat ! (anchor - t) \<and> unat (pat_bytes pat ! (anchor - t)) \<noteq> v"
    if "0 < t" "t < s" for t
  proof -
    have "anchor - t < anchor" using that s by linarith
    moreover have "anchor < (anchor - t) + s" using that s by linarith
    ultimately have "j \<le> anchor - t" using mid by blast
    with inv v False \<open>anchor - t < anchor\<close> show ?thesis by (auto simp: skip_inv_def)
  qed
  with False cap s show ?thesis by (simp add: skip_safe_def)
qed

lemma skip_inv_prefix:
  assumes inv: "skip_inv pat anchor (Suc j) skip seen" and "pat_mask pat ! j"
    and "u < 256" "\<not> seen ! u" "u \<noteq> unat (pat_bytes pat ! j)" "j \<le> i" "i < anchor"
  shows "pat_mask pat ! i \<and> unat (pat_bytes pat ! i) \<noteq> u"
proof (cases "i = j")
  case True
  with assms show ?thesis by auto
next
  case False
  with \<open>j \<le> i\<close> have "Suc j \<le> i" by simp
  with assms show ?thesis by (simp add: skip_inv_def)
qed

lemma skip_inv_seen:
  assumes inv: "skip_inv pat anchor (Suc j) skip seen" and m: "pat_mask pat ! j"
    and seen: "seen ! unat (pat_bytes pat ! j)"
  shows "skip_inv pat anchor j skip seen"
  using inv skip_inv_prefix [OF inv m] seen by (fastforce simp: skip_inv_def)

lemma skip_safe_other: "u \<noteq> w \<Longrightarrow> skip_safe pat anchor (skip[w := x]) u = skip_safe pat anchor skip u"
  by (simp add: skip_safe_def)

lemma build_skip_safe:
  "skip_inv pat anchor j skip seen \<Longrightarrow> j \<le> anchor \<Longrightarrow> v < 256 \<Longrightarrow>
     skip_safe pat anchor (build_skip pat anchor j skip seen) v"
proof (induction j arbitrary: skip seen)
  case 0
  then have "skip ! v = (if seen ! v then skip ! v else anchor + 1)"
    by (auto simp: skip_inv_def)
  with 0 show ?case by (auto intro: skip_inv_safe [where s = "anchor + 1"])
next
  case (Suc j)
  let ?w = "unat (pat_bytes pat ! j)"
  have w: "?w < 256" using unsigned_less [of "pat_bytes pat ! j", where ?'a = nat] by simp
  show ?case
  proof (cases "pat_mask pat ! j")
    case False
    with Suc.prems show ?thesis
      by (auto simp: Let_def intro!: skip_inv_safe [OF Suc.prems(1,3), where s = "anchor - j"])
  next
    case concrete: True
    show ?thesis
    proof (cases "seen ! ?w")
      case True
      with Suc.prems(1) concrete have "skip_inv pat anchor j skip seen"
        by (rule skip_inv_seen)
      with Suc True concrete show ?thesis by simp
    next
      case False
      have safe: "skip_safe pat anchor (skip[?w := anchor - j]) ?w"
        using Suc.prems False w
        by (intro skip_inv_safe [OF Suc.prems(1) w, where s = "anchor - j"]) (auto simp: skip_inv_def)
      have "skip_inv pat anchor j (skip[?w := anchor - j]) (seen[?w := True])"
        unfolding skip_inv_def
      proof (intro conjI allI impI)
        fix u :: nat
        assume u: "u < 256"
        show "if seen[?w := True] ! u then skip_safe pat anchor (skip[?w := anchor - j]) u
          else skip[?w := anchor - j] ! u = anchor + 1 \<and>
            (\<forall>i. j \<le> i \<and> i < anchor \<longrightarrow> pat_mask pat ! i \<and> unat (pat_bytes pat ! i) \<noteq> u)"
        proof (cases "u = ?w")
          case True
          with safe w Suc.prems show ?thesis by (simp add: skip_inv_def)
        next
          case False
          with u Suc.prems(1) show ?thesis
            using skip_inv_prefix [OF Suc.prems(1) concrete u] by (auto simp: skip_safe_other skip_inv_def)
        qed
      qed (use Suc.prems in \<open>simp_all add: skip_inv_def\<close>)
      with Suc False concrete show ?thesis by (simp add: Let_def)
    qed
  qed
qed

lemma skip_table_safe: "v < 256 \<Longrightarrow> skip_safe pat anchor (skip_table pat anchor) v"
  unfolding skip_table_def by (rule build_skip_safe) (auto simp: skip_inv_def)

section \<open>The Horspool loop\<close>

lemma bmh_shift_safe:
  assumes safe: "skip_safe pat anchor skip (unat (data ! (i + anchor)))"
    and anchor: "anchor < length (pat_bytes pat)"
    and k: "i < k" "k < i + skip ! unat (data ! (i + anchor))"
  shows "\<not> occurs_at data pat k"
proof
  assume occ: "occurs_at data pat k"
  let ?s = "k - i"
  from k safe have s: "0 < ?s" "?s < skip ! unat (data ! (i + anchor))" "?s \<le> anchor"
    by (auto simp: skip_safe_def)
  with safe have "pat_mask pat ! (anchor - ?s) \<and>
      unat (pat_bytes pat ! (anchor - ?s)) \<noteq> unat (data ! (i + anchor))"
    unfolding skip_safe_def by blast
  moreover have "data ! (k + (anchor - ?s)) = pat_bytes pat ! (anchor - ?s)"
    using occ calculation anchor by (auto simp: occurs_at_def)
  moreover have "k + (anchor - ?s) = i + anchor" using s k by simp
  ultimately show False by metis
qed

lemma bmh_scan_correct:
  assumes safe: "\<And>v. v < 256 \<Longrightarrow> skip_safe pat anchor skip v"
    and anchor: "anchor < length (pat_bytes pat)" and concrete: "pat_mask pat ! anchor"
  shows "bmh_scan data pat anchor skip i = Some (first_occurrence data pat i)"
proof (induction "Suc (length data) - i" arbitrary: i rule: less_induct)
  case less
  let ?m = "length (pat_bytes pat)" and ?tc = "data ! (i + anchor)"
  show ?case
  proof (cases "i + ?m \<le> length data")
    case False
    then show ?thesis by (subst bmh_scan.simps) (simp add: first_occurrence_none)
  next
    case fits: True
    have tc: "unat ?tc < 256" using unsigned_less [of ?tc, where ?'a = nat] by simp
    from safe [OF tc] have pos: "0 < skip ! unat ?tc" by (simp add: skip_safe_def)
    have hit: "(?tc = pat_bytes pat ! anchor \<and> matchAt data pat i) = occurs_at data pat i"
      using matchAt_iff [OF fits] anchor concrete by (auto simp: occurs_at_def)
    show ?thesis
    proof (cases "occurs_at data pat i")
      case True
      with fits hit show ?thesis by (subst bmh_scan.simps) (simp add: first_occurrence_hit Let_def)
    next
      case False
      have "first_occurrence data pat i = first_occurrence data pat (i + skip ! unat ?tc)"
      proof (rule first_occurrence_skip)
        fix k assume "i \<le> k" "k < i + skip ! unat ?tc"
        with False bmh_shift_safe [OF safe [OF tc] anchor, of k] show "\<not> occurs_at data pat k"
          by (cases "k = i") auto
      qed simp
      moreover have "bmh_scan data pat anchor skip (i + skip ! unat ?tc) =
          Some (first_occurrence data pat (i + skip ! unat ?tc))"
        using fits pos anchor by (intro less) auto
      moreover from fits hit False have "bmh_scan data pat anchor skip i =
          bmh_scan data pat anchor skip (i + skip ! unat ?tc)"
        by (subst bmh_scan.simps) (auto simp: Let_def)
      ultimately show ?thesis by simp
    qed
  qed
qed

section \<open>The whole search\<close>

lemma linear_scan_correct:
  assumes m: "pat_bytes pat \<noteq> []" "length (pat_bytes pat) \<le> length data"
  shows "linear_scan data pat from = first_occurrence data pat from"
proof -
  let ?m = "length (pat_bytes pat)"
  have eq: "matchAt data pat i = occurs_at data pat i" if "i < Suc (length data) - ?m" for i
    using that matchAt_iff [of i pat data] by (simp add: less_diff_conv)
  show ?thesis
  proof (cases "linear_scan data pat from")
    case None
    then have "\<not> occurs_at data pat i" if "from \<le> i" for i
      using that eq [of i] by (auto simp: linear_scan_def find_None_iff occurs_at_def)
    then show ?thesis
      using None by (metis first_occurrence_Some not_Some_eq)
  next
    case (Some i)
    have i: "from \<le> i" "i < Suc (length data) - ?m" "matchAt data pat i"
      using find_upt_ge [OF Some [unfolded linear_scan_def]] by auto
    have "\<not> occurs_at data pat k" if "from \<le> k" "k < i" for k
      using find_upt_least [OF Some [unfolded linear_scan_def] that] eq [of k] that(2) i(2) by simp
    then have "first_occurrence data pat from = Some i"
      using i eq [OF i(2)] by (simp add: first_occurrence_Some)
    with Some show ?thesis by simp
  qed
qed

lemma masked_scan_correct:
  assumes m: "pat_bytes pat \<noteq> []" and fits: "from + length (pat_bytes pat) \<le> length data"
  shows "masked_scan data pat from = Some (first_occurrence data pat from)"
proof -
  let ?m = "length (pat_bytes pat)" and ?a = "find_anchor (pat_mask pat) (length (pat_bytes pat)) (length (pat_bytes pat))"
  show ?thesis
  proof (cases "?a = ?m")
    case True
    with fits have "occurs_at data pat from"
      using find_anchor_none [OF True] by (auto simp: occurs_at_def)
    with True show ?thesis by (simp add: masked_scan_def first_occurrence_hit)
  next
    case False
    then have a: "?a < ?m" "pat_mask pat ! ?a"
      using find_anchor_le [of "pat_mask pat" ?m ?m] find_anchor_some by auto
    show ?thesis
    proof (cases "?a < 1")
      case True
      with False m fits show ?thesis
        by (simp add: masked_scan_def linear_scan_correct)
    next
      case ge1: False
      with False show ?thesis
        using bmh_scan_correct [OF skip_table_safe a] by (simp add: masked_scan_def)
    qed
  qed
qed

lemma FindFirstMasked_eq:
  assumes m: "pat_bytes pat \<noteq> []"
  shows "FindFirstMasked data pat from = Some (first_occurrence data pat from)"
proof -
  let ?n = "length data" and ?m = "length (pat_bytes pat)"
  show ?thesis
  proof (cases "?n < ?m \<or> from > ?n - ?m")
    case True
    with m show ?thesis by (auto simp: FindFirstMasked_def first_occurrence_none Let_def)
  next
    case False
    then have fits: "from + ?m \<le> ?n" by arith
    show ?thesis
    proof (cases "?m \<le> 32 \<and> list_all (\<lambda>j. pat_mask pat ! j) [0..<?m]")
      case slow: False
      then have "FindFirstMasked data pat from = masked_scan data pat from"
        using m False by (auto simp: FindFirstMasked_def Let_def)
      with masked_scan_correct [OF m fits] show ?thesis by simp
    next
      case fast: True
      then have all: "\<forall>j < ?m. pat_mask pat ! j" by (simp add: list_all_iff)
      have "?m \<le> ?n" using fits by simp
      note scan = exact_scan_correct [OF all m this, of "from" "from" 0]
      show ?thesis
      proof (cases "exact_scan data (pat_bytes pat) (?n - ?m + 1) from from 0")
        case (Inl r)
        with scan fast m False show ?thesis by (simp add: FindFirstMasked_def Let_def)
      next
        case (Inr k)
        with scan have eq: "first_occurrence data pat from = first_occurrence data pat k" by simp
        show ?thesis
        proof (cases "k \<ge> ?n - ?m + 1")
          case True
          with Inr eq fast m False show ?thesis
            by (simp add: FindFirstMasked_def Let_def first_occurrence_none)
        next
          case less: False
          then have "k + ?m \<le> ?n" using fits by arith
          with masked_scan_correct [OF m this] Inr eq fast m False less show ?thesis
            by (simp add: FindFirstMasked_def Let_def)
        qed
      qed
    qed
  qed
qed

lemma occurrences_first:
  "occurrences data pat pos =
     (case first_occurrence data pat pos of None \<Rightarrow> [] | Some i \<Rightarrow> i # occurrences data pat (i + 1))"
proof (cases "first_occurrence data pat pos")
  case None
  then show ?thesis by (simp add: first_occurrence_def split: list.splits)
next
  case (Some i)
  then have i: "pos \<le> i" "occurs_at data pat i" "\<And>k. pos \<le> k \<Longrightarrow> k < i \<Longrightarrow> \<not> occurs_at data pat k"
    by (auto simp: first_occurrence_Some)
  then have "occurrences data pat pos = occurrences data pat i" by (intro occurrences_skip)
  also have "\<dots> = i # occurrences data pat (i + 1)"
    using i(2) occurrences_Cons [of i data pat] by (auto simp: occurs_at_def)
  finally show ?thesis using Some by simp
qed

text \<open>What a hit limit keeps: everything when it is 0, otherwise that many.\<close>

definition limited :: "nat \<Rightarrow> 'a list \<Rightarrow> 'a list" where
  "limited maxHits xs = (if maxHits = 0 then xs else take maxHits xs)"

definition admitted :: "(nat \<Rightarrow> bool) option \<Rightarrow> nat \<Rightarrow> bool" where
  "admitted admit i = (case admit of None \<Rightarrow> True | Some f \<Rightarrow> f i)"

lemma find_all_loop_correct:
  assumes m: "pat_bytes pat \<noteq> []" and room: "maxHits = 0 \<or> length hits < maxHits"
  shows "find_all_loop data pat maxHits admit pos hits =
     Some (limited maxHits (hits @ filter (admitted admit) (occurrences data pat pos)))"
  using room
proof (induction "Suc (length data) - pos" arbitrary: pos hits rule: less_induct)
  case less
  have base: "limited maxHits hits = hits" using less.prems by (auto simp: limited_def)
  show ?case
  proof (cases "pos + length (pat_bytes pat) \<le> length data")
    case False
    then show ?thesis by (subst find_all_loop.simps) (simp add: occurrences_none base)
  next
    case fits: True
    note first = FindFirstMasked_eq [OF m, of data pos]
    show ?thesis
    proof (cases "first_occurrence data pat pos")
      case None
      with fits first base show ?thesis
        by (subst find_all_loop.simps) (simp add: occurrences_first [of data pat pos])
    next
      case (Some i)
      then have i: "pos \<le> i" "i < Suc (length data)" by (auto simp: first_occurrence_Some occurs_at_def)
      have occ: "occurrences data pat pos = i # occurrences data pat (Suc i)"
        using occurrences_first [of data pat pos] Some by simp
      have IH: "find_all_loop data pat maxHits admit (Suc i) h =
          Some (limited maxHits (h @ filter (admitted admit) (occurrences data pat (Suc i))))"
        if "maxHits = 0 \<or> length h < maxHits" for h
        using that i fits less.hyps [of "Suc i" h] m by (cases "i < length data") auto
      have done_: "limited maxHits (hits @ i # ys) = hits @ [i]"
        if "maxHits \<noteq> 0" "maxHits \<le> Suc (length hits)" for ys
        using that less.prems by (auto simp: limited_def take_Cons' )
      show ?thesis
        using fits first Some occ less.prems IH [of "hits @ [i]"] IH [of hits] done_
        by (subst find_all_loop.simps) (auto simp: admitted_def not_le split: option.splits)
    qed
  qed
qed

section \<open>Properties\<close>

text \<open>C7: the signature search always returns, and returns the lowest offset at or after \<open>from\<close>
  where the whole pattern lies inside the span and every concrete byte agrees, or nothing when
  there is none: the \<open>memchr\<close> fast path with its bail-out, the linear scan and the
  wildcard-capped Horspool skip table never miss or invent a match.\<close>

theorem FindFirstMasked_first:
  assumes "pat_bytes pat \<noteq> []"
  shows "FindFirstMasked data pat from = Some (first_occurrence data pat from)"
  using assms by (rule FindFirstMasked_eq)

theorem FindFirstMasked_first_witness:
  "FindFirstMasked [1, 2, 3, 2, 9, 3] \<lparr>pat_bytes = [2, 0, 3], pat_mask = [True, False, True]\<rparr> 0 = Some (Some 3)"
proof -
  have "first_occurrence [1, 2, 3, 2, 9, 3] \<lparr>pat_bytes = [2, 0, 3], pat_mask = [True, False, True]\<rparr> 0 = Some 3"
    by (simp add: occurrence_eval)
  then show ?thesis
    using FindFirstMasked_first [of "\<lparr>pat_bytes = [2, 0, 3], pat_mask = [True, False, True]\<rparr>"] by simp
qed

text \<open>C38: scanning for all matches reports exactly the admitted occurrences, overlapping ones
  included, in ascending order, cut at the hit limit; excluded occurrences do not use up the limit.\<close>

theorem FindAllMaskedAccepted_exact:
  assumes "pat_bytes pat \<noteq> []"
  shows "FindAllMaskedAccepted data pat maxHits admit =
     Some (limited maxHits (filter (admitted admit) (occurrences data pat 0)))"
  using assms find_all_loop_correct [OF assms, of maxHits "[]" data admit 0]
  by (auto simp: FindAllMaskedAccepted_def limited_def occurrences_none)

theorem FindAllMaskedAccepted_exact_witness:
  "FindAllMaskedAccepted [7, 7, 7, 7] \<lparr>pat_bytes = [7, 7], pat_mask = [True, True]\<rparr> 1 (Some (\<lambda>i. i \<noteq> 0))
     = Some [1]"
proof -
  have "filter (admitted (Some (\<lambda>i. i \<noteq> 0)))
      (occurrences [7, 7, 7, 7] \<lparr>pat_bytes = [7, 7], pat_mask = [True, True]\<rparr> 0) = [1, 2]"
    by (simp add: occurrence_eval admitted_def)
  then show ?thesis
    using FindAllMaskedAccepted_exact [of "\<lparr>pat_bytes = [7, 7], pat_mask = [True, True]\<rparr>"]
    by (simp add: limited_def)
qed

end
