(* ===== verification/Bit_Reader.thy ===== *)
theory Bit_Reader
  imports Prelude
begin

unbundle bit_operations_syntax

text \<open>
  The bit reader of \<open>src/src/Core/Inflate.cpp\<close>: bits are taken least significant first from a
  32-bit buffer that is refilled byte by byte. The abstraction \<open>reader_bits\<close> is the sequence of
  bits not yet read, and \<open>get\<close> is proved to take its prefix.
\<close>

record BitReader =
  br_d :: bytes
  br_pos :: nat
  br_buf :: u32
  br_cnt :: nat

function br_fill :: "nat \<Rightarrow> BitReader \<Rightarrow> BitReader option" where
  "br_fill need br =
     (if br_cnt br < need then
        (if br_pos br \<ge> length (br_d br) then None
         else br_fill need
           (br\<lparr>br_buf := br_buf br OR push_bit (br_cnt br) (ucast (br_d br ! br_pos br)),
               br_pos := br_pos br + 1, br_cnt := br_cnt br + 8\<rparr>))
      else Some br)"
  by pat_completeness auto
termination
  by (relation "measure (\<lambda>(need, br). need - br_cnt br)") auto

definition br_get :: "nat \<Rightarrow> BitReader \<Rightarrow> (u32 \<times> BitReader) option" where
  "br_get need br =
     (case br_fill need br of
        None \<Rightarrow> None
      | Some b \<Rightarrow>
          Some (br_buf b AND (push_bit need 1 - 1),
            b\<lparr>br_buf := drop_bit need (br_buf b), br_cnt := br_cnt b - need\<rparr>))"

definition br_alignByte :: "BitReader \<Rightarrow> BitReader" where
  "br_alignByte br = br\<lparr>br_buf := 0, br_cnt := 0\<rparr>"

declare br_fill.simps [simp del]

section \<open>The abstract bit stream\<close>

definition byte_bits :: "u8 \<Rightarrow> bool list" where
  "byte_bits b = map (bit b) [0..<8]"

definition bytes_bits :: "bytes \<Rightarrow> bool list" where
  "bytes_bits bs = concat (map byte_bits bs)"

definition reader_bits :: "BitReader \<Rightarrow> bool list" where
  "reader_bits br = map (bit (br_buf br)) [0..<br_cnt br] @ bytes_bits (drop (br_pos br) (br_d br))"

definition reader_ok :: "BitReader \<Rightarrow> bool" where
  "reader_ok br \<longleftrightarrow> (\<forall>i \<ge> br_cnt br. \<not> bit (br_buf br) i) \<and> br_pos br \<le> length (br_d br)"

definition lsb_value :: "bool list \<Rightarrow> nat" where
  "lsb_value bs = horner_sum of_bool 2 bs"

lemma length_byte_bits [simp]: "length (byte_bits b) = 8"
  by (simp add: byte_bits_def)

lemma length_bytes_bits [simp]: "length (bytes_bits bs) = 8 * length bs"
  by (induction bs) (simp_all add: bytes_bits_def)

lemma bytes_bits_simps [simp]:
  "bytes_bits [] = []" "bytes_bits (b # bs) = byte_bits b @ bytes_bits bs"
  "bytes_bits (xs @ ys) = bytes_bits xs @ bytes_bits ys"
  by (simp_all add: bytes_bits_def)

lemma length_reader_bits:
  "length (reader_bits br) = br_cnt br + 8 * (length (br_d br) - br_pos br)"
  by (simp add: reader_bits_def)

lemma fill_step_bits:
  assumes ok: "reader_ok br" and cnt: "br_cnt br \<le> 24" and pos: "br_pos br < length (br_d br)"
  defines "b \<equiv> br\<lparr>br_buf := br_buf br OR push_bit (br_cnt br) (ucast (br_d br ! br_pos br)),
               br_pos := br_pos br + 1, br_cnt := br_cnt br + 8\<rparr>"
  shows "reader_ok b" and "reader_bits b = reader_bits br"
proof -
  let ?x = "br_d br ! br_pos br" and ?c = "br_cnt br"
  have bit_b: "bit (br_buf b) i = (if i < ?c then bit (br_buf br) i else i < ?c + 8 \<and> bit ?x (i - ?c))" for i
    using ok cnt bit_imp_le_length [of ?x "i - ?c"]
    by (auto simp: b_def reader_ok_def bit_or_iff bit_push_bit_iff bit_unsigned_iff)
  then show "reader_ok b"
    using pos by (auto simp: reader_ok_def b_def)
  have "map (bit (br_buf b)) [0..<?c + 8] = map (bit (br_buf br)) [0..<?c] @ byte_bits ?x"
    by (rule nth_equalityI) (auto simp: bit_b nth_append byte_bits_def)
  moreover have "bytes_bits (drop (br_pos br) (br_d br)) =
      byte_bits ?x @ bytes_bits (drop (Suc (br_pos br)) (br_d br))"
    using pos by (simp add: Cons_nth_drop_Suc [symmetric])
  ultimately show "reader_bits b = reader_bits br"
    by (simp add: reader_bits_def b_def)
qed

lemma br_fill_correct:
  assumes "reader_ok br" and "need \<le> 24"
  shows "case br_fill need br of
      None \<Rightarrow> length (reader_bits br) < need
    | Some b \<Rightarrow> reader_ok b \<and> reader_bits b = reader_bits br \<and> need \<le> br_cnt b \<and> br_d b = br_d br
        \<and> (br_cnt b = br_cnt br \<or> br_cnt b < need + 8)"
  using assms
proof (induction need br rule: br_fill.induct)
  case (1 need br)
  show ?case
  proof (cases "br_cnt br < need")
    case False
    with 1 show ?thesis by (simp add: br_fill.simps)
  next
    case less: True
    show ?thesis
    proof (cases "br_pos br \<ge> length (br_d br)")
      case True
      with less show ?thesis by (simp add: br_fill.simps length_reader_bits)
    next
      case False
      then have "br_cnt br \<le> 24" "br_pos br < length (br_d br)" using less 1 by auto
      note step = fill_step_bits [OF "1.prems"(1) this]
      from "1.IH" [OF less False step(1) "1.prems"(2)] show ?thesis
        using less False step(2)
        by (subst (1) br_fill.simps) (auto split: option.splits)
    qed
  qed
qed

lemma take_bits_value: "unat (x AND (2 ^ n - 1) :: u32) = lsb_value (map (bit x) [0..<n])"
proof -
  have "x AND (2 ^ n - 1) = take_bit n x"
    by (simp add: take_bit_eq_mask mask_eq_exp_minus_1)
  moreover have "unat (take_bit n x) = take_bit n (unat x)" by (simp add: unsigned_take_bit_eq)
  moreover have "map (bit (unat x)) [0..<n] = map (bit x) [0..<n]"
    by (simp add: bit_unsigned_iff)
  ultimately show ?thesis
    by (metis lsb_value_def horner_sum_bit_eq_take_bit)
qed

text \<open>Reading \<open>need\<close> bits takes exactly the next \<open>need\<close> bits of the stream.\<close>

lemma br_get_Some:
  assumes ok: "reader_ok br" and need: "need \<le> 24" and len: "need \<le> length (reader_bits br)"
  obtains v b where "br_get need br = Some (v, b)" "unat v = lsb_value (take need (reader_bits br))"
    "reader_ok b" "reader_bits b = drop need (reader_bits br)" "br_d b = br_d br"
    "br_cnt br < 8 \<Longrightarrow> br_cnt b < 8"
proof -
  from br_fill_correct [OF ok need] len obtain f where f: "br_fill need br = Some f"
    "reader_ok f" "reader_bits f = reader_bits br" "need \<le> br_cnt f" "br_d f = br_d br"
    "br_cnt f = br_cnt br \<or> br_cnt f < need + 8"
    by (auto split: option.splits)
  let ?b = "f\<lparr>br_buf := drop_bit need (br_buf f), br_cnt := br_cnt f - need\<rparr>"
  have split: "[0..<br_cnt f] = [0..<need] @ [need..<br_cnt f]"
    using f(4) by (metis le_add_diff_inverse upt_add_eq_append zero_le)
  have shift: "map (bit (br_buf f)) [need..<br_cnt f] = map (bit (drop_bit need (br_buf f))) [0..<br_cnt f - need]"
    by (rule nth_equalityI) (simp_all add: bit_drop_bit_eq)
  show thesis
  proof (rule that)
    show "br_get need br = Some (br_buf f AND (push_bit need 1 - 1), ?b)"
      by (simp add: br_get_def f(1))
    show "unat (br_buf f AND (push_bit need 1 - 1)) = lsb_value (take need (reader_bits br))"
      using f(4) unfolding f(3) [symmetric] by (simp add: take_bits_value reader_bits_def split)
    show "reader_ok ?b" using f(2) by (simp add: reader_ok_def bit_drop_bit_eq)
    show "reader_bits ?b = drop need (reader_bits br)"
      unfolding f(3) [symmetric] by (simp add: reader_bits_def split shift)
    show "br_d ?b = br_d br" by (simp add: f(5))
    show "br_cnt ?b < 8" if "br_cnt br < 8" using that f(4,6) by auto
  qed
qed

lemma br_get_None:
  assumes "reader_ok br" "need \<le> 24"
  shows "br_get need br = None \<longleftrightarrow> length (reader_bits br) < need"
proof
  assume "br_get need br = None"
  with br_fill_correct [OF assms] show "length (reader_bits br) < need"
    by (simp add: br_get_def split: option.splits)
next
  assume short: "length (reader_bits br) < need"
  show "br_get need br = None"
  proof (cases "br_fill need br")
    case None
    then show ?thesis by (simp add: br_get_def)
  next
    case (Some b)
    with br_fill_correct [OF assms] have "reader_bits b = reader_bits br" "need \<le> br_cnt b" by simp_all
    then have "need \<le> length (reader_bits br)" using length_reader_bits [of b] by simp
    with short show ?thesis by simp
  qed
qed

lemma br_alignByte_ok [simp]: "reader_ok br \<Longrightarrow> reader_ok (br_alignByte br)"
  by (simp add: reader_ok_def br_alignByte_def)

section \<open>Consumption without any precondition\<close>

text \<open>Bits left, for the termination of every loop of the decoder.\<close>

definition bits_left :: "BitReader \<Rightarrow> nat" where
  "bits_left br = br_cnt br + 8 * (length (br_d br) - br_pos br)"

lemma br_fill_bits_left: "br_fill need br = Some b \<Longrightarrow> bits_left b = bits_left br \<and> need \<le> br_cnt b"
proof (induction need br rule: br_fill.induct)
  case (1 need br)
  then show ?case
    by (subst (asm) (2) br_fill.simps) (auto simp: bits_left_def split: if_splits)
qed

lemma br_get_bits_left: "br_get need br = Some (v, b) \<Longrightarrow> bits_left b + need = bits_left br"
  by (auto simp: br_get_def bits_left_def dest!: br_fill_bits_left split: option.splits)

lemma bits_left_align: "bits_left (br_alignByte br) \<le> bits_left br"
  by (simp add: bits_left_def br_alignByte_def)

end
