(* ===== verification/Inflate.thy ===== *)
theory Inflate
  imports Bit_Reader
begin

unbundle bit_operations_syntax

text \<open>
  \<open>src/src/Core/Inflate.cpp\<close>: the bounded raw-DEFLATE (RFC 1951) decoder. \<open>construct\<close> and
  \<open>decode\<close> are the canonical-Huffman tables and their bit-by-bit walk, \<open>codes\<close> the
  literal/length loop shared by fixed and dynamic blocks, \<open>InflateRaw\<close> the block loop. Every
  loop consumes at least one bit, which is its termination proof here (\<open>bits_left\<close>). A C++
  \<open>false\<close> (and \<open>decode\<close>'s \<open>-1\<close>) is \<open>None\<close>; the caller never looks at the output after one.
  The slots of \<open>symbol\<close> that the C++ leaves uninitialised hold 0 here and are never read.
\<close>

record Huffman =
  h_count :: "nat list"
  h_symbol :: "nat list"

definition count_lengths :: "nat list \<Rightarrow> nat list" where
  "count_lengths lens = fold (\<lambda>l c. c[l := c ! l + 1]) lens (replicate 16 0)"

fun left_loop :: "nat list \<Rightarrow> nat list \<Rightarrow> int \<Rightarrow> int" where
  "left_loop count [] left = left"
| "left_loop count (len # ls) left =
     (let l = 2 * left - int (count ! len) in if l < 0 then l else left_loop count ls l)"

definition offsets :: "nat list \<Rightarrow> nat list" where
  "offsets count = fold (\<lambda>len offs. offs[len + 1 := offs ! len + count ! len]) [1..<15] (replicate 16 0)"

definition fill_symbol :: "nat list \<Rightarrow> nat \<Rightarrow> nat list \<times> nat list \<Rightarrow> nat list \<times> nat list" where
  "fill_symbol lens symb so =
     (let l = lens ! symb
      in if l \<noteq> 0 then ((fst so)[snd so ! l := symb], (snd so)[l := snd so ! l + 1]) else so)"

definition construct :: "nat list \<Rightarrow> Huffman \<times> int" where
  "construct lens =
     (let count = count_lengths lens
      in if count ! 0 = length lens then (\<lparr>h_count = count, h_symbol = replicate 288 0\<rparr>, 0)
         else let left = left_loop count [1..<16] 1
           in if left < 0 then (\<lparr>h_count = count, h_symbol = replicate 288 0\<rparr>, left)
              else (\<lparr>h_count = count,
                     h_symbol = fst (fold (fill_symbol lens) [0..<length lens] (replicate 288 0, offsets count))\<rparr>,
                    left))"

fun decode_loop :: "nat list \<Rightarrow> Huffman \<Rightarrow> int \<Rightarrow> int \<Rightarrow> nat \<Rightarrow> BitReader \<Rightarrow> (nat \<times> BitReader) option" where
  "decode_loop [] h code first index br = None"
| "decode_loop (len # ls) h code first index br =
     (case br_get 1 br of
        None \<Rightarrow> None
      | Some (b, br') \<Rightarrow>
          (let code' = code OR uint b; cnt = h_count h ! len
           in if code' - int cnt < first then Some (h_symbol h ! (index + nat (code' - first)), br')
              else decode_loop ls h (2 * code') (2 * (first + int cnt)) (index + cnt) br'))"

definition decode :: "BitReader \<Rightarrow> Huffman \<Rightarrow> (nat \<times> BitReader) option" where
  "decode br h = decode_loop [1..<16] h 0 0 0 br"

definition lenBase :: "nat list" where
  "lenBase = [3, 4, 5, 6, 7, 8, 9, 10, 11, 13, 15, 17, 19, 23, 27, 31,
     35, 43, 51, 59, 67, 83, 99, 115, 131, 163, 195, 227, 258]"

definition lenExtra :: "nat list" where
  "lenExtra = [0, 0, 0, 0, 0, 0, 0, 0, 1, 1, 1, 1, 2, 2, 2, 2,
     3, 3, 3, 3, 4, 4, 4, 4, 5, 5, 5, 5, 0]"

definition distBase :: "nat list" where
  "distBase = [1, 2, 3, 4, 5, 7, 9, 13, 17, 25, 33, 49, 65, 97, 129, 193,
     257, 385, 513, 769, 1025, 1537, 2049, 3073, 4097, 6145, 8193, 12289, 16385, 24577]"

definition distExtra :: "nat list" where
  "distExtra = [0, 0, 0, 0, 1, 1, 2, 2, 3, 3, 4, 4, 5, 5, 6, 6,
     7, 7, 8, 8, 9, 9, 10, 10, 11, 11, 12, 12, 13, 13]"

text \<open>The byte-at-a-time copy: a source byte may be one the copy itself has just appended.\<close>

fun copy_match :: "nat \<Rightarrow> nat \<Rightarrow> bytes \<Rightarrow> bytes" where
  "copy_match from 0 out = out"
| "copy_match from (Suc k) out = copy_match (from + 1) k (out @ [out ! from])"

lemma decode_loop_bits_left:
  "decode_loop ls h code first index br = Some (s, b) \<Longrightarrow> bits_left b < bits_left br"
proof (induction ls arbitrary: code first index br)
  case (Cons l ls)
  then show ?case
    by (fastforce simp: Let_def dest!: br_get_bits_left split: option.splits prod.splits if_splits)
qed simp

lemma decode_bits_left: "decode br h = Some (s, b) \<Longrightarrow> bits_left b < bits_left br"
  unfolding decode_def by (rule decode_loop_bits_left)

text \<open>One iteration of the literal/length loop: the new output, the reader, and whether the
  end-of-block symbol was read.\<close>

definition codes_step :: "BitReader \<Rightarrow> Huffman \<Rightarrow> Huffman \<Rightarrow> bytes \<Rightarrow> nat \<Rightarrow> (bytes \<times> BitReader \<times> bool) option" where
  "codes_step br lit dist out maxOut =
     (case decode br lit of
        None \<Rightarrow> None
      | Some (symb, br1) \<Rightarrow>
          if symb < 256 then
            (if length out \<ge> maxOut then None else Some (out @ [of_nat symb], br1, False))
          else if symb = 256 then Some (out, br1, True)
          else if symb - 257 \<ge> 29 then None
          else (case br_get (lenExtra ! (symb - 257)) br1 of
              None \<Rightarrow> None
            | Some (extra, br2) \<Rightarrow>
                (case decode br2 dist of
                   None \<Rightarrow> None
                 | Some (dsym, br3) \<Rightarrow>
                     if dsym \<ge> 30 then None
                     else (case br_get (distExtra ! dsym) br3 of
                         None \<Rightarrow> None
                       | Some (extra2, br4) \<Rightarrow>
                           (let len = lenBase ! (symb - 257) + unat extra;
                                d = distBase ! dsym + unat extra2
                            in if d > length out then None
                               else if length out > maxOut \<or> len > maxOut - length out then None
                               else Some (copy_match (length out - d) len out, br4, False))))))"

lemma codes_step_bits_left:
  "codes_step br lit dist out maxOut = Some (o', b, fin) \<Longrightarrow> bits_left b < bits_left br"
  by (auto simp: codes_step_def Let_def split: option.split_asm prod.split_asm if_split_asm
      dest!: decode_bits_left br_get_bits_left)

function codes :: "BitReader \<Rightarrow> Huffman \<Rightarrow> Huffman \<Rightarrow> bytes \<Rightarrow> nat \<Rightarrow> (bytes \<times> BitReader) option" where
  "codes br lit dist out maxOut =
     (case codes_step br lit dist out maxOut of
        None \<Rightarrow> None
      | Some (out', br', fin) \<Rightarrow>
          if fin then Some (out', br') else codes br' lit dist out' maxOut)"
  by pat_completeness auto
termination
  by (relation "measure (\<lambda>(br, lit, dist, out, maxOut). bits_left br)")
    (auto dest: codes_step_bits_left)

declare codes.simps [simp del]

definition le16 :: "bytes \<Rightarrow> nat \<Rightarrow> u16" where
  "le16 d i = ucast (d ! i) OR push_bit 8 (ucast (d ! (i + 1)))"

definition storedBlock :: "BitReader \<Rightarrow> bytes \<Rightarrow> nat \<Rightarrow> (bytes \<times> BitReader) option" where
  "storedBlock br0 out maxOut =
     (let br = br_alignByte br0; n = length (br_d br); pos = br_pos br
      in if pos + 4 > n then None
         else let len = le16 (br_d br) pos; nlen = le16 (br_d br) (pos + 2)
           in if len \<noteq> NOT nlen then None
              else let pos' = pos + 4; k = unat len
                in if k > n - pos' then None
                   else if length out > maxOut \<or> k > maxOut - length out then None
                   else Some (out @ take k (drop pos' (br_d br)), br\<lparr>br_pos := pos' + k\<rparr>))"

definition fixed_lengths :: "nat list" where
  "fixed_lengths = replicate 144 8 @ replicate 112 9 @ replicate 24 7 @ replicate 8 8"

definition fixed_lit :: Huffman where
  "fixed_lit = fst (construct fixed_lengths)"

definition fixed_dist :: Huffman where
  "fixed_dist = fst (construct (replicate 30 5))"

definition fixedBlock :: "BitReader \<Rightarrow> bytes \<Rightarrow> nat \<Rightarrow> (bytes \<times> BitReader) option" where
  "fixedBlock br out maxOut = codes br fixed_lit fixed_dist out maxOut"

definition cl_order :: "nat list" where
  "cl_order = [16, 17, 18, 0, 8, 7, 9, 6, 10, 5, 11, 4, 12, 3, 13, 2, 14, 1, 15]"

fun read_cl :: "nat list \<Rightarrow> nat list \<Rightarrow> BitReader \<Rightarrow> (nat list \<times> BitReader) option" where
  "read_cl [] lens br = Some (lens, br)"
| "read_cl (i # is) lens br =
     (case br_get 3 br of
        None \<Rightarrow> None
      | Some (v, br') \<Rightarrow> read_cl is (lens[i := unat v]) br')"

fun repeat_len :: "nat \<Rightarrow> nat \<Rightarrow> nat \<Rightarrow> nat list \<Rightarrow> nat list" where
  "repeat_len 0 index r lens = lens"
| "repeat_len (Suc k) index r lens = repeat_len k (index + 1) r (lens[index := r])"

text \<open>One iteration of the code-length loop: the next index, the lengths and the reader.\<close>

definition read_lengths_step ::
  "nat \<Rightarrow> nat \<Rightarrow> Huffman \<Rightarrow> nat list \<Rightarrow> BitReader \<Rightarrow> (nat \<times> nat list \<times> BitReader) option" where
  "read_lengths_step total_n index clcode lens br =
     (case decode br clcode of
        None \<Rightarrow> None
      | Some (symb, br1) \<Rightarrow>
          if symb < 16 then Some (index + 1, lens[index := symb], br1)
          else if symb = 16 \<and> index = 0 then None
          else (case br_get (if symb = 16 then 2 else if symb = 17 then 3 else 7) br1 of
              None \<Rightarrow> None
            | Some (v, br2) \<Rightarrow>
                (let rep = unat v + (if symb = 16 \<or> symb = 17 then 3 else 11);
                     rptLen = (if symb = 16 then lens ! (index - 1) else 0)
                 in if rep > total_n - index then None
                    else Some (index + rep, repeat_len rep index rptLen lens, br2))))"

lemma read_lengths_step_bits_left:
  "read_lengths_step total_n index cl lens br = Some (i', l', b) \<Longrightarrow> bits_left b < bits_left br"
  by (auto simp: read_lengths_step_def Let_def split: option.split_asm prod.split_asm if_split_asm
      dest!: decode_bits_left br_get_bits_left)

function read_lengths :: "nat \<Rightarrow> nat \<Rightarrow> Huffman \<Rightarrow> nat list \<Rightarrow> BitReader \<Rightarrow> (nat list \<times> BitReader) option" where
  "read_lengths total_n index clcode lens br =
     (if index < total_n then
        (case read_lengths_step total_n index clcode lens br of
           None \<Rightarrow> None
         | Some (index', lens', br') \<Rightarrow> read_lengths total_n index' clcode lens' br')
      else Some (lens, br))"
  by pat_completeness auto
termination
  by (relation "measure (\<lambda>(total_n, index, clcode, lens, br). bits_left br)")
    (auto dest: read_lengths_step_bits_left)

declare read_lengths.simps [simp del]

definition code_set_legal :: "Huffman \<times> int \<Rightarrow> nat \<Rightarrow> bool" where
  \<comment> \<open>complete, or the single-code edge case; never oversubscribed\<close>
  "code_set_legal he n =
     (let h = fst he; err = snd he
      in \<not> (err \<noteq> 0 \<and> (err < 0 \<or> n \<noteq> h_count h ! 0 + h_count h ! 1)))"

text \<open>The header of a dynamic block: table sizes, then the code-length code's own lengths.\<close>

definition dynamic_header :: "BitReader \<Rightarrow> (nat \<times> nat \<times> nat list \<times> BitReader) option" where
  "dynamic_header br =
     (case br_get 5 br of None \<Rightarrow> None | Some (hlit, br1) \<Rightarrow>
      case br_get 5 br1 of None \<Rightarrow> None | Some (hdist, br2) \<Rightarrow>
      case br_get 4 br2 of None \<Rightarrow> None | Some (hclen, br3) \<Rightarrow>
      (let nlen = unat hlit + 257; ndist = unat hdist + 1; ncode = unat hclen + 4
       in if nlen > 286 \<or> ndist > 30 then None
          else case read_cl (take ncode cl_order) (replicate 316 0) br3 of
              None \<Rightarrow> None
            | Some (lens, br4) \<Rightarrow>
                Some (nlen, ndist, fold (\<lambda>i l. l[cl_order ! i := 0]) [ncode..<19] lens, br4)))"

definition dynamic_tables :: "BitReader \<Rightarrow> (Huffman \<times> Huffman \<times> BitReader) option" where
  "dynamic_tables br =
     (case dynamic_header br of
        None \<Rightarrow> None
      | Some (nlen, ndist, lens0, br1) \<Rightarrow>
          (let cl = construct (take 19 lens0)
           in if snd cl \<noteq> 0 then None
              else case read_lengths (nlen + ndist) 0 (fst cl) lens0 br1 of
                  None \<Rightarrow> None
                | Some (lens, br2) \<Rightarrow>
                    if lens ! 256 = 0 then None
                    else let lit = construct (take nlen lens);
                             dist = construct (take ndist (drop nlen lens))
                      in if \<not> code_set_legal lit nlen then None
                         else if \<not> code_set_legal dist ndist then None
                         else Some (fst lit, fst dist, br2)))"

definition dynamicBlock :: "BitReader \<Rightarrow> bytes \<Rightarrow> nat \<Rightarrow> (bytes \<times> BitReader) option" where
  "dynamicBlock br out maxOut =
     (case dynamic_tables br of
        None \<Rightarrow> None
      | Some (lit, dist, br') \<Rightarrow> codes br' lit dist out maxOut)"

definition inflate_block :: "nat \<Rightarrow> BitReader \<Rightarrow> bytes \<Rightarrow> nat \<Rightarrow> (bytes \<times> BitReader) option" where
  "inflate_block btype br out maxOut =
     (if btype = 0 then storedBlock br out maxOut
      else if btype = 1 then fixedBlock br out maxOut
      else if btype = 2 then dynamicBlock br out maxOut
      else None)"

lemma codes_bits_left: "codes br lit dist out maxOut = Some (o', b) \<Longrightarrow> bits_left b < bits_left br"
proof (induction br lit dist out maxOut rule: codes.induct)
  case (1 br lit dist out maxOut)
  from "1.prems" obtain o1 b1 fin where
    step: "codes_step br lit dist out maxOut = Some (o1, b1, fin)"
    and rest: "if fin then (o1, b1) = (o', b) else codes b1 lit dist o1 maxOut = Some (o', b)"
    unfolding codes.simps [of br lit dist out maxOut]
    by (auto split: option.split_asm prod.split_asm if_split_asm)
  with "1.IH" [OF step refl refl] codes_step_bits_left [OF step] show ?case
    by (auto split: if_splits)
qed

lemma read_cl_bits_left: "read_cl is lens br = Some (l, b) \<Longrightarrow> bits_left b \<le> bits_left br"
  by (induction "is" lens br rule: read_cl.induct)
    (fastforce dest: br_get_bits_left split: option.splits prod.splits)+

lemma read_lengths_bits_left:
  "read_lengths total_n index cl lens br = Some (l, b) \<Longrightarrow> bits_left b \<le> bits_left br"
proof (induction total_n index cl lens br rule: read_lengths.induct)
  case (1 total_n index cl lens br)
  show ?case
  proof (cases "index < total_n")
    case False
    with "1.prems" show ?thesis by (simp add: read_lengths.simps [of total_n index])
  next
    case True
    with "1.prems" obtain i1 l1 b1 where
      step: "read_lengths_step total_n index cl lens br = Some (i1, l1, b1)"
      and rest: "read_lengths total_n i1 cl l1 b1 = Some (l, b)"
      unfolding read_lengths.simps [of total_n index cl lens br]
      by (auto split: option.split_asm prod.split_asm if_split_asm)
    from "1.IH" [OF True step refl refl rest] read_lengths_step_bits_left [OF step] show ?thesis
      by simp
  qed
qed

lemma storedBlock_bits_left: "storedBlock br out maxOut = Some (o', b) \<Longrightarrow> bits_left b \<le> bits_left br"
  by (auto simp: storedBlock_def Let_def bits_left_def br_alignByte_def split: if_splits)

lemma dynamic_tables_bits_left: "dynamic_tables br = Some (l, d, b) \<Longrightarrow> bits_left b \<le> bits_left br"
proof -
  assume "dynamic_tables br = Some (l, d, b)"
  then obtain nlen ndist lens0 br1 lens cl where h: "dynamic_header br = Some (nlen, ndist, lens0, br1)"
    and r: "read_lengths (nlen + ndist) 0 cl lens0 br1 = Some (lens, b)"
    by (auto simp: dynamic_tables_def Let_def split: option.split_asm prod.split_asm if_split_asm)
  from h have "bits_left br1 \<le> bits_left br"
    by (auto simp: dynamic_header_def Let_def split: option.split_asm prod.split_asm if_split_asm
        dest!: br_get_bits_left read_cl_bits_left)
  with read_lengths_bits_left [OF r] show ?thesis by simp
qed

lemma inflate_block_bits_left:
  "inflate_block t br out maxOut = Some (o', b) \<Longrightarrow> bits_left b \<le> bits_left br"
  by (auto simp: inflate_block_def fixedBlock_def dynamicBlock_def
      split: option.split_asm prod.split_asm if_split_asm
      dest!: codes_bits_left storedBlock_bits_left dynamic_tables_bits_left)

function inflate_loop :: "BitReader \<Rightarrow> bytes \<Rightarrow> nat \<Rightarrow> bytes option" where
  "inflate_loop br out maxOut =
     (case br_get 1 br of
        None \<Rightarrow> None
      | Some (bfinal, br1) \<Rightarrow>
          (case br_get 2 br1 of
             None \<Rightarrow> None
           | Some (btype, br2) \<Rightarrow>
               (case inflate_block (unat btype) br2 out maxOut of
                  None \<Rightarrow> None
                | Some (out', br3) \<Rightarrow>
                    if bfinal = 0 then inflate_loop br3 out' maxOut else Some out')))"
  by pat_completeness auto
termination
  by (relation "measure (\<lambda>(br, out, maxOut). bits_left br)")
    (auto dest!: inflate_block_bits_left br_get_bits_left)

definition InflateRaw :: "bytes \<Rightarrow> nat \<Rightarrow> bytes option" where
  "InflateRaw src maxOut =
     inflate_loop \<lparr>br_d = src, br_pos = 0, br_buf = 0, br_cnt = 0\<rparr> [] maxOut"

declare inflate_loop.simps [simp del]

end
