(* ===== verification/Huffman_Correct.thy ===== *)
theory Huffman_Correct
  imports Inflate
begin

unbundle bit_operations_syntax

text \<open>
  The canonical Huffman tables of \<open>Inflate.cpp\<close> against RFC 1951 section 3.2.2: symbol \<open>s\<close> of
  length \<open>l\<close> has the code \<open>first_code l + rank s\<close>, most significant bit first, and the
  bit-by-bit walk over the tables that \<open>construct\<close> builds decodes exactly that code to \<open>s\<close>.
\<close>

section \<open>The reference code assignment\<close>

fun first_code :: "nat list \<Rightarrow> nat \<Rightarrow> nat" where
  "first_code lens 0 = 0"
| "first_code lens (Suc l) = 2 * (first_code lens l + (if l = 0 then 0 else count_list lens l))"

fun first_index :: "nat list \<Rightarrow> nat \<Rightarrow> nat" where
  "first_index lens 0 = 0"
| "first_index lens (Suc l) = first_index lens l + (if l = 0 then 0 else count_list lens l)"

definition canonical_code :: "nat list \<Rightarrow> nat \<Rightarrow> nat" where
  "canonical_code lens s = first_code lens (lens ! s) + count_list (take s lens) (lens ! s)"

definition code_bits :: "nat \<Rightarrow> nat \<Rightarrow> bool list" where
  \<comment> \<open>the \<open>l\<close> bits of a code, most significant first\<close>
  "code_bits l c = map (\<lambda>i. odd (c div 2 ^ (l - Suc i))) [0..<l]"

definition symbol_bits :: "nat list \<Rightarrow> nat \<Rightarrow> bool list" where
  "symbol_bits lens s = code_bits (lens ! s) (canonical_code lens s)"

definition lengths_ok :: "nat list \<Rightarrow> bool" where
  "lengths_ok lens \<longleftrightarrow> length lens \<le> 288 \<and> (\<forall>l \<in> set lens. l \<le> 15)"

section \<open>The tables\<close>

lemma count_lengths_aux:
  "(\<forall>l \<in> set lens. l < length c) \<Longrightarrow> k < length c \<Longrightarrow>
     fold (\<lambda>l c. c[l := c ! l + 1]) lens c ! k = c ! k + count_list lens k \<and>
     length (fold (\<lambda>l c. c[l := c ! l + 1]) lens c) = length c"
  by (induction lens arbitrary: c) (auto simp: nth_list_update)

lemma count_lengths_nth: "lengths_ok lens \<Longrightarrow> k < 16 \<Longrightarrow> count_lengths lens ! k = count_list lens k"
  using count_lengths_aux [of lens "replicate 16 0" k] by (force simp: count_lengths_def lengths_ok_def)

lemma offsets_aux:
  "n \<le> 14 \<Longrightarrow> length (fold (\<lambda>len offs. offs[len + 1 := offs ! len + count ! len]) [1..<Suc n] (replicate 16 0)) = 16 \<and>
     (\<forall>l. 1 \<le> l \<and> l \<le> Suc n \<longrightarrow>
        fold (\<lambda>len offs. offs[len + 1 := offs ! len + count ! len]) [1..<Suc n] (replicate 16 0) ! l =
        (\<Sum>k = 1..<l. count ! k))"
proof (induction n)
  case 0
  then show ?case by (auto simp: le_Suc_eq)
next
  case (Suc n)
  then show ?case
    by (cases n) (auto simp: nth_list_update le_Suc_eq)
qed

lemma first_index_sum: "1 \<le> l \<Longrightarrow> first_index lens l = (\<Sum>k = 1..<l. count_list lens k)"
  by (induction l) (auto simp: le_Suc_eq atLeastLessThanSuc)

lemma offsets_nth:
  assumes "lengths_ok lens" "1 \<le> l" "l \<le> 15"
  shows "offsets (count_lengths lens) ! l = first_index lens l"
proof -
  have "offsets (count_lengths lens) ! l = (\<Sum>k = 1..<l. count_lengths lens ! k)"
    using offsets_aux [of 14 "count_lengths lens"] assms by (simp add: offsets_def)
  also have "\<dots> = (\<Sum>k = 1..<l. count_list lens k)"
    using assms by (intro sum.cong) (auto simp: count_lengths_nth)
  finally show ?thesis using assms by (simp add: first_index_sum)
qed

lemma first_index_mono: "k < l \<Longrightarrow> 1 \<le> k \<Longrightarrow> first_index lens k + count_list lens k \<le> first_index lens l"
  by (induction l) (auto simp: less_Suc_eq)

lemma first_index_total: "first_index lens l + count_list lens l \<le> length lens" if "1 \<le> l" for l
proof -
  have "first_index lens l + count_list lens l = (\<Sum>k \<in> {1..l}. count_list lens k)"
    using that by (simp add: first_index_sum atLeastLessThanSuc_atLeastAtMost [symmetric])
  also have "\<dots> \<le> (\<Sum>k \<in> set lens \<union> {1..l}. count_list lens k)"
    by (rule sum_mono2) auto
  also have "\<dots> = (\<Sum>k \<in> set lens. count_list lens k)"
    by (rule sum.mono_neutral_right) (auto simp: count_list_0_iff)
  also have "\<dots> = length lens" by (rule sum_count_set) auto
  finally show ?thesis .
qed

lemma rank_less: "s < length lens \<Longrightarrow> count_list (take s lens) (lens ! s) < count_list lens (lens ! s)"
proof -
  assume s: "s < length lens"
  have "count_list lens (lens ! s) = count_list (take s lens @ lens ! s # drop (Suc s) lens) (lens ! s)"
    using s by (simp add: id_take_nth_drop [symmetric])
  then show ?thesis by simp
qed

lemma rank_mono: "s < t \<Longrightarrow> t \<le> length lens \<Longrightarrow> lens ! s = l \<Longrightarrow>
  count_list (take s lens) l < count_list (take t lens) l"
proof -
  assume a: "s < t" "t \<le> length lens" "lens ! s = l"
  then have "take t lens = take s lens @ l # drop (Suc s) (take t lens)"
    using id_take_nth_drop [of s "take t lens"] by (simp add: min_def)
  then have "count_list (take t lens) l = count_list (take s lens @ l # drop (Suc s) (take t lens)) l"
    by (rule arg_cong)
  then show ?thesis by simp
qed

definition slot :: "nat list \<Rightarrow> nat \<Rightarrow> nat" where
  \<comment> \<open>where the canonical order puts a symbol\<close>
  "slot lens s = first_index lens (lens ! s) + count_list (take s lens) (lens ! s)"

lemma slot_bound: "s < length lens \<Longrightarrow> lens ! s \<noteq> 0 \<Longrightarrow> slot lens s < length lens"
  using rank_less [of s lens] first_index_total [of "lens ! s" lens] by (simp add: slot_def)

lemma slot_inj:
  assumes "s < t" "t < length lens" "lens ! s \<noteq> 0" "lens ! t \<noteq> 0"
  shows "slot lens s \<noteq> slot lens t"
proof (cases "lens ! s" "lens ! t" rule: linorder_cases)
  case equal
  with rank_mono [of s t lens "lens ! t"] assms show ?thesis by (simp add: slot_def)
next
  case less
  with first_index_mono [OF less, of lens] rank_less [of s lens] assms show ?thesis by (simp add: slot_def)
next
  case greater
  with first_index_mono [OF greater, of lens] rank_less [of t lens] assms show ?thesis by (simp add: slot_def)
qed

lemma fill_symbols:
  assumes ok: "lengths_ok lens" and k: "k \<le> length lens"
  defines "so \<equiv> fold (fill_symbol lens) [0..<k] (replicate 288 0, offsets (count_lengths lens))"
  shows "length (fst so) = 288 \<and>
     (\<forall>l. 1 \<le> l \<and> l \<le> 15 \<longrightarrow> snd so ! l = first_index lens l + count_list (take k lens) l) \<and>
     length (snd so) = 16 \<and>
     (\<forall>s < k. lens ! s \<noteq> 0 \<longrightarrow> fst so ! slot lens s = s)"
  using k unfolding so_def
proof (induction k)
  case 0
  have "length (offsets (count_lengths lens)) = 16"
    using offsets_aux [of 14 "count_lengths lens"] by (simp add: offsets_def)
  with 0 show ?case using offsets_nth [OF ok] by simp
next
  case (Suc k)
  let ?so = "fold (fill_symbol lens) [0..<k] (replicate 288 0, offsets (count_lengths lens))"
  from Suc have IH: "length (fst ?so) = 288" "length (snd ?so) = 16"
    "\<And>l. 1 \<le> l \<Longrightarrow> l \<le> 15 \<Longrightarrow> snd ?so ! l = first_index lens l + count_list (take k lens) l"
    "\<And>s. s < k \<Longrightarrow> lens ! s \<noteq> 0 \<Longrightarrow> fst ?so ! slot lens s = s"
    by auto
  have klen: "k < length lens" using Suc.prems by simp
  have lk: "lens ! k \<le> 15" using ok klen by (simp add: lengths_ok_def)
  have tk: "take (Suc k) lens = take k lens @ [lens ! k]" using klen by (simp add: take_Suc_conv_app_nth)
  have step: "fold (fill_symbol lens) [0..<Suc k] (replicate 288 0, offsets (count_lengths lens)) =
      fill_symbol lens k ?so" by simp
  show ?case
  proof (cases "lens ! k = 0")
    case True
    then have "fill_symbol lens k ?so = ?so" by (simp add: fill_symbol_def)
    then show ?thesis using IH tk True unfolding step by (auto simp: less_Suc_eq)
  next
    case False
    have at: "snd ?so ! (lens ! k) = slot lens k" using IH(3) [of "lens ! k"] False lk by (simp add: slot_def)
    have b: "slot lens k < 288" using slot_bound [OF klen False] ok by (simp add: lengths_ok_def)
    have fst: "fst (fill_symbol lens k ?so) = (fst ?so)[slot lens k := k]"
      and snd: "snd (fill_symbol lens k ?so) = (snd ?so)[lens ! k := slot lens k + 1]"
      using False at by (simp_all add: fill_symbol_def Let_def)
    have "(fst ?so)[slot lens k := k] ! slot lens s = s" if "s < Suc k" "lens ! s \<noteq> 0" for s
    proof (cases "s = k")
      case True
      with b IH(1) show ?thesis by simp
    next
      case neq: False
      with that slot_inj [of s k lens] klen False IH(4) show ?thesis by simp
    qed
    moreover have "(snd ?so)[lens ! k := slot lens k + 1] ! l =
        first_index lens l + count_list (take (Suc k) lens) l" if "1 \<le> l" "l \<le> 15" for l
      using that IH(2) IH(3) [of l] lk by (auto simp: tk nth_list_update slot_def)
    ultimately show ?thesis
      using IH(1,2) unfolding step fst snd by simp
  qed
qed

section \<open>No oversubscription\<close>

lemma left_loop_spec:
  assumes ok: "lengths_ok lens" and p: "1 \<le> p" "p \<le> 16" and nonneg: "0 \<le> left_loop (count_lengths lens) [p..<16] left"
    and left: "left = 2 ^ (p - 1) - int (first_code lens (p - 1) + (if p = 1 then 0 else count_list lens (p - 1)))"
    and l: "p \<le> l" "l \<le> 15"
  shows "first_code lens l + count_list lens l \<le> 2 ^ l"
  using p nonneg left l
proof (induction "16 - p" arbitrary: p left)
  case 0
  then show ?case by simp
next
  case (Suc n)
  let ?x = "2 * left - int (count_lengths lens ! p)"
  have upt: "[p..<16] = p # [Suc p..<16]" using Suc by (simp add: upt_conv_Cons)
  have c: "count_lengths lens ! p = count_list lens p" using Suc ok by (simp add: count_lengths_nth)
  have nx: "0 \<le> ?x" and rec: "0 \<le> left_loop (count_lengths lens) [Suc p..<16] ?x"
    using Suc.prems(3) by (auto simp: upt Let_def split: if_splits)
  obtain q where q: "p = Suc q" using Suc.prems by (cases p) auto
  have x: "?x = 2 ^ p - int (first_code lens p + count_list lens p)"
    using Suc.prems(4) c unfolding q by (cases "q = 0") (simp_all add: algebra_simps)
  show ?case
  proof (cases "l = p")
    case True
    with nx x have "int (first_code lens l + count_list lens l) \<le> int (2 ^ l)" by simp
    then show ?thesis by (simp only: of_nat_le_iff)
  next
    case False
    with Suc.prems have "Suc p \<le> l" by simp
    then show ?thesis
      using Suc.hyps(2) Suc.prems(1,2,5,6) rec x by (intro Suc.hyps(1) [of "Suc p" ?x]) simp_all
  qed
qed

lemma construct_not_oversubscribed:
  assumes ok: "lengths_ok lens" and "0 \<le> snd (construct lens)" and "1 \<le> l" "l \<le> 15"
    and some: "count_list lens 0 \<noteq> length lens"
  shows "first_code lens l + count_list lens l \<le> 2 ^ l"
proof -
  have "0 \<le> left_loop (count_lengths lens) [1..<16] 1"
    using assms(2) some count_lengths_nth [OF ok, of 0]
    by (auto simp: construct_def Let_def split: if_splits)
  then show ?thesis using left_loop_spec [OF ok, of 1 1 l] assms by simp
qed

section \<open>Decoding a canonical code\<close>

lemma next_bit:
  assumes "reader_ok br" "reader_bits br = b # rest"
  shows "\<exists>v br'. br_get 1 br = Some (v, br') \<and> uint v = of_bool b \<and> reader_ok br' \<and>
     reader_bits br' = rest \<and> br_d br' = br_d br"
proof -
  obtain v br' where
    g: "br_get 1 br = Some (v, br')" "unat v = lsb_value (take 1 (reader_bits br))" "reader_ok br'"
      "reader_bits br' = drop 1 (reader_bits br)" "br_d br' = br_d br"
    by (rule br_get_Some [OF assms(1), of 1]) (use assms(2) in auto)
  then have "unat v = of_bool b" by (simp add: assms(2) lsb_value_def)
  then have "uint v = of_bool b" by (simp add: uint_nat)
  with g assms(2) show ?thesis by auto
qed

lemma first_code_dominates:
  "p < l \<Longrightarrow> 1 \<le> p \<Longrightarrow> 2 ^ (l - p) * (first_code lens p + count_list lens p) \<le> first_code lens l"
proof (induction l)
  case (Suc l)
  show ?case
  proof (cases "p = l")
    case True
    with Suc.prems show ?thesis by simp
  next
    case False
    with Suc have "2 ^ (l - p) * (first_code lens p + count_list lens p) \<le> first_code lens l" by simp
    moreover have "(2::nat) ^ (Suc l - p) = 2 * 2 ^ (l - p)" using Suc.prems by (simp add: Suc_diff_le)
    ultimately show ?thesis using Suc.prems by (simp add: mult.assoc)
  qed
qed simp

lemma prefix_beyond:
  assumes "p < l" "1 \<le> p" "first_code lens l \<le> C"
  shows "first_code lens p + count_list lens p \<le> C div 2 ^ (l - p)"
proof -
  have "2 ^ (l - p) * (first_code lens p + count_list lens p) \<le> C"
    using first_code_dominates [OF assms(1,2), of lens] assms(3) by simp
  then show ?thesis by (simp add: less_eq_div_iff_mult_less_eq mult.commute)
qed

lemma div_pow_step: "p \<le> l \<Longrightarrow> 1 \<le> p \<Longrightarrow>
  (C :: nat) div 2 ^ (l - p) = 2 * (C div 2 ^ (l - (p - 1))) + of_bool (odd (C div 2 ^ (l - p)))"
proof -
  assume "p \<le> l" "1 \<le> p"
  then have e: "l - (p - 1) = Suc (l - p)" by simp
  have "C div 2 ^ (l - (p - 1)) = (C div 2 ^ (l - p)) div 2"
    unfolding e power_Suc2 by (rule div_mult2_eq)
  then show ?thesis by simp
qed

lemma code_or_bit: "C = 2 * c + of_bool b \<Longrightarrow> (2 * int c) OR of_bool b = int C"
  by (cases b) (simp_all add: or_one_eq)

lemma decode_loop_next:
  "br_get 1 br = Some (v, br1) \<Longrightarrow> code OR uint v = code' \<Longrightarrow> h_count h ! p = n \<Longrightarrow>
   \<not> code' - int n < first \<Longrightarrow>
   decode_loop (p # ls) h code first index br =
     decode_loop ls h (2 * code') (2 * (first + int n)) (index + n) br1"
  by (simp add: Let_def)

lemma decode_loop_walk:
  assumes tab: "\<And>k. 1 \<le> k \<Longrightarrow> k \<le> 15 \<Longrightarrow> h_count h ! k = count_list lens k"
    and l: "l \<le> 15" and C: "first_code lens l \<le> C" "C < first_code lens l + count_list lens l"
    and p: "1 \<le> p" "p \<le> l" and ok: "reader_ok br"
    and bits: "reader_bits br = map (\<lambda>i. odd (C div 2 ^ (l - Suc i))) [p - 1..<l] @ rest"
  shows "\<exists>br'. decode_loop [p..<16] h (2 * int (C div 2 ^ (l - (p - 1)))) (int (first_code lens p))
      (first_index lens p) br =
      Some (h_symbol h ! (first_index lens l + (C - first_code lens l)), br') \<and>
    reader_ok br' \<and> reader_bits br' = rest \<and> br_d br' = br_d br"
  using p ok bits
proof (induction "l - p" arbitrary: p br)
  case 0
  then have pl: "p = l" and l1: "1 \<le> l" by simp_all
  let ?b = "odd C"
  have upt: "[p..<16] = p # [Suc p..<16]" using pl l by (simp add: upt_conv_Cons)
  from 0 pl l1 have "reader_bits br = ?b # rest"
    by (cases l) auto
  from next_bit [OF "0.prems"(3) this] obtain v br' where
    g: "br_get 1 br = Some (v, br')" "uint v = of_bool ?b" "reader_ok br'" "reader_bits br' = rest"
      "br_d br' = br_d br" by auto
  have "C = 2 * (C div 2 ^ (l - (p - 1))) + of_bool ?b"
    using div_pow_step [of l l C] l1 pl by simp
  then have code: "(2 * int (C div 2 ^ (l - (p - 1)))) OR uint v = int C"
    unfolding g(2) by (rule code_or_bit)
  show ?case
    unfolding upt using g code C pl tab [of p] l l1
    by (simp add: Let_def nat_diff_distrib of_nat_diff [symmetric] del: of_nat_diff)
next
  case (Suc n)
  then have pl: "p < l" by simp
  let ?b = "odd (C div 2 ^ (l - p))"
  have upt: "[p..<16] = p # [Suc p..<16]" using pl l by (simp add: upt_conv_Cons)
  have "[p - 1..<l] = (p - 1) # [p..<l]" using Suc.prems(1) pl by (simp add: upt_conv_Cons)
  then have bits: "reader_bits br = ?b # (map (\<lambda>i. odd (C div 2 ^ (l - Suc i))) [p..<l] @ rest)"
    using Suc.prems(1,4) by simp
  from next_bit [OF Suc.prems(3) bits] obtain v br1 where
    g: "br_get 1 br = Some (v, br1)" "uint v = of_bool ?b" "reader_ok br1"
      "reader_bits br1 = map (\<lambda>i. odd (C div 2 ^ (l - Suc i))) [p..<l] @ rest" "br_d br1 = br_d br"
    by auto
  have "C div 2 ^ (l - p) = 2 * (C div 2 ^ (l - (p - 1))) + of_bool ?b"
    using div_pow_step [of p l C] Suc.prems by simp
  then have code: "(2 * int (C div 2 ^ (l - (p - 1)))) OR uint v = int (C div 2 ^ (l - p))"
    unfolding g(2) by (rule code_or_bit)
  have far: "\<not> int (C div 2 ^ (l - p)) - int (count_list lens p) < int (first_code lens p)"
    using prefix_beyond [OF pl Suc.prems(1) C(1)] by linarith
  obtain q where q: "p = Suc q" using Suc.prems(1) by (cases p) auto
  have e: "2 * (int (first_code lens p) + int (count_list lens p)) = int (first_code lens (Suc p))"
    "first_index lens p + count_list lens p = first_index lens (Suc p)"
    using Suc.prems(1) by simp_all
  have cnt: "h_count h ! p = count_list lens p" using Suc.prems(1) pl l tab by simp
  have next_step: "decode_loop [p..<16] h (2 * int (C div 2 ^ (l - (p - 1)))) (int (first_code lens p))
      (first_index lens p) br = decode_loop [Suc p..<16] h (2 * int (C div 2 ^ (l - p)))
      (int (first_code lens (Suc p))) (first_index lens (Suc p)) br1"
    unfolding upt e [symmetric] by (rule decode_loop_next [OF g(1) code cnt far])
  have "\<exists>br'. decode_loop [Suc p..<16] h (2 * int (C div 2 ^ (l - (Suc p - 1))))
      (int (first_code lens (Suc p))) (first_index lens (Suc p)) br1 =
      Some (h_symbol h ! (first_index lens l + (C - first_code lens l)), br') \<and>
    reader_ok br' \<and> reader_bits br' = rest \<and> br_d br' = br_d br1"
  proof (rule Suc.hyps(1))
    show "n = l - Suc p" using Suc.hyps(2) by arith
    show "1 \<le> Suc p" "Suc p \<le> l" using pl by arith+
    show "reader_ok br1" by (rule g(3))
    show "reader_bits br1 = map (\<lambda>i. odd (C div 2 ^ (l - Suc i))) [Suc p - 1..<l] @ rest"
      unfolding diff_Suc_1 by (rule g(4))
  qed
  then show ?case unfolding next_step g(5) diff_Suc_1 .
qed

text \<open>The walk on the tables of \<open>construct\<close> inverts the canonical code.\<close>

lemma decode_canonical:
  assumes ok: "lengths_ok lens" and legal: "0 \<le> snd (construct lens)"
    and s: "s < length lens" "lens ! s \<noteq> 0"
    and rd: "reader_ok br" "reader_bits br = symbol_bits lens s @ rest"
  shows "\<exists>br'. decode br (fst (construct lens)) = Some (s, br') \<and> reader_ok br' \<and>
     reader_bits br' = rest \<and> br_d br' = br_d br"
proof -
  let ?l = "lens ! s" and ?C = "canonical_code lens s" and ?h = "fst (construct lens)"
  have l: "1 \<le> ?l" "?l \<le> 15" using ok s by (auto simp: lengths_ok_def)
  have "lens ! s \<in> set lens" using s by simp
  then have some: "count_list lens 0 \<noteq> length lens"
    using s length_filter_less [of "lens ! s" lens "(=) 0"] by (simp add: count_list_eq_length_filter)
  have tab: "h_count ?h = count_lengths lens"
    and sy: "h_symbol ?h = fst (fold (fill_symbol lens) [0..<length lens] (replicate 288 0, offsets (count_lengths lens)))"
    using legal some count_lengths_nth [OF ok, of 0] by (auto simp: construct_def Let_def split: if_splits)
  have C: "first_code lens ?l \<le> ?C" "?C < first_code lens ?l + count_list lens ?l"
    using rank_less [OF s(1)] by (simp_all add: canonical_code_def)
  have fits: "?C < 2 ^ ?l"
    using construct_not_oversubscribed [OF ok legal l some] C by simp
  have bits: "reader_bits br = map (\<lambda>i. odd (?C div 2 ^ (?l - Suc i))) [1 - 1..<?l] @ rest"
    using rd by (simp add: symbol_bits_def code_bits_def)
  from decode_loop_walk [OF _ l(2) C _ l(1) rd(1) bits, of ?h] obtain br' where
    "decode_loop [1..<16] ?h (2 * int (?C div 2 ^ ?l)) (int (first_code lens 1)) (first_index lens 1) br =
       Some (h_symbol ?h ! (first_index lens ?l + (?C - first_code lens ?l)), br')"
    "reader_ok br'" "reader_bits br' = rest" "br_d br' = br_d br"
    using tab count_lengths_nth [OF ok] by auto
  moreover have "first_index lens ?l + (?C - first_code lens ?l) = slot lens s"
    by (simp add: canonical_code_def slot_def)
  moreover have "h_symbol ?h ! slot lens s = s"
    unfolding sy using fill_symbols [OF ok le_refl] s by simp
  ultimately show ?thesis using fits by (simp add: decode_def)
qed

end
