(* ===== verification/Inflate_Correct.thy ===== *)
theory Inflate_Correct
  imports Huffman_Correct
begin

unbundle bit_operations_syntax

text \<open>
  What the DEFLATE decoder guarantees: the output cap, the overlapping copy, and that blocks
  written with RFC 1951's own coding (stored bytes, and literal/match tokens under the fixed
  code) decode to what they encode.
\<close>

section \<open>The output cap\<close>

lemma length_copy_match [simp]: "length (copy_match from k out) = length out + k"
  by (induction "from" k out rule: copy_match.induct) simp_all

lemma codes_step_bound:
  "codes_step br lit dist out maxOut = Some (o', b, fin) \<Longrightarrow> length out \<le> maxOut \<Longrightarrow> length o' \<le> maxOut"
  by (auto simp: codes_step_def Let_def split: option.split_asm prod.split_asm if_split_asm)

lemma codes_bound:
  "codes br lit dist out maxOut = Some (o', b) \<Longrightarrow> length out \<le> maxOut \<Longrightarrow> length o' \<le> maxOut"
proof (induction br lit dist out maxOut rule: codes.induct)
  case (1 br lit dist out maxOut)
  from "1.prems"(1) obtain o1 b1 fin where
    step: "codes_step br lit dist out maxOut = Some (o1, b1, fin)"
    and rest: "if fin then (o1, b1) = (o', b) else codes b1 lit dist o1 maxOut = Some (o', b)"
    unfolding codes.simps [of br lit dist out maxOut]
    by (auto split: option.split_asm prod.split_asm if_split_asm)
  with "1.IH" [OF step refl refl] codes_step_bound [OF step "1.prems"(2)] show ?case
    by (auto split: if_splits)
qed

lemma inflate_block_bound:
  "inflate_block t br out maxOut = Some (o', b) \<Longrightarrow> length out \<le> maxOut \<Longrightarrow> length o' \<le> maxOut"
  by (auto simp: inflate_block_def storedBlock_def fixedBlock_def dynamicBlock_def Let_def
      split: option.split_asm prod.split_asm if_split_asm dest: codes_bound)

lemma inflate_loop_bound:
  "inflate_loop br out maxOut = Some res \<Longrightarrow> length out \<le> maxOut \<Longrightarrow> length res \<le> maxOut"
proof (induction br out maxOut rule: inflate_loop.induct)
  case (1 br out maxOut)
  from "1.prems"(1) obtain f br1 t br2 o1 br3 where
    g: "br_get 1 br = Some (f, br1)" "br_get 2 br1 = Some (t, br2)"
      "inflate_block (unat t) br2 out maxOut = Some (o1, br3)"
    and rest: "if f = 0 then inflate_loop br3 o1 maxOut = Some res else o1 = res"
    unfolding inflate_loop.simps [of br out maxOut]
    by (auto split: option.split_asm prod.split_asm if_split_asm)
  from "1.IH" [OF g(1) refl g(2) refl g(3) refl] inflate_block_bound [OF g(3) "1.prems"(2)] rest
  show ?case by (auto split: if_splits)
qed

section \<open>The overlapping copy\<close>

lemma copy_match_prefix: "i < length out \<Longrightarrow> copy_match from k out ! i = out ! i"
  by (induction "from" k out rule: copy_match.induct) (simp_all add: nth_append)

lemma copy_match_source:
  "from < length out \<Longrightarrow> i < k \<Longrightarrow>
     copy_match from k out ! (length out + i) = copy_match from k out ! (from + i)"
proof (induction "from" k out arbitrary: i rule: copy_match.induct)
  case (2 "from" k out)
  show ?case
  proof (cases i)
    case 0
    with 2 show ?thesis by (simp add: copy_match_prefix nth_append)
  next
    case (Suc j)
    with 2 show ?thesis by simp
  qed
qed simp

lemma copy_match_nth:
  assumes "0 < d" "d \<le> length out" "i < k"
  shows "copy_match (length out - d) k out ! (length out + i) = out ! (length out - d + i mod d)"
  using assms(3)
proof (induction i rule: less_induct)
  case (less i)
  have src: "copy_match (length out - d) k out ! (length out + i) =
      copy_match (length out - d) k out ! (length out - d + i)"
    using assms less.prems by (intro copy_match_source) auto
  show ?case
  proof (cases "i < d")
    case True
    with src assms show ?thesis by (simp add: copy_match_prefix)
  next
    case False
    then have "length out - d + i = length out + (i - d)" using assms by simp
    with src less.IH [of "i - d"] False assms less.prems show ?thesis
      by (simp add: le_mod_geq)
  qed
qed

section \<open>Tokens and their bits\<close>

text \<open>The specification is RFC 1951's (section 3.2.5), written without the decoder's tables: the base
  and the number of extra bits of a length or distance symbol by the arithmetic of the format, and
  the meaning of a match position by position.\<close>

datatype token = Literal u8 | Match nat nat nat nat
  \<comment> \<open>length symbol and extra bits, distance symbol and extra bits\<close>

definition rfc_len_extra :: "nat \<Rightarrow> nat" where
  "rfc_len_extra ls = (if ls < 8 \<or> ls = 28 then 0 else ls div 4 - 1)"

definition rfc_len_base :: "nat \<Rightarrow> nat" where
  "rfc_len_base ls = (if ls < 8 then 3 + ls else if ls = 28 then 258 else 3 + (4 + ls mod 4) * 2 ^ (ls div 4 - 1))"

definition rfc_dist_extra :: "nat \<Rightarrow> nat" where
  "rfc_dist_extra ds = (if ds < 4 then 0 else ds div 2 - 1)"

definition rfc_dist_base :: "nat \<Rightarrow> nat" where
  "rfc_dist_base ds = (if ds < 4 then 1 + ds else 1 + (2 + ds mod 2) * 2 ^ (ds div 2 - 1))"

definition rfc_lit_lengths :: "nat list" where
  "rfc_lit_lengths = map (\<lambda>s. if s \<le> 143 then 8 else if s \<le> 255 then 9 else if s \<le> 279 then 7 else 8) [0..<288]"

lemma len_tables:
  assumes "ls < 29"
  shows "lenBase ! ls = rfc_len_base ls \<and> lenExtra ! ls = rfc_len_extra ls"
proof -
  have u: "[0..<29] = [0, 1, 2, 3, 4, 5, 6, 7, 8, 9, 10, 11, 12, 13, 14, 15, 16, 17, 18, 19, 20, 21, 22, 23, 24, 25, 26, 27, 28]" by (simp add: upt_rec)
  have eqs: "lenBase = map rfc_len_base [0..<29]" "lenExtra = map rfc_len_extra [0..<29]"
    unfolding u by (simp_all add: lenBase_def lenExtra_def rfc_len_base_def rfc_len_extra_def)
  show ?thesis unfolding eqs using assms by (subst (1 2) nth_map_upt) simp_all
qed

lemma dist_tables:
  assumes "ds < 30"
  shows "distBase ! ds = rfc_dist_base ds \<and> distExtra ! ds = rfc_dist_extra ds"
proof -
  have u: "[0..<30] = [0, 1, 2, 3, 4, 5, 6, 7, 8, 9, 10, 11, 12, 13, 14, 15, 16, 17, 18, 19, 20, 21, 22, 23, 24, 25, 26, 27, 28, 29]" by (simp add: upt_rec)
  have eqs: "distBase = map rfc_dist_base [0..<30]" "distExtra = map rfc_dist_extra [0..<30]"
    unfolding u by (simp_all add: distBase_def distExtra_def rfc_dist_base_def rfc_dist_extra_def)
  show ?thesis unfolding eqs using assms by (subst (1 2) nth_map_upt) simp_all
qed

lemma fixed_lengths_rfc: "fixed_lengths = rfc_lit_lengths"
  by (rule nth_equalityI) (auto simp: fixed_lengths_def rfc_lit_lengths_def nth_append)

definition lsb_bits :: "nat \<Rightarrow> nat \<Rightarrow> bool list" where
  "lsb_bits n v = map (bit v) [0..<n]"

fun token_bits :: "nat list \<Rightarrow> nat list \<Rightarrow> token \<Rightarrow> bool list" where
  "token_bits ll dl (Literal b) = symbol_bits ll (unat b)"
| "token_bits ll dl (Match ls le ds de) =
     symbol_bits ll (257 + ls) @ lsb_bits (rfc_len_extra ls) le @
     symbol_bits dl ds @ lsb_bits (rfc_dist_extra ds) de"

text \<open>Byte \<open>i\<close> of a match is byte \<open>i mod d\<close> of the last \<open>d\<close> bytes of the output.\<close>

fun expand_token :: "bytes \<Rightarrow> token \<Rightarrow> bytes" where
  "expand_token out (Literal b) = out @ [b]"
| "expand_token out (Match ls le ds de) =
     (let d = rfc_dist_base ds + de
      in out @ map (\<lambda>i. out ! (length out - d + i mod d)) [0..<rfc_len_base ls + le])"

definition symbol_coded :: "nat list \<Rightarrow> nat \<Rightarrow> bool" where
  "symbol_coded lens s \<longleftrightarrow> s < length lens \<and> lens ! s \<noteq> 0"

fun token_ok :: "nat list \<Rightarrow> nat list \<Rightarrow> nat \<Rightarrow> bytes \<Rightarrow> token \<Rightarrow> bool" where
  "token_ok ll dl maxOut out (Literal b) \<longleftrightarrow> symbol_coded ll (unat b) \<and> length out < maxOut"
| "token_ok ll dl maxOut out (Match ls le ds de) \<longleftrightarrow>
     ls < 29 \<and> ds < 30 \<and> symbol_coded ll (257 + ls) \<and> symbol_coded dl ds \<and>
     le < 2 ^ rfc_len_extra ls \<and> de < 2 ^ rfc_dist_extra ds \<and>
     rfc_dist_base ds + de \<le> length out \<and> length out + (rfc_len_base ls + le) \<le> maxOut"

fun tokens_ok :: "nat list \<Rightarrow> nat list \<Rightarrow> nat \<Rightarrow> bytes \<Rightarrow> token list \<Rightarrow> bool" where
  "tokens_ok ll dl maxOut out [] \<longleftrightarrow> True"
| "tokens_ok ll dl maxOut out (t # ts) \<longleftrightarrow>
     token_ok ll dl maxOut out t \<and> tokens_ok ll dl maxOut (expand_token out t) ts"

definition expand_tokens :: "bytes \<Rightarrow> token list \<Rightarrow> bytes" where
  "expand_tokens out ts = fold (\<lambda>t o'. expand_token o' t) ts out"

lemma copy_match_expand:
  assumes "0 < d" "d \<le> length out"
  shows "copy_match (length out - d) k out = out @ map (\<lambda>i. out ! (length out - d + i mod d)) [0..<k]"
proof (rule nth_equalityI)
  fix i assume i: "i < length (copy_match (length out - d) k out)"
  show "copy_match (length out - d) k out ! i = (out @ map (\<lambda>i. out ! (length out - d + i mod d)) [0..<k]) ! i"
  proof (cases "i < length out")
    case True
    then show ?thesis by (simp add: copy_match_prefix nth_append)
  next
    case False
    then show ?thesis using i copy_match_nth [OF assms, of "i - length out" k] by (auto simp: nth_append)
  qed
qed simp

lemma rfc_dist_pos: "0 < rfc_dist_base ds"
  by (simp add: rfc_dist_base_def)

lemma lsb_value_bits: "v < 2 ^ n \<Longrightarrow> lsb_value (lsb_bits n v) = v"
  by (simp add: lsb_value_def lsb_bits_def horner_sum_bit_eq_take_bit take_bit_nat_eq_self)

lemma length_lsb_bits [simp]: "length (lsb_bits n v) = n"
  by (simp add: lsb_bits_def)

lemma next_bits:
  assumes "reader_ok br" "n \<le> 24" "v < 2 ^ n" "reader_bits br = lsb_bits n v @ rest"
  shows "\<exists>w br'. br_get n br = Some (w, br') \<and> unat w = v \<and> reader_ok br' \<and>
     reader_bits br' = rest \<and> br_d br' = br_d br"
proof -
  obtain w br' where
    g: "br_get n br = Some (w, br')" "unat w = lsb_value (take n (reader_bits br))" "reader_ok br'"
      "reader_bits br' = drop n (reader_bits br)" "br_d br' = br_d br"
    by (rule br_get_Some [OF assms(1,2)]) (use assms(4) in auto)
  with assms(3,4) show ?thesis by (auto simp: lsb_value_bits)
qed

lemma extra_le: "ls < 29 \<Longrightarrow> lenExtra ! ls \<le> 24" "ds < 30 \<Longrightarrow> distExtra ! ds \<le> 24"
proof -
  have "\<forall>x \<in> set lenExtra. x \<le> 24" "\<forall>x \<in> set distExtra. x \<le> 24"
    by (simp_all add: lenExtra_def distExtra_def)
  moreover have "length lenExtra = 29" "length distExtra = 30" by (simp_all add: lenExtra_def distExtra_def)
  ultimately show "ls < 29 \<Longrightarrow> lenExtra ! ls \<le> 24" "ds < 30 \<Longrightarrow> distExtra ! ds \<le> 24"
    by (metis nth_mem)+
qed

definition tables_ok :: "nat list \<Rightarrow> bool" where
  "tables_ok lens \<longleftrightarrow> lengths_ok lens \<and> 0 \<le> snd (construct lens)"

lemma next_symbol:
  assumes "tables_ok lens" "symbol_coded lens s" "reader_ok br" "reader_bits br = symbol_bits lens s @ rest"
  shows "\<exists>br'. decode br (fst (construct lens)) = Some (s, br') \<and> reader_ok br' \<and>
     reader_bits br' = rest \<and> br_d br' = br_d br"
  using assms decode_canonical [of lens s br rest] by (auto simp: tables_ok_def symbol_coded_def)

lemma codes_step_token:
  assumes tabs: "tables_ok ll" "tables_ok dl" and t: "token_ok ll dl maxOut out t"
    and rd: "reader_ok br" "reader_bits br = token_bits ll dl t @ rest"
  shows "\<exists>br'. codes_step br (fst (construct ll)) (fst (construct dl)) out maxOut =
      Some (expand_token out t, br', False) \<and> reader_ok br' \<and> reader_bits br' = rest \<and> br_d br' = br_d br"
proof (cases t)
  case (Literal b)
  have b: "unat b < 256" using unsigned_less [of b, where ?'a = nat] by simp
  from next_symbol [OF tabs(1) _ rd(1), of "unat b" rest] t rd(2) Literal obtain br' where
    "decode br (fst (construct ll)) = Some (unat b, br')" "reader_ok br'" "reader_bits br' = rest" "br_d br' = br_d br"
    by auto
  with t Literal b show ?thesis by (simp add: codes_step_def)
next
  case (Match ls le ds de)
  note ok = t [unfolded Match token_ok.simps]
  have tab: "lenBase ! ls = rfc_len_base ls" "lenExtra ! ls = rfc_len_extra ls"
    "distBase ! ds = rfc_dist_base ds" "distExtra ! ds = rfc_dist_extra ds"
    using ok len_tables dist_tables by simp_all
  let ?r3 = "lsb_bits (distExtra ! ds) de @ rest"
  let ?r2 = "symbol_bits dl ds @ ?r3"
  let ?r1 = "lsb_bits (lenExtra ! ls) le @ ?r2"
  from next_symbol [OF tabs(1) _ rd(1), of "257 + ls" ?r1] ok rd(2) Match tab obtain b1 where
    s1: "decode br (fst (construct ll)) = Some (257 + ls, b1)" "reader_ok b1" "reader_bits b1 = ?r1" "br_d b1 = br_d br"
    by auto
  from next_bits [OF s1(2) extra_le(1) _ s1(3)] ok tab obtain w1 b2 where
    s2: "br_get (lenExtra ! ls) b1 = Some (w1, b2)" "unat w1 = le" "reader_ok b2" "reader_bits b2 = ?r2" "br_d b2 = br_d b1"
    by auto
  from next_symbol [OF tabs(2) _ s2(3,4)] ok obtain b3 where
    s3: "decode b2 (fst (construct dl)) = Some (ds, b3)" "reader_ok b3" "reader_bits b3 = ?r3" "br_d b3 = br_d b2"
    by auto
  from next_bits [OF s3(2) extra_le(2) _ s3(3)] ok tab obtain w2 b4 where
    s4: "br_get (distExtra ! ds) b3 = Some (w2, b4)" "unat w2 = de" "reader_ok b4" "reader_bits b4 = rest" "br_d b4 = br_d b3"
    by auto
  have "\<not> maxOut - length out < lenBase ! ls + le" using ok tab by linarith
  moreover have "copy_match (length out - (distBase ! ds + de)) (lenBase ! ls + le) out = expand_token out t"
    using ok rfc_dist_pos [of ds] by (simp add: Match tab copy_match_expand Let_def)
  ultimately have "codes_step br (fst (construct ll)) (fst (construct dl)) out maxOut = Some (expand_token out t, b4, False)"
    using ok tab s1(1) s2(1,2) s3(1) s4(1,2) Match by (simp add: codes_step_def Let_def)
  then show ?thesis using s1(4) s2(5) s3(4) s4 by auto
qed

text \<open>The literal/length loop decodes a whole token sequence and stops after the end symbol.\<close>

lemma codes_tokens:
  assumes tabs: "tables_ok ll" "tables_ok dl" and eob: "symbol_coded ll 256"
    and ts: "tokens_ok ll dl maxOut out ts" and rd: "reader_ok br"
    and bits: "reader_bits br = concat (map (token_bits ll dl) ts) @ symbol_bits ll 256 @ rest"
  shows "\<exists>br'. codes br (fst (construct ll)) (fst (construct dl)) out maxOut =
      Some (expand_tokens out ts, br') \<and> reader_ok br' \<and> reader_bits br' = rest \<and> br_d br' = br_d br"
  using ts rd bits
proof (induction ts arbitrary: out br)
  case Nil
  from next_symbol [OF tabs(1) eob Nil(2), of rest] Nil(3) obtain br' where
    "decode br (fst (construct ll)) = Some (256, br')" "reader_ok br'" "reader_bits br' = rest" "br_d br' = br_d br"
    by auto
  then show ?case
    by (simp add: codes.simps [of br] codes_step_def expand_tokens_def)
next
  case (Cons t ts)
  from codes_step_token [OF tabs _ Cons.prems(2), of maxOut out t] Cons.prems obtain b1 where
    s: "codes_step br (fst (construct ll)) (fst (construct dl)) out maxOut = Some (expand_token out t, b1, False)"
      "reader_ok b1" "reader_bits b1 = concat (map (token_bits ll dl) ts) @ symbol_bits ll 256 @ rest" "br_d b1 = br_d br"
    by auto
  from Cons.IH [OF _ s(2,3)] Cons.prems(1) s(1,4) show ?case
    by (auto simp: codes.simps [of br] expand_tokens_def)
qed

section \<open>The fixed code\<close>

lemma fixed_tables_ok: "tables_ok fixed_lengths" "tables_ok (replicate 30 5)"
proof -
  have u: "[Suc 0..<16] = [1, 2, 3, 4, 5, 6, 7, 8, 9, 10, 11, 12, 13, 14, 15 :: nat]" by (simp add: upt_rec)
  have c: "count_list (replicate n x) y = (if x = y then n else 0)" for n and x y :: nat
    by (induction n) auto
  have ok: "lengths_ok fixed_lengths" "lengths_ok (replicate 30 5)"
    by (auto simp: lengths_ok_def fixed_lengths_def)
  have cl: "count_list fixed_lengths k = (if k = 8 then 152 else if k = 9 then 112 else if k = 7 then 24 else 0)" for k
    by (simp add: fixed_lengths_def c)
  show "tables_ok fixed_lengths"
    using ok(1) by (simp add: tables_ok_def construct_def Let_def u count_lengths_nth cl)
  show "tables_ok (replicate 30 5)"
    using ok(2) by (simp add: tables_ok_def construct_def Let_def u count_lengths_nth c)
qed

lemma fixed_symbols: "s < 288 \<Longrightarrow> symbol_coded fixed_lengths s" "s < 30 \<Longrightarrow> symbol_coded (replicate 30 5) s"
proof -
  have "\<forall>l \<in> set fixed_lengths. l \<noteq> 0" "length fixed_lengths = 288" by (auto simp: fixed_lengths_def)
  then show "s < 288 \<Longrightarrow> symbol_coded fixed_lengths s" by (metis nth_mem symbol_coded_def)
qed (simp add: symbol_coded_def)

definition fixed_stream :: "token list \<Rightarrow> bool list" where
  \<comment> \<open>final-block flag, block type 1, the tokens, end of block\<close>
  "fixed_stream ts = [True, True, False] @ concat (map (token_bits rfc_lit_lengths (replicate 30 5)) ts) @
     symbol_bits rfc_lit_lengths 256"

section \<open>Stored blocks\<close>

definition store_block :: "bool \<Rightarrow> bytes \<Rightarrow> bytes" where
  "store_block final xs =
     (let w = of_nat (length xs) :: u16
      in [if final then 1 else 0, ucast w, ucast (drop_bit 8 w), ucast (NOT w), ucast (drop_bit 8 (NOT w))] @ xs)"

fun store_blocks :: "bytes list \<Rightarrow> bytes" where
  "store_blocks [] = []"
| "store_blocks (xs # xss) = store_block (xss = []) xs @ store_blocks xss"

lemma le16_bytes: "ucast (ucast (w :: u16) :: u8) OR push_bit 8 (ucast (ucast (drop_bit 8 w) :: u8)) = w"
  by (rule bit_word_eqI) (auto simp: bit_simps)

lemma get_header:
  assumes "br_cnt br = 0" "br_buf br = 0" "drop (br_pos br) (br_d br) = h # rest" "h = 0 \<or> h = 1"
  shows "\<exists>b1 b2. br_get 1 br = Some (ucast h, b1) \<and> br_get 2 b1 = Some (0, b2) \<and>
     br_d b2 = br_d br \<and> br_pos b2 = br_pos br + 1"
proof -
  have pos: "br_pos br < length (br_d br)" and at: "br_d br ! br_pos br = h"
    using assms(3) by (metis drop_all leI list.distinct(1), metis drop_all hd_drop_conv_nth leI list.distinct(1) list.sel(1))
  have fill: "br_fill 1 br = Some (br\<lparr>br_buf := ucast h, br_pos := br_pos br + 1, br_cnt := 8\<rparr>)"
    using assms(1,2) pos at by (simp add: br_fill.simps)
  let ?b1 = "br\<lparr>br_buf := drop_bit 1 (ucast h), br_pos := br_pos br + 1, br_cnt := 7\<rparr>"
  have "br_get 1 br = Some (ucast h, ?b1)"
    using assms(4) unfolding br_get_def fill by auto
  moreover have "br_get 2 ?b1 = Some (0, br\<lparr>br_buf := 0, br_pos := br_pos br + 1, br_cnt := 5\<rparr>)"
    using assms(4) by (auto simp: br_get_def br_fill.simps)
  ultimately show ?thesis by auto
qed

lemma nth_via_drop: "drop p d = xs \<Longrightarrow> i < length xs \<Longrightarrow> d ! (p + i) = xs ! i"
  by (cases "p \<le> length d") auto

lemma storedBlock_store:
  assumes d: "drop (br_pos br) (br_d br) = drop 1 (store_block f xs) @ rest" and len: "length xs < 65536"
    and room: "length out + length xs \<le> maxOut"
  shows "storedBlock br out maxOut = Some (out @ xs,
     br\<lparr>br_buf := 0, br_cnt := 0, br_pos := br_pos br + (4 + length xs)\<rparr>) \<and>
     drop (br_pos br + (4 + length xs)) (br_d br) = rest"
proof -
  let ?p = "br_pos br" and ?d = "br_d br" and ?w = "of_nat (length xs) :: u16"
  have at: "drop ?p ?d = [ucast ?w, ucast (drop_bit 8 ?w), ucast (NOT ?w), ucast (drop_bit 8 (NOT ?w))] @ xs @ rest"
    using d by (simp add: store_block_def Let_def)
  have "length (drop ?p ?d) = 4 + length xs + length rest" unfolding at by simp
  then have n: "length ?d - ?p = 4 + length xs + length rest" by simp
  have l1: "le16 ?d ?p = ?w" using nth_via_drop [OF at, of 0] nth_via_drop [OF at, of 1]
    by (simp add: le16_def le16_bytes)
  have l2: "le16 ?d (Suc (Suc ?p)) = NOT ?w" using nth_via_drop [OF at, of 2] nth_via_drop [OF at, of 3]
    le16_bytes [of "NOT ?w"] by (simp add: le16_def numeral_3_eq_3)
  have k: "unat ?w = length xs" using len by (simp add: unat_of_nat)
  have "drop (?p + 4) ?d = drop 4 (drop ?p ?d)" by (simp add: add.commute)
  then have body: "drop (?p + 4) ?d = xs @ rest" unfolding at by simp
  have "drop (?p + (4 + length xs)) ?d = drop (length xs) (drop (?p + 4) ?d)" by (simp add: add.commute add.left_commute)
  then have tail: "drop (?p + (4 + length xs)) ?d = rest" by (simp add: body)
  have g: "\<not> maxOut - length out < length xs" "\<not> length ?d - (?p + 4) < length xs" "\<not> length ?d < ?p + 4"
      "\<not> maxOut < length out"
    using n room by linarith+
  have "storedBlock br out maxOut = Some (out @ xs, br\<lparr>br_buf := 0, br_cnt := 0, br_pos := ?p + (4 + length xs)\<rparr>)"
    using g by (simp add: storedBlock_def br_alignByte_def Let_def l1 l2 k body add.assoc)
  with tail show ?thesis by simp
qed

lemma inflate_stored:
  assumes "xss \<noteq> []" "\<forall>xs \<in> set xss. length xs < 65536" "length out + length (concat xss) \<le> maxOut"
    and "br_cnt br = 0" "br_buf br = 0" "drop (br_pos br) (br_d br) = store_blocks xss"
  shows "inflate_loop br out maxOut = Some (out @ concat xss)"
  using assms
proof (induction xss arbitrary: br out)
  case (Cons xs xss)
  let ?h = "if xss = [] then 1 else 0 :: u8"
  have hd: "drop (br_pos br) (br_d br) = ?h # (drop 1 (store_block (xss = []) xs) @ store_blocks xss)"
    using Cons.prems(6) by (simp add: store_block_def Let_def)
  have "?h = 0 \<or> ?h = 1" by simp
  from get_header [OF Cons.prems(4,5) hd this] obtain b1 b2 where
    g: "br_get 1 br = Some (ucast ?h, b1)" "br_get 2 b1 = Some (0, b2)" "br_d b2 = br_d br" "br_pos b2 = br_pos br + 1"
    by blast
  have "drop (br_pos b2) (br_d b2) = drop 1 (store_block (xss = []) xs) @ store_blocks xss"
    using hd unfolding g(3,4) by (metis add.commute drop_drop drop0 drop_Suc_Cons plus_1_eq_Suc)
  from storedBlock_store [OF this, of out maxOut] Cons.prems(2,3)
  obtain b3 where s: "storedBlock b2 out maxOut = Some (out @ xs, b3)" "br_cnt b3 = 0" "br_buf b3 = 0"
    "drop (br_pos b3) (br_d b3) = store_blocks xss"
    by auto
  show ?case
  proof (cases "xss = []")
    case True
    with g s show ?thesis by (simp add: inflate_loop.simps [of br] inflate_block_def)
  next
    case False
    with Cons.IH [OF False _ _ s(2,3,4), of "out @ xs"] Cons.prems(2,3) g s show ?thesis
      by (simp add: inflate_loop.simps [of br] inflate_block_def)
  qed
qed simp

section \<open>Properties\<close>

lemma initial_reader:
  "reader_ok \<lparr>br_d = src, br_pos = 0, br_buf = 0, br_cnt = 0\<rparr>"
  "reader_bits \<lparr>br_d = src, br_pos = 0, br_buf = 0, br_cnt = 0\<rparr> = bytes_bits src"
  by (simp_all add: reader_ok_def reader_bits_def)

text \<open>C2: the decoder inverts the canonical Huffman code. For any code lengths (at most 288
  symbols, at most 15 bits) whose set is not oversubscribed, when the next bits of the input are
  the RFC 1951 code of a symbol, the walk over the constructed tables returns that symbol and
  leaves exactly the bits after its code.\<close>

theorem decode_inverts_canonical_code:
  assumes "lengths_ok lens" "0 \<le> snd (construct lens)" "s < length lens" "lens ! s \<noteq> 0"
    and "reader_ok br" "reader_bits br = symbol_bits lens s @ rest"
  shows "\<exists>br'. decode br (fst (construct lens)) = Some (s, br') \<and> reader_ok br' \<and> reader_bits br' = rest"
  using decode_canonical [OF assms] by blast

lemma symbol_bits_321: "symbol_bits [2, 1, 2] 0 = [True, False]"
  by (simp add: symbol_bits_def code_bits_def canonical_code_def numeral_2_eq_2)

theorem decode_inverts_canonical_code_witness:
  "\<exists>br'. decode \<lparr>br_d = [1], br_pos = 0, br_buf = 0, br_cnt = 0\<rparr> (fst (construct [2, 1, 2])) = Some (0, br') \<and>
     reader_ok br' \<and> reader_bits br' = replicate 6 False"
proof -
  have "lengths_ok [2, 1, 2]" by (simp add: lengths_ok_def)
  moreover from this have "0 \<le> snd (construct [2, 1, 2])"
    by (simp add: construct_def Let_def upt_rec count_lengths_nth)
  moreover have "bytes_bits [1] = symbol_bits [2, 1, 2] 0 @ replicate 6 False"
    unfolding symbol_bits_321 by (simp add: byte_bits_def upt_rec bit_1_iff numeral_eq_Suc)
  ultimately show ?thesis
    using decode_inverts_canonical_code [of "[2, 1, 2]" 0 _ "replicate 6 False"] initial_reader [of "[1]"] by simp
qed

lemma header_bits: "lsb_bits (Suc 0) (Suc 0) = [True]" "lsb_bits 2 (Suc 0) = [True, False]"
  by (simp_all add: lsb_bits_def upt_rec bit_nat_def)

text \<open>C1: a block of literal and match tokens written with RFC 1951's fixed code (final-block
  flag, block type 1, the tokens' canonical codes and extra bits, the end-of-block code, any
  trailing padding) inflates to exactly the expansion of its tokens, whenever every back
  reference lies inside the output and the output cap is respected. The expansion and the tables are
  those of the RFC: byte \<open>i\<close> of a match repeats byte \<open>i mod d\<close> of the last \<open>d\<close> bytes.\<close>

theorem InflateRaw_fixed_block:
  assumes "bytes_bits src = fixed_stream ts @ pad"
    and "tokens_ok rfc_lit_lengths (replicate 30 5) maxOut [] ts"
  shows "InflateRaw src maxOut = Some (expand_tokens [] ts)"
proof -
  let ?r0 = "\<lparr>br_d = src, br_pos = 0, br_buf = 0, br_cnt = 0\<rparr>"
  note assms = assms [unfolded fixed_stream_def, folded fixed_lengths_rfc]
  let ?body = "concat (map (token_bits fixed_lengths (replicate 30 5)) ts) @ symbol_bits fixed_lengths 256 @ pad"
  have b0: "reader_bits ?r0 = lsb_bits 1 1 @ lsb_bits 2 1 @ ?body"
    using assms(1) by (simp add: initial_reader header_bits)
  from next_bits [OF initial_reader(1) _ _ b0] obtain w1 r1 where
    g1: "br_get 1 ?r0 = Some (w1, r1)" "unat w1 = 1" "reader_ok r1" "reader_bits r1 = lsb_bits 2 1 @ ?body" by auto
  from next_bits [OF g1(3) _ _ g1(4)] obtain w2 r2 where
    g2: "br_get 2 r1 = Some (w2, r2)" "unat w2 = 1" "reader_ok r2" "reader_bits r2 = ?body" by auto
  from codes_tokens [OF fixed_tables_ok fixed_symbols(1) assms(2) g2(3,4)] obtain r3 where
    g3: "codes r2 fixed_lit fixed_dist [] maxOut = Some (expand_tokens [] ts, r3)"
    by (auto simp: fixed_lit_def fixed_dist_def)
  have "w1 \<noteq> 0" using g1(2) by auto
  with g1(1) g2(1,2) g3 show ?thesis
    by (simp add: InflateRaw_def inflate_loop.simps [of ?r0] inflate_block_def fixedBlock_def)
qed

lemma fixed_codes:
  "symbol_bits fixed_lengths 97 = [True, False, False, True, False, False, False, True]"
  "symbol_bits fixed_lengths 258 = [False, False, False, False, False, True, False]"
  "symbol_bits fixed_lengths 256 = [False, False, False, False, False, False, False]"
  "symbol_bits (replicate 30 5) 0 = [False, False, False, False, False]"
proof -
  have c: "count_list (replicate n x) y = (if x = y then n else 0)" for n and x y :: nat
    by (induction n) auto
  have cl: "count_list fixed_lengths k = (if k = 8 then 152 else if k = 9 then 112 else if k = 7 then 24 else 0)" for k
    by (simp add: fixed_lengths_def c)
  have i: "8 = Suc 7" "7 = Suc 6" "6 = Suc 5" "5 = Suc 4" "4 = Suc 3" "3 = Suc 2" "2 = Suc 1" by simp_all
  have f1: "first_code xs 1 = 0" for xs by simp
  have "first_code fixed_lengths 2 = 0" unfolding i(7) first_code.simps cl by simp
  then have "first_code fixed_lengths 3 = 0" unfolding i(6) first_code.simps cl by simp
  then have "first_code fixed_lengths 4 = 0" unfolding i(5) first_code.simps cl by simp
  then have "first_code fixed_lengths 5 = 0" unfolding i(4) first_code.simps cl by simp
  then have "first_code fixed_lengths 6 = 0" unfolding i(3) first_code.simps cl by simp
  then have f7: "first_code fixed_lengths 7 = 0" unfolding i(2) first_code.simps cl by simp
  then have f8: "first_code fixed_lengths 8 = 48" unfolding i(1) first_code.simps cl by simp
  have g1: "first_code (replicate 30 5) 2 = 0" unfolding i(7) first_code.simps c by simp
  then have "first_code (replicate 30 5) 3 = 0" unfolding i(6) first_code.simps c by simp
  then have "first_code (replicate 30 5) 4 = 0" unfolding i(5) first_code.simps c by simp
  then have g5: "first_code (replicate 30 5) 5 = 0" unfolding i(4) first_code.simps c by simp
  have n: "fixed_lengths ! 97 = 8" "fixed_lengths ! 258 = 7" "fixed_lengths ! 256 = 7"
    by (simp_all add: fixed_lengths_def nth_append)
  have t: "count_list (take 97 fixed_lengths) 8 = 97" "count_list (take 258 fixed_lengths) 7 = 2"
    "count_list (take 256 fixed_lengths) 7 = 0"
    by (simp_all add: fixed_lengths_def c)
  show "symbol_bits fixed_lengths 97 = [True, False, False, True, False, False, False, True]"
    "symbol_bits fixed_lengths 258 = [False, False, False, False, False, True, False]"
    "symbol_bits fixed_lengths 256 = [False, False, False, False, False, False, False]"
    by (simp_all add: symbol_bits_def code_bits_def canonical_code_def n t f7 f8 upt_rec)
  show "symbol_bits (replicate 30 5) 0 = [False, False, False, False, False]"
    by (simp add: symbol_bits_def code_bits_def canonical_code_def g5 upt_rec)
qed

lemma byte_bits_unfold:
  "byte_bits b = [bit b 0, bit b 1, bit b 2, bit b 3, bit b 4, bit b 5, bit b 6, bit b 7]"
  unfolding byte_bits_def by (simp add: upt_rec eval_nat_numeral)

theorem InflateRaw_fixed_block_witness:
  "InflateRaw [75, 4, 1, 0] 16 = Some [97, 97, 97, 97, 97]"
proof -
  let ?ts = "[Literal 97, Match 1 0 0 0]"
  have "bytes_bits [75, 4, 1, 0] = fixed_stream ?ts @ [False, False]"
    by (simp add: fixed_stream_def fixed_lengths_rfc [symmetric] fixed_codes lsb_bits_def rfc_len_extra_def rfc_dist_extra_def
        byte_bits_unfold bit_1_iff)
  moreover have "tokens_ok rfc_lit_lengths (replicate 30 5) 16 [] ?ts"
    by (simp add: fixed_lengths_rfc [symmetric] fixed_symbols rfc_len_extra_def rfc_dist_extra_def rfc_dist_base_def
        rfc_len_base_def)
  moreover have "expand_tokens [] ?ts = [97, 97, 97, 97, 97]"
    by (simp add: expand_tokens_def rfc_len_base_def rfc_dist_base_def upt_rec)
  ultimately show ?thesis using InflateRaw_fixed_block by metis
qed

text \<open>Data written as stored blocks (any number of them, each below 64 KiB) inflates back to
  the concatenation of the blocks.\<close>

theorem InflateRaw_stored_blocks:
  assumes "xss \<noteq> []" "\<forall>xs \<in> set xss. length xs < 65536" "length (concat xss) \<le> maxOut"
  shows "InflateRaw (store_blocks xss) maxOut = Some (concat xss)"
  unfolding InflateRaw_def using assms by (subst inflate_stored) auto

theorem InflateRaw_stored_blocks_witness:
  "InflateRaw (store_blocks [[1, 2], [], [3]]) 3 = Some [1, 2, 3]"
  using InflateRaw_stored_blocks [of "[[1, 2], [], [3]]" 3] by simp

text \<open>C36: whatever the input, a successful decode never produces more than \<open>maxOut\<close> bytes (and the
  decoder always terminates: its loops are total functions).\<close>

theorem InflateRaw_output_bounded:
  assumes "InflateRaw src maxOut = Some out"
  shows "length out \<le> maxOut"
  using assms inflate_loop_bound by (fastforce simp: InflateRaw_def)

theorem InflateRaw_output_bounded_witness:
  "length ([1, 2, 3] :: bytes) \<le> 3"
proof -
  have "InflateRaw (store_blocks [[1, 2, 3]]) 3 = Some [1, 2, 3]"
    using inflate_stored [of "[[1, 2, 3]]" "[]" 3] by (simp add: InflateRaw_def)
  then show ?thesis by (rule InflateRaw_output_bounded)
qed

text \<open>The byte-at-a-time copy of a match replicates the last \<open>d\<close> bytes periodically, also when
  it overlaps its own output (\<open>d < len\<close>).\<close>

theorem copy_match_periodic:
  assumes "0 < d" "d \<le> length out" "i < len"
  shows "copy_match (length out - d) len out ! (length out + i) = out ! (length out - d + i mod d)"
  using assms by (rule copy_match_nth)

theorem copy_match_periodic_witness:
  "copy_match (length [5, 6, 7] - 2) 5 [5, 6, 7] ! (length [5, 6, 7 :: u8] + 3) = ([5, 6, 7] ! (3 - 2 + 3 mod 2) :: u8)"
  using copy_match_periodic [of 2 "[5, 6, 7]" 3 5] by simp

end
