(* ===== verification/Machine.thy ===== *)
theory Machine
  imports Prelude
begin

text \<open>
  Interfaces shared by the stateful components. A component is a deterministic machine: a
  state, a type of events (one constructor per public operation) and a step function. The
  locales collect what follows from the step laws for whole histories of events; every
  stateful component interprets them on its own model.
\<close>

locale machine =
  fixes step :: "'e \<Rightarrow> 's \<Rightarrow> 's" and inv :: "'s \<Rightarrow> bool"
  assumes step_inv: "inv s \<Longrightarrow> inv (step e s)"
begin

lemma run_inv: "inv s \<Longrightarrow> inv (fold step es s)"
  by (induction es arbitrary: s) (simp_all add: step_inv)

lemma run_induct:
  assumes "inv s" "P s" "\<And>t e. inv t \<Longrightarrow> P t \<Longrightarrow> P (step e t)"
  shows "P (fold step es s)"
  using assms(1,2) by (induction es arbitrary: s) (simp_all add: step_inv assms(3))

lemma run_measure:
  \<comment> \<open>a quantity no step decreases is not decreased by a run\<close>
  assumes "inv s" "\<And>t e. inv t \<Longrightarrow> (m t :: nat) \<le> m (step e t)"
  shows "m s \<le> m (fold step es s)"
  using assms(1)
proof (induction es arbitrary: s)
  case (Cons e es)
  from assms(2) [OF Cons.prems, of e] Cons.IH [OF step_inv [OF Cons.prems]] show ?case
    by (simp add: order_trans)
qed simp

end

text \<open>A machine that simulates an abstract one through a relation.\<close>

locale refinement = machine step inv
  for step :: "'e \<Rightarrow> 's \<Rightarrow> 's" and inv +
  fixes astep :: "'e \<Rightarrow> 'a \<Rightarrow> 'a" and rel :: "'s \<Rightarrow> 'a \<Rightarrow> bool"
  assumes sim: "inv s \<Longrightarrow> rel s a \<Longrightarrow> rel (step e s) (astep e a)"
begin

lemma run_sim: "inv s \<Longrightarrow> rel s a \<Longrightarrow> rel (fold step es s) (fold astep es a)"
  by (induction es arbitrary: s a) (simp_all add: step_inv sim)

lemma run_refines:
  "inv s \<Longrightarrow> rel s a \<Longrightarrow> inv (fold step es s) \<and> rel (fold step es s) (fold astep es a)"
  by (simp add: run_inv run_sim)

end

end
