(* ===== verification/Step_Logic.thy ===== *)
theory Step_Logic
  imports Machine
begin

text \<open>
  \<open>src/src/Core/StepLogic.h\<close>: the pure decisions of the single-step engine. The abstract
  side is a frame-depth semantics of the debuggee: what one trap-flag step or one run to a
  temporary breakpoint does to the call depth, so that the decisions can be judged by the
  frame in which the debuggee stops.
\<close>

datatype InsnKind = Normal | Call | Ret | RepString

definition ClassifyInsn :: "bool \<Rightarrow> bool \<Rightarrow> bool \<Rightarrow> InsnKind" where
  "ClassifyInsn isCall isRet isRepString =
     (if isCall then Call else if isRet then Ret else if isRepString then RepString else Normal)"

datatype StepOverAction = SO_SingleStep | SO_StepOverUnit

definition DecideStepOver :: "InsnKind \<Rightarrow> StepOverAction" where
  "DecideStepOver k = (if k = Call \<or> k = RepString then SO_StepOverUnit else SO_SingleStep)"

datatype StepOutAction = OUT_SingleStep | OUT_StepOverUnit | OUT_FinishAfterRet

fun DecideStepOut :: "InsnKind \<Rightarrow> StepOutAction" where
  "DecideStepOut Call = OUT_StepOverUnit"
| "DecideStepOut RepString = OUT_StepOverUnit"
| "DecideStepOut Ret = OUT_FinishAfterRet"
| "DecideStepOut Normal = OUT_SingleStep"

datatype StepCmd = Continue | StepInto | StepOver | StepOut

datatype ReArmMethod = RA_SingleStep | RA_TempBpAfter

datatype AfterReArm = Pause | FreeRun | BeginStepOut | ContinueStepOut

record OnBpResume = resume_method :: ReArmMethod
  after :: AfterReArm

fun DecideOnBpResume :: "StepCmd \<Rightarrow> InsnKind \<Rightarrow> OnBpResume" where
  "DecideOnBpResume Continue k = \<lparr>resume_method = RA_SingleStep, after = FreeRun\<rparr>"
| "DecideOnBpResume StepInto k = \<lparr>resume_method = RA_SingleStep, after = Pause\<rparr>"
| "DecideOnBpResume StepOver k =
     (let unit_insn = (k = Call \<or> k = RepString)
      in if unit_insn then \<lparr>resume_method = RA_TempBpAfter, after = Pause\<rparr>
         else \<lparr>resume_method = RA_SingleStep, after = Pause\<rparr>)"
| "DecideOnBpResume StepOut k =
     (let unit_insn = (k = Call \<or> k = RepString)
      in if k = Ret then \<lparr>resume_method = RA_SingleStep, after = Pause\<rparr>
         else if unit_insn then \<lparr>resume_method = RA_TempBpAfter, after = ContinueStepOut\<rparr>
         else \<lparr>resume_method = RA_SingleStep, after = BeginStepOut\<rparr>)"

section \<open>A frame-depth semantics of the debuggee\<close>

text \<open>
  An execution is seen as a trace of call-tree items of the current frame: a plain
  instruction, a call with the whole execution of its callee, or a repeated string
  instruction with its number of iterations. The frame ends with its \<open>ret\<close>.
\<close>

datatype item = Plain | Invoke "item list" | Rep nat

fun item_kind :: "item \<Rightarrow> InsnKind" where
  "item_kind Plain = Normal"
| "item_kind (Invoke body) = Call"
| "item_kind (Rep n) = RepString"

text \<open>The step-out driver on the current frame: one decision per item until the frame's \<open>ret\<close>.
  It returns the number of stops the debugger makes and the depth it ends at, relative to the
  current frame (a temporary breakpoint after a unit runs the unit without a stop inside it).\<close>

fun step_out :: "item list \<Rightarrow> nat \<times> int" where
  "step_out [] = (case DecideStepOut Ret of OUT_FinishAfterRet \<Rightarrow> (1, - 1) | _ \<Rightarrow> (1, 0))"
| "step_out (i # rest) =
     (case DecideStepOut (item_kind i) of
        OUT_FinishAfterRet \<Rightarrow> (1, - 1)
      | OUT_StepOverUnit \<Rightarrow> (let (n, d) = step_out rest in (n + 1, d))
      | OUT_SingleStep \<Rightarrow>
          (case i of
             Invoke body \<Rightarrow> (let (n, d) = step_out body in (n + 1, d + 1))
           | _ \<Rightarrow> (let (n, d) = step_out rest in (n + 1, d))))"

lemma step_out_frame: "step_out frame = (length frame + 1, - 1)"
proof (induction frame)
  case (Cons i rest)
  then show ?case by (cases i) simp_all
qed simp

text \<open>Leaving a breakpoint under a command and finishing the step: the depth at the stop and
  whether the debugger stops at all (a free run does not).\<close>

definition land :: "OnBpResume \<Rightarrow> item option \<Rightarrow> item list \<Rightarrow> int option" where
  \<comment> \<open>\<open>None\<close> as first item is the frame's own \<open>ret\<close>; the result is the relative depth of the stop\<close>
  "land r i rest =
     (let d = (case (resume_method r, i) of
                 (RA_SingleStep, None) \<Rightarrow> - 1
               | (RA_SingleStep, Some (Invoke body)) \<Rightarrow> 1
               | _ \<Rightarrow> 0)
      in case after r of
           FreeRun \<Rightarrow> None
         | Pause \<Rightarrow> Some d
         | BeginStepOut \<Rightarrow> Some (d + snd (step_out rest))
         | ContinueStepOut \<Rightarrow> Some (d + snd (step_out rest)))"

definition kind_of :: "item option \<Rightarrow> InsnKind" where
  "kind_of i = (case i of None \<Rightarrow> Ret | Some x \<Rightarrow> item_kind x)"

text \<open>Parked on a breakpoint, every command stops in the frame it promises. Step Over stays in
  the frame (or leaves it on the frame's own return), Step Into descends exactly on a call, Step Out
  ends one frame up whatever instruction sits under the breakpoint, and Continue does not stop.\<close>

theorem DecideOnBpResume_frames:
  "land (DecideOnBpResume Continue (kind_of i)) i rest = None \<and>
   land (DecideOnBpResume StepInto (kind_of i)) i rest =
     Some (case i of None \<Rightarrow> - 1 | Some (Invoke _) \<Rightarrow> 1 | _ \<Rightarrow> 0) \<and>
   land (DecideOnBpResume StepOver (kind_of i)) i rest = Some (if i = None then - 1 else 0) \<and>
   land (DecideOnBpResume StepOut (kind_of i)) i rest = Some (- 1)"
  by (auto simp: land_def kind_of_def step_out_frame split: option.splits item.splits)

end
