(* ===== verification/Diff_Regions.thy ===== *)
theory Diff_Regions
  imports Machine
begin

text \<open>
  \<open>src/src/Core/DiffRegions.h\<close>: the byte diff of two images. File offsets are natural numbers
  below \<open>2^64\<close>; the one addition that can pass \<open>UINT64_MAX\<close> (\<open>en + gap\<close> in
  \<open>CoalesceDiffRegions\<close>) is written with its wrap-around. The callbacks of the scan are a
  poll function (the answer of the k-th cancellation poll) and the list of published progress
  pairs.
\<close>

record ByteDiffRegion =
  rg_start :: nat
  rg_end :: nat

record ByteDifference =
  df_offset :: nat
  df_a :: u8
  df_b :: u8

record ByteDiffScanResult =
  samples :: "ByteDifference list"
  regions :: "ByteDiffRegion list"
  totalDiff :: nat
  cancelled :: bool

text \<open>The region being grown: \<open>open\<close>, \<open>start\<close>, \<open>end\<close> of both functions.\<close>

record RegionCursor =
  rc_open :: bool
  rc_start :: nat
  rc_end :: nat
  rc_out :: "ByteDiffRegion list"

definition cursor0 :: RegionCursor where
  "cursor0 = \<lparr>rc_open = False, rc_start = 0, rc_end = 0, rc_out = []\<rparr>"

definition flush :: "nat \<Rightarrow> RegionCursor \<Rightarrow> RegionCursor" where
  "flush maxRegions c =
     (if rc_open c then
        c\<lparr>rc_out := (if length (rc_out c) < maxRegions
                      then rc_out c @ [\<lparr>rg_start = rc_start c, rg_end = rc_end c\<rparr>] else rc_out c),
          rc_open := False\<rparr>
      else c)"

definition begin_region :: "nat \<Rightarrow> nat \<Rightarrow> nat \<Rightarrow> RegionCursor \<Rightarrow> RegionCursor" where
  "begin_region maxRegions at until c =
     (flush maxRegions c)\<lparr>rc_start := at, rc_end := until, rc_open := True\<rparr>"

section \<open>The scan\<close>

definition scan_region :: "nat \<Rightarrow> nat \<Rightarrow> nat \<Rightarrow> nat \<Rightarrow> RegionCursor \<Rightarrow> RegionCursor" where
  "scan_region gap maxRegions at until c =
     (if rc_open c \<and> (at \<le> rc_end c \<or> at - rc_end c \<le> gap) then c\<lparr>rc_end := until\<rparr>
      else begin_region maxRegions at until c)"

definition kPublishStride :: nat where "kPublishStride = 64 * 1024"

text \<open>Locals of the loop: result so far, cursor, number of polls made, progress published.\<close>

record DiffScan =
  sc_samples :: "ByteDifference list"
  sc_total :: nat
  sc_cursor :: RegionCursor
  sc_polls :: nat
  sc_progress :: "(nat \<times> nat) list"

definition scan_byte :: "bytes \<Rightarrow> bytes \<Rightarrow> nat \<Rightarrow> nat \<Rightarrow> nat \<Rightarrow> nat \<Rightarrow> DiffScan \<Rightarrow> DiffScan" where
  "scan_byte a b gap maxSamples maxRegions i s =
     (if a ! i = b ! i then s
      else s\<lparr>sc_total := sc_total s + 1,
             sc_samples := (if length (sc_samples s) < maxSamples
               then sc_samples s @ [\<lparr>df_offset = i, df_a = a ! i, df_b = b ! i\<rparr>] else sc_samples s),
             sc_cursor := scan_region gap maxRegions i (i + 1) (sc_cursor s)\<rparr>)"

text \<open>\<open>Inl\<close>: the scan was cancelled.\<close>

fun scan_loop :: "(nat \<Rightarrow> bool) \<Rightarrow> bytes \<Rightarrow> bytes \<Rightarrow> nat \<Rightarrow> nat \<Rightarrow> nat \<Rightarrow> nat \<Rightarrow> nat list \<Rightarrow>
    DiffScan \<Rightarrow> DiffScan + DiffScan" where
  "scan_loop cancel a b gap maxSamples maxRegions n [] s = Inr s"
| "scan_loop cancel a b gap maxSamples maxRegions n (i # is) s =
     (if i mod kPublishStride = 0 then
        (let s1 = s\<lparr>sc_polls := sc_polls s + 1\<rparr>
         in if cancel (sc_polls s) then Inl s1
            else scan_loop cancel a b gap maxSamples maxRegions n is
                   (scan_byte a b gap maxSamples maxRegions i
                      (s1\<lparr>sc_progress := sc_progress s @ [(i, n)]\<rparr>)))
      else scan_loop cancel a b gap maxSamples maxRegions n is
             (scan_byte a b gap maxSamples maxRegions i s))"

definition scan_result :: "bool \<Rightarrow> DiffScan \<Rightarrow> ByteDiffScanResult" where
  "scan_result c s = \<lparr>samples = sc_samples s, regions = rc_out (sc_cursor s),
     totalDiff = sc_total s, cancelled = c\<rparr>"

definition ScanByteDifferences :: "bytes \<Rightarrow> bytes \<Rightarrow> nat \<Rightarrow> nat \<Rightarrow> nat \<Rightarrow> (nat \<Rightarrow> bool) \<Rightarrow>
    bool \<times> ByteDiffScanResult \<times> (nat \<times> nat) list" where
  "ScanByteDifferences a b gap maxSamples maxRegions cancel =
     (let n = min (length a) (length b); big = max (length a) (length b);
          s0 = \<lparr>sc_samples = [], sc_total = 0, sc_cursor = cursor0, sc_polls = 0, sc_progress = []\<rparr>
      in case scan_loop cancel a b gap maxSamples maxRegions n [0..<n] s0 of
           Inl s \<Rightarrow> (False, scan_result True s, sc_progress s)
         | Inr s \<Rightarrow>
             if cancel (sc_polls s) then (False, scan_result True s, sc_progress s)
             else
               let s1 = (if n < big then
                           s\<lparr>sc_total := sc_total s + (big - n),
                             sc_cursor := scan_region gap maxRegions n big (sc_cursor s)\<rparr>
                         else s);
                   s2 = s1\<lparr>sc_cursor := flush maxRegions (sc_cursor s1)\<rparr>
               in (True, scan_result False s2, sc_progress s2 @ [(n, n)]))"

section \<open>The older coalescer\<close>

definition coalesce_region :: "nat \<Rightarrow> nat \<Rightarrow> nat \<Rightarrow> nat \<Rightarrow> RegionCursor \<Rightarrow> RegionCursor" where
  "coalesce_region gap maxRegions at until c =
     (if rc_open c \<and> at \<le> (rc_end c + gap) mod 2 ^ 64 then c\<lparr>rc_end := until\<rparr>
      else begin_region maxRegions at until c)"

fun coalesce_loop :: "bytes \<Rightarrow> bytes \<Rightarrow> nat \<Rightarrow> nat \<Rightarrow> nat list \<Rightarrow> RegionCursor \<Rightarrow> RegionCursor" where
  "coalesce_loop a b gap maxRegions [] c = c"
| "coalesce_loop a b gap maxRegions (i # is) c =
     (if \<not> length (rc_out c) < maxRegions then c
      else coalesce_loop a b gap maxRegions is
             (if a ! i = b ! i then c else coalesce_region gap maxRegions i (i + 1) c))"

definition CoalesceDiffRegions :: "bytes \<Rightarrow> bytes \<Rightarrow> nat \<Rightarrow> nat \<Rightarrow> ByteDiffRegion list" where
  "CoalesceDiffRegions a b gap maxRegions =
     (let n = min (length a) (length b); big = max (length a) (length b);
          c = coalesce_loop a b gap maxRegions [0..<n] cursor0;
          c1 = (if n < big \<and> length (rc_out c) < maxRegions
                then coalesce_region gap maxRegions n big c else c)
      in rc_out (flush maxRegions c1))"

section \<open>Specification\<close>

text \<open>An offset differs when both images have a different byte there or only one has a byte. The
  runs are the differing offsets of the overlap followed by the tail of the longer image.\<close>

definition differs :: "bytes \<Rightarrow> bytes \<Rightarrow> nat \<Rightarrow> bool" where
  "differs a b i \<longleftrightarrow> i < max (length a) (length b) \<and> (i < min (length a) (length b) \<longrightarrow> a ! i \<noteq> b ! i)"

definition diff_offsets :: "bytes \<Rightarrow> bytes \<Rightarrow> nat list" where
  "diff_offsets a b = filter (\<lambda>i. a ! i \<noteq> b ! i) [0..<min (length a) (length b)]"

definition diff_runs :: "bytes \<Rightarrow> bytes \<Rightarrow> (nat \<times> nat) list" where
  "diff_runs a b = map (\<lambda>i. (i, Suc i)) (diff_offsets a b) @
     (let n = min (length a) (length b); big = max (length a) (length b)
      in if n < big then [(n, big)] else [])"

fun merge_runs :: "nat \<Rightarrow> nat \<Rightarrow> nat \<Rightarrow> (nat \<times> nat) list \<Rightarrow> ByteDiffRegion list" where
  "merge_runs gap s e [] = [\<lparr>rg_start = s, rg_end = e\<rparr>]"
| "merge_runs gap s e ((s', e') # rs) =
     (if s' - e \<le> gap then merge_runs gap s e' rs
      else \<lparr>rg_start = s, rg_end = e\<rparr> # merge_runs gap s' e' rs)"

fun coalesced :: "nat \<Rightarrow> (nat \<times> nat) list \<Rightarrow> ByteDiffRegion list" where
  "coalesced gap [] = []"
| "coalesced gap ((s, e) # rs) = merge_runs gap s e rs"

definition pending_regions :: "nat \<Rightarrow> RegionCursor \<Rightarrow> (nat \<times> nat) list \<Rightarrow> ByteDiffRegion list" where
  "pending_regions gap c rs = rc_out c @
     (if rc_open c then merge_runs gap (rc_start c) (rc_end c) rs else coalesced gap rs)"

text \<open>The cursor emits the coalesced runs, cut at the region budget.\<close>

lemma scan_region_pending:
  "length (rc_out c) \<le> M \<Longrightarrow>
     take M (pending_regions gap (scan_region gap M s e c) rs) = take M (pending_regions gap c ((s, e) # rs)) \<and>
     length (rc_out (scan_region gap M s e c)) \<le> M"
  by (auto simp: pending_regions_def scan_region_def begin_region_def flush_def take_Cons')

lemma scan_regions_out:
  "length (rc_out c) \<le> M \<Longrightarrow>
     rc_out (flush M (fold (\<lambda>(s, e). scan_region gap M s e) rs c)) = take M (pending_regions gap c rs)"
proof (induction rs arbitrary: c)
  case Nil
  then show ?case by (auto simp: flush_def pending_regions_def)
next
  case (Cons r rs)
  obtain s e where r: "r = (s, e)" by force
  from scan_region_pending [OF Cons.prems, of gap s e rs] Cons.IH show ?case by (simp add: r)
qed

lemma pending_cursor0: "pending_regions gap cursor0 rs = coalesced gap rs"
  by (simp add: pending_regions_def cursor0_def)

lemma rc_out_cursor0 [simp]: "rc_out cursor0 = []"
  by (simp add: cursor0_def)

section \<open>The scan meets the specification\<close>

lemma scan_loop_done:
  assumes "\<And>k. \<not> cancel k" "length (sc_samples s) \<le> maxSamples"
  shows "\<exists>s'. scan_loop cancel a b gap maxSamples M n is s = Inr s' \<and>
     (let ds = filter (\<lambda>i. a ! i \<noteq> b ! i) is
      in sc_total s' = sc_total s + length ds \<and>
         sc_samples s' = take maxSamples (sc_samples s @ map (\<lambda>i. \<lparr>df_offset = i, df_a = a ! i, df_b = b ! i\<rparr>) ds) \<and>
         sc_cursor s' = fold (\<lambda>(x, y). scan_region gap M x y) (map (\<lambda>i. (i, Suc i)) ds) (sc_cursor s))"
  using assms(2)
proof (induction "is" arbitrary: s)
  case (Cons i "is")
  define t where "t = (if i mod kPublishStride = 0
    then s\<lparr>sc_polls := sc_polls s + 1, sc_progress := sc_progress s @ [(i, n)]\<rparr> else s)"
  have t: "sc_samples t = sc_samples s" "sc_total t = sc_total s" "sc_cursor t = sc_cursor s"
    by (simp_all add: t_def)
  have step: "scan_loop cancel a b gap maxSamples M n (i # is) s =
      scan_loop cancel a b gap maxSamples M n is (scan_byte a b gap maxSamples M i t)"
    using assms(1) by (simp add: t_def Let_def)
  have "length (sc_samples (scan_byte a b gap maxSamples M i t)) \<le> maxSamples"
    using Cons.prems by (auto simp: scan_byte_def t)
  from Cons.IH [OF this] show ?case
    unfolding step using Cons.prems by (auto simp: scan_byte_def t Let_def take_Cons')
qed (simp add: Let_def)

lemma ScanByteDifferences_result:
  assumes "\<And>k. \<not> cancel k"
  shows "fst (ScanByteDifferences a b gap maxSamples maxRegions cancel)"
    and "fst (snd (ScanByteDifferences a b gap maxSamples maxRegions cancel)) =
      \<lparr>samples = take maxSamples (map (\<lambda>i. \<lparr>df_offset = i, df_a = a ! i, df_b = b ! i\<rparr>) (diff_offsets a b)),
       regions = take maxRegions (coalesced gap (diff_runs a b)),
       totalDiff = length (diff_offsets a b) + (max (length a) (length b) - min (length a) (length b)),
       cancelled = False\<rparr>"
proof -
  let ?n = "min (length a) (length b)" and ?big = "max (length a) (length b)"
  let ?s0 = "\<lparr>sc_samples = [], sc_total = 0, sc_cursor = cursor0, sc_polls = 0, sc_progress = []\<rparr>"
  from scan_loop_done [of cancel ?s0 maxSamples a b gap maxRegions ?n "[0..<?n]"] assms obtain s' where
    s': "scan_loop cancel a b gap maxSamples maxRegions ?n [0..<?n] ?s0 = Inr s'"
      "sc_total s' = length (diff_offsets a b)"
      "sc_samples s' = take maxSamples (map (\<lambda>i. \<lparr>df_offset = i, df_a = a ! i, df_b = b ! i\<rparr>) (diff_offsets a b))"
      "sc_cursor s' = fold (\<lambda>(x, y). scan_region gap maxRegions x y) (map (\<lambda>i. (i, Suc i)) (diff_offsets a b)) cursor0"
    by (auto simp: diff_offsets_def Let_def)
  have "rc_out (flush maxRegions (if ?n < ?big then scan_region gap maxRegions ?n ?big (sc_cursor s') else sc_cursor s')) =
      take maxRegions (coalesced gap (diff_runs a b))"
    using scan_regions_out [of cursor0 maxRegions gap "diff_runs a b"]
    by (simp add: diff_runs_def s'(4) pending_cursor0 Let_def split: if_splits)
  with s'(1-3) show "fst (ScanByteDifferences a b gap maxSamples maxRegions cancel)"
    and "fst (snd (ScanByteDifferences a b gap maxSamples maxRegions cancel)) =
      \<lparr>samples = take maxSamples (map (\<lambda>i. \<lparr>df_offset = i, df_a = a ! i, df_b = b ! i\<rparr>) (diff_offsets a b)),
       regions = take maxRegions (coalesced gap (diff_runs a b)),
       totalDiff = length (diff_offsets a b) + (?big - ?n), cancelled = False\<rparr>"
    using assms by (auto simp: ScanByteDifferences_def Let_def scan_result_def)
qed

section \<open>What coalescing guarantees\<close>

text \<open>A region is dense when it starts and ends on a differing offset and every window of
  \<open>gap + 1\<close> bytes inside it has one.\<close>

definition dense :: "(nat \<Rightarrow> bool) \<Rightarrow> nat \<Rightarrow> nat \<Rightarrow> nat \<Rightarrow> bool" where
  "dense D gap s e \<longleftrightarrow> s < e \<and> D s \<and> D (e - 1) \<and> (\<forall>i. s \<le> i \<and> i + gap < e \<longrightarrow> (\<exists>j. i \<le> j \<and> j \<le> i + gap \<and> D j))"

definition in_region :: "nat \<Rightarrow> ByteDiffRegion \<Rightarrow> bool" where
  "in_region i r \<longleftrightarrow> rg_start r \<le> i \<and> i < rg_end r"

lemma dense_extend:
  assumes "dense D gap s e" "e \<le> s'" "s' < e'" "s' - e \<le> gap" "\<forall>i. s' \<le> i \<and> i < e' \<longrightarrow> D i"
  shows "dense D gap s e'"
  unfolding dense_def
proof (intro conjI allI impI)
  show "s < e'" "D s" "D (e' - 1)" using assms by (auto simp: dense_def)
  fix i assume i: "s \<le> i \<and> i + gap < e'"
  consider "i + gap < e" | "s' \<le> i + gap" | "e \<le> i + gap" "i + gap < s'" by linarith
  then show "\<exists>j. i \<le> j \<and> j \<le> i + gap \<and> D j"
  proof cases
    case 1
    with assms(1) i show ?thesis by (auto simp: dense_def)
  next
    case 2
    with assms(5) i show ?thesis by (intro exI [of _ "max i s'"]) auto
  next
    case 3
    with assms show ?thesis by (intro exI [of _ "e - 1"]) (auto simp: dense_def)
  qed
qed

definition runs_ok :: "(nat \<Rightarrow> bool) \<Rightarrow> nat \<Rightarrow> (nat \<times> nat) list \<Rightarrow> bool" where
  "runs_ok D lo rs \<longleftrightarrow> sorted_wrt (\<lambda>x y. snd x \<le> fst y) rs \<and>
     (\<forall>(s, e) \<in> set rs. lo \<le> s \<and> s < e \<and> (\<forall>i. s \<le> i \<and> i < e \<longrightarrow> D i))"

lemma merge_runs_spec:
  assumes "dense D gap s e" "runs_ok D e rs"
  shows "(\<forall>r \<in> set (merge_runs gap s e rs). dense D gap (rg_start r) (rg_end r) \<and> s \<le> rg_start r) \<and>
     sorted_wrt (\<lambda>r t. rg_end r + gap < rg_start t) (merge_runs gap s e rs) \<and>
     (\<forall>i. (s \<le> i \<and> i < e) \<or> (\<exists>(x, y) \<in> set rs. x \<le> i \<and> i < y) \<longrightarrow>
        (\<exists>r \<in> set (merge_runs gap s e rs). in_region i r))"
  using assms
proof (induction rs arbitrary: s e)
  case Nil
  then show ?case by (simp add: in_region_def)
next
  case (Cons r rs)
  obtain s' e' where r: "r = (s', e')" by force
  have ok: "e \<le> s'" "s' < e'" "\<forall>i. s' \<le> i \<and> i < e' \<longrightarrow> D i" "runs_ok D e' rs"
    using Cons.prems(2) by (fastforce simp: runs_ok_def r)+
  show ?case
  proof (cases "s' - e \<le> gap")
    case True
    have "dense D gap s e'" using dense_extend [OF Cons.prems(1) ok(1,2) True ok(3)] .
    moreover have "s < e" using Cons.prems(1) by (simp add: dense_def)
    ultimately show ?thesis using Cons.IH [of s e'] ok(4) True ok(1,2)
      by (auto simp: r)
  next
    case False
    have d: "dense D gap s' e'" using ok(2,3) by (auto simp: dense_def intro: exI [of _ i for i])
    have "s < e" using Cons.prems(1) by (simp add: dense_def)
    with Cons.IH [OF d ok(4)] False ok(1) Cons.prems(1) show ?thesis
      by (auto simp: r in_region_def)
  qed
qed

lemma diff_runs_ok: "runs_ok (differs a b) 0 (diff_runs a b)"
proof -
  let ?ds = "diff_offsets a b"
  have "sorted_wrt (<) ?ds" unfolding diff_offsets_def by (intro sorted_wrt_filter) simp
  then have "sorted_wrt (\<lambda>x y. snd x \<le> fst y) (map (\<lambda>i. (i, Suc i)) ?ds)"
    by (simp add: sorted_wrt_map Suc_le_eq)
  moreover have "i < min (length a) (length b)" "a ! i \<noteq> b ! i" if "i \<in> set ?ds" for i
    using that by (auto simp: diff_offsets_def)
  ultimately show ?thesis
    by (fastforce simp: runs_ok_def diff_runs_def sorted_wrt_append differs_def Let_def less_Suc_eq)
qed

lemma diff_offsets_iff: "i \<in> set (diff_offsets a b) \<longleftrightarrow> i < min (length a) (length b) \<and> a ! i \<noteq> b ! i"
  by (auto simp: diff_offsets_def)

lemma distinct_diff_offsets: "distinct (diff_offsets a b)"
  by (simp add: diff_offsets_def)

lemma diff_runs_cover: "differs a b i \<longleftrightarrow> (\<exists>(x, y) \<in> set (diff_runs a b). x \<le> i \<and> i < y)"
proof -
  let ?n = "min (length a) (length b)" and ?big = "max (length a) (length b)"
  have off: "(\<exists>(x, y) \<in> set (map (\<lambda>i. (i, Suc i)) xs). x \<le> i \<and> i < y) \<longleftrightarrow> i \<in> set xs" for xs
    by (induction xs) auto
  have tail: "(\<exists>(x, y) \<in> set (if ?n < ?big then [(?n, ?big)] else []). x \<le> i \<and> i < y) \<longleftrightarrow> ?n \<le> i \<and> i < ?big"
    by auto
  have "(\<exists>(x, y) \<in> set (diff_runs a b). x \<le> i \<and> i < y) \<longleftrightarrow> i \<in> set (diff_offsets a b) \<or> (?n \<le> i \<and> i < ?big)"
    unfolding diff_runs_def Let_def set_append bex_Un off tail ..
  then show ?thesis by (auto simp: differs_def diff_offsets_iff)
qed

lemma coalesced_spec:
  "(\<forall>r \<in> set (coalesced gap (diff_runs a b)). dense (differs a b) gap (rg_start r) (rg_end r)) \<and>
   sorted_wrt (\<lambda>r t. rg_end r + gap < rg_start t) (coalesced gap (diff_runs a b)) \<and>
   (\<forall>i. differs a b i \<longrightarrow> (\<exists>r \<in> set (coalesced gap (diff_runs a b)). in_region i r))"
proof (cases "diff_runs a b")
  case Nil
  then show ?thesis by (simp add: diff_runs_cover)
next
  case (Cons r rs)
  obtain s e where r: "r = (s, e)" by force
  have ok: "runs_ok (differs a b) e rs" and se: "s < e" "\<forall>i. s \<le> i \<and> i < e \<longrightarrow> differs a b i"
    using diff_runs_ok [of a b] by (fastforce simp: runs_ok_def Cons r)+
  have "dense (differs a b) gap s e" using se by (auto simp: dense_def intro: exI [of _ i for i])
  from merge_runs_spec [OF this ok] show ?thesis by (simp add: diff_runs_cover Cons r)
qed

lemma length_merge_runs: "length (merge_runs gap s e rs) \<le> Suc (length rs)"
  by (induction gap s e rs rule: merge_runs.induct) auto

lemma length_coalesced: "length (coalesced gap rs) \<le> length rs"
proof (cases rs)
  case (Cons r rs')
  obtain s e where "r = (s, e)" by force
  with Cons length_merge_runs [of gap s e rs'] show ?thesis by simp
qed simp

lemma length_diff_runs: "length (diff_runs a b) \<le> max (length a) (length b)"
proof -
  have "length (diff_offsets a b) \<le> min (length a) (length b)"
    unfolding diff_offsets_def by (rule order_trans [OF length_filter_le]) simp
  then show ?thesis by (auto simp: diff_runs_def Let_def)
qed

section \<open>The older coalescer agrees\<close>

lemma coalesce_region_scan:
  "rc_end c + gap < 2 ^ 64 \<Longrightarrow> coalesce_region gap M s e c = scan_region gap M s e c"
  by (auto simp: coalesce_region_def scan_region_def)

lemma coalesce_loop_out:
  assumes "length (rc_out c) \<le> M" "rc_end c \<le> n" "n + gap < 2 ^ 64" "\<forall>i \<in> set is. i < n"
  shows "\<exists>c'. coalesce_loop a b gap M is c = c' \<and> length (rc_out c') \<le> M \<and> rc_end c' \<le> n \<and>
     (\<forall>rs. take M (pending_regions gap c' rs) =
        take M (pending_regions gap c (map (\<lambda>i. (i, Suc i)) (filter (\<lambda>i. a ! i \<noteq> b ! i) is) @ rs)))"
  using assms
proof (induction "is" arbitrary: c)
  case (Cons i "is")
  show ?case
  proof (cases "length (rc_out c) < M")
    case False
    with Cons.prems show ?thesis by (simp add: pending_regions_def)
  next
    case less: True
    show ?thesis
    proof (cases "a ! i = b ! i")
      case True
      with Cons less show ?thesis by auto
    next
      case False
      let ?c = "scan_region gap M i (i + 1) c"
      have eq: "coalesce_region gap M i (i + 1) c = ?c"
        using Cons.prems by (intro coalesce_region_scan) linarith
      have "rc_end ?c \<le> n" using Cons.prems by (auto simp: scan_region_def begin_region_def)
      with Cons.IH [of ?c] Cons.prems scan_region_pending [of c M gap i "i + 1"] False less eq show ?thesis
        by auto
    qed
  qed
qed simp

lemma CoalesceDiffRegions_result:
  assumes "max (length a) (length b) + gap < 2 ^ 64"
  shows "CoalesceDiffRegions a b gap maxRegions = take maxRegions (coalesced gap (diff_runs a b))"
proof -
  let ?n = "min (length a) (length b)" and ?big = "max (length a) (length b)"
  define c where "c = coalesce_loop a b gap maxRegions [0..<?n] cursor0"
  have "rc_end cursor0 \<le> ?n" by (simp add: cursor0_def)
  then have c: "length (rc_out c) \<le> maxRegions" "rc_end c \<le> ?n"
    "\<And>rs. take maxRegions (pending_regions gap c rs) =
        take maxRegions (coalesced gap (map (\<lambda>i. (i, Suc i)) (diff_offsets a b) @ rs))"
    using coalesce_loop_out [of cursor0 maxRegions ?n gap "[0..<?n]" a b] assms
    by (auto simp: c_def pending_cursor0 diff_offsets_def)
  have fl: "rc_out (flush maxRegions d) = take maxRegions (pending_regions gap d [])"
    if "length (rc_out d) \<le> maxRegions" for d
    using scan_regions_out [OF that, of gap "[]"] by simp
  show ?thesis
  proof (cases "?n < ?big \<and> length (rc_out c) < maxRegions")
    case True
    have "coalesce_region gap maxRegions ?n ?big c = scan_region gap maxRegions ?n ?big c"
      using assms c(2) by (intro coalesce_region_scan) linarith
    with True fl [of "scan_region gap maxRegions ?n ?big c"] scan_region_pending [OF c(1), of gap ?n ?big "[]"] c(3) [of "[(?n, ?big)]"]
    show ?thesis by (simp add: CoalesceDiffRegions_def Let_def diff_runs_def flip: c_def)
  next
    case False
    then have "take maxRegions (pending_regions gap c []) = take maxRegions (coalesced gap (diff_runs a b))"
    proof (cases "?n < ?big")
      case True
      with False c(1) have "take maxRegions (pending_regions gap c rs) = rc_out c" for rs
        by (simp add: pending_regions_def)
      with c(3) True show ?thesis by (metis diff_runs_def)
    qed (use c(3) [of "[]"] in \<open>simp add: diff_runs_def\<close>)
    moreover have "CoalesceDiffRegions a b gap maxRegions = rc_out (flush maxRegions
        (if ?n < ?big \<and> length (rc_out c) < maxRegions then coalesce_region gap maxRegions ?n ?big c else c))"
      by (simp add: CoalesceDiffRegions_def Let_def c_def)
    ultimately show ?thesis unfolding if_not_P [OF False] using fl [OF c(1)] by simp
  qed
qed

section \<open>Properties\<close>

text \<open>C30: an uncancelled scan with an ample region budget reports exactly the differing offsets:
  the total counts them, every differing offset lies in a region, every region starts and ends on a
  differing offset and holds no run of more than \<open>gap\<close> equal bytes, consecutive regions are more than
  \<open>gap\<close> apart, and the samples are the first \<open>maxSamples\<close> differences of the overlap with their bytes.\<close>

theorem ScanByteDifferences_exact:
  assumes "\<forall>k. \<not> cancel k" "max (length a) (length b) \<le> maxRegions"
  shows "case ScanByteDifferences a b gap maxSamples maxRegions cancel of (ok, r, _) \<Rightarrow>
     ok \<and> \<not> cancelled r \<and> totalDiff r = card {i. differs a b i} \<and>
     (\<forall>i. differs a b i \<longrightarrow> (\<exists>x \<in> set (regions r). in_region i x)) \<and>
     (\<forall>x \<in> set (regions r). dense (differs a b) gap (rg_start x) (rg_end x)) \<and>
     sorted_wrt (\<lambda>x y. rg_end x + gap < rg_start y) (regions r) \<and>
     samples r = take maxSamples (map (\<lambda>i. \<lparr>df_offset = i, df_a = a ! i, df_b = b ! i\<rparr>) (diff_offsets a b))"
proof -
  let ?n = "min (length a) (length b)" and ?big = "max (length a) (length b)"
  have "{i. differs a b i} = set (diff_offsets a b) \<union> {?n..<?big}"
    by (auto simp: differs_def diff_offsets_def)
  moreover have "card (set (diff_offsets a b)) = length (diff_offsets a b)"
    by (simp add: distinct_diff_offsets distinct_card)
  moreover have "set (diff_offsets a b) \<inter> {?n..<?big} = {}" by (auto simp: diff_offsets_def)
  ultimately have "card {i. differs a b i} = length (diff_offsets a b) + (?big - ?n)"
    by (simp add: card_Un_disjoint)
  moreover have "take maxRegions (coalesced gap (diff_runs a b)) = coalesced gap (diff_runs a b)"
    by (intro take_all order_trans [OF length_coalesced] order_trans [OF length_diff_runs] assms(2))
  ultimately show ?thesis
    using ScanByteDifferences_result [of cancel a b gap maxSamples maxRegions] assms(1) coalesced_spec [of gap a b]
    by (auto simp: case_prod_unfold)
qed

theorem ScanByteDifferences_exact_witness:
  "totalDiff (fst (snd (ScanByteDifferences [1, 2, 3] [1, 9, 3, 4] 0 5 4 (\<lambda>_. False)))) =
     card {i. differs [1, 2, 3] [1, 9, 3, 4] i}"
  using ScanByteDifferences_exact [of "\<lambda>_. False" "[1, 2, 3]" "[1, 9, 3, 4]" 4 0 5] by (simp add: case_prod_unfold)

text \<open>The two coalescers agree, with the same region budget, whenever the gap cannot push an
  offset past \<open>UINT64_MAX\<close>.\<close>

theorem CoalesceDiffRegions_matches_scan:
  assumes "max (length a) (length b) + gap < 2 ^ 64" "\<forall>k. \<not> cancel k"
  shows "CoalesceDiffRegions a b gap maxRegions =
     regions (fst (snd (ScanByteDifferences a b gap maxSamples maxRegions cancel)))"
  using assms ScanByteDifferences_result(2) [of cancel a b gap maxSamples maxRegions]
  by (simp add: CoalesceDiffRegions_result)

theorem CoalesceDiffRegions_matches_scan_witness:
  "CoalesceDiffRegions [1, 2, 3] [1, 9, 3, 4] 1 7 =
     regions (fst (snd (ScanByteDifferences [1, 2, 3] [1, 9, 3, 4] 1 5 7 (\<lambda>_. False))))"
  using CoalesceDiffRegions_matches_scan [of "[1, 2, 3]" "[1, 9, 3, 4]" 1 "\<lambda>_. False" 7 5] by simp

text \<open>With the largest gap the older coalescer wraps \<open>en + gap\<close> and reports two regions where the
  documented rule (equal gap at most \<open>gap\<close>) merges them into one.\<close>

lemma CoalesceDiffRegions_gap_wraps:
  "CoalesceDiffRegions [1, 0, 1] [2, 0, 2] (2 ^ 64 - 1) 10 =
     [\<lparr>rg_start = 0, rg_end = 1\<rparr>, \<lparr>rg_start = 2, rg_end = 3\<rparr>] \<and>
   regions (fst (snd (ScanByteDifferences [1, 0, 1] [2, 0, 2] (2 ^ 64 - 1) 0 10 (\<lambda>_. False)))) =
     [\<lparr>rg_start = 0, rg_end = 3\<rparr>]"
  by (simp add: CoalesceDiffRegions_def ScanByteDifferences_result(2) diff_runs_def diff_offsets_def
      coalesce_region_def begin_region_def flush_def cursor0_def upt_rec)

end
