(* ===== verification/Patch_Refresh.thy ===== *)
theory Patch_Refresh
  imports Machine
begin

text \<open>
  \<open>src/src/Core/PatchRefresh.h\<close>: accumulation of edited address spans and the debounce
  deadline. Time points and durations are the \<open>int64\<close> tick counts of \<open>steady_clock\<close>, written
  as integers with the clock's limits explicit. An allocation failure inside \<open>merge\<close> (which the
  code catches) is an argument of the event.
\<close>

record PatchRefreshSpan =
  ps_begin :: u64
  ps_end :: u64
  endAtAddressLimit :: bool

definition contains :: "PatchRefreshSpan \<Rightarrow> u64 \<Rightarrow> bool" where
  "contains s address =
     (if address < ps_begin s then False
      else if endAtAddressLimit s then True else address < ps_end s)"

record PatchRefreshRequest =
  rq_fullRefresh :: bool
  rq_spans :: "PatchRefreshSpan list"

definition request_empty :: "PatchRefreshRequest \<Rightarrow> bool" where
  "request_empty r \<longleftrightarrow> \<not> rq_fullRefresh r \<and> rq_spans r = []"

record PatchRefreshDebouncer =
  maxSpans :: nat
  pending :: bool
  fullRefresh :: bool
  deadline :: int
  spans :: "PatchRefreshSpan list"

definition debouncer0 :: "nat \<Rightarrow> PatchRefreshDebouncer" where
  "debouncer0 m = \<lparr>maxSpans = m, pending = False, fullRefresh = False, deadline = 0, spans = []\<rparr>"

definition normalize :: "u64 \<Rightarrow> u64 \<Rightarrow> PatchRefreshSpan" where
  "normalize begin byteCount =
     (let ordinaryRoom = u64_max - begin
      in if byteCount > ordinaryRoom
         then \<lparr>ps_begin = begin, ps_end = u64_max, endAtAddressLimit = True\<rparr>
         else \<lparr>ps_begin = begin, ps_end = begin + byteCount, endAtAddressLimit = False\<rparr>)"

definition strictlyBefore :: "PatchRefreshSpan \<Rightarrow> PatchRefreshSpan \<Rightarrow> bool" where
  "strictlyBefore l r = (if endAtAddressLimit l then False else ps_end l < ps_begin r)"

definition unite :: "PatchRefreshSpan \<Rightarrow> PatchRefreshSpan \<Rightarrow> PatchRefreshSpan" where
  "unite l r =
     (let lim = (endAtAddressLimit l \<or> endAtAddressLimit r)
      in \<lparr>ps_begin = min (ps_begin l) (ps_begin r),
          ps_end = (if lim then u64_max else max (ps_end l) (ps_end r)),
          endAtAddressLimit = lim\<rparr>)"

definition max_ticks :: int where "max_ticks = 2 ^ 63 - 1"

definition saturatingDeadline :: "int \<Rightarrow> int \<Rightarrow> int" where
  "saturatingDeadline now delay =
     (if delay \<le> 0 then now
      else if now > max_ticks - delay then max_ticks
      else now + delay)"

definition arm :: "int \<Rightarrow> int \<Rightarrow> PatchRefreshDebouncer \<Rightarrow> PatchRefreshDebouncer" where
  "arm now debounceDelay s =
     (let candidate = saturatingDeadline now debounceDelay
      in s\<lparr>deadline := (if \<not> pending s \<or> candidate > deadline s then candidate else deadline s),
           pending := True\<rparr>)"

definition promoteToFullRefresh :: "PatchRefreshDebouncer \<Rightarrow> PatchRefreshDebouncer" where
  "promoteToFullRefresh s = s\<lparr>fullRefresh := True, spans := []\<rparr>"

fun merge_loop :: "PatchRefreshSpan list \<Rightarrow> PatchRefreshSpan \<Rightarrow> bool \<Rightarrow> PatchRefreshSpan list \<Rightarrow>
    PatchRefreshSpan list" where
  "merge_loop [] candidate inserted merged = (if \<not> inserted then merged @ [candidate] else merged)"
| "merge_loop (span # rest) candidate inserted merged =
     (if strictlyBefore span candidate then merge_loop rest candidate inserted (merged @ [span])
      else if strictlyBefore candidate span then
        merge_loop rest candidate True ((if \<not> inserted then merged @ [candidate] else merged) @ [span])
      else merge_loop rest (unite candidate span) inserted merged)"

text \<open>\<open>alloc\<close>: whether the reservation of the merged vector succeeds. On failure \<open>noteSpan\<close>
  catches the exception and promotes.\<close>

definition merge :: "bool \<Rightarrow> PatchRefreshSpan \<Rightarrow> PatchRefreshDebouncer \<Rightarrow> PatchRefreshDebouncer" where
  "merge alloc candidate s =
     (if length (spans s) = 2 ^ 64 - 1 then promoteToFullRefresh s
      else if \<not> alloc then promoteToFullRefresh s
      else
        let merged = merge_loop (spans s) candidate False []
        in if length merged > maxSpans s then promoteToFullRefresh s
           else s\<lparr>spans := merged\<rparr>)"

definition noteSpan :: "bool \<Rightarrow> u64 \<Rightarrow> u64 \<Rightarrow> int \<Rightarrow> int \<Rightarrow> PatchRefreshDebouncer \<Rightarrow> PatchRefreshDebouncer" where
  "noteSpan alloc begin byteCount now debounceDelay s =
     (if byteCount = 0 then s
      else
        let s1 = arm now debounceDelay s
        in if fullRefresh s1 then s1 else merge alloc (normalize begin byteCount) s1)"

definition noteUnknown :: "int \<Rightarrow> int \<Rightarrow> PatchRefreshDebouncer \<Rightarrow> PatchRefreshDebouncer" where
  "noteUnknown now debounceDelay s = promoteToFullRefresh (arm now debounceDelay s)"

definition due :: "int \<Rightarrow> PatchRefreshDebouncer \<Rightarrow> bool" where
  "due now s \<longleftrightarrow> pending s \<and> now \<ge> deadline s"

definition reset :: "PatchRefreshDebouncer \<Rightarrow> PatchRefreshDebouncer" where
  "reset s = s\<lparr>pending := False, fullRefresh := False, deadline := 0, spans := []\<rparr>"

definition take_request :: "PatchRefreshDebouncer \<Rightarrow> PatchRefreshRequest \<times> PatchRefreshDebouncer" where
  "take_request s =
     (\<lparr>rq_fullRefresh = fullRefresh s, rq_spans = spans s\<rparr>,
      s\<lparr>pending := False, fullRefresh := False, deadline := 0, spans := []\<rparr>)"

section \<open>Spans as sets of addresses\<close>

text \<open>The exclusive end of a span as a natural number, \<open>2^64\<close> included.\<close>

definition limit :: "PatchRefreshSpan \<Rightarrow> nat" where
  "limit s = (if endAtAddressLimit s then 2 ^ 64 else unat (ps_end s))"

definition span_ok :: "PatchRefreshSpan \<Rightarrow> bool" where
  "span_ok s \<longleftrightarrow> (endAtAddressLimit s \<longrightarrow> ps_end s = u64_max) \<and> unat (ps_begin s) < limit s"

definition covers :: "PatchRefreshSpan list \<Rightarrow> u64 \<Rightarrow> bool" where
  "covers ss a \<longleftrightarrow> (\<exists>s \<in> set ss. contains s a)"

lemma contains_iff: "contains s a \<longleftrightarrow> unat (ps_begin s) \<le> unat a \<and> unat a < limit s"
  using unat_u64_lt [of a] by (auto simp: contains_def limit_def word_less_nat_alt)

lemma normalize_contains:
  "contains (normalize b n) a \<longleftrightarrow> unat b \<le> unat a \<and> unat a < unat b + unat n"
  using unat_u64_lt [of a] add_guard [of b n]
  by (auto simp: normalize_def Let_def contains_iff limit_def unat_add_no_wrap)

lemma normalize_ok: "n \<noteq> 0 \<Longrightarrow> span_ok (normalize b n)"
  using unat_u64_lt [of b] add_guard [of b n] unat_gt_0 [of n]
  by (auto simp: normalize_def Let_def span_ok_def limit_def unat_add_no_wrap)

lemma strictlyBefore_iff: "strictlyBefore l r \<longleftrightarrow> limit l < unat (ps_begin r)"
  using unat_u64_lt [of "ps_begin r"] by (auto simp: strictlyBefore_def limit_def word_less_nat_alt)

lemma unat_min_max: "unat (min a b :: u64) = min (unat a) (unat b)" "unat (max a b :: u64) = max (unat a) (unat b)"
  by (auto simp: min_def max_def word_le_nat_alt)

lemma unite_ends:
  "unat (ps_begin (unite l r)) = min (unat (ps_begin l)) (unat (ps_begin r))"
  "limit (unite l r) = max (limit l) (limit r)"
  using unat_u64_lt [of "ps_end l"] unat_u64_lt [of "ps_end r"]
  by (auto simp: unite_def Let_def limit_def unat_min_max)

lemma unite_ok: "span_ok l \<Longrightarrow> span_ok r \<Longrightarrow> span_ok (unite l r)"
  unfolding span_ok_def unite_ends by (auto simp: unite_def Let_def)

lemma unite_contains:
  "\<not> strictlyBefore l r \<Longrightarrow> \<not> strictlyBefore r l \<Longrightarrow>
     contains (unite l r) a \<longleftrightarrow> contains l a \<or> contains r a"
  unfolding contains_iff strictlyBefore_iff unite_ends by auto

definition separated :: "PatchRefreshSpan list \<Rightarrow> bool" where
  "separated ss \<longleftrightarrow> sorted_wrt (\<lambda>l r. limit l < unat (ps_begin r)) ss \<and> (\<forall>s \<in> set ss. span_ok s)"

text \<open>The loop of \<open>merge\<close> inserts the candidate and absorbs every span it overlaps or touches.\<close>

fun insert_span :: "PatchRefreshSpan list \<Rightarrow> PatchRefreshSpan \<Rightarrow> PatchRefreshSpan list" where
  "insert_span [] c = [c]"
| "insert_span (s # ss) c =
     (if strictlyBefore s c then s # insert_span ss c
      else if strictlyBefore c s then c # s # ss
      else insert_span ss (unite c s))"

lemma merge_loop_inserted:
  "\<forall>s \<in> set ss. strictlyBefore c s \<and> \<not> strictlyBefore s c \<Longrightarrow> merge_loop ss c True acc = acc @ ss"
  by (induction ss arbitrary: acc) auto

lemma separated_Cons:
  "separated (s # ss) \<longleftrightarrow> span_ok s \<and> (\<forall>t \<in> set ss. limit s < unat (ps_begin t)) \<and> separated ss"
  by (auto simp: separated_def)

lemma merge_loop_insert:
  "separated ss \<Longrightarrow> span_ok c \<Longrightarrow> merge_loop ss c False acc = acc @ insert_span ss c"
proof (induction ss arbitrary: c acc)
  case (Cons s ss)
  show ?case
  proof (cases "\<not> strictlyBefore s c \<and> strictlyBefore c s")
    case True
    have "strictlyBefore c t \<and> \<not> strictlyBefore t c" if "t \<in> set ss" for t
    proof -
      have "limit s < unat (ps_begin t)" "unat (ps_begin s) < limit s" "span_ok t"
        using that Cons.prems(1) by (auto simp: separated_def span_ok_def)
      with True show ?thesis by (auto simp: strictlyBefore_iff span_ok_def)
    qed
    with True show ?thesis by (simp add: merge_loop_inserted)
  next
    case False
    with Cons show ?thesis by (auto simp: separated_Cons unite_ok)
  qed
qed simp

lemma insert_span_lower:
  "\<forall>t \<in> set ss. m < unat (ps_begin t) \<Longrightarrow> m < unat (ps_begin c) \<Longrightarrow>
     \<forall>t \<in> set (insert_span ss c). m < unat (ps_begin t)"
proof (induction ss arbitrary: c)
  case (Cons s ss)
  then have "m < unat (ps_begin (unite c s))" by (simp add: unite_ends)
  with Cons show ?case by simp
qed simp

lemma covers_Cons: "covers (s # ss) a \<longleftrightarrow> contains s a \<or> covers ss a"
  by (auto simp: covers_def)

lemma insert_span_spec:
  assumes "separated ss" "span_ok c"
  shows "separated (insert_span ss c) \<and> (\<forall>a. covers (insert_span ss c) a \<longleftrightarrow> covers ss a \<or> contains c a)"
  using assms
proof (induction ss arbitrary: c)
  case Nil
  then show ?case by (simp add: separated_def covers_def)
next
  case (Cons s ss)
  consider "strictlyBefore s c" | "\<not> strictlyBefore s c" "strictlyBefore c s" |
    "\<not> strictlyBefore s c" "\<not> strictlyBefore c s" by blast
  then show ?case
  proof cases
    case 1
    have sep: "span_ok s" "\<forall>t \<in> set ss. limit s < unat (ps_begin t)" "separated ss"
      using Cons.prems(1) by (simp_all add: separated_Cons)
    with insert_span_lower [of ss "limit s" c] 1 Cons.IH [OF sep(3) Cons.prems(2)] show ?thesis
      by (simp add: separated_Cons strictlyBefore_iff covers_Cons)
  next
    case 2
    then have "\<forall>t \<in> set ss. limit c < unat (ps_begin t)"
      using Cons.prems(1) by (fastforce simp: separated_Cons strictlyBefore_iff span_ok_def)
    with 2 Cons.prems show ?thesis by (auto simp: separated_Cons strictlyBefore_iff covers_Cons)
  next
    case 3
    with Cons.IH [of "unite c s"] Cons.prems show ?thesis
      by (auto simp: separated_Cons unite_ok unite_contains covers_Cons)
  qed
qed

section \<open>The debouncer as a machine\<close>

datatype refresh_event =
    NoteSpan bool u64 u64 int int
  | NoteUnknown int int

fun refresh_step :: "refresh_event \<Rightarrow> PatchRefreshDebouncer \<Rightarrow> PatchRefreshDebouncer" where
  "refresh_step (NoteSpan alloc b n now delay) s = noteSpan alloc b n now delay s"
| "refresh_step (NoteUnknown now delay) s = noteUnknown now delay s"

definition refresh_inv :: "PatchRefreshDebouncer \<Rightarrow> bool" where
  "refresh_inv s \<longleftrightarrow> separated (spans s) \<and> length (spans s) \<le> maxSpans s \<and>
     (fullRefresh s \<longrightarrow> spans s = []) \<and> (\<not> pending s \<longrightarrow> spans s = [] \<and> \<not> fullRefresh s)"

text \<open>How many spans a set of addresses needs: one for each address that starts a run.\<close>

definition run_starts :: "u64 set \<Rightarrow> u64 set" where
  "run_starts A = {a \<in> A. a = 0 \<or> a - 1 \<notin> A}"

lemma separated_pair:
  assumes "separated ss" "s \<in> set ss" "t \<in> set ss"
  shows "s = t \<or> limit s < unat (ps_begin t) \<or> limit t < unat (ps_begin s)"
  using assms by (induction ss) (auto simp: separated_Cons)

lemma unat_before: "(a :: u64) \<noteq> 0 \<Longrightarrow> unat (a - 1) = unat a - 1"
  using unat_gt_0 [of a] by (simp add: unat_minus_one)

lemma separated_starts:
  assumes "separated ss"
  shows "run_starts {a. covers ss a} = ps_begin ` set ss"
proof
  show "run_starts {a. covers ss a} \<subseteq> ps_begin ` set ss"
  proof
    fix a assume a: "a \<in> run_starts {a. covers ss a}"
    then obtain s where s: "s \<in> set ss" "unat (ps_begin s) \<le> unat a" "unat a < limit s"
      by (auto simp: run_starts_def covers_def contains_iff)
    have "ps_begin s = a"
    proof (rule ccontr)
      assume "ps_begin s \<noteq> a"
      with s have less: "unat (ps_begin s) < unat a" by (simp add: le_less word_unat_eq_iff)
      then have "a \<noteq> 0" by auto
      have "unat (ps_begin s) \<le> unat (a - 1)" "unat (a - 1) < limit s"
        using less s(3) unfolding unat_before [OF \<open>a \<noteq> 0\<close>] by linarith+
      with s(1) have "covers ss (a - 1)" by (auto simp: covers_def contains_iff)
      with a \<open>a \<noteq> 0\<close> show False by (simp add: run_starts_def)
    qed
    with s(1) show "a \<in> ps_begin ` set ss" by blast
  qed
  show "ps_begin ` set ss \<subseteq> run_starts {a. covers ss a}"
  proof
    fix a assume "a \<in> ps_begin ` set ss"
    then obtain s where s: "s \<in> set ss" "a = ps_begin s" by blast
    then have ok: "unat a < limit s" using assms by (simp add: separated_def span_ok_def)
    have "\<not> contains t (a - 1)" if "a \<noteq> 0" "t \<in> set ss" for t
      using separated_pair [OF assms s(1) that(2)] that(1) s(2) ok unat_gt_0 [of a]
      by (auto simp: contains_iff unat_before)
    with ok s show "a \<in> run_starts {a. covers ss a}"
      by (auto simp: run_starts_def covers_def contains_iff)
  qed
qed

lemma separated_distinct: "separated ss \<Longrightarrow> distinct (map ps_begin ss)"
  by (induction ss) (fastforce simp: separated_Cons span_ok_def)+

lemma separated_card: "separated ss \<Longrightarrow> card (run_starts {a. covers ss a}) = length ss"
  using separated_starts separated_distinct distinct_card [of "map ps_begin ss"] by fastforce

text \<open>Spans that do not touch take two addresses each, so there are never \<open>2^64 - 1\<close> of them.\<close>

lemma separated_short: "separated ss \<Longrightarrow> \<forall>s \<in> set ss. m \<le> unat (ps_begin s) \<Longrightarrow> m \<le> 2 ^ 64 \<Longrightarrow> m + 2 * length ss \<le> 2 ^ 64 + 1"
proof (induction ss arbitrary: m)
  case (Cons s ss)
  then have s: "m \<le> unat (ps_begin s)" "unat (ps_begin s) < limit s" "\<forall>t \<in> set ss. limit s < unat (ps_begin t)"
    by (auto simp: separated_Cons span_ok_def)
  have "unat (ps_begin s) + 1 \<le> 2 ^ 64" using unat_u64_lt [of "ps_begin s"] by simp
  show ?case
  proof (cases ss)
    case Nil
    with s(1) \<open>unat (ps_begin s) + 1 \<le> 2 ^ 64\<close> show ?thesis by simp
  next
    case (Cons t ts)
    then have "m + 2 \<le> 2 ^ 64" using s unat_u64_lt [of "ps_begin t"] by auto
    moreover have "\<forall>t \<in> set ss. m + 2 \<le> unat (ps_begin t)" using s by fastforce
    ultimately show ?thesis using Cons.IH [of "m + 2"] Cons.prems(1) by (auto simp: separated_Cons)
  qed
qed simp

text \<open>The abstract state: the addresses edited, whether the edits can only be answered by a full refresh, and the
  latest of the requested deadlines. An edit nobody can describe, an allocation that fails, and a set of
  addresses that needs more spans than the budget make the refresh full, and nothing takes that back.\<close>

record observed =
  ob_budget :: nat
  ob_full :: bool
  ob_addrs :: "u64 set"
  ob_deadline :: "int option"

definition observe :: "bool \<Rightarrow> u64 set \<Rightarrow> int \<Rightarrow> int \<Rightarrow> observed \<Rightarrow> observed" where
  "observe lost A now delay o1 =
     (let d = (if delay \<le> 0 then now else min (now + delay) max_ticks)
      in \<lparr>ob_budget = ob_budget o1,
          ob_full = (ob_full o1 \<or> lost \<or> card (run_starts (ob_addrs o1 \<union> A)) > ob_budget o1),
          ob_addrs = ob_addrs o1 \<union> A,
          ob_deadline = Some (case ob_deadline o1 of None \<Rightarrow> d | Some d' \<Rightarrow> max d' d)\<rparr>)"

fun observe_step :: "refresh_event \<Rightarrow> observed \<Rightarrow> observed" where
  "observe_step (NoteSpan alloc b n now delay) o1 =
     (if n = 0 then o1 else observe (\<not> alloc) {a. unat b \<le> unat a \<and> unat a < unat b + unat n} now delay o1)"
| "observe_step (NoteUnknown now delay) o1 = observe True {} now delay o1"

definition refresh_rel :: "PatchRefreshDebouncer \<Rightarrow> observed \<Rightarrow> bool" where
  "refresh_rel s o1 \<longleftrightarrow> ob_budget o1 = maxSpans s \<and> (fullRefresh s \<longleftrightarrow> ob_full o1) \<and>
     (\<not> fullRefresh s \<longrightarrow> (\<forall>a. covers (spans s) a \<longleftrightarrow> a \<in> ob_addrs o1)) \<and>
     ob_deadline o1 = (if pending s then Some (deadline s) else None)"

lemma arm_simps [simp]:
  "spans (arm now d s) = spans s" "fullRefresh (arm now d s) = fullRefresh s"
  "maxSpans (arm now d s) = maxSpans s" "pending (arm now d s)"
  by (simp_all add: arm_def Let_def)

lemma promote_simps [simp]:
  "spans (promoteToFullRefresh s) = []" "fullRefresh (promoteToFullRefresh s)"
  "maxSpans (promoteToFullRefresh s) = maxSpans s" "pending (promoteToFullRefresh s) = pending s"
  "deadline (promoteToFullRefresh s) = deadline s"
  by (simp_all add: promoteToFullRefresh_def)

lemma merge_simps [simp]:
  "pending (merge alloc c s) = pending s" "deadline (merge alloc c s) = deadline s"
  "maxSpans (merge alloc c s) = maxSpans s"
  by (simp_all add: merge_def Let_def)

lemma merge_spans:
  assumes "separated (spans s)" "span_ok c"
  shows "if alloc \<and> length (insert_span (spans s) c) \<le> maxSpans s
    then spans (merge alloc c s) = insert_span (spans s) c \<and> fullRefresh (merge alloc c s) = fullRefresh s
    else fullRefresh (merge alloc c s) \<and> spans (merge alloc c s) = []"
proof -
  have "length (spans s) \<noteq> 2 ^ 64 - 1" using separated_short [OF assms(1), of 0] by auto
  then show ?thesis using merge_loop_insert [OF assms, of "[]"] by (auto simp: merge_def Let_def)
qed

lemma deadline_arm:
  "deadline (arm now delay s) =
     (let d = (if delay \<le> 0 then now else min (now + delay) max_ticks)
      in if pending s then max (deadline s) d else d)"
  by (auto simp: arm_def saturatingDeadline_def Let_def)

lemma separated_Nil [simp]: "separated []"
  by (simp add: separated_def)

lemma refresh_step_inv [inv_intros]: "refresh_inv s \<Longrightarrow> refresh_inv (refresh_step e s)"
proof (cases e)
  case (NoteSpan alloc b n now delay)
  assume inv: "refresh_inv s"
  show ?thesis
  proof (cases "n = 0 \<or> fullRefresh s")
    case True
    with inv NoteSpan show ?thesis by (auto simp: refresh_inv_def noteSpan_def)
  next
    case False
    with inv have sep: "separated (spans (arm now delay s))" by (simp add: refresh_inv_def)
    from False have n: "n \<noteq> 0" by simp
    from merge_spans [OF sep normalize_ok [OF n], of alloc b] insert_span_spec [OF sep normalize_ok [OF n], of b]
      inv NoteSpan False
    show ?thesis by (auto simp: refresh_inv_def noteSpan_def Let_def split: if_splits)
  qed
next
  case (NoteUnknown now delay)
  assume "refresh_inv s"
  with NoteUnknown show ?thesis by (simp add: refresh_inv_def noteUnknown_def)
qed

lemma refresh_step_sim:
  assumes "refresh_inv s" "refresh_rel s o1"
  shows "refresh_rel (refresh_step e s) (observe_step e o1)"
proof (cases e)
  case (NoteSpan alloc b n now delay)
  let ?t = "arm now delay s" and ?c = "normalize b n"
  show ?thesis
  proof (cases "n = 0")
    case True
    with assms NoteSpan show ?thesis by (simp add: noteSpan_def)
  next
    case False
    let ?A = "{a. unat b \<le> unat a \<and> unat a < unat b + unat n}"
    have dl: "ob_deadline (observe l A now delay o1) = Some (deadline ?t)" for l A
      using assms(2) by (auto simp: observe_def deadline_arm refresh_rel_def Let_def)
    have sep: "separated (spans ?t)" using assms(1) by (simp add: refresh_inv_def)
    note ins = insert_span_spec [OF sep normalize_ok [OF False, of b]] and
      merged = merge_spans [OF sep normalize_ok [OF False, of b], of alloc]
    show ?thesis
    proof (cases "fullRefresh s")
      case True
      with False NoteSpan dl assms(2) show ?thesis
        by (simp add: refresh_rel_def noteSpan_def Let_def) (simp add: observe_def Let_def)
    next
      case precise: False
      then have A: "{a. covers (insert_span (spans ?t) ?c) a} = ob_addrs o1 \<union> ?A"
        using ins assms(2) by (auto simp: refresh_rel_def normalize_contains)
      have card: "card (run_starts (ob_addrs o1 \<union> ?A)) = length (insert_span (spans ?t) ?c)"
        using separated_card ins unfolding A [symmetric] by blast
      have "covers (insert_span (spans ?t) ?c) a \<longleftrightarrow> a \<in> ob_addrs o1 \<union> ?A" for a
        using A by blast
      with card merged False precise NoteSpan dl assms(2) show ?thesis
        by (simp add: refresh_rel_def noteSpan_def Let_def not_le split: if_splits)
          (auto simp: observe_def Let_def not_le)
    qed
  qed
next
  case (NoteUnknown now delay)
  with assms show ?thesis
    by (auto simp: refresh_rel_def noteUnknown_def observe_def deadline_arm Let_def)
qed

interpretation refresher: refinement refresh_step refresh_inv observe_step refresh_rel
  by unfold_locales (auto intro: refresh_step_inv refresh_step_sim)

lemma debouncer_reset_inv [inv_intros]: "refresh_inv (reset s)" "refresh_inv (snd (take_request s))"
  by (simp_all add: refresh_inv_def reset_def take_request_def)

definition nothing_observed :: "nat \<Rightarrow> observed" where
  "nothing_observed m = \<lparr>ob_budget = m, ob_full = False, ob_addrs = {}, ob_deadline = None\<rparr>"

lemma debouncer0_ok: "refresh_inv (debouncer0 m)" "refresh_rel (debouncer0 m) (nothing_observed m)"
  by (simp_all add: refresh_inv_def refresh_rel_def debouncer0_def nothing_observed_def covers_def)

section \<open>Properties\<close>

text \<open>C29: whatever edits are noted, in whatever order and whether or not allocations fail, the request taken
  afterwards is a full refresh exactly when it has to be: when an unknown edit was among them, an allocation
  failed, or the addresses edited so far at some point needed more spans than the budget. Otherwise it covers
  exactly the edited addresses. Its spans are sorted, pairwise non-touching and within the budget, a full
  request has none, and taking it leaves nothing pending.\<close>

theorem PatchRefreshDebouncer_request_exact:
  "case (take_request (fold refresh_step es (debouncer0 m)), fold observe_step es (nothing_observed m)) of
     ((rq, s), seen) \<Rightarrow>
     rq_fullRefresh rq = ob_full seen \<and>
     (if ob_full seen then rq_spans rq = [] else \<forall>a. covers (rq_spans rq) a \<longleftrightarrow> a \<in> ob_addrs seen) \<and>
     separated (rq_spans rq) \<and> length (rq_spans rq) \<le> m \<and> \<not> pending s \<and> request_empty (fst (take_request s))"
proof -
  have "maxSpans (fold refresh_step es (debouncer0 m)) = m"
  proof (rule refresher.run_induct [of _ "\<lambda>s. maxSpans s = m"])
    fix t :: PatchRefreshDebouncer and e assume "maxSpans t = m"
    then show "maxSpans (refresh_step e t) = m"
      by (cases e) (simp_all add: noteSpan_def noteUnknown_def Let_def)
  qed (use debouncer0_ok in \<open>simp_all add: debouncer0_def\<close>)
  with refresher.run_refines [OF debouncer0_ok, of es m] show ?thesis
    by (auto simp: take_request_def refresh_inv_def refresh_rel_def request_empty_def)
qed

text \<open>The debounce deadline is the latest of the (saturated) deadlines requested since the last
  consumption, never an earlier one, and a zero-length edit neither creates nor extends it.\<close>

theorem PatchRefreshDebouncer_deadline:
  "due now (fold refresh_step es (debouncer0 m)) \<longleftrightarrow>
     (case ob_deadline (fold observe_step es (nothing_observed m)) of None \<Rightarrow> False | Some d \<Rightarrow> d \<le> now)"
  using refresher.run_sim [OF debouncer0_ok, of es m] by (simp add: due_def refresh_rel_def)

end
