(* ===== verification/Listing_Index.thy ===== *)
theory Listing_Index
  imports Machine Address_Span "HOL-Library.Product_Lexorder"
begin

unbundle bit_operations_syntax

text \<open>
  \<open>src/src/Core/ListingVirtualIndex.h\<close>: the Fenwick tree behind virtualised listings. Row counts
  and addresses are \<open>u64\<close>; indices are natural numbers. The position \<open>i & (~i + 1)\<close> is written on
  unbounded integers, which agrees with \<open>size_t\<close> for every index of a container. The power of
  two \<open>step\<close> is represented by its exponent.
\<close>

record VirtualListingItem =
  it_rows :: u64
  address :: u64
  byteSize :: u64

record Location =
  lc_item :: nat
  localRow :: u64

record ListingVirtualIndex =
  items :: "VirtualListingItem list"
  bit_tree :: "u64 list"
  addressOrder :: "nat list"
  addressPrefixMaxEnd :: "u64 list"

definition clear :: "ListingVirtualIndex \<Rightarrow> ListingVirtualIndex" where
  "clear x = x\<lparr>items := [], bit_tree := [], addressOrder := [], addressPrefixMaxEnd := []\<rparr>"

definition lowbit :: "nat \<Rightarrow> nat" where
  "lowbit i = nat (int i AND (NOT (int i) + 1))"

lemma int_lowbit: "(x * 2 ^ k :: int) AND - (x * 2 ^ k) = 2 ^ k" if "odd x"
proof -
  from that obtain q where q: "x = 2 * q + 1" by (metis oddE)
  have neg: "- x = NOT (2 * q)" by (simp add: q not_eq_complement)
  have "x AND - x = 1"
  proof (rule bit_eqI)
    fix n
    show "bit (x AND - x) n \<longleftrightarrow> bit (1 :: int) n"
    proof (cases n)
      case 0
      then show ?thesis unfolding neg q by (simp add: bit_0 even_and_iff)
    next
      case (Suc m)
      have e: "bit (2 * q + 1) (Suc m) = bit q m" "bit (2 * q) (Suc m) = bit q m" by (simp_all add: bit_Suc)
      have "bit ((2 * q + 1) AND NOT (2 * q)) (Suc m) \<longleftrightarrow> False" by (simp only: bit_and_iff bit_not_iff e) blast
      then show ?thesis unfolding neg unfolding q Suc by (simp only: bit_1_iff nat.distinct simp_thms)
    qed
  qed
  have "(x * 2 ^ k) AND - (x * 2 ^ k) = push_bit k x AND push_bit k (- x)"
    by (simp add: push_bit_eq_mult)
  also have "\<dots> = push_bit k (x AND - x)" by simp
  also have "\<dots> = 2 ^ k" using \<open>x AND - x = 1\<close> by (simp add: push_bit_eq_mult)
  finally show ?thesis .
qed

lemma lowbit_odd: "lowbit ((2 * q + 1) * 2 ^ k) = 2 ^ k"
proof -
  have "int ((2 * q + 1) * 2 ^ k) = (2 * int q + 1) * 2 ^ k" by (simp add: algebra_simps)
  moreover have "NOT y + 1 = - y" for y :: int by (simp add: not_int_def)
  ultimately show ?thesis using int_lowbit [of "2 * int q + 1" k] by (simp add: lowbit_def)
qed

lemma odd_times_power:
  fixes i :: nat
  assumes "0 < i"
  obtains q k where "i = (2 * q + 1) * 2 ^ k"
  using assms
proof (induction i arbitrary: thesis rule: less_induct)
  case (less i)
  show ?case
  proof (cases "even i")
    case True
    then obtain h where h: "i = 2 * h" by (rule evenE)
    with less.prems(2) obtain q k where "h = (2 * q + 1) * 2 ^ k" using less.IH [of h] by auto
    with h have "i = (2 * q + 1) * 2 ^ Suc k" by simp
    then show ?thesis by (rule less.prems(1))
  next
    case False
    then obtain q where "i = 2 * q + 1" by (rule oddE)
    then have "i = (2 * q + 1) * 2 ^ 0" by simp
    then show ?thesis by (rule less.prems(1))
  qed
qed

lemma lowbit_bounds: "0 < i \<Longrightarrow> 0 < lowbit i \<and> lowbit i \<le> i"
proof (erule odd_times_power)
  fix q k assume i: "i = (2 * q + 1) * 2 ^ k"
  show "0 < lowbit i \<and> lowbit i \<le> i" unfolding i lowbit_odd by simp
qed

lemma lowbit_dvd: "0 < i \<Longrightarrow> 2 ^ k dvd i \<Longrightarrow> 2 ^ k \<le> lowbit i"
proof (erule odd_times_power)
  fix q m assume d: "2 ^ k dvd i" and i: "i = (2 * q + 1) * 2 ^ m"
  have "k \<le> m"
  proof (rule ccontr)
    assume "\<not> k \<le> m"
    then have "2 ^ Suc m dvd i" using d by (meson dvd_trans le_imp_power_dvd not_less_eq_eq)
    then have "2 * 2 ^ m dvd (2 * q + 1) * 2 ^ m" by (simp only: i power_Suc)
    then have "2 dvd 2 * q + 1" by (subst (asm) dvd_times_right_cancel_iff) simp_all
    then show False by simp
  qed
  then show "2 ^ k \<le> lowbit i" by (simp only: i lowbit_odd power_increasing)
qed

lemma lowbit_next:
  assumes "0 < i"
  shows "(i + lowbit i) - lowbit (i + lowbit i) \<le> i - lowbit i"
proof -
  from assms obtain q k where i: "i = (2 * q + 1) * 2 ^ k" by (rule odd_times_power)
  then have l: "lowbit i = 2 ^ k" by (simp only: lowbit_odd)
  have "i + lowbit i = (q + 1) * 2 ^ Suc k" unfolding l by (simp add: i algebra_simps)
  then have "2 ^ Suc k \<le> lowbit (i + lowbit i)" using assms by (intro lowbit_dvd) auto
  then show ?thesis using l by simp
qed

lemma lowbit_between:
  assumes "0 < i" "i < j" "j < i + lowbit i"
  shows "i \<le> j - lowbit j"
proof -
  from assms(1) obtain q k where i: "i = (2 * q + 1) * 2 ^ k" by (rule odd_times_power)
  then have l: "lowbit i = 2 ^ k" by (simp only: lowbit_odd)
  from assms(2) have "0 < j - i" by simp
  then obtain s m where r: "j - i = (2 * s + 1) * 2 ^ m" by (rule odd_times_power)
  have "(2 :: nat) ^ m \<le> j - i" unfolding r by simp
  also have "\<dots> < 2 ^ k" using assms(2,3) l by linarith
  finally have "m < k" by simp
  then obtain d where k: "k = m + Suc d" by (metis less_iff_Suc_add add_Suc_right)
  have "j = i + (2 * s + 1) * 2 ^ m" using assms(2) r by linarith
  also have "\<dots> = (2 * ((2 * q + 1) * 2 ^ d + s) + 1) * 2 ^ m"
    unfolding i k by (simp add: power_add algebra_simps)
  finally have "lowbit j = 2 ^ m" by (simp only: lowbit_odd)
  with \<open>(2 :: nat) ^ m \<le> j - i\<close> assms(2) show ?thesis by linarith
qed

lemma lowbit_add_step: "2 ^ Suc k dvd i \<Longrightarrow> lowbit (i + 2 ^ k) = 2 ^ k"
proof (erule dvdE)
  fix q assume "i = 2 ^ Suc k * q"
  then have "i + 2 ^ k = (2 * q + 1) * 2 ^ k" by (simp add: algebra_simps)
  then show ?thesis by (simp only: lowbit_odd)
qed

section \<open>Operations\<close>

function tree_add :: "u64 \<Rightarrow> nat \<Rightarrow> u64 list \<Rightarrow> u64 list" where
  "tree_add delta i b =
     (if 0 < i \<and> i < length b then tree_add delta (i + lowbit i) (b[i := b ! i + delta]) else b)"
  by pat_completeness auto
termination
  by (relation "measure (\<lambda>(delta, i, b). length b - i)") (auto dest: lowbit_bounds simp: diff_less_mono2)

function tree_sub :: "u64 \<Rightarrow> nat \<Rightarrow> u64 list \<Rightarrow> u64 list" where
  "tree_sub delta i b =
     (if 0 < i \<and> i < length b then tree_sub delta (i + lowbit i) (b[i := b ! i - delta]) else b)"
  by pat_completeness auto
termination
  by (relation "measure (\<lambda>(delta, i, b). length b - i)") (auto dest: lowbit_bounds simp: diff_less_mono2)

function prefix_sum :: "u64 list \<Rightarrow> nat \<Rightarrow> u64" where
  "prefix_sum b i = (if i = 0 then 0 else b ! i + prefix_sum b (i - lowbit i))"
  by pat_completeness auto
termination
  by (relation "measure snd") (auto dest: lowbit_bounds)

declare tree_add.simps [simp del] tree_sub.simps [simp del] prefix_sum.simps [simp del]

text \<open>\<open>add\<close>/\<open>sub\<close> start at \<open>item + 1\<close>, so the guard \<open>0 < i\<close> never fails there.\<close>

definition prefixRows :: "ListingVirtualIndex \<Rightarrow> nat \<Rightarrow> u64" where
  "prefixRows x count = prefix_sum (bit_tree x) (min count (length (items x)))"

definition add_rows :: "nat \<Rightarrow> u64 \<Rightarrow> ListingVirtualIndex \<Rightarrow> ListingVirtualIndex" where
  "add_rows item delta x = x\<lparr>bit_tree := tree_add delta (item + 1) (bit_tree x)\<rparr>"

definition sub_rows :: "nat \<Rightarrow> u64 \<Rightarrow> ListingVirtualIndex \<Rightarrow> ListingVirtualIndex" where
  "sub_rows item delta x = x\<lparr>bit_tree := tree_sub delta (item + 1) (bit_tree x)\<rparr>"

definition totalRows :: "ListingVirtualIndex \<Rightarrow> u64" where
  "totalRows x = prefixRows x (length (items x))"

definition index_empty :: "ListingVirtualIndex \<Rightarrow> bool" where
  "index_empty x \<longleftrightarrow> items x = [] \<or> totalRows x = 0"

definition rows :: "ListingVirtualIndex \<Rightarrow> nat \<Rightarrow> u64" where
  "rows x item = (if item < length (items x) then it_rows (items x ! item) else 0)"

definition rowOfItem :: "ListingVirtualIndex \<Rightarrow> nat \<Rightarrow> u64" where
  "rowOfItem x item = prefixRows x (min item (length (items x)))"

text \<open>\<open>reset\<close>: the first loop, the stable sort (address ascending, size descending), the running
  maximum of the spans' last addresses.\<close>

fun reset_loop :: "nat \<Rightarrow> VirtualListingItem list \<Rightarrow> u64 list \<Rightarrow> nat list \<Rightarrow> u64 list \<times> nat list" where
  "reset_loop i [] b order = (b, order)"
| "reset_loop i (it # its) b order =
     reset_loop (i + 1) its (tree_add (it_rows it) (i + 1) b)
       (if byteSize it \<noteq> 0 then order @ [i] else order)"

definition order_key :: "VirtualListingItem list \<Rightarrow> nat \<Rightarrow> nat \<times> nat" where
  "order_key its i = (unat (address (its ! i)), 2 ^ 64 - unat (byteSize (its ! i)))"

fun prefix_max :: "VirtualListingItem list \<Rightarrow> u64 \<Rightarrow> nat list \<Rightarrow> u64 list" where
  "prefix_max its maxLast [] = []"
| "prefix_max its maxLast (i # order) =
     (let span = its ! i;
          last1 = SaturatingAddressAdd (address span) (byteSize span - 1);
          m = max maxLast last1
      in m # prefix_max its m order)"

definition reset :: "VirtualListingItem list \<Rightarrow> ListingVirtualIndex" where
  "reset its =
     (let (b, order) = reset_loop 0 its (replicate (length its + 1) 0) [];
          sorted_order = sort_key (order_key its) order
      in \<lparr>items = its, bit_tree = b, addressOrder = sorted_order,
          addressPrefixMaxEnd = prefix_max its 0 sorted_order\<rparr>)"

definition updateRows :: "nat \<Rightarrow> u64 \<Rightarrow> ListingVirtualIndex \<Rightarrow> bool \<times> ListingVirtualIndex" where
  "updateRows item n x =
     (if item \<ge> length (items x) then (False, x)
      else
        let old = it_rows (items x ! item)
        in if old = n then (True, x)
           else
             let y = x\<lparr>items := (items x)[item := (items x ! item)\<lparr>it_rows := n\<rparr>]\<rparr>
             in (True, if n > old then add_rows item (n - old) y else sub_rows item (old - n) y))"

text \<open>\<open>locate\<close>: \<open>step = 2 ^ k\<close> grows to the first power of two not below the tree's size, then the
  descent halves it.\<close>

function grow_step :: "nat \<Rightarrow> nat \<Rightarrow> nat" where
  "grow_step sz k = (if 2 ^ k < sz then grow_step sz (k + 1) else k)"
  by pat_completeness auto
termination
  by (relation "measure (\<lambda>(sz, k). sz - 2 ^ k)") (auto intro: diff_less_mono2)

declare grow_step.simps [simp del]

fun descend :: "u64 list \<Rightarrow> u64 \<Rightarrow> nat \<Rightarrow> nat \<Rightarrow> u64 \<Rightarrow> nat \<times> u64" where
  "descend b row 0 idx consumed = (idx, consumed)"
| "descend b row (Suc k) idx consumed =
     (let next1 = idx + 2 ^ k
      in if next1 < length b \<and> b ! next1 \<le> row - consumed
         then descend b row k next1 (consumed + b ! next1)
         else descend b row k idx consumed)"

definition locate :: "ListingVirtualIndex \<Rightarrow> u64 \<Rightarrow> Location option" where
  "locate x row =
     (if row \<ge> totalRows x \<or> items x = [] then None
      else
        let (idx, consumed) = descend (bit_tree x) row (grow_step (length (bit_tree x)) 0) 0 0
        in if idx \<ge> length (items x) then None
           else if row - consumed < it_rows (items x ! idx)
             then Some \<lparr>lc_item = idx, localRow = row - consumed\<rparr>
             else None)"

definition reconcile :: "ListingVirtualIndex \<Rightarrow> Location \<Rightarrow> u64 option" where
  "reconcile x before =
     (if lc_item before \<ge> length (items x) \<or> totalRows x = 0 then None
      else
        let itemRows = it_rows (items x ! lc_item before)
        in if itemRows \<noteq> 0 then Some (rowOfItem x (lc_item before) + min (localRow before) (itemRows - 1))
           else
             let itemStart = rowOfItem x (lc_item before)
             in if itemStart \<noteq> 0 then Some (itemStart - 1)
                else if itemStart < totalRows x then Some itemStart
                else None)"

text \<open>\<open>itemForAddress\<close>: \<open>upper_bound\<close> on the order, then the reverse walk. The inner loop scans the
  spans of one start; the outer one stops when no earlier span reaches the address.\<close>

definition upper_bound :: "ListingVirtualIndex \<Rightarrow> u64 \<Rightarrow> nat" where
  "upper_bound x value =
     length (takeWhile (\<lambda>idx. \<not> value < address (items x ! idx)) (addressOrder x))"

fun walk_back :: "ListingVirtualIndex \<Rightarrow> u64 \<Rightarrow> u64 \<Rightarrow> nat \<Rightarrow> nat + nat" where
  \<comment> \<open>the do-while: \<open>Inr\<close> the item found, \<open>Inl\<close> the position after it\<close>
  "walk_back x a greatestStart 0 = Inl 0"
| "walk_back x a greatestStart (Suc pos) =
     (let candidate = items x ! (addressOrder x ! pos)
      in if AddressInSpan (address candidate) (byteSize candidate) a then Inr (addressOrder x ! pos)
         else if pos \<noteq> 0 \<and> address (items x ! (addressOrder x ! (pos - 1))) = greatestStart
           then walk_back x a greatestStart pos
           else Inl pos)"

lemma walk_back_le: "walk_back x a g pos = Inl p \<Longrightarrow> p \<le> pos - 1"
  by (induction x a g pos rule: walk_back.induct) (auto simp: Let_def split: if_splits)

function address_walk :: "ListingVirtualIndex \<Rightarrow> u64 \<Rightarrow> nat \<Rightarrow> nat option" where
  "address_walk x a pos =
     (if pos = 0 then None
      else
        case walk_back x a (address (items x ! (addressOrder x ! (pos - 1)))) pos of
          Inr item \<Rightarrow> Some item
        | Inl p \<Rightarrow>
            if p = 0 \<or> addressPrefixMaxEnd x ! (p - 1) < a then None else address_walk x a p)"
  by pat_completeness auto
termination
  by (relation "measure (\<lambda>(x, a, pos). pos)") (auto dest: walk_back_le)

declare address_walk.simps [simp del]

definition itemForAddress :: "ListingVirtualIndex \<Rightarrow> u64 \<Rightarrow> nat option" where
  "itemForAddress x a = (if addressOrder x = [] then None else address_walk x a (upper_bound x a))"

section \<open>Row numbering as an interface\<close>

text \<open>What the clients of the index rely on: a prefix function that adds up the items' row counts.
  All row arithmetic is modulo \<open>2^64\<close>; it is exact when the rows of all items together fit.\<close>

definition row_sum :: "(nat \<Rightarrow> u64) \<Rightarrow> nat \<Rightarrow> nat" where
  "row_sum f k = (\<Sum>j = 0..<k. unat (f j))"

locale row_index =
  fixes ok :: "'s \<Rightarrow> bool" and item_count :: "'s \<Rightarrow> nat" and item_rows :: "'s \<Rightarrow> nat \<Rightarrow> u64"
    and first_row :: "'s \<Rightarrow> nat \<Rightarrow> u64"
  assumes first_row_0: "ok s \<Longrightarrow> first_row s 0 = 0"
    and first_row_Suc: "ok s \<Longrightarrow> i < item_count s \<Longrightarrow> first_row s (Suc i) = first_row s i + item_rows s i"
begin

lemma first_row_sum: "ok s \<Longrightarrow> k \<le> item_count s \<Longrightarrow> first_row s k = sum (item_rows s) {0..<k}"
  by (induction k) (simp_all add: first_row_0 first_row_Suc)

lemma row_sum_mono: "i \<le> j \<Longrightarrow> row_sum (item_rows s) i \<le> row_sum (item_rows s) j"
  unfolding row_sum_def by (intro sum_mono2) auto

lemma first_row_exact:
  assumes "ok s" "row_sum (item_rows s) (item_count s) < 2 ^ 64" "k \<le> item_count s"
  shows "unat (first_row s k) = row_sum (item_rows s) k"
  using assms(3)
proof (induction k)
  case 0
  then show ?case by (simp add: first_row_0 assms(1) row_sum_def)
next
  case (Suc k)
  have "row_sum (item_rows s) (Suc k) \<le> row_sum (item_rows s) (item_count s)"
    using Suc.prems by (rule row_sum_mono)
  with assms(2) Suc have "unat (first_row s k) + unat (item_rows s k) < 2 ^ 64"
    by (simp add: row_sum_def)
  with Suc show ?case by (simp add: first_row_Suc assms(1) unat_add_no_wrap row_sum_def)
qed

lemma row_unique:
  assumes "row_sum (item_rows s) i + l = row_sum (item_rows s) j + m"
    and "l < unat (item_rows s i)" "m < unat (item_rows s j)"
  shows "i = j \<and> l = m"
proof -
  have step: "row_sum (item_rows s) (Suc i) = row_sum (item_rows s) i + unat (item_rows s i)" for i
    by (simp add: row_sum_def)
  have "\<not> i < j" using assms row_sum_mono [of "Suc i" j s] by (auto simp: step Suc_le_eq)
  moreover have "\<not> j < i" using assms row_sum_mono [of "Suc j" i s] by (auto simp: step Suc_le_eq)
  ultimately show ?thesis using assms(1) by simp
qed

end

section \<open>The tree holds the prefix sums\<close>

definition fenwick :: "u64 list \<Rightarrow> (nat \<Rightarrow> u64) \<Rightarrow> bool" where
  "fenwick b f \<longleftrightarrow> (\<forall>i. 0 < i \<and> i < length b \<longrightarrow> b ! i = sum f {i - lowbit i..<i})"

lemma length_tree_add [simp]: "length (tree_add d i b) = length b"
  by (induction d i b rule: tree_add.induct) (subst tree_add.simps, simp)

lemma tree_sub_add: "tree_sub d i b = tree_add (- d) i b"
proof (induction d i b rule: tree_sub.induct)
  case (1 d i b)
  show ?case
  proof (cases "0 < i \<and> i < length b")
    case True
    with 1 show ?thesis by (simp add: tree_sub.simps [of d i b] tree_add.simps [of "- d" i b])
  next
    case False
    show ?thesis unfolding tree_sub.simps [of d i b] tree_add.simps [of "- d" i b] if_not_P [OF False] ..
  qed
qed

lemma tree_add_nth:
  "i - lowbit i \<le> j \<Longrightarrow> j < i \<Longrightarrow> m < length b \<Longrightarrow>
     tree_add d i b ! m = b ! m + (if i \<le> m \<and> m - lowbit m \<le> j then d else 0)"
proof (induction d i b rule: tree_add.induct)
  case (1 d i b)
  show ?case
  proof (cases "i < length b")
    case False
    with 1 show ?thesis by (simp add: tree_add.simps [of d i b])
  next
    case True
    have pos: "0 < i" using "1.prems" by simp
    let ?i = "i + lowbit i"
    have "?i - lowbit ?i \<le> j" using lowbit_next [OF pos] "1.prems"(1) by simp
    with 1 True pos have IH: "tree_add d ?i (b[i := b ! i + d]) ! m =
        (b[i := b ! i + d]) ! m + (if ?i \<le> m \<and> m - lowbit m \<le> j then d else 0)"
      by (auto simp: lowbit_bounds)
    have "\<not> m - lowbit m \<le> j" if "i < m" "m < ?i"
      using lowbit_between [OF pos that] "1.prems"(2) by simp
    moreover have "0 < lowbit i" using pos lowbit_bounds by blast
    ultimately show ?thesis
      using True pos "1.prems" unfolding tree_add.simps [of d i b]
      using IH by (cases "m = i") auto
  qed
qed

lemma sum_update: "finite S \<Longrightarrow> sum (f(j := f j + d)) S = sum f S + (if j \<in> S then d else (0 :: u64))"
proof -
  assume "finite S"
  have "f(j := f j + d) = (\<lambda>i. f i + (if i = j then d else 0))" by auto
  with \<open>finite S\<close> show ?thesis by (simp add: sum.distrib)
qed

lemma tree_add_fenwick: "fenwick b f \<Longrightarrow> fenwick (tree_add d (Suc j) b) (f(j := f j + d))"
proof -
  have low: "Suc j - lowbit (Suc j) \<le> j" using lowbit_bounds [of "Suc j"] by linarith
  assume "fenwick b f"
  then show ?thesis
    by (auto simp: fenwick_def tree_add_nth [OF low] sum_update simp del: fun_upd_apply)
qed

lemma prefix_sum_fenwick: "fenwick b f \<Longrightarrow> i < length b \<Longrightarrow> prefix_sum b i = sum f {0..<i}"
proof (induction b i rule: prefix_sum.induct)
  case (1 b i)
  show ?case
  proof (cases "i = 0")
    case False
    then have "0 < lowbit i" "lowbit i \<le> i" using lowbit_bounds by blast+
    moreover have "sum f {0..<i} = sum f {0..<i - lowbit i} + sum f {i - lowbit i..<i}"
      by (simp add: sum.atLeastLessThan_concat)
    ultimately show ?thesis using 1 False
      by (simp add: prefix_sum.simps [of b i] fenwick_def)
  qed (simp add: prefix_sum.simps)
qed

lemma fenwick_zero: "fenwick (replicate n 0) (\<lambda>_. 0)"
  by (simp add: fenwick_def)

lemma reset_loop_tree:
  assumes "fenwick b f" "\<forall>j \<ge> i. f j = 0"
  shows "length (fst (reset_loop i its b order)) = length b \<and> fenwick (fst (reset_loop i its b order)) (\<lambda>j. if i \<le> j \<and> j < i + length its then it_rows (its ! (j - i)) else f j)"
  using assms
proof (induction its arbitrary: i b f order)
  case (Cons it its)
  let ?f = "f(i := f i + it_rows it)"
  let ?o = "if byteSize it \<noteq> 0 then order @ [i] else order"
  have t: "fenwick (tree_add (it_rows it) (Suc i) b) ?f" by (rule tree_add_fenwick [OF Cons.prems(1)])
  have z: "\<forall>j \<ge> Suc i. ?f j = 0" using Cons.prems(2) by simp
  have g: "(\<lambda>j. if Suc i \<le> j \<and> j < Suc i + length its then it_rows (its ! (j - Suc i)) else ?f j) =
      (\<lambda>j. if i \<le> j \<and> j < i + length (it # its) then it_rows ((it # its) ! (j - i)) else f j)"
  proof (rule ext)
    fix j
    show "(if Suc i \<le> j \<and> j < Suc i + length its then it_rows (its ! (j - Suc i)) else ?f j) =
      (if i \<le> j \<and> j < i + length (it # its) then it_rows ((it # its) ! (j - i)) else f j)"
      using Cons.prems(2) by (cases "j = i") (auto simp: nth_Cons')
  qed
  show ?case using Cons.IH [OF t z, of ?o] unfolding g by simp
next
  case Nil
  have "(\<lambda>j. if i \<le> j \<and> j < i + length ([] :: VirtualListingItem list) then it_rows (([] :: VirtualListingItem list) ! (j - i)) else f j) = f"
  proof (rule ext)
    fix j show "(if i \<le> j \<and> j < i + length ([] :: VirtualListingItem list) then it_rows (([] :: VirtualListingItem list) ! (j - i)) else f j) = f j"
      by (cases "j < i") auto
  qed
  with Nil show ?case by (simp only: reset_loop.simps fst_conv simp_thms)
qed

lemma reset_loop_order:
  "snd (reset_loop i its b order) = order @ filter (\<lambda>j. byteSize (its ! (j - i)) \<noteq> 0) [i..<i + length its]"
proof (induction its arbitrary: i b order)
  case (Cons it its)
  have "[i..<i + length (it # its)] = i # [Suc i..<Suc i + length its]"
    by (subst upt_conv_Cons) simp_all
  moreover have "filter (\<lambda>j. byteSize ((it # its) ! (j - i)) \<noteq> 0) [Suc i..<Suc i + length its] =
      filter (\<lambda>j. byteSize (its ! (j - Suc i)) \<noteq> 0) [Suc i..<Suc i + length its]"
    by (rule filter_cong) (auto simp: nth_Cons')
  ultimately show ?case using Cons by simp
qed simp

section \<open>The index as a machine\<close>

datatype index_event = Clear | Reset "VirtualListingItem list" | UpdateRows nat u64

fun index_step :: "index_event \<Rightarrow> ListingVirtualIndex \<Rightarrow> ListingVirtualIndex" where
  "index_step Clear x = clear x"
| "index_step (Reset its) x = reset its"
| "index_step (UpdateRows i n) x = snd (updateRows i n x)"

definition index0 :: ListingVirtualIndex where
  "index0 = \<lparr>items = [], bit_tree = [], addressOrder = [], addressPrefixMaxEnd = []\<rparr>"

definition spanned :: "VirtualListingItem list \<Rightarrow> nat list" where
  "spanned its = filter (\<lambda>i. byteSize (its ! i) \<noteq> 0) [0..<length its]"

definition index_inv :: "ListingVirtualIndex \<Rightarrow> bool" where
  "index_inv x \<longleftrightarrow> fenwick (bit_tree x) (rows x) \<and>
     length (bit_tree x) = (if items x = [] then length (bit_tree x) else length (items x) + 1) \<and>
     addressOrder x = sort_key (order_key (items x)) (spanned (items x)) \<and>
     addressPrefixMaxEnd x = prefix_max (items x) 0 (addressOrder x)"

text \<open>The abstract state: the row counts and the address spans of the items.\<close>

fun rows_step :: "index_event \<Rightarrow> u64 list \<Rightarrow> u64 list" where
  "rows_step Clear rs = []"
| "rows_step (Reset its) rs = map it_rows its"
| "rows_step (UpdateRows i n) rs = rs[i := n]"

definition index_rel :: "ListingVirtualIndex \<Rightarrow> u64 list \<Rightarrow> bool" where
  "index_rel x rs \<longleftrightarrow> map it_rows (items x) = rs"

lemma reset_inv: "index_inv (reset its)"
proof -
  have "rows (reset its) = (\<lambda>j. if 0 \<le> j \<and> j < 0 + length its then it_rows (its ! (j - 0)) else 0)"
    by (rule ext) (simp add: rows_def reset_def case_prod_unfold Let_def)
  with reset_loop_tree [OF fenwick_zero, of 0 its "length its + 1" "[]"] reset_loop_order [of 0 its _ "[]"]
  show ?thesis
    by (simp add: index_inv_def reset_def case_prod_unfold Let_def spanned_def)
qed

lemma prefix_max_cong:
  "(\<And>i. i \<in> set order \<Longrightarrow> address (its ! i) = address (its' ! i) \<and> byteSize (its ! i) = byteSize (its' ! i)) \<Longrightarrow>
     prefix_max its m order = prefix_max its' m order"
  by (induction its m order rule: prefix_max.induct) (simp_all add: Let_def)

lemma update_address [simp]:
  "address ((its[i := (its ! i)\<lparr>it_rows := n\<rparr>]) ! j) = address (its ! j)"
  "byteSize ((its[i := (its ! i)\<lparr>it_rows := n\<rparr>]) ! j) = byteSize (its ! j)"
proof -
  have "(its[i := (its ! i)\<lparr>it_rows := n\<rparr>]) ! j =
      (if i = j \<and> i < length its then (its ! j)\<lparr>it_rows := n\<rparr> else its ! j)"
    by (cases "i < length its") (auto simp: nth_list_update list_update_beyond)
  then show "address ((its[i := (its ! i)\<lparr>it_rows := n\<rparr>]) ! j) = address (its ! j)"
    "byteSize ((its[i := (its ! i)\<lparr>it_rows := n\<rparr>]) ! j) = byteSize (its ! j)" by simp_all
qed

lemma update_spanned: "spanned (its[i := (its ! i)\<lparr>it_rows := n\<rparr>]) = spanned its"
  by (simp add: spanned_def)

lemma update_key: "order_key (its[i := (its ! i)\<lparr>it_rows := n\<rparr>]) = order_key its"
  by (rule ext) (simp add: order_key_def)

lemma updateRows_inv:
  assumes "index_inv x" shows "index_inv (snd (updateRows i n x))"
proof (cases "i \<ge> length (items x) \<or> it_rows (items x ! i) = n")
  case True
  with assms show ?thesis by (auto simp: updateRows_def)
next
  case False
  let ?old = "it_rows (items x ! i)" and ?its = "(items x)[i := (items x ! i)\<lparr>it_rows := n\<rparr>]"
  have res: "snd (updateRows i n x) = x\<lparr>items := ?its, bit_tree := tree_add (n - ?old) (Suc i) (bit_tree x)\<rparr>"
    using False by (simp add: updateRows_def Let_def add_rows_def sub_rows_def tree_sub_add)
  have "rows (snd (updateRows i n x)) = (rows x)(i := rows x i + (n - ?old))"
    using False unfolding res by (auto simp: rows_def nth_list_update)
  then show ?thesis
    using assms False tree_add_fenwick [of "bit_tree x" "rows x" "n - ?old" i]
    unfolding index_inv_def res
    by (auto simp: update_spanned update_key simp del: fun_upd_apply intro!: prefix_max_cong [symmetric])
qed

lemma index_step_inv [inv_intros]: "index_inv x \<Longrightarrow> index_inv (index_step e x)"
  by (cases e) (auto intro: reset_inv updateRows_inv,
    simp add: index_inv_def clear_def fenwick_def spanned_def)

lemma index0_ok: "index_inv index0" "index_rel index0 []"
  by (simp_all add: index0_def index_inv_def fenwick_def spanned_def index_rel_def)

interpretation listing: refinement index_step index_inv rows_step index_rel
proof unfold_locales
  show "index_rel (index_step e x) (rows_step e rs)" if "index_inv x" "index_rel x rs" for e x rs
  proof (cases e)
    case (UpdateRows i n)
    have "map it_rows (items (snd (updateRows i n x))) = (map it_rows (items x))[i := n]"
    proof (cases "i \<ge> length (items x) \<or> it_rows (items x ! i) = n")
      case True
      then have "(map it_rows (items x))[i := n] = map it_rows (items x)"
        by (metis length_map list_update_beyond list_update_id nth_map not_le_imp_less)
      with True show ?thesis by (auto simp: updateRows_def)
    next
      case False
      then show ?thesis by (simp add: updateRows_def Let_def add_rows_def sub_rows_def map_update)
    qed
    with that UpdateRows show ?thesis by (simp add: index_rel_def)
  qed (auto simp: index_rel_def clear_def reset_def case_prod_unfold Let_def)
qed (rule index_step_inv)

lemma rowOfItem_sum:
  assumes "index_inv x"
  shows "rowOfItem x k = sum (rows x) {0..<min k (length (items x))}"
proof (cases "items x = []")
  case True
  then show ?thesis by (simp add: rowOfItem_def prefixRows_def prefix_sum.simps)
next
  case False
  with assms show ?thesis
    by (simp add: rowOfItem_def prefixRows_def index_inv_def prefix_sum_fenwick)
qed

interpretation listing_rows: row_index index_inv "\<lambda>x. length (items x)" rows rowOfItem
  by unfold_locales (simp_all add: rowOfItem_sum)

lemma totalRows_rowOfItem: "totalRows x = rowOfItem x (length (items x))"
  by (simp add: totalRows_def rowOfItem_def)

section \<open>Locating a row\<close>

definition rows_fit :: "ListingVirtualIndex \<Rightarrow> bool" where
  "rows_fit x \<longleftrightarrow> row_sum (rows x) (length (items x)) < 2 ^ 64"

lemmas exact = listing_rows.first_row_exact [folded rows_fit_def]

lemma tree_node:
  assumes "index_inv x" "rows_fit x" "items x \<noteq> []" "2 ^ Suc k dvd idx" "idx + 2 ^ k \<le> length (items x)"
  shows "row_sum (rows x) idx + unat (bit_tree x ! (idx + 2 ^ k)) = row_sum (rows x) (idx + 2 ^ k)"
proof -
  let ?m = "idx + 2 ^ k"
  have len: "length (bit_tree x) = length (items x) + 1" using assms(1,3) by (simp add: index_inv_def)
  have "bit_tree x ! ?m = sum (rows x) {idx..<?m}"
    using assms(1,5) lowbit_add_step [OF assms(4)] by (simp add: index_inv_def fenwick_def len)
  moreover have "rowOfItem x ?m = rowOfItem x idx + sum (rows x) {idx..<?m}"
    using assms(1,5) by (simp add: rowOfItem_sum sum.atLeastLessThan_concat)
  ultimately have "rowOfItem x ?m = rowOfItem x idx + bit_tree x ! ?m" by simp
  moreover have "unat (rowOfItem x ?m) = row_sum (rows x) ?m" "unat (rowOfItem x idx) = row_sum (rows x) idx"
    using exact [OF assms(1,2), of ?m] exact [OF assms(1,2), of idx] assms(5) by simp_all
  moreover have "row_sum (rows x) idx \<le> row_sum (rows x) ?m" by (simp add: listing_rows.row_sum_mono)
  ultimately show ?thesis
    by (metis add_diff_cancel_left' le_add_diff_inverse unat_sub word_le_nat_alt)
qed

lemma descend_correct:
  assumes x: "index_inv x" "rows_fit x" "items x \<noteq> []"
    and "2 ^ k dvd idx" "idx \<le> length (items x)" "unat consumed = row_sum (rows x) idx"
    and "row_sum (rows x) idx \<le> unat row"
    and "idx + 2 ^ k \<le> length (items x) \<longrightarrow> unat row < row_sum (rows x) (idx + 2 ^ k)"
  shows "case descend (bit_tree x) row k idx consumed of (i, c) \<Rightarrow>
     i \<le> length (items x) \<and> unat c = row_sum (rows x) i \<and> row_sum (rows x) i \<le> unat row \<and>
     (i < length (items x) \<longrightarrow> unat row < row_sum (rows x) (Suc i))"
  using assms(4-)
proof (induction k arbitrary: idx consumed)
  case (Suc k)
  let ?m = "idx + 2 ^ k"
  have len: "length (bit_tree x) = length (items x) + 1" using x by (simp add: index_inv_def)
  have dvd: "2 ^ k dvd idx" "2 ^ k dvd ?m" using Suc.prems(1) by (auto dest: dvd_mult_left)
  have sub: "unat (row - consumed) = unat row - row_sum (rows x) idx"
    using Suc.prems(3,4) by (simp add: unat_sub word_le_nat_alt)
  show ?case
  proof (cases "?m \<le> length (items x)")
    case False
    with Suc.prems dvd show ?thesis by (simp add: Let_def len Suc.IH)
  next
    case True
    note node = tree_node [OF x Suc.prems(1) True]
    then have le: "bit_tree x ! ?m \<le> row - consumed \<longleftrightarrow> row_sum (rows x) ?m \<le> unat row"
      using Suc.prems(4) by (auto simp: word_le_nat_alt sub)
    show ?thesis
    proof (cases "row_sum (rows x) ?m \<le> unat row")
      case False
      with Suc.prems dvd True le show ?thesis by (simp add: Let_def len Suc.IH)
    next
      case ge: True
      have "unat consumed + unat (bit_tree x ! ?m) < 2 ^ 64"
        using node Suc.prems(3) ge unat_u64_lt [of row] by simp
      then have c: "unat (consumed + bit_tree x ! ?m) = row_sum (rows x) ?m"
        using node Suc.prems(3) by (simp add: unat_add_no_wrap)
      have "?m + 2 ^ k = idx + 2 ^ Suc k" by simp
      with Suc.IH [OF dvd(2) True c ge] Suc.prems(5) True le ge show ?thesis
        by (simp add: Let_def len)
    qed
  qed
qed simp

lemma grow_step_ge: "sz \<le> 2 ^ grow_step sz k"
  by (induction sz k rule: grow_step.induct) (subst grow_step.simps, simp)

lemma locate_Some:
  assumes x: "index_inv x" "rows_fit x" and row: "unat row < row_sum (rows x) (length (items x))"
  obtains l where "locate x row = Some l" "lc_item l < length (items x)"
    "unat (localRow l) < unat (rows x (lc_item l))" "row_sum (rows x) (lc_item l) + unat (localRow l) = unat row"
proof -
  have ne: "items x \<noteq> []" using row by (auto simp: row_sum_def)
  have len: "length (bit_tree x) = length (items x) + 1" using x ne by (simp add: index_inv_def)
  have tot: "\<not> row \<ge> totalRows x"
    using row exact [OF x, of "length (items x)"] by (simp add: totalRows_rowOfItem word_le_nat_alt)
  let ?k = "grow_step (length (bit_tree x)) 0"
  obtain i c where d: "descend (bit_tree x) row ?k 0 0 = (i, c)" by force
  have "\<not> 2 ^ ?k \<le> length (items x)" using grow_step_ge [of "length (bit_tree x)" 0] len by simp
  with descend_correct [OF x ne, of ?k 0 0 row] d
  have i: "i \<le> length (items x)" "unat c = row_sum (rows x) i" "row_sum (rows x) i \<le> unat row"
    "i < length (items x) \<longrightarrow> unat row < row_sum (rows x) (Suc i)"
    by (simp_all add: row_sum_def)
  with row have lt: "i < length (items x)" by (metis le_neq_implies_less not_le)
  have sub: "unat (row - c) = unat row - row_sum (rows x) i" using i by (simp add: unat_sub word_le_nat_alt)
  have r: "rows x i = it_rows (items x ! i)" using lt by (simp add: rows_def)
  have "unat (row - c) < unat (rows x i)" using i lt sub by (simp add: row_sum_def)
  then have "locate x row = Some \<lparr>lc_item = i, localRow = row - c\<rparr>"
    using tot ne d lt by (simp add: locate_def r word_less_nat_alt)
  then show thesis using that lt sub i(3) \<open>unat (row - c) < unat (rows x i)\<close> by fastforce
qed

lemma locate_eq:
  assumes x: "index_inv x" "rows_fit x" and i: "i < length (items x)" and l: "l < rows x i"
  shows "locate x (rowOfItem x i + l) = Some \<lparr>lc_item = i, localRow = l\<rparr>"
proof -
  have e: "unat (rowOfItem x i) = row_sum (rows x) i" using exact [OF x, of i] i by simp
  have "row_sum (rows x) (Suc i) \<le> row_sum (rows x) (length (items x))"
    using i by (intro listing_rows.row_sum_mono) simp
  then have b: "row_sum (rows x) i + unat l < row_sum (rows x) (length (items x))"
    using l by (simp add: row_sum_def word_less_nat_alt)
  then have u: "unat (rowOfItem x i + l) = row_sum (rows x) i + unat l"
    using x(2) by (simp add: rows_fit_def unat_add_no_wrap e)
  with b obtain loc where loc: "locate x (rowOfItem x i + l) = Some loc" "lc_item loc < length (items x)"
    "unat (localRow loc) < unat (rows x (lc_item loc))"
    "row_sum (rows x) (lc_item loc) + unat (localRow loc) = row_sum (rows x) i + unat l"
    by (metis locate_Some [OF x])
  from listing_rows.row_unique [OF loc(4,3)] l have "lc_item loc = i" "unat (localRow loc) = unat l"
    by (simp_all add: word_less_nat_alt)
  with loc(1) show ?thesis by (simp add: word_unat_eq_iff)
qed

section \<open>Finding the item of an address\<close>

definition hit :: "ListingVirtualIndex \<Rightarrow> u64 \<Rightarrow> nat \<Rightarrow> bool" where
  "hit x a p \<longleftrightarrow> (let it = items x ! (addressOrder x ! p) in AddressInSpan (address it) (byteSize it) a)"

lemma walk_back_result:
  "case walk_back x a g pos of
     Inr i \<Rightarrow> (\<exists>p < pos. hit x a p \<and> addressOrder x ! p = i \<and> (\<forall>q. p < q \<and> q < pos \<longrightarrow> \<not> hit x a q))
   | Inl p \<Rightarrow> \<forall>q. p \<le> q \<and> q < pos \<longrightarrow> \<not> hit x a q"
proof (induction x a g pos rule: walk_back.induct)
  case (2 x a g pos)
  show ?case
  proof (cases "hit x a pos")
    case True
    then show ?thesis by (auto simp: hit_def Let_def)
  next
    case False
    then have no: "\<not> AddressInSpan (address (items x ! (addressOrder x ! pos))) (byteSize (items x ! (addressOrder x ! pos))) a"
      by (simp add: hit_def Let_def)
    show ?thesis
    proof (cases "pos \<noteq> 0 \<and> address (items x ! (addressOrder x ! (pos - 1))) = g")
      case False
      then show ?thesis using no \<open>\<not> hit x a pos\<close> by (auto simp: Let_def less_Suc_eq)
    next
      case True
      with 2 [OF refl] no have "case walk_back x a g pos of
          Inr i \<Rightarrow> (\<exists>p < pos. hit x a p \<and> addressOrder x ! p = i \<and> (\<forall>q. p < q \<and> q < pos \<longrightarrow> \<not> hit x a q))
        | Inl p \<Rightarrow> \<forall>q. p \<le> q \<and> q < pos \<longrightarrow> \<not> hit x a q" by simp
      with no True False show ?thesis
        by (auto simp: Let_def less_Suc_eq split: sum.splits)
    qed
  qed
qed simp

definition last_address :: "VirtualListingItem \<Rightarrow> u64" where
  "last_address it = SaturatingAddressAdd (address it) (byteSize it - 1)"

lemma prefix_max_ge:
  "p < length order \<Longrightarrow> q \<le> p \<Longrightarrow> last_address (its ! (order ! q)) \<le> prefix_max its m order ! p \<and> m \<le> prefix_max its m order ! p"
proof (induction its m order arbitrary: p q rule: prefix_max.induct)
  case (2 its m i order)
  let ?m = "max m (last_address (its ! i))"
  show ?case
  proof (cases p)
    case 0
    with 2 show ?thesis by (simp add: Let_def last_address_def)
  next
    case (Suc p')
    with 2 have IH: "\<And>q'. q' \<le> p' \<Longrightarrow> last_address (its ! (order ! q')) \<le> prefix_max its ?m order ! p' \<and> ?m \<le> prefix_max its ?m order ! p'"
      by (simp add: Let_def last_address_def)
    show ?thesis
    proof (cases q)
      case 0
      with IH [of 0] Suc show ?thesis by (simp add: Let_def flip: last_address_def)
    next
      case (Suc q')
      with IH [of q'] \<open>p = Suc p'\<close> 2(3) show ?thesis by (simp add: Let_def flip: last_address_def)
    qed
  qed
qed simp

lemma AddressInSpan_last: "byteSize it \<noteq> 0 \<Longrightarrow> AddressInSpan (address it) (byteSize it) a \<Longrightarrow> a \<le> last_address it"
proof -
  assume n: "byteSize it \<noteq> 0" and "AddressInSpan (address it) (byteSize it) a"
  then have "unat a < unat (address it) + unat (byteSize it)" by (simp add: AddressInSpan_iff)
  moreover have "unat (byteSize it - 1) = unat (byteSize it) - 1" using n by (simp add: unat_minus_one)
  moreover have "0 < unat (byteSize it)" using n by (simp add: unat_gt_0)
  ultimately show "a \<le> last_address it"
    using unat_u64_lt [of a] by (simp add: last_address_def word_le_nat_alt unat_SaturatingAddressAdd)
qed

lemma address_walk_result:
  assumes "index_inv x" "pos \<le> length (addressOrder x)"
  shows "case address_walk x a pos of
     Some i \<Rightarrow> (\<exists>p < pos. hit x a p \<and> addressOrder x ! p = i \<and> (\<forall>q. p < q \<and> q < pos \<longrightarrow> \<not> hit x a q))
   | None \<Rightarrow> \<forall>q < pos. \<not> hit x a q"
  using assms
proof (induction x a pos rule: address_walk.induct)
  case (1 x a pos)
  let ?g = "address (items x ! (addressOrder x ! (pos - 1)))"
  show ?case
  proof (cases "pos = 0")
    case True
    then show ?thesis by (simp add: address_walk.simps)
  next
    case False
    note wb = walk_back_result [where x = x and a = a and g = ?g and pos = pos]
    show ?thesis
    proof (cases "walk_back x a ?g pos")
      case (Inr i)
      with wb False show ?thesis by (simp add: address_walk.simps [of x a pos])
    next
      case (Inl p)
      have le: "p \<le> pos - 1" by (rule walk_back_le [OF Inl])
      show ?thesis
      proof (cases "p = 0 \<or> addressPrefixMaxEnd x ! (p - 1) < a")
        case True
        have "\<not> hit x a q" if "q < p" for q
        proof
          assume h: "hit x a q"
          have q: "q < length (addressOrder x)" using that le False 1(3) by linarith
          then have "addressOrder x ! q \<in> set (spanned (items x))"
            using 1(2) by (metis index_inv_def nth_mem set_sort)
          then have "byteSize (items x ! (addressOrder x ! q)) \<noteq> 0" by (simp add: spanned_def)
          from AddressInSpan_last [OF this] h have "a \<le> last_address (items x ! (addressOrder x ! q))"
            by (simp add: hit_def Let_def)
          also have "\<dots> \<le> addressPrefixMaxEnd x ! (p - 1)"
            using 1(2) prefix_max_ge [of "p - 1" "addressOrder x" q] that le 1(3) False by (auto simp: index_inv_def)
          finally show False using True that by (simp add: not_le [symmetric])
        qed
        with True Inl wb False show ?thesis
          by (simp add: address_walk.simps [of x a pos]) (metis not_le)
      next
        case neg: False
        have "case address_walk x a p of
            Some i \<Rightarrow> (\<exists>p' < p. hit x a p' \<and> addressOrder x ! p' = i \<and> (\<forall>q. p' < q \<and> q < p \<longrightarrow> \<not> hit x a q))
          | None \<Rightarrow> \<forall>q < p. \<not> hit x a q"
          using 1(1) [OF False Inl neg 1(2)] le 1(3) by simp
        moreover have "address_walk x a pos = address_walk x a p"
          using False Inl neg by (simp add: address_walk.simps [of x a pos])
        ultimately show ?thesis using wb Inl le False
          by (simp split: option.splits) (metis less_le_trans less_imp_diff_less not_le order_le_less_trans diff_less zero_less_one gr0I)+
      qed
    qed
  qed
qed

lemma order_hits:
  assumes "index_inv x" "i < length (items x)" "byteSize (items x ! i) \<noteq> 0"
    "AddressInSpan (address (items x ! i)) (byteSize (items x ! i)) a"
  shows "\<exists>p < upper_bound x a. addressOrder x ! p = i \<and> hit x a p"
proof -
  let ?o = "addressOrder x" and ?P = "\<lambda>idx. \<not> a < address (items x ! idx)"
  have "i \<in> set ?o" using assms(1-3) by (simp add: index_inv_def spanned_def)
  then obtain p where p: "p < length ?o" "?o ! p = i" by (auto simp: in_set_conv_nth)
  have P: "?P (?o ! q)" if "q \<le> p" for q
  proof -
    have "sorted (map (order_key (items x)) ?o)" using assms(1) by (simp add: index_inv_def)
    then have "order_key (items x) (?o ! q) \<le> order_key (items x) (?o ! p)"
      using p(1) that sorted_nth_mono [of "map (order_key (items x)) ?o" q p] by simp
    then have "unat (address (items x ! (?o ! q))) \<le> unat (address (items x ! i))"
      by (auto simp: order_key_def p(2) less_eq_prod_def)
    moreover have "unat (address (items x ! i)) \<le> unat a" using assms(4) by (simp add: AddressInSpan_iff)
    ultimately show ?thesis by (simp add: word_less_nat_alt)
  qed
  have "p < length (takeWhile ?P ?o)"
  proof (rule ccontr)
    assume "\<not> p < length (takeWhile ?P ?o)"
    then have le: "length (takeWhile ?P ?o) \<le> p" by simp
    then have "\<not> ?P (?o ! length (takeWhile ?P ?o))" using p(1) by (intro nth_length_takeWhile) simp
    with P [OF le] show False by simp
  qed
  with p(2) assms(4) show ?thesis by (auto simp: upper_bound_def hit_def)
qed

lemma hit_order:
  assumes "index_inv x" "p \<le> q" "q < length (addressOrder x)"
  shows "address (items x ! (addressOrder x ! p)) < address (items x ! (addressOrder x ! q)) \<or>
     address (items x ! (addressOrder x ! p)) = address (items x ! (addressOrder x ! q)) \<and>
     byteSize (items x ! (addressOrder x ! q)) \<le> byteSize (items x ! (addressOrder x ! p))"
proof -
  let ?o = "addressOrder x"
  have "sorted (map (order_key (items x)) ?o)" using assms(1) by (simp add: index_inv_def)
  then have "order_key (items x) (?o ! p) \<le> order_key (items x) (?o ! q)"
    using assms(2,3) sorted_nth_mono [of "map (order_key (items x)) ?o" p q] by simp
  then show ?thesis
    using unat_u64_lt [of "byteSize (items x ! (?o ! p))"] unat_u64_lt [of "byteSize (items x ! (?o ! q))"]
    by (auto simp: order_key_def less_eq_prod_def word_less_nat_alt word_le_nat_alt word_unat_eq_iff)
qed

definition spans_address :: "ListingVirtualIndex \<Rightarrow> u64 \<Rightarrow> nat \<Rightarrow> bool" where
  "spans_address x a i \<longleftrightarrow> i < length (items x) \<and> byteSize (items x ! i) \<noteq> 0 \<and>
     AddressInSpan (address (items x ! i)) (byteSize (items x ! i)) a"

lemma order_item: "index_inv x \<Longrightarrow> p < length (addressOrder x) \<Longrightarrow> hit x a p \<Longrightarrow> spans_address x a (addressOrder x ! p)"
proof -
  assume "index_inv x" "p < length (addressOrder x)" "hit x a p"
  then have "addressOrder x ! p \<in> set (spanned (items x))" by (metis index_inv_def nth_mem set_sort)
  with \<open>hit x a p\<close> show ?thesis by (auto simp: spanned_def spans_address_def hit_def Let_def)
qed

lemma itemForAddress_correct:
  assumes "index_inv x"
  shows "case itemForAddress x a of
     None \<Rightarrow> \<forall>i. \<not> spans_address x a i
   | Some i \<Rightarrow> spans_address x a i \<and>
       (\<forall>j. spans_address x a j \<longrightarrow> address (items x ! j) < address (items x ! i) \<or>
          address (items x ! j) = address (items x ! i) \<and> byteSize (items x ! i) \<le> byteSize (items x ! j))"
proof -
  let ?ub = "upper_bound x a"
  have ub: "?ub \<le> length (addressOrder x)" by (simp add: upper_bound_def length_takeWhile_le)
  have e: "itemForAddress x a = address_walk x a ?ub"
    by (simp add: itemForAddress_def address_walk.simps upper_bound_def)
  note r = address_walk_result [OF assms ub, of a]
  show ?thesis
  proof (cases "address_walk x a ?ub")
    case None
    with r order_hits [OF assms] show ?thesis by (fastforce simp: e spans_address_def)
  next
    case (Some i)
    with r obtain p where p: "p < ?ub" "hit x a p" "addressOrder x ! p = i"
      "\<And>q. p < q \<Longrightarrow> q < ?ub \<Longrightarrow> \<not> hit x a q" by auto
    have "spans_address x a i" using order_item [OF assms _ p(2)] p(1,3) ub by simp
    moreover have "address (items x ! j) < address (items x ! i) \<or>
          address (items x ! j) = address (items x ! i) \<and> byteSize (items x ! i) \<le> byteSize (items x ! j)"
      if "spans_address x a j" for j
    proof -
      from that order_hits [OF assms, of j a] obtain q where q: "q < ?ub" "addressOrder x ! q = j" "hit x a q"
        by (auto simp: spans_address_def)
      with p(4) have "q \<le> p" by (meson not_le)
      with hit_order [OF assms this] p(1,3) q(2) ub show ?thesis by simp
    qed
    ultimately show ?thesis by (simp add: e Some)
  qed
qed

section \<open>Properties\<close>

text \<open>C16: after any history of resets and row updates, the row an item starts at is the sum of the
  rows of the items before it (modulo \<open>2^64\<close>), and each item has its latest row count.\<close>

theorem rowOfItem_history:
  "rowOfItem (fold index_step es index0) k = sum_list (take k (fold rows_step es []))"
proof -
  let ?x = "fold index_step es index0"
  from listing.run_refines [OF index0_ok] have x: "index_inv ?x" "index_rel ?x (fold rows_step es [])" by auto
  have "sum (rows ?x) {0..<min k (length (items ?x))} = sum_list (map (rows ?x) [0..<min k (length (items ?x))])"
    by (simp add: interv_sum_list_conv_sum_set_nat)
  also have "map (rows ?x) [0..<min k (length (items ?x))] = take k (map it_rows (items ?x))"
    by (rule nth_equalityI) (auto simp: rows_def)
  finally show ?thesis using x by (simp add: rowOfItem_sum index_rel_def)
qed

text \<open>C17: locating is the inverse of numbering. In any reachable index whose rows fit in 64 bits,
  the global row of local row \<open>l\<close> of item \<open>i\<close> is located back at exactly \<open>(i, l)\<close>, and a row at or
  past the total is refused.\<close>

theorem locate_rowOfItem:
  assumes "x = fold index_step es index0" "rows_fit x" "i < length (items x)" "l < rows x i"
  shows "locate x (rowOfItem x i + l) = Some \<lparr>lc_item = i, localRow = l\<rparr> \<and> locate x (totalRows x) = None"
  using locate_eq [OF _ assms(2-4)] listing.run_inv [OF index0_ok(1)] assms(1) by (auto simp: locate_def)

theorem locate_rowOfItem_witness:
  "locate (reset [\<lparr>it_rows = 2, address = 0, byteSize = 0\<rparr>, \<lparr>it_rows = 3, address = 0, byteSize = 0\<rparr>])
     (rowOfItem (reset [\<lparr>it_rows = 2, address = 0, byteSize = 0\<rparr>, \<lparr>it_rows = 3, address = 0, byteSize = 0\<rparr>]) 1 + 2)
   = Some \<lparr>lc_item = 1, localRow = 2\<rparr>"
proof -
  let ?its = "[\<lparr>it_rows = 2, address = 0, byteSize = 0\<rparr>, \<lparr>it_rows = 3, address = 0, byteSize = 0\<rparr>]"
  have its: "items (reset ?its) = ?its" by (simp add: reset_def case_prod_unfold Let_def)
  have "rows_fit (reset ?its)" by (simp add: rows_fit_def row_sum_def its rows_def)
  then show ?thesis
    by (intro locate_rowOfItem [THEN conjunct1, of _ "[Reset ?its]"]) (simp_all add: its rows_def)
qed

text \<open>Reconciling a location after rows changed keeps the viewport on its item: the row it
  returns is located in the same item (clamped to its new extent) while the item still has rows, and
  when it has none it is a valid row as long as any row is left.\<close>

theorem reconcile_stays:
  assumes "x = fold index_step es index0" "rows_fit x" "lc_item loc < length (items x)" "totalRows x \<noteq> 0"
  shows "\<exists>row. reconcile x loc = Some row \<and> row < totalRows x \<and>
     (rows x (lc_item loc) \<noteq> 0 \<longrightarrow>
        locate x row = Some \<lparr>lc_item = lc_item loc, localRow = min (localRow loc) (rows x (lc_item loc) - 1)\<rparr>)"
proof -
  have x: "index_inv x" using listing.run_inv [OF index0_ok(1)] assms(1) by auto
  let ?i = "lc_item loc"
  have r: "it_rows (items x ! ?i) = rows x ?i" using assms(3) by (simp add: rows_def)
  have tot: "unat (totalRows x) = row_sum (rows x) (length (items x))"
    using exact [OF x assms(2), of "length (items x)"] by (simp add: totalRows_rowOfItem)
  have start: "unat (rowOfItem x ?i) = row_sum (rows x) ?i" using exact [OF x assms(2), of ?i] assms(3) by simp
  have mono: "row_sum (rows x) ?i \<le> row_sum (rows x) (length (items x))"
    using assms(3) by (intro listing_rows.row_sum_mono) simp
  show ?thesis
  proof (cases "rows x ?i = 0")
    case False
    let ?l = "min (localRow loc) (rows x ?i - 1)"
    have "unat ?l \<le> unat (rows x ?i - 1)" by (simp add: min_def word_le_nat_alt)
    then have "?l < rows x ?i" using False unat_gt_0 [of "rows x ?i"] by (simp add: word_less_nat_alt unat_minus_one)
    from locate_eq [OF x assms(2,3) this] have loc: "locate x (rowOfItem x ?i + ?l) = Some \<lparr>lc_item = ?i, localRow = ?l\<rparr>" .
    then have "rowOfItem x ?i + ?l < totalRows x" by (auto simp: locate_def split: if_splits)
    with loc False assms(3,4) show ?thesis by (simp add: reconcile_def r)
  next
    case True
    show ?thesis
    proof (cases "rowOfItem x ?i = 0")
      case False
      then have "unat (rowOfItem x ?i - 1) < unat (totalRows x)"
        using start tot mono unat_gt_0 [of "rowOfItem x ?i"] by (simp add: unat_minus_one)
      with True False assms(3,4) show ?thesis by (simp add: reconcile_def r word_less_nat_alt)
    next
      case z: True
      have "0 < totalRows x" using assms(4) by (simp add: word_gt_0)
      with True z assms(3,4) show ?thesis by (simp add: reconcile_def r)
    qed
  qed
qed

theorem reconcile_stays_witness:
  "\<exists>row. reconcile (reset [\<lparr>it_rows = 2, address = 0, byteSize = 0\<rparr>]) \<lparr>lc_item = 0, localRow = 9\<rparr> = Some row \<and>
     locate (reset [\<lparr>it_rows = 2, address = 0, byteSize = 0\<rparr>]) row = Some \<lparr>lc_item = 0, localRow = 1\<rparr>"
proof -
  let ?x = "reset [\<lparr>it_rows = 2, address = 0, byteSize = 0\<rparr>]"
  have its: "items ?x = [\<lparr>it_rows = 2, address = 0, byteSize = 0\<rparr>]" by (simp add: reset_def case_prod_unfold Let_def)
  have fit: "rows_fit ?x" by (simp add: rows_fit_def row_sum_def its rows_def)
  have "totalRows ?x = 2" using rowOfItem_sum [OF reset_inv, of _ 1] by (simp add: totalRows_rowOfItem its rows_def)
  then show ?thesis
    using reconcile_stays [of ?x "[Reset [\<lparr>it_rows = 2, address = 0, byteSize = 0\<rparr>]]" "\<lparr>lc_item = 0, localRow = 9\<rparr>"] fit
    by (auto simp: its rows_def min_def word_le_nat_alt)
qed

text \<open>C18: looking up an address returns an item whose span contains it, the one with the greatest
  start and among those the smallest span, and returns nothing only when no span contains it: the
  early stop on the running maximum never loses an enclosing span, and spans that reach \<open>UINT64_MAX\<close>
  are handled.\<close>

theorem itemForAddress_exact:
  assumes "x = fold index_step es index0"
  shows "case itemForAddress x a of
     None \<Rightarrow> \<forall>i. \<not> spans_address x a i
   | Some i \<Rightarrow> spans_address x a i \<and>
       (\<forall>j. spans_address x a j \<longrightarrow> address (items x ! j) < address (items x ! i) \<or>
          address (items x ! j) = address (items x ! i) \<and> byteSize (items x ! i) \<le> byteSize (items x ! j))"
  using listing.run_inv [OF index0_ok(1)] assms by (intro itemForAddress_correct) auto

theorem itemForAddress_exact_witness:
  "itemForAddress (reset [\<lparr>it_rows = 1, address = 16, byteSize = 4\<rparr>]) 18 = Some 0"
proof -
  let ?x = "reset [\<lparr>it_rows = 1, address = 16, byteSize = 4\<rparr>]"
  have its: "items ?x = [\<lparr>it_rows = 1, address = 16, byteSize = 4\<rparr>]" by (simp add: reset_def case_prod_unfold Let_def)
  have "spans_address ?x 18 0" by (simp add: spans_address_def its AddressInSpan_def)
  then show ?thesis
    using itemForAddress_exact [of ?x "[Reset [\<lparr>it_rows = 1, address = 16, byteSize = 4\<rparr>]]" 18]
    by (auto simp: spans_address_def its split: option.splits)
qed

end
