(* ===== verification/Cond.thy ===== *)
theory Cond
  imports Machine C_Lib
begin

text \<open>
  \<open>src/src/Core/Cond.h\<close>, \<open>Cond.cpp\<close>: conditional-breakpoint expressions. A condition is compiled
  once (\<open>CompileCondition\<close>) and evaluated at each hit. \<open>CondContext\<close> holds the caller's callbacks
  (possibly empty \<open>std::function\<close>s). Functions that return \<open>bool\<close> and fill an out-parameter
  return the pair, so that a failed parse leaves the same half-written operand as the code.
\<close>

record CondContext =
  ctx_reg :: "(string \<Rightarrow> u64 option) option"
  ctx_mem :: "(u64 \<Rightarrow> u64) option"

datatype CondOp = Eq | Ne | Lt | Gt | Le | Ge | SLt | SGt | SLe | SGe

datatype CondTerm = Number | Register | Memory

record CondOperand =
  kind :: CondTerm
  number :: u64
  reg :: string
  baseIsReg :: bool
  disp :: u64

record CondProgram =
  valid :: bool
  empty :: bool
  prog_op :: CondOp
  lhs :: CondOperand
  rhs :: CondOperand

definition operand0 :: CondOperand where
  "operand0 = \<lparr>kind = Number, number = 0, reg = [], baseIsReg = False, disp = 0\<rparr>"

definition program0 :: CondProgram where
  "program0 = \<lparr>valid = False, empty = True, prog_op = Eq, lhs = operand0, rhs = operand0\<rparr>"

section \<open>Operands\<close>

definition parseNumber :: "string \<Rightarrow> u64 option" where
  "parseNumber t =
     (if t = [] then None
      else
        case strtoull (c_str t) of
          None \<Rightarrow> None
        | Some (v, end1) \<Rightarrow> if end1 \<noteq> [] then None else Some v)"

definition find_sign :: "string \<Rightarrow> nat option" where
  "find_sign inner = List.find (\<lambda>i. inner ! i = CHR ''+'' \<or> inner ! i = CHR ''-'') [1..<length inner]"

text \<open>The displacement is an \<open>int64_t\<close>, and the code computes \<open>-(int64_t)d\<close> here and \<open>(int64_t)base + disp\<close> when the
  operand is evaluated. C++ leaves both undefined when they overflow; the model wraps, which is what the
  two's complement machines the program is built for do. The two predicates say where the code is defined,
  and there the wrapped words are the mathematical results.\<close>

definition negate_defined :: "u64 \<Rightarrow> bool" where
  "negate_defined d \<longleftrightarrow> sint d \<noteq> - (2 ^ 63)"

definition address_defined :: "u64 \<Rightarrow> u64 \<Rightarrow> bool" where
  "address_defined b d \<longleftrightarrow> - (2 ^ 63) \<le> sint b + sint d \<and> sint b + sint d < 2 ^ 63"

lemma negate_signed: "negate_defined d \<Longrightarrow> sint (- d) = - sint d"
  using sint_range_size [of d]
  by (simp add: negate_defined_def sint_word_ariths signed_take_bit_int_eq_self word_size)

lemma address_signed: "address_defined b d \<Longrightarrow> sint (b + d) = sint b + sint d"
  by (simp add: address_defined_def sint_word_ariths signed_take_bit_int_eq_self)

definition compile_memory :: "string \<Rightarrow> CondOperand \<Rightarrow> bool \<times> CondOperand" where
  "compile_memory inner out =
     (let split1 = (case find_sign inner of
            None \<Rightarrow> Some (inner, 0)
          | Some op \<Rightarrow>
              (case parseNumber (trim (drop (op + 1) inner)) of
                 None \<Rightarrow> None
               | Some d \<Rightarrow> Some (trim (take op inner), if inner ! op = CHR ''-'' then - d else d)))
      in case split1 of
           None \<Rightarrow> (False, out)
         | Some (tok, d) \<Rightarrow>
             (let baseTok = trim tok;
                  lower = map c_tolower baseTok;
                  out1 = out\<lparr>kind := Memory, disp := d\<rparr>
              in case parseNumber baseTok of
                   Some num \<Rightarrow> (True, out1\<lparr>baseIsReg := False, number := num\<rparr>)
                 | None \<Rightarrow>
                     if baseTok \<noteq> [] \<and> hd baseTok \<noteq> CHR ''['' then (True, out1\<lparr>baseIsReg := True, reg := lower\<rparr>)
                     else (False, out1)))"

definition compileOperand :: "string \<Rightarrow> CondOperand \<Rightarrow> bool \<times> CondOperand" where
  "compileOperand tokIn out =
     (let t = trim tokIn
      in if t = [] then (False, out)
         else if hd t = CHR ''['' \<and> last t = CHR '']'' then
           compile_memory (trim (take (length t - 2) (drop 1 t))) out
         else
           let lower = map c_tolower t
           in case parseNumber t of
                Some num \<Rightarrow> (True, out\<lparr>kind := Number, number := num\<rparr>)
              | None \<Rightarrow> (True, out\<lparr>kind := Register, reg := lower\<rparr>))"

definition evalCompiledOperand :: "CondOperand \<Rightarrow> CondContext \<Rightarrow> u64 option" where
  "evalCompiledOperand o1 ctx =
     (case kind o1 of
        Number \<Rightarrow> Some (number o1)
      | Register \<Rightarrow> (case ctx_reg ctx of Some f \<Rightarrow> f (reg o1) | None \<Rightarrow> None)
      | Memory \<Rightarrow>
          (let base = (if baseIsReg o1 then (case ctx_reg ctx of Some f \<Rightarrow> f (reg o1) | None \<Rightarrow> None)
                       else Some (number o1))
           in case base of
                None \<Rightarrow> None
              | Some b \<Rightarrow> (case ctx_mem ctx of None \<Rightarrow> None | Some m \<Rightarrow> Some (m (b + disp o1)))))"

definition evalOperand :: "string \<Rightarrow> CondContext \<Rightarrow> u64 option" where
  "evalOperand tokIn ctx =
     (case compileOperand tokIn operand0 of
        (False, _) \<Rightarrow> None
      | (True, o1) \<Rightarrow> evalCompiledOperand o1 ctx)"

section \<open>The comparison operator\<close>

definition boundaryOk :: "string \<Rightarrow> nat \<Rightarrow> bool" where
  "boundaryOk expr p \<longleftrightarrow> p = 0 \<or> \<not> (c_isalnum (expr ! (p - 1)) \<or> expr ! (p - 1) = CHR ''_'')"

lemma str_find_bounds: "str_find s tok p = Some q \<Longrightarrow> p \<le> q \<and> q \<le> length s"
  by (auto simp: str_find_Some occurs_def)

function findTok :: "string \<Rightarrow> string \<Rightarrow> bool \<Rightarrow> nat \<Rightarrow> nat option" where
  "findTok expr tok guarded from1 =
     (case str_find expr tok from1 of
        None \<Rightarrow> None
      | Some p \<Rightarrow> if guarded \<and> \<not> boundaryOk expr p then findTok expr tok guarded (p + 1) else Some p)"
  by pat_completeness auto
termination
  by (relation "measure (\<lambda>(expr, tok, guarded, p). length expr + 1 - p)") (auto dest: str_find_bounds)

declare findTok.simps [simp del]

definition cands :: "(string \<times> bool) list" where
  "cands = [(''s<='', True), (''s>='', True), (''=='', False), (''!='', False), (''<='', False),
            (''>='', False), (''s<'', True), (''s>'', True), (''<'', False), (''>'', False)]"

definition cand_step :: "string \<Rightarrow> string \<times> bool \<Rightarrow> (nat \<times> string) option \<Rightarrow> (nat \<times> string) option" where
  "cand_step expr c best =
     (case findTok expr (fst c) (snd c) 0 of
        None \<Rightarrow> best
      | Some p \<Rightarrow>
          (case best of
             None \<Rightarrow> Some (p, fst c)
           | Some (pos, op) \<Rightarrow> if p < pos then Some (p, fst c) else best))"

definition findCompareOp :: "string \<Rightarrow> (nat \<times> string) option" where
  "findCompareOp expr = fold (cand_step expr) cands None"

definition op_table :: "(string \<times> CondOp) list" where
  "op_table = [(''=='', Eq), (''!='', Ne), (''<'', Lt), (''>'', Gt), (''<='', Le), (''>='', Ge),
     (''s<'', SLt), (''s>'', SGt), (''s<='', SLe), (''s>='', SGe)]"

definition opFromStr :: "string \<Rightarrow> CondOp option" where
  "opFromStr s = map_of op_table s"

fun applyOp :: "CondOp \<Rightarrow> u64 \<Rightarrow> u64 \<Rightarrow> bool" where
  "applyOp Eq l r \<longleftrightarrow> l = r"
| "applyOp Ne l r \<longleftrightarrow> l \<noteq> r"
| "applyOp Lt l r \<longleftrightarrow> l < r"
| "applyOp Gt l r \<longleftrightarrow> l > r"
| "applyOp Le l r \<longleftrightarrow> l \<le> r"
| "applyOp Ge l r \<longleftrightarrow> l \<ge> r"
| "applyOp SLt l r \<longleftrightarrow> l <s r"
| "applyOp SGt l r \<longleftrightarrow> r <s l"
| "applyOp SLe l r \<longleftrightarrow> l \<le>s r"
| "applyOp SGe l r \<longleftrightarrow> r \<le>s l"

section \<open>Programs\<close>

definition CompileCondition :: "string \<Rightarrow> CondProgram" where
  "CompileCondition exprIn =
     (let expr = trim exprIn
      in if expr = [] then program0\<lparr>valid := True, empty := True\<rparr>
         else
           let p = program0\<lparr>empty := False\<rparr>
           in case findCompareOp expr of
                None \<Rightarrow> p
              | Some (pos, op) \<Rightarrow>
                  (case opFromStr op of
                     None \<Rightarrow> p
                   | Some o1 \<Rightarrow>
                       let p1 = p\<lparr>prog_op := o1\<rparr>;
                           (okl, l) = compileOperand (take pos expr) (lhs p1);
                           p2 = p1\<lparr>lhs := l\<rparr>
                       in if \<not> okl then p2
                          else
                            let (okr, r) = compileOperand (drop (pos + length op) expr) (rhs p2);
                                p3 = p2\<lparr>rhs := r\<rparr>
                            in if \<not> okr then p3 else p3\<lparr>valid := True\<rparr>))"

definition breakpoint_registers :: "string list" where
  "breakpoint_registers =
     [''rax'', ''eax'', ''rbx'', ''ebx'', ''rcx'', ''ecx'', ''rdx'', ''edx'',
      ''rsi'', ''esi'', ''rdi'', ''edi'', ''rbp'', ''ebp'', ''rsp'', ''esp'',
      ''rip'', ''eip'', ''rflags'', ''eflags'', ''r8'', ''r9'', ''r10'', ''r11'',
      ''r12'', ''r13'', ''r14'', ''r15'']"

definition isBreakpointRegister :: "string \<Rightarrow> bool" where
  "isBreakpointRegister name \<longleftrightarrow> List.member breakpoint_registers name"

definition unsupportedBreakpointRegister :: "CondOperand \<Rightarrow> string option" where
  "unsupportedBreakpointRegister operand =
     (if kind operand = Register \<and> \<not> isBreakpointRegister (reg operand) then Some (reg operand)
      else if kind operand = Memory \<and> baseIsReg operand \<and> \<not> isBreakpointRegister (reg operand)
        then Some (reg operand)
      else None)"

text \<open>\<open>Inl\<close>: the error text.\<close>

definition ValidateBreakpointCondition :: "string \<Rightarrow> string + unit" where
  "ValidateBreakpointCondition expr =
     (let program = CompileCondition expr
      in if \<not> valid program then
           Inl (''Expected: <operand> <operator> <operand> (for example, rax == 0). '' @
                ''Operators are ==, !=, <, <=, >, >= and signed s<, s<=, s>, s>=.'')
         else if empty program then Inr ()
         else
           let bad = (case unsupportedBreakpointRegister (lhs program) of
                        Some b \<Rightarrow> Some b
                      | None \<Rightarrow> unsupportedBreakpointRegister (rhs program))
           in case bad of
                Some b \<Rightarrow> Inl (''Unknown register '' @ [CHR 0x27] @ b @ [CHR 0x27] @
                  ''. Use an x86/x64 general-purpose register such as rax, eax, rsp, rip, or r8.'')
              | None \<Rightarrow> Inr ())"

definition CompileExpression :: "string \<Rightarrow> CondOperand \<Rightarrow> bool \<times> CondOperand" where
  "CompileExpression expr out = compileOperand expr out"

definition EvalCompiled :: "CondProgram \<Rightarrow> CondContext \<Rightarrow> bool \<Rightarrow> bool" where
  "EvalCompiled prog ctx onError =
     (if empty prog then True
      else if \<not> valid prog then onError
      else
        case evalCompiledOperand (lhs prog) ctx of
          None \<Rightarrow> onError
        | Some l \<Rightarrow>
            (case evalCompiledOperand (rhs prog) ctx of
               None \<Rightarrow> onError
             | Some r \<Rightarrow> applyOp (prog_op prog) l r))"

definition EvalCondition :: "string \<Rightarrow> CondContext \<Rightarrow> bool \<Rightarrow> bool" where
  "EvalCondition exprIn ctx onError = EvalCompiled (CompileCondition exprIn) ctx onError"

definition EvalExpression :: "string \<Rightarrow> CondContext \<Rightarrow> u64 option" where
  "EvalExpression expr ctx = evalOperand expr ctx"

section \<open>Which operator is found\<close>

definition admissible :: "string \<Rightarrow> string \<times> bool \<Rightarrow> nat \<Rightarrow> bool" where
  "admissible expr c p \<longleftrightarrow> occurs expr (fst c) p \<and> (snd c \<longrightarrow> boundaryOk expr p)"

definition op_at :: "string \<Rightarrow> nat \<Rightarrow> string \<Rightarrow> bool" where
  "op_at expr p op \<longleftrightarrow> (\<exists>c \<in> set cands. fst c = op \<and> admissible expr c p)"

lemma findTok_spec:
  "case findTok expr tok g p0 of
     Some p \<Rightarrow> p0 \<le> p \<and> admissible expr (tok, g) p \<and> (\<forall>r. p0 \<le> r \<and> r < p \<longrightarrow> \<not> admissible expr (tok, g) r)
   | None \<Rightarrow> \<forall>r \<ge> p0. \<not> admissible expr (tok, g) r"
proof (induction expr tok g p0 rule: findTok.induct)
  case (1 expr tok g p0)
  show ?case
  proof (cases "str_find expr tok p0")
    case None
    then have "\<forall>q \<ge> p0. \<not> occurs expr tok q" by (simp add: str_find_None)
    with None show ?thesis by (simp add: findTok.simps [of expr tok g p0] admissible_def)
  next
    case (Some p)
    then have p: "p0 \<le> p" "occurs expr tok p" "\<forall>r. p0 \<le> r \<and> r < p \<longrightarrow> \<not> occurs expr tok r"
      by (simp_all add: str_find_Some)
    show ?thesis
    proof (cases "g \<and> \<not> boundaryOk expr p")
      case False
      with Some p show ?thesis by (auto simp: findTok.simps [of expr tok g p0] admissible_def)
    next
      case True
      have skip: "\<not> admissible expr (tok, g) r" if "p0 \<le> r" "r < Suc p" for r
        using that p True by (cases "r = p") (auto simp: admissible_def)
      have e: "findTok expr tok g p0 = findTok expr tok g (p + 1)"
        by (simp only: findTok.simps [of expr tok g p0] Some option.case if_P [OF True])
      note IH = 1 [OF Some True]
      show ?thesis
      proof (cases "findTok expr tok g (p + 1)")
        case None
        have "\<not> admissible expr (tok, g) r" if "p0 \<le> r" for r
          using IH None skip [OF that] by (cases "r < Suc p") auto
        with None show ?thesis by (simp add: e)
      next
        case (Some q)
        have "\<not> admissible expr (tok, g) r" if "p0 \<le> r" "r < q" for r
          using IH Some skip [OF that(1)] that(2) by (cases "r < Suc p") auto
        with Some IH p(1) show ?thesis by (simp add: e)
      qed
    qed
  qed
qed

lemma findCompareOp_fold:
  assumes "sorted_wrt (\<lambda>a b. length (fst b) \<le> length (fst a)) (seen @ cs)"
    and "case best of None \<Rightarrow> \<forall>c \<in> set seen. \<forall>p. \<not> admissible expr c p
      | Some (pos, op) \<Rightarrow> (\<exists>c \<in> set seen. fst c = op \<and> admissible expr c pos) \<and>
          (\<forall>c \<in> set seen. \<forall>p. admissible expr c p \<longrightarrow> pos < p \<or> pos = p \<and> length (fst c) \<le> length op)"
  shows "case fold (cand_step expr) cs best of None \<Rightarrow> \<forall>c \<in> set (seen @ cs). \<forall>p. \<not> admissible expr c p
      | Some (pos, op) \<Rightarrow> (\<exists>c \<in> set (seen @ cs). fst c = op \<and> admissible expr c pos) \<and>
          (\<forall>c \<in> set (seen @ cs). \<forall>p. admissible expr c p \<longrightarrow> pos < p \<or> pos = p \<and> length (fst c) \<le> length op)"
  using assms
proof (induction cs arbitrary: seen best)
  case (Cons c cs)
  obtain tok g where c: "c = (tok, g)" by force
  have len: "length tok \<le> length (fst d)" if "d \<in> set seen" for d
    using Cons.prems(1) that by (auto simp: sorted_wrt_append c)
  have "case cand_step expr c best of None \<Rightarrow> \<forall>c \<in> set (seen @ [c]). \<forall>p. \<not> admissible expr c p
      | Some (pos, op) \<Rightarrow> (\<exists>c \<in> set (seen @ [c]). fst c = op \<and> admissible expr c pos) \<and>
          (\<forall>c \<in> set (seen @ [c]). \<forall>p. admissible expr c p \<longrightarrow> pos < p \<or> pos = p \<and> length (fst c) \<le> length op)"
  proof (cases "findTok expr tok g 0")
    case None
    with findTok_spec [where expr = expr and tok = tok and g = g and ?p0.0 = 0] Cons.prems(2) show ?thesis
      by (auto simp: cand_step_def c split: option.splits)
  next
    case (Some p)
    with findTok_spec [where expr = expr and tok = tok and g = g and ?p0.0 = 0]
    have p: "admissible expr c p" "\<And>r. admissible expr c r \<Longrightarrow> p \<le> r" by (auto simp: c) (meson not_le)
    show ?thesis
    proof (cases best)
      case None
      with Some p Cons.prems(2) show ?thesis by (auto simp: cand_step_def c le_less)
    next
      case (Some b)
      obtain pos op where b: "b = (pos, op)" by force
      show ?thesis
      proof (cases "p < pos")
        case True
        with \<open>findTok expr tok g 0 = Some p\<close> Some b p Cons.prems(2) show ?thesis
          by (auto simp: cand_step_def c le_less) (metis less_trans)+
      next
        case False
        from Cons.prems(2) Some b obtain d where d: "d \<in> set seen" "fst d = op" "admissible expr d pos" by auto
        have "length tok \<le> length op" using len [OF d(1)] d(2) by simp
        with False \<open>findTok expr tok g 0 = Some p\<close> Some b p Cons.prems(2) show ?thesis
          by (auto simp: cand_step_def c not_less) (metis le_neq_implies_less le_trans)
      qed
    qed
  qed
  moreover have app: "(seen @ [c]) @ cs = seen @ c # cs" by simp
  ultimately show ?case
    using Cons.IH [of "seen @ [c]", unfolded app] Cons.prems(1) by simp
qed (simp only: append_Nil2 fold_simps)

lemma findCompareOp_spec:
  "case findCompareOp expr of
     None \<Rightarrow> \<forall>p op. \<not> op_at expr p op
   | Some (pos, op) \<Rightarrow> op_at expr pos op \<and>
       (\<forall>p op'. op_at expr p op' \<longrightarrow> pos < p \<or> pos = p \<and> length op' \<le> length op)"
proof -
  have "sorted_wrt (\<lambda>a b. length (fst b) \<le> length (fst a)) ([] @ cands)" by (simp add: cands_def)
  from findCompareOp_fold [OF this, where best = None and expr = expr] show ?thesis
    by (fastforce simp: findCompareOp_def op_at_def split: option.splits)
qed

section \<open>Printing conditions\<close>

text \<open>Operands as text: a decimal number, a register, or a memory reference with an optional
  signed displacement.\<close>

datatype operand = Num nat | Rg string | Mem string "(bool \<times> nat) option"

definition reg_name :: "string \<Rightarrow> bool" where
  "reg_name r \<longleftrightarrow> r \<noteq> [] \<and> c_isalpha (hd r) \<and> (\<forall>c \<in> set r. c_isalnum c \<and> c_tolower c = c)"

fun operand_ok :: "operand \<Rightarrow> bool" where
  "operand_ok (Num n) \<longleftrightarrow> n < 2 ^ 64"
| "operand_ok (Rg r) \<longleftrightarrow> reg_name r"
| "operand_ok (Mem r d) \<longleftrightarrow> reg_name r \<and> (case d of None \<Rightarrow> True | Some (_, n) \<Rightarrow> n < 2 ^ 64)"

fun operand_text :: "operand \<Rightarrow> string" where
  "operand_text (Num n) = dec n"
| "operand_text (Rg r) = r"
| "operand_text (Mem r None) = ''['' @ r @ '']''"
| "operand_text (Mem r (Some (neg, n))) = ''['' @ r @ (if neg then ''-'' else ''+'') @ dec n @ '']''"

fun operand_code :: "operand \<Rightarrow> CondOperand" where
  "operand_code (Num n) = operand0\<lparr>kind := Number, number := of_nat n\<rparr>"
| "operand_code (Rg r) = operand0\<lparr>kind := Register, reg := r\<rparr>"
| "operand_code (Mem r d) = operand0\<lparr>kind := Memory, baseIsReg := True, reg := r,
     disp := (case d of None \<Rightarrow> 0 | Some (neg, n) \<Rightarrow> if neg then - of_nat n else of_nat n)\<rparr>"

lemma char_code_eq: "c = d \<longleftrightarrow> of_char c = (of_char d :: nat)"
  by simp

lemma alnum_plain:
  assumes "c_isalnum c"
  shows "\<not> c_isspace c" "of_char c \<noteq> (0 :: nat)" "c \<notin> set ''[]+-=!<> ''"
proof -
  let ?n = "of_char c :: nat"
  have n: "48 \<le> ?n \<and> ?n \<le> 57 \<or> 65 \<le> ?n \<and> ?n \<le> 90 \<or> 97 \<le> ?n \<and> ?n \<le> 122"
    using assms by (auto simp: c_isalnum_def c_isalpha_def c_isdigit_def Let_def)
  then show "\<not> c_isspace c" "?n \<noteq> 0" by (auto simp: c_isspace_def Let_def)
  have "?n \<notin> set (map of_char ''[]+-=!<> '')" using n by auto
  then show "c \<notin> set ''[]+-=!<> ''" by auto
qed

lemma trim_plain:
  assumes "s = [] \<or> \<not> c_isspace (hd s) \<and> \<not> c_isspace (last s)"
  shows "trim s = s" "trim (s @ '' '') = s" "trim ('' '' @ s) = s"
proof -
  have sp: "c_isspace CHR '' ''" by (simp add: c_isspace_def)
  have d: "dropWhile c_isspace s = s" "dropWhile c_isspace (rev s) = rev s"
    using assms by (auto simp: dropWhile_eq_self_iff hd_rev)
  show "trim s = s" by (simp add: trim_def d)
  show "trim ('' '' @ s) = s" by (simp add: trim_def d sp)
  show "trim (s @ '' '') = s"
  proof (cases "s = []")
    case False
    have "dropWhile c_isspace (s @ '' '') = s @ '' ''"
      using assms False by (cases s) auto
    then show ?thesis by (simp add: trim_def d sp)
  qed (simp add: trim_def sp)
qed

lemma c_str_plain: "\<forall>c \<in> set s. c_isalnum c \<Longrightarrow> c_str s = s"
  unfolding c_str_def takeWhile_eq_all_conv using alnum_plain(2) by blast

lemma parseNumber_dec: "n < 2 ^ 64 \<Longrightarrow> parseNumber (dec n) = Some (of_nat n)"
proof -
  assume "n < 2 ^ 64"
  moreover have "c_str (dec n) = dec n"
    using dec_digits by (intro c_str_plain) (auto simp: c_isalnum_def)
  ultimately show ?thesis by (simp add: parseNumber_def strtoull_dec)
qed

lemma parseNumber_reg: "reg_name r \<Longrightarrow> parseNumber r = None"
proof -
  assume r: "reg_name r"
  then obtain c cs where cs: "r = c # cs" "c_isalpha c" by (cases r) (auto simp: reg_name_def)
  have n: "65 \<le> (of_char c :: nat) \<and> of_char c \<le> (90 :: nat) \<or> 97 \<le> (of_char c :: nat) \<and> of_char c \<le> (122 :: nat)"
    using cs(2) by (auto simp: c_isalpha_def Let_def)
  have "c \<noteq> CHR ''-''" "c \<noteq> CHR ''+''" "c \<noteq> CHR ''0''" "\<not> c_isspace c" "\<not> is_digit_in 10 c"
    using n by (auto simp: c_isspace_def is_digit_in_def digit_val_def Let_def)
  moreover from this(3) have "number_base (c # cs) = (10, c # cs)"
    by (cases "c # cs" rule: number_base.cases) auto
  moreover have "c_str r = r" using r by (intro c_str_plain) (simp add: reg_name_def)
  ultimately show ?thesis by (simp add: parseNumber_def strtoull_def strip_sign_def cs(1))
qed

lemma no_sign: "\<forall>c \<in> set r. c_isalnum c \<Longrightarrow> i < length r \<Longrightarrow> r ! i \<noteq> CHR ''+'' \<and> r ! i \<noteq> CHR ''-''"
  using alnum_plain(3) [of "r ! i"] by auto

lemma find_sign_plain: "\<forall>c \<in> set r. c_isalnum c \<Longrightarrow> find_sign r = None"
  by (simp add: find_sign_def find_None_iff no_sign)

lemma find_sign_at:
  assumes "r \<noteq> []" "\<forall>c \<in> set r. c_isalnum c" "sg = CHR ''+'' \<or> sg = CHR ''-''"
  shows "find_sign (r @ sg # ds) = Some (length r)"
proof -
  let ?s = "r @ sg # ds"
  have "\<not> (?s ! j = CHR ''+'' \<or> ?s ! j = CHR ''-'')" if "j < length r" for j
    using that no_sign [OF assms(2), of j] by (simp add: nth_append)
  moreover have "1 \<le> length r" using assms(1) by (simp add: Suc_le_eq)
  ultimately show ?thesis
    unfolding find_sign_def using assms(3) by (intro find_upt_Some) auto
qed

lemma reg_lower: "reg_name r \<Longrightarrow> map c_tolower r = r"
  by (simp add: reg_name_def map_idI)

lemma reg_ends: "reg_name r \<Longrightarrow> \<not> c_isspace (hd r) \<and> \<not> c_isspace (last r) \<and> hd r \<noteq> CHR ''[''"
  using alnum_plain [of "hd r"] alnum_plain(1) [of "last r"] by (auto simp: reg_name_def)

lemma dec_ends: "\<not> c_isspace (hd (dec n)) \<and> \<not> c_isspace (last (dec n)) \<and> hd (dec n) \<noteq> CHR ''[''"
proof -
  have "c_isdigit (hd (dec n))" "c_isdigit (last (dec n))" using dec_digits [of n] by simp_all
  moreover from this(1) have "hd (dec n) \<noteq> CHR ''[''" by (auto simp: c_isdigit_def Let_def)
  ultimately show ?thesis by (simp add: digit_not_space)
qed

lemma compile_memory_text:
  assumes "reg_name r"
  shows "compile_memory r operand0 = (True, operand_code (Mem r None))"
    and "n < 2 ^ 64 \<Longrightarrow> compile_memory (r @ (if neg then CHR ''-'' else CHR ''+'') # dec n) operand0 =
      (True, operand_code (Mem r (Some (neg, n))))"
proof -
  have r: "trim r = r" "parseNumber r = None" "map c_tolower r = r" "r \<noteq> []" "hd r \<noteq> CHR ''[''"
    using assms reg_ends by (auto simp: trim_plain parseNumber_reg reg_lower reg_name_def)
  have al: "\<forall>c \<in> set r. c_isalnum c" using assms by (simp add: reg_name_def)
  show "compile_memory r operand0 = (True, operand_code (Mem r None))"
    using r by (simp add: compile_memory_def find_sign_plain [OF al] operand0_def)
  assume n: "n < 2 ^ 64"
  let ?sg = "if neg then CHR ''-'' else CHR ''+''"
  have fs: "find_sign (r @ ?sg # dec n) = Some (length r)"
    by (rule find_sign_at [OF r(4) al]) simp
  have "trim (dec n) = dec n" using dec_ends by (intro trim_plain) blast
  with fs n r show "compile_memory (r @ ?sg # dec n) operand0 = (True, operand_code (Mem r (Some (neg, n))))"
    by (simp add: compile_memory_def parseNumber_dec operand0_def Let_def)
qed

lemma operand_ends:
  "operand_ok x \<Longrightarrow> operand_text x \<noteq> [] \<and> \<not> c_isspace (hd (operand_text x)) \<and> \<not> c_isspace (last (operand_text x))"
proof -
  have "\<not> c_isspace CHR ''[''" "\<not> c_isspace CHR '']''" by (simp_all add: c_isspace_def)
  moreover have "reg_name r \<Longrightarrow> r \<noteq> []" for r by (simp add: reg_name_def)
  moreover assume "operand_ok x"
  ultimately show ?thesis
    using dec_ends reg_ends by (cases x rule: operand_text.cases) auto
qed

lemma compileOperand_trim: "trim t = trim t' \<Longrightarrow> compileOperand t = compileOperand t'"
  by (rule ext) (simp add: compileOperand_def)

lemma compile_brackets:
  "compileOperand (''['' @ t @ '']'') out = compile_memory (trim t) out"
proof -
  have "trim (''['' @ t @ '']'') = ''['' @ t @ '']''" by (intro trim_plain) (simp add: c_isspace_def)
  then show ?thesis by (simp add: compileOperand_def Let_def)
qed

lemma compileOperand_text: "operand_ok x \<Longrightarrow> compileOperand (operand_text x) operand0 = (True, operand_code x)"
proof (cases x rule: operand_text.cases)
  case (1 n)
  assume "operand_ok x"
  moreover have "trim (dec n) = dec n" using dec_ends by (intro trim_plain) blast
  ultimately show ?thesis using 1 dec_ends [of n] by (simp add: compileOperand_def parseNumber_dec)
next
  case (2 r)
  assume "operand_ok x"
  then have r: "reg_name r" using 2 by simp
  then have "trim r = r" using reg_ends by (intro trim_plain) blast
  with r 2 reg_ends [OF r] show ?thesis
    by (simp add: compileOperand_def parseNumber_reg reg_lower) (simp add: reg_name_def)
next
  case (3 r)
  assume "operand_ok x"
  then have r: "reg_name r" using 3 by simp
  then have "trim r = r" using reg_ends by (intro trim_plain) blast
  with r 3 show ?thesis using compile_brackets [of r] by (simp add: compile_memory_text)
next
  case (4 r neg n)
  assume ok: "operand_ok x"
  let ?t = "r @ (if neg then CHR ''-'' else CHR ''+'') # dec n"
  have "trim ?t = ?t" using reg_ends [of r] dec_ends [of n] ok 4
    by (intro trim_plain) (auto simp: reg_name_def)
  moreover have "operand_text x = ''['' @ ?t @ '']''" using 4 by simp
  ultimately show ?thesis using ok 4 compile_brackets [of ?t] by (simp add: compile_memory_text del: operand_code.simps)
qed

fun op_text :: "CondOp \<Rightarrow> string" where
  "op_text Eq = ''==''" | "op_text Ne = ''!=''" | "op_text Lt = ''<''" | "op_text Gt = ''>''"
| "op_text Le = ''<=''" | "op_text Ge = ''>=''" | "op_text SLt = ''s<''" | "op_text SGt = ''s>''"
| "op_text SLe = ''s<=''" | "op_text SGe = ''s>=''"

lemma op_text_cand: "\<exists>g. (op_text x, g) \<in> set cands" "opFromStr (op_text x) = Some x"
proof -
  show "\<exists>g. (op_text x, g) \<in> set cands" by (cases x) (auto simp: cands_def)
  show "opFromStr (op_text x) = Some x" by (cases x) (simp_all add: op_table_def opFromStr_def)
qed

definition cond_text :: "operand \<Rightarrow> CondOp \<Rightarrow> operand \<Rightarrow> string" where
  "cond_text l x r = operand_text l @ '' '' @ op_text x @ '' '' @ operand_text r"

lemma operand_chars: "operand_ok x \<Longrightarrow> c \<in> set (operand_text x) \<Longrightarrow> c \<notin> set ''=!<> ''"
proof -
  have d: "c \<in> set (dec n) \<Longrightarrow> c_isalnum c" for n using dec_digits [of n] by (simp add: c_isalnum_def)
  have r: "reg_name r \<Longrightarrow> c \<in> set r \<Longrightarrow> c_isalnum c" for r by (simp add: reg_name_def)
  assume "operand_ok x" "c \<in> set (operand_text x)"
  then have "c_isalnum c \<or> c \<in> set ''[]+-''"
  proof (cases x rule: operand_text.cases)
    case (1 n)
    with \<open>c \<in> set (operand_text x)\<close> d [of n] show ?thesis by simp
  next
    case (2 q)
    with \<open>operand_ok x\<close> \<open>c \<in> set (operand_text x)\<close> r [of q] show ?thesis by simp
  next
    case (3 q)
    with \<open>c \<in> set (operand_text x)\<close> have "c \<in> set q \<or> c \<in> set ''[]+-''" by auto
    with \<open>operand_ok x\<close> 3 r [of q] show ?thesis by auto
  next
    case (4 q neg n)
    with \<open>c \<in> set (operand_text x)\<close> have "c \<in> set q \<or> c \<in> set (dec n) \<or> c \<in> set ''[]+-''"
      by (auto split: if_splits)
    with \<open>operand_ok x\<close> 4 r [of q] d [of n] show ?thesis by auto
  qed
  then show ?thesis
  proof
    assume "c_isalnum c"
    then show ?thesis using alnum_plain(3) [of c] by simp
  qed auto
qed

lemma cand_chars: "c \<in> set cands \<Longrightarrow> fst c \<noteq> [] \<and> CHR '' '' \<notin> set (fst c) \<and>
    (fst c ! 0 \<in> set ''=!<>'' \<or> 1 < length (fst c) \<and> fst c ! 1 \<in> set ''=!<>'')"
proof -
  have "list_all (\<lambda>c. fst c \<noteq> [] \<and> CHR '' '' \<notin> set (fst c) \<and>
    (fst c ! 0 \<in> set ''=!<>'' \<or> 1 < length (fst c) \<and> fst c ! 1 \<in> set ''=!<>'')) cands"
    by (simp add: cands_def)
  then show "c \<in> set cands \<Longrightarrow> ?thesis" by (simp add: list_all_iff)
qed

text \<open>In a printed condition no operator can start inside the left operand or on its space.\<close>

lemma cond_text_op:
  assumes l: "operand_ok l"
  shows "findCompareOp (cond_text l x r) = Some (length (operand_text l) + 1, op_text x)"
proof -
  let ?L = "operand_text l" and ?e = "cond_text l x r" and ?n = "length (operand_text l) + 1"
  have at: "?e ! i = ?L ! i" if "i < length ?L" for i using that by (simp add: cond_text_def nth_append)
  have sp: "?e ! length ?L = CHR '' ''" by (simp add: cond_text_def nth_append)
  have dr: "drop ?n ?e = op_text x @ '' '' @ operand_text r" by (simp add: cond_text_def)
  have bd: "boundaryOk ?e ?n" using sp by (simp add: boundaryOk_def c_isalnum_def c_isalpha_def c_isdigit_def)
  have here: "op_at ?e ?n (op_text x)"
  proof -
    obtain g where g: "(op_text x, g) \<in> set cands" using op_text_cand(1) by blast
    have "occurs ?e (op_text x) ?n" using dr by (simp add: occurs_def cond_text_def)
    with g bd show ?thesis unfolding op_at_def admissible_def by (intro bexI [of _ "(op_text x, g)"]) auto
  qed
  have early: "\<not> op_at ?e p op" if "p < ?n" for p op
  proof
    assume "op_at ?e p op"
    then obtain c where c: "c \<in> set cands" "fst c = op" "occurs ?e op p" by (auto simp: op_at_def admissible_def)
    have nth: "?e ! (p + k) = op ! k" if "k < length op" for k
      using c(3) that by (metis nth_take nth_drop occurs_def add_leD1)
    have nosp: "CHR '' '' \<notin> set op" "op \<noteq> []" using cand_chars [OF c(1)] c(2) by auto
    obtain k where k: "k < length op" "k < 2" "op ! k \<in> set ''=!<>''"
    proof -
      have "op ! 0 \<in> set ''=!<>'' \<or> 1 < length op \<and> op ! 1 \<in> set ''=!<>''"
        using cand_chars [OF c(1)] c(2) by blast
      then show thesis
      proof
        assume "op ! 0 \<in> set ''=!<>''"
        with nosp(2) show thesis by (intro that [of 0]) auto
      next
        assume "1 < length op \<and> op ! 1 \<in> set ''=!<>''"
        then show thesis by (intro that [of 1]) auto
      qed
    qed
    have in1: "?e ! (p + i) \<noteq> CHR '' ''" if "i < length op" for i
      using nth [OF that] nosp(1) that by (metis nth_mem)
    have "p \<noteq> length ?L" using in1 [of 0] sp nosp(2) by auto
    with \<open>p < ?n\<close> have p: "p < length ?L" by simp
    show False
    proof (cases "p + k < length ?L")
      case True
      then have "?e ! (p + k) \<in> set ?L" by (simp add: at)
      with operand_chars [OF l this] nth [OF k(1)] k(3) show False by auto
    next
      case False
      with p k(2) have "p + k = length ?L" by linarith
      with sp in1 [OF k(1)] show False by simp
    qed
  qed
  from findCompareOp_spec [of ?e] here obtain pos op where f: "findCompareOp ?e = Some (pos, op)"
    "op_at ?e pos op" "\<And>p op'. op_at ?e p op' \<Longrightarrow> pos < p \<or> pos = p \<and> length op' \<le> length op"
    by (auto split: option.splits)
  have pos: "pos = ?n" using f(3) [OF here] early f(2) by (metis less_irrefl)
  have "length (op_text x) \<le> length op" using f(3) [OF here] pos by simp
  moreover from f(2) obtain c where c: "c \<in> set cands" "fst c = op" "occurs ?e op ?n"
    by (auto simp: op_at_def admissible_def pos)
  then have pre: "take (length op) (op_text x @ '' '' @ operand_text r) = op" using dr by (simp add: occurs_def)
  moreover have "CHR '' '' \<notin> set op" using cand_chars [OF c(1)] c(2) by auto
  ultimately have "length op = length (op_text x)"
  proof -
    have "\<not> length (op_text x) < length op"
    proof
      assume less: "length (op_text x) < length op"
      then have "op ! length (op_text x) = CHR '' ''"
        using pre by (metis nth_take nth_append_length append_Cons)
      with less \<open>CHR '' '' \<notin> set op\<close> show False by (metis nth_mem)
    qed
    with \<open>length (op_text x) \<le> length op\<close> show ?thesis by simp
  qed
  with pre f(1) pos show ?thesis by simp
qed

lemma CompileCondition_text:
  assumes l: "operand_ok l" and r: "operand_ok r"
  shows "CompileCondition (cond_text l x r) =
     \<lparr>valid = True, empty = False, prog_op = x, lhs = operand_code l, rhs = operand_code r\<rparr>"
proof -
  let ?e = "cond_text l x r" and ?n = "length (operand_text l) + 1"
  note le = operand_ends [OF l] and re = operand_ends [OF r]
  have tr: "trim ?e = ?e" using le re by (intro trim_plain) (auto simp: cond_text_def)
  have "compileOperand (operand_text l @ '' '') = compileOperand (operand_text l)"
    using le trim_plain [of "operand_text l"] by (intro compileOperand_trim) simp
  moreover have "take ?n ?e = operand_text l @ '' ''" by (simp add: cond_text_def)
  ultimately have L: "compileOperand (take ?n ?e) operand0 = (True, operand_code l)"
    by (simp add: compileOperand_text l)
  have "compileOperand ('' '' @ operand_text r) = compileOperand (operand_text r)"
    using re trim_plain [of "operand_text r"] by (intro compileOperand_trim) simp
  moreover have "drop (?n + length (op_text x)) ?e = '' '' @ operand_text r" by (simp add: cond_text_def)
  ultimately have R: "compileOperand (drop (?n + length (op_text x)) ?e) operand0 = (True, operand_code r)"
    by (simp add: compileOperand_text r)
  have ne: "?e \<noteq> []" by (simp add: cond_text_def)
  show ?thesis
    unfolding CompileCondition_def Let_def tr if_not_P [OF ne] cond_text_op [OF l] option.case prod.case
      op_text_cand(2) program0_def
    using L R by simp
qed

section \<open>Meaning\<close>

fun operand_value :: "operand \<Rightarrow> CondContext \<Rightarrow> u64 option" where
  "operand_value (Num n) ctx = Some (of_nat n)"
| "operand_value (Rg r) ctx = Option.bind (ctx_reg ctx) (\<lambda>f. f r)"
| "operand_value (Mem r d) ctx = Option.bind (Option.bind (ctx_reg ctx) (\<lambda>f. f r)) (\<lambda>b.
     map_option (\<lambda>m. m (case d of None \<Rightarrow> b | Some (neg, n) \<Rightarrow> if neg then b - of_nat n else b + of_nat n)) (ctx_mem ctx))"

fun rel_holds :: "CondOp \<Rightarrow> u64 \<Rightarrow> u64 \<Rightarrow> bool" where
  "rel_holds Eq a b \<longleftrightarrow> uint a = uint b" | "rel_holds Ne a b \<longleftrightarrow> uint a \<noteq> uint b"
| "rel_holds Lt a b \<longleftrightarrow> uint a < uint b" | "rel_holds Gt a b \<longleftrightarrow> uint b < uint a"
| "rel_holds Le a b \<longleftrightarrow> uint a \<le> uint b" | "rel_holds Ge a b \<longleftrightarrow> uint b \<le> uint a"
| "rel_holds SLt a b \<longleftrightarrow> sint a < sint b" | "rel_holds SGt a b \<longleftrightarrow> sint b < sint a"
| "rel_holds SLe a b \<longleftrightarrow> sint a \<le> sint b" | "rel_holds SGe a b \<longleftrightarrow> sint b \<le> sint a"

lemma applyOp_rel: "applyOp x a b \<longleftrightarrow> rel_holds x a b"
  by (cases x) (auto simp: word_less_def word_le_def word_sless_alt word_sle_eq word_uint_eq_iff)

lemma evalCompiledOperand_code: "evalCompiledOperand (operand_code o1) ctx = operand_value o1 ctx"
  by (cases o1) (auto simp: evalCompiledOperand_def operand0_def split: option.splits prod.splits)

section \<open>Properties\<close>

text \<open>C26: the operator search picks the earliest position at which an operator may start and the
  longest operator there, where the signed \<open>s\<close>-forms may only start at a word boundary; it finds
  none exactly when no operator may start anywhere.\<close>

theorem findCompareOp_earliest_longest:
  "case findCompareOp expr of
     None \<Rightarrow> \<forall>p op. \<not> op_at expr p op
   | Some (pos, op) \<Rightarrow> op_at expr pos op \<and>
       (\<forall>p op'. op_at expr p op' \<longrightarrow> pos < p \<or> pos = p \<and> length op' \<le> length op)"
  using findCompareOp_spec [of expr] by simp

lemma findCompareOp_rflags: "findCompareOp ''rflags<0'' = Some (6, ''<'')"
  by code_simp

theorem findCompareOp_earliest_longest_witness: "op_at ''rflags<0'' 6 ''<''"
  using findCompareOp_earliest_longest [of "''rflags<0''"] by (simp add: findCompareOp_rflags)

text \<open>C25: compiling inverts printing. For every operator and every well-formed pair of operands
  (decimal numbers, registers, memory references with a signed displacement), the compiled program
  of the printed condition has exactly these operands and this operator, and evaluating it
  compares the operands' values, unsigned for the plain operators and as two's complement for the
  signed ones; an unknown register or a missing callback yields \<open>onError\<close>. The address of a memory reference
  is the two's complement sum of base and displacement (\<open>address_signed\<close> and \<open>negate_signed\<close>).\<close>

theorem CompileCondition_roundtrip:
  assumes "operand_ok l" "operand_ok r"
  shows "CompileCondition (cond_text l x r) =
      \<lparr>valid = True, empty = False, prog_op = x, lhs = operand_code l, rhs = operand_code r\<rparr> \<and>
    EvalCondition (cond_text l x r) ctx onError =
      (case (operand_value l ctx, operand_value r ctx) of
         (Some a, Some b) \<Rightarrow> rel_holds x a b
       | _ \<Rightarrow> onError)"
  using CompileCondition_text [OF assms, of x]
  by (auto simp: EvalCondition_def EvalCompiled_def evalCompiledOperand_code applyOp_rel split: option.splits)

theorem CompileCondition_roundtrip_witness:
  "EvalCondition (cond_text (Rg ''rax'') SLt (Num 0)) \<lparr>ctx_reg = Some (\<lambda>_. Some (- 5)), ctx_mem = None\<rparr> False"
proof -
  have "reg_name ''rax''"
    by (simp add: reg_name_def c_isalpha_def c_isalnum_def c_tolower_def Let_def)
  then show ?thesis
    using CompileCondition_roundtrip [of "Rg ''rax''" "Num 0" SLt "\<lparr>ctx_reg = Some (\<lambda>_. Some (- 5)), ctx_mem = None\<rparr>" False]
    by (simp add: sint_u64)
qed

text \<open>C39: a condition accepted for a breakpoint never falls back to the error answer at a hit: with a
  context that resolves the debugger's registers and reads memory, its result does not depend on
  \<open>onError\<close>.\<close>

theorem ValidateBreakpointCondition_total:
  assumes "ValidateBreakpointCondition expr = Inr ()"
    and "ctx_reg ctx = Some f" "\<forall>name. isBreakpointRegister name \<longrightarrow> f name \<noteq> None" "ctx_mem ctx \<noteq> None"
  shows "EvalCondition expr ctx True = EvalCondition expr ctx False"
proof -
  have total: "evalCompiledOperand p ctx \<noteq> None" if "unsupportedBreakpointRegister p = None" for p
    using that assms(2-4)
    by (cases "kind p") (auto simp: evalCompiledOperand_def unsupportedBreakpointRegister_def split: if_splits)
  show ?thesis
    using assms(1) total [of "lhs (CompileCondition expr)"] total [of "rhs (CompileCondition expr)"]
    by (auto simp: EvalCondition_def EvalCompiled_def ValidateBreakpointCondition_def Let_def
        split: if_splits option.splits)
qed

theorem ValidateBreakpointCondition_total_witness:
  "EvalCondition (cond_text (Rg ''rax'') Eq (Num 7)) \<lparr>ctx_reg = Some (\<lambda>_. Some 1), ctx_mem = Some (\<lambda>_. 0)\<rparr> True =
   EvalCondition (cond_text (Rg ''rax'') Eq (Num 7)) \<lparr>ctx_reg = Some (\<lambda>_. Some 1), ctx_mem = Some (\<lambda>_. 0)\<rparr> False"
proof -
  have "reg_name ''rax''"
    by (simp add: reg_name_def c_isalpha_def c_isalnum_def c_tolower_def Let_def)
  then have "ValidateBreakpointCondition (cond_text (Rg ''rax'') Eq (Num 7)) = Inr ()"
    by (simp add: ValidateBreakpointCondition_def CompileCondition_text unsupportedBreakpointRegister_def
        operand0_def isBreakpointRegister_def breakpoint_registers_def)
  from ValidateBreakpointCondition_total [OF this] show ?thesis by simp
qed

text \<open>A leading zero selects octal, which the grammar in the header does not mention.\<close>

lemma parseNumber_octal: "parseNumber ''010'' = Some 8"
  by (simp add: parseNumber_def c_str_def strtoull_def strip_sign_def c_isspace_def is_digit_in_def digit_val_def
      digits_value_def)

end
