(* ===== verification/Instruction_Model.thy ===== *)
theory Instruction_Model
  imports Prelude
begin

unbundle bit_operations_syntax

text \<open>
  \<open>src/src/Disasm/IDisassembler.h\<close>: the engine-agnostic instruction record, its control-flow
  helpers, and the decoder configuration with the encodings under which it is persisted and used
  as a cache key. The \<open>IDisassembler\<close> interface itself (the decoders) is not modelled. C++
  enumerations are datatypes; where the code uses an enumerator's number it is a function.
\<close>

section \<open>Instructions\<close>

datatype FlowKind = FK_None | DirectCall | IndirectCall | ConditionalBranch | UnconditionalBranch
  | IndirectBranch | Return | Switch | SubroutineCall | SubroutineReturn

record FlowInfo =
  fl_kind :: FlowKind
  directTargetValid :: bool
  directTarget :: u64
  delaySlots :: u8

datatype OperandKind = OK_Invalid | OK_Register | OK_Immediate | OK_Memory | OK_Pointer

datatype OperandAccess = OA_None | OA_Read | OA_Write | OA_ReadWrite

fun access_bits :: "OperandAccess \<Rightarrow> u8" where
  "access_bits OA_None = 0" | "access_bits OA_Read = 1" | "access_bits OA_Write = 2" | "access_bits OA_ReadWrite = 3"

definition OperandReads :: "OperandAccess \<Rightarrow> bool" where
  "OperandReads a \<longleftrightarrow> access_bits a AND access_bits OA_Read \<noteq> 0"

definition OperandWrites :: "OperandAccess \<Rightarrow> bool" where
  "OperandWrites a \<longleftrightarrow> access_bits a AND access_bits OA_Write \<noteq> 0"

record TypedOperand =
  op_kind :: OperandKind
  op_access :: OperandAccess
  widthBits :: u16
  registerName :: string
  immediate :: u64
  immediateSigned :: bool
  segmentRegister :: string
  baseRegister :: string
  indexRegister :: string
  scale :: u32
  displacement :: u64
  displacementValid :: bool
  pcRelative :: bool

datatype SemanticFlag = Carry | Parity | AuxCarry | Zero | Sign | Trap | Interrupt | Direction | Overflow
  | NestedTask | Resume | Alignment | Virtual8086 | VirtualInt | VirtualPend | Id | Condition

fun flag_index :: "SemanticFlag \<Rightarrow> nat" where
  "flag_index Carry = 0" | "flag_index Parity = 1" | "flag_index AuxCarry = 2" | "flag_index Zero = 3"
| "flag_index Sign = 4" | "flag_index Trap = 5" | "flag_index Interrupt = 6" | "flag_index Direction = 7"
| "flag_index Overflow = 8" | "flag_index NestedTask = 9" | "flag_index Resume = 10" | "flag_index Alignment = 11"
| "flag_index Virtual8086 = 12" | "flag_index VirtualInt = 13" | "flag_index VirtualPend = 14" | "flag_index Id = 15"
| "flag_index Condition = 16"

definition SemanticFlagBit :: "SemanticFlag \<Rightarrow> u64" where
  "SemanticFlagBit f = push_bit (flag_index f) 1"

datatype InstructionPrefix = Lock | Rep | Repe | Repne | Bnd | XAcquire | XRelease | NoTrack

fun InstructionPrefixName :: "InstructionPrefix \<Rightarrow> string" where
  "InstructionPrefixName Lock = ''lock''" | "InstructionPrefixName Rep = ''rep''"
| "InstructionPrefixName Repe = ''repe''" | "InstructionPrefixName Repne = ''repne''"
| "InstructionPrefixName Bnd = ''bnd''" | "InstructionPrefixName XAcquire = ''xacquire''"
| "InstructionPrefixName XRelease = ''xrelease''" | "InstructionPrefixName NoTrack = ''notrack''"

record SwitchCase =
  sc_value :: u64
  sc_target :: u64
  sc_targetValid :: bool

record SwitchInfo =
  defaultTarget :: u64
  defaultTargetValid :: bool
  sw_cases :: "SwitchCase list"

record FarTarget =
  segment :: u16
  offset :: u32
  offsetBits :: u8
  far_valid :: bool
  linearAddress :: u64
  linearAddressValid :: bool

record Instruction =
  in_address :: u64
  in_length :: u32
  in_bytes :: string
  mnemonic :: string
  operands :: string
  prefixes :: "InstructionPrefix list"
  isBranch :: bool
  isCall :: bool
  isRet :: bool
  isRepString :: bool
  branchTarget :: u64
  branchTargetValid :: bool
  flow :: FlowInfo
  typedOperands :: "TypedOperand list"
  registersRead :: "string list"
  registersWritten :: "string list"
  flagsRead :: u64
  flagsWritten :: u64
  comment :: string
  extraTargets :: "u64 list"
  switchInfo :: SwitchInfo
  farTarget :: FarTarget

definition append_word :: "string \<Rightarrow> string \<Rightarrow> string" where
  "append_word t w = (if t \<noteq> [] then t @ '' '' else t) @ w"

definition InstructionText :: "Instruction \<Rightarrow> string" where
  "InstructionText i =
     (let t1 = fold (\<lambda>p t. append_word t (InstructionPrefixName p)) (prefixes i) [];
          t2 = (if mnemonic i \<noteq> [] then append_word t1 (mnemonic i) else t1)
      in if operands i \<noteq> [] then append_word t2 (operands i) else t2)"

definition TryGetDirectTarget :: "Instruction \<Rightarrow> bool \<times> u64" where
  "TryGetDirectTarget i =
     (if directTargetValid (flow i) then (True, directTarget (flow i))
      else if branchTargetValid i \<or> branchTarget i \<noteq> 0 then (True, branchTarget i)
      else (False, 0))"

definition HasBranchTarget :: "Instruction \<Rightarrow> bool" where
  "HasBranchTarget i = fst (TryGetDirectTarget i)"

definition InstructionIsCall :: "Instruction \<Rightarrow> bool" where
  "InstructionIsCall i =
     (if fl_kind (flow i) \<noteq> FK_None
      then fl_kind (flow i) = DirectCall \<or> fl_kind (flow i) = IndirectCall
      else isCall i)"

definition InstructionIsReturn :: "Instruction \<Rightarrow> bool" where
  "InstructionIsReturn i = (if fl_kind (flow i) \<noteq> FK_None then fl_kind (flow i) = Return else isRet i)"

definition InstructionIsSubroutineCall :: "Instruction \<Rightarrow> bool" where
  "InstructionIsSubroutineCall i \<longleftrightarrow> fl_kind (flow i) = SubroutineCall"

definition InstructionIsSubroutineReturn :: "Instruction \<Rightarrow> bool" where
  "InstructionIsSubroutineReturn i \<longleftrightarrow> fl_kind (flow i) = SubroutineReturn"

definition InstructionEndsBlock :: "Instruction \<Rightarrow> bool" where
  "InstructionEndsBlock i =
     (case fl_kind (flow i) of
        ConditionalBranch \<Rightarrow> True | UnconditionalBranch \<Rightarrow> True | IndirectBranch \<Rightarrow> True
      | Return \<Rightarrow> True | Switch \<Rightarrow> True | SubroutineCall \<Rightarrow> True | SubroutineReturn \<Rightarrow> True
      | DirectCall \<Rightarrow> False | IndirectCall \<Rightarrow> False
      | FK_None \<Rightarrow> isBranch i \<and> \<not> isCall i)"

definition InstructionIsUnconditionalBranch :: "Instruction \<Rightarrow> bool" where
  "InstructionIsUnconditionalBranch i \<longleftrightarrow>
     fl_kind (flow i) = UnconditionalBranch \<or> fl_kind (flow i) = IndirectBranch \<or> fl_kind (flow i) = Switch"

definition InstructionHasMemoryOperand :: "Instruction \<Rightarrow> bool" where
  "InstructionHasMemoryOperand i = list_ex (\<lambda>x. op_kind x = OK_Memory) (typedOperands i)"

section \<open>Decoder configurations\<close>

datatype Arch = X86_16 | X86 | X64 | ARM | THUMB | ARM64 | MIPS | MIPS64 | PPC | PPC64
  | RISCV32 | RISCV64 | JVM | GML

datatype Engine = Zydis | Capstone

datatype ByteOrder = Little | Big

record DecoderFeatures =
  riscvCompressed :: bool
  armV8 :: bool
  armMClass :: bool
  mipsMicro :: bool

definition default_features :: DecoderFeatures where
  "default_features = \<lparr>riscvCompressed = True, armV8 = False, armMClass = False, mipsMicro = False\<rparr>"

definition kKnownDecoderFeatureBits :: u32 where
  "kKnownDecoderFeatureBits = push_bit 0 1 OR push_bit 1 1 OR push_bit 2 1 OR push_bit 3 1"

definition DecoderFeatureBits :: "DecoderFeatures \<Rightarrow> u32" where
  "DecoderFeatureBits f =
     (if riscvCompressed f then push_bit 0 1 else 0) OR (if armV8 f then push_bit 1 1 else 0) OR
     (if armMClass f then push_bit 2 1 else 0) OR (if mipsMicro f then push_bit 3 1 else 0)"

definition DecoderFeatureBitsValid :: "u32 \<Rightarrow> bool" where
  "DecoderFeatureBitsValid bits \<longleftrightarrow> bits AND NOT kKnownDecoderFeatureBits = 0"

text \<open>\<open>None\<close>: refused, the caller's features are untouched.\<close>

definition DecoderFeaturesFromBits :: "u32 \<Rightarrow> DecoderFeatures option" where
  "DecoderFeaturesFromBits bits =
     (if \<not> DecoderFeatureBitsValid bits then None
      else Some \<lparr>riscvCompressed = (bits AND push_bit 0 1 \<noteq> 0), armV8 = (bits AND push_bit 1 1 \<noteq> 0),
        armMClass = (bits AND push_bit 2 1 \<noteq> 0), mipsMicro = (bits AND push_bit 3 1 \<noteq> 0)\<rparr>)"

record DecoderConfig =
  engine :: Engine
  arch :: Arch
  byteOrder :: ByteOrder
  features :: DecoderFeatures

definition default_config :: DecoderConfig where
  "default_config = \<lparr>engine = Zydis, arch = X64, byteOrder = Little, features = default_features\<rparr>"

definition LegacyDecoderFactoryCanRepresent :: "DecoderConfig \<Rightarrow> bool" where
  "LegacyDecoderFactoryCanRepresent c \<longleftrightarrow> byteOrder c = Little \<and> features c = default_features"

definition ArchIsX86 :: "Arch \<Rightarrow> bool" where
  "ArchIsX86 a \<longleftrightarrow> a = X86_16 \<or> a = X86 \<or> a = X64"

definition ArchIsX86_32Or64 :: "Arch \<Rightarrow> bool" where
  "ArchIsX86_32Or64 a \<longleftrightarrow> a = X86 \<or> a = X64"

definition ArchIsArm :: "Arch \<Rightarrow> bool" where
  "ArchIsArm a \<longleftrightarrow> a = ARM \<or> a = THUMB \<or> a = ARM64"

definition ArchSupportsDecompiler :: "Arch \<Rightarrow> bool" where
  "ArchSupportsDecompiler a \<longleftrightarrow> a \<noteq> GML"

definition ArchSupportsDebugger :: "Arch \<Rightarrow> bool" where
  "ArchSupportsDebugger a = ArchIsX86_32Or64 a"

definition ArchSupportsAssembler :: "Arch \<Rightarrow> bool" where
  "ArchSupportsAssembler a \<longleftrightarrow> a = X86 \<or> a = X64 \<or> a = ARM \<or> a = THUMB \<or> a = ARM64"

definition EffectiveDisasmEngine :: "Engine \<Rightarrow> Arch \<Rightarrow> Engine" where
  "EffectiveDisasmEngine requested a = (if ArchIsX86 a then requested else Capstone)"

fun arch_num :: "Arch \<Rightarrow> u64" where
  "arch_num X86_16 = 0" | "arch_num X86 = 1" | "arch_num X64 = 2" | "arch_num ARM = 3"
| "arch_num THUMB = 4" | "arch_num ARM64 = 5" | "arch_num MIPS = 6" | "arch_num MIPS64 = 7"
| "arch_num PPC = 8" | "arch_num PPC64 = 9" | "arch_num RISCV32 = 10" | "arch_num RISCV64 = 11"
| "arch_num JVM = 12" | "arch_num GML = 13"

definition engine_num :: "Engine \<Rightarrow> u64" where
  "engine_num e = (case e of Zydis \<Rightarrow> 0 | Capstone \<Rightarrow> 1)"

definition order_num :: "ByteOrder \<Rightarrow> u64" where
  "order_num b = (case b of Little \<Rightarrow> 0 | Big \<Rightarrow> 1)"

definition AnalysisIsaSignature :: "DecoderConfig \<Rightarrow> u64" where
  "AnalysisIsaSignature c =
     push_bit 8 (arch_num (arch c)) OR engine_num (EffectiveDisasmEngine (engine c) (arch c)) OR
     push_bit 16 (order_num (byteOrder c)) OR push_bit 17 (ucast (DecoderFeatureBits (features c)))"

definition AnalysisIsaSignature_arch :: "Arch \<Rightarrow> Engine \<Rightarrow> u64" where
  "AnalysisIsaSignature_arch a requested = AnalysisIsaSignature (default_config\<lparr>arch := a, engine := requested\<rparr>)"

definition ArchInstructionAlignment :: "DecoderConfig \<Rightarrow> u32" where
  "ArchInstructionAlignment c =
     (let a = arch c
      in if a = ARM \<or> a = ARM64 \<or> a = PPC \<or> a = PPC64 \<or> a = GML then 4
         else if a = MIPS \<or> a = MIPS64 then (if mipsMicro (features c) then 2 else 4)
         else if a = RISCV32 \<or> a = RISCV64 then (if riscvCompressed (features c) then 2 else 4)
         else if a = THUMB then 2
         else 1)"

definition ArchInstructionAlignment_arch :: "Arch \<Rightarrow> u32" where
  "ArchInstructionAlignment_arch a = ArchInstructionAlignment (default_config\<lparr>arch := a\<rparr>)"

definition ArchInvalidDecodeWidth :: "DecoderConfig \<Rightarrow> u32" where
  "ArchInvalidDecodeWidth c = ArchInstructionAlignment c"

definition ArchInvalidDecodeWidth_arch :: "Arch \<Rightarrow> u32" where
  "ArchInvalidDecodeWidth_arch a = ArchInstructionAlignment_arch a"

definition ArchMappingRangeFits :: "Arch \<Rightarrow> u64 \<Rightarrow> u64 \<Rightarrow> bool" where
  "ArchMappingRangeFits a base sz =
     (if sz = 0 \<or> sz - 1 > u64_max - base then False
      else if a = X86 \<or> a = ARM \<or> a = THUMB \<or> a = MIPS \<or> a = PPC \<or> a = RISCV32 then
        let max32 = 0xFFFFFFFF in base \<le> max32 \<and> sz - 1 \<le> max32 - base
      else True)"

fun ArchName :: "Arch \<Rightarrow> string" where
  "ArchName X86_16 = ''x86-16''" | "ArchName X86 = ''x86''" | "ArchName X64 = ''x64''"
| "ArchName ARM = ''ARM''" | "ArchName THUMB = ''Thumb/Thumb-2''" | "ArchName ARM64 = ''ARM64''"
| "ArchName MIPS = ''MIPS''" | "ArchName MIPS64 = ''MIPS64''" | "ArchName PPC = ''PPC''"
| "ArchName PPC64 = ''PPC64''" | "ArchName RISCV32 = ''RISC-V 32''" | "ArchName RISCV64 = ''RISC-V 64''"
| "ArchName JVM = ''JVM''" | "ArchName GML = ''GML''"

definition ArchFromName :: "string \<Rightarrow> Arch option" where
  "ArchFromName n =
     (if n = ''x86-16'' then Some X86_16
      else if n = ''x86'' then Some X86
      else if n = ''x64'' then Some X64
      else if n = ''ARM'' then Some ARM
      else if n = ''Thumb/Thumb-2'' \<or> n = ''Thumb'' \<or> n = ''Thumb-2'' then Some THUMB
      else if n = ''ARM64'' then Some ARM64
      else if n = ''MIPS'' then Some MIPS
      else if n = ''MIPS64'' then Some MIPS64
      else if n = ''PPC'' then Some PPC
      else if n = ''PPC64'' then Some PPC64
      else if n = ''RISC-V 32'' then Some RISCV32
      else if n = ''RISC-V 64'' then Some RISCV64
      else if n = ''JVM'' then Some JVM
      else if n = ''GML'' then Some GML
      else None)"

definition EngineNameOf :: "Engine \<Rightarrow> string" where
  "EngineNameOf e = (if e = Zydis then ''Zydis'' else ''Capstone'')"

definition EngineFromName :: "string \<Rightarrow> Engine option" where
  "EngineFromName n = (if n = ''Zydis'' then Some Zydis else if n = ''Capstone'' then Some Capstone else None)"

section \<open>Encodings\<close>

lemma bit_shifted_one: "bit (push_bit n 1 :: u32) i \<longleftrightarrow> i = n \<and> n < 32"
  by (auto simp: bit_push_bit_iff bit_1_iff simp del: push_bit_of_1)

lemma bit_if_one: "bit (if b then push_bit n 1 else 0 :: u32) i \<longleftrightarrow> b \<and> i = n \<and> n < 32"
  by (cases b) (simp_all only: if_True if_False bit_shifted_one bit_0_eq bot_apply bot_bool_def simp_thms)

lemma feature_bit: "bit (DecoderFeatureBits f) i \<longleftrightarrow>
    (i = 0 \<and> riscvCompressed f \<or> i = 1 \<and> armV8 f \<or> i = 2 \<and> armMClass f \<or> i = 3 \<and> mipsMicro f)"
  unfolding DecoderFeatureBits_def bit_or_iff bit_if_one by auto

lemma feature_bit_less: "bit (DecoderFeatureBits f) i \<Longrightarrow> i < 4"
  by (auto simp: feature_bit)

lemma known_bit: "bit kKnownDecoderFeatureBits i \<longleftrightarrow> i < 4"
  unfolding kKnownDecoderFeatureBits_def bit_or_iff bit_shifted_one by auto

lemma and_push_bit_1: "(x AND push_bit i 1 \<noteq> 0) = bit (x :: u32) i" if "i < 32"
proof
  assume "x AND push_bit i 1 \<noteq> 0"
  then obtain j where "bit (x AND push_bit i 1) j" by (metis bit_eqI bit_0_eq bot_apply bot_bool_def)
  then show "bit x i" unfolding bit_and_iff bit_shifted_one by auto
next
  assume "bit x i"
  then have "bit (x AND push_bit i 1) i" using that unfolding bit_and_iff bit_shifted_one by simp
  then show "x AND push_bit i 1 \<noteq> 0" by (metis bit_0_eq bot_apply bot_bool_def)
qed

lemma features_eqI:
  assumes "DecoderFeatureBits f = DecoderFeatureBits g" shows "f = g"
proof -
  have "bit (DecoderFeatureBits f) i = bit (DecoderFeatureBits g) i" for i using assms by simp
  from this [of 0] this [of 1] this [of 2] this [of 3] show ?thesis
    by (simp add: feature_bit)
qed

lemma arch_num_less: "arch_num a < 16"
  by (cases a) simp_all

lemma arch_num_inj: "arch_num a = arch_num b \<Longrightarrow> a = b"
  by (cases a; cases b) simp_all

lemma DecoderFeaturesFromBits_iff:
  "DecoderFeaturesFromBits bits = Some f \<longleftrightarrow> DecoderFeatureBits f = bits"
proof -
  have valid: "DecoderFeatureBitsValid bits \<longleftrightarrow> (\<forall>i. bit bits i \<longrightarrow> i < 4)"
  proof
    assume v: "DecoderFeatureBitsValid bits"
    show "\<forall>i. bit bits i \<longrightarrow> i < 4"
    proof (intro allI impI)
      fix i assume b: "bit bits i"
      have "\<not> bit (bits AND NOT kKnownDecoderFeatureBits) i" using v by (simp add: DecoderFeatureBitsValid_def)
      with b show "i < 4" using bit_imp_le_length [OF b] by (simp add: bit_and_iff bit_not_iff known_bit)
    qed
  next
    assume "\<forall>i. bit bits i \<longrightarrow> i < 4"
    then have "bits AND NOT kKnownDecoderFeatureBits = 0"
      by (intro bit_word_eqI) (auto simp: bit_and_iff bit_not_iff known_bit)
    then show "DecoderFeatureBitsValid bits" by (simp add: DecoderFeatureBitsValid_def)
  qed
  show ?thesis
  proof
    assume "DecoderFeaturesFromBits bits = Some f"
    then have v: "\<forall>i. bit bits i \<longrightarrow> i < 4" and f: "f = \<lparr>riscvCompressed = bit bits 0, armV8 = bit bits 1,
        armMClass = bit bits 2, mipsMicro = bit bits 3\<rparr>"
      unfolding DecoderFeaturesFromBits_def valid by (simp_all only: and_push_bit_1 split: if_splits) auto
    show "DecoderFeatureBits f = bits"
    proof (rule bit_word_eqI)
      fix i :: nat
      have "i < 4 \<longleftrightarrow> i = 0 \<or> i = 1 \<or> i = 2 \<or> i = 3" by auto
      then show "bit (DecoderFeatureBits f) i \<longleftrightarrow> bit bits i" using v by (auto simp: feature_bit f)
    qed
  next
    assume b: "DecoderFeatureBits f = bits"
    have "DecoderFeatureBitsValid bits" unfolding valid unfolding b [symmetric] feature_bit by auto
    then show "DecoderFeaturesFromBits bits = Some f"
      unfolding DecoderFeaturesFromBits_def by (simp only: and_push_bit_1) (simp add: feature_bit flip: b)
  qed
qed

lemma signature_bit:
  "bit (AnalysisIsaSignature c) i \<longleftrightarrow>
     (8 \<le> i \<and> i < 12 \<and> bit (arch_num (arch c)) (i - 8)) \<or>
     (i = 0 \<and> EffectiveDisasmEngine (engine c) (arch c) = Capstone) \<or>
     (i = 16 \<and> byteOrder c = Big) \<or>
     (17 \<le> i \<and> i < 21 \<and> bit (DecoderFeatureBits (features c)) (i - 17))"
proof -
  have a: "bit (push_bit 8 (arch_num (arch c))) i \<longleftrightarrow> 8 \<le> i \<and> i < 12 \<and> bit (arch_num (arch c)) (i - 8)"
  proof -
    have "take_bit 4 (arch_num (arch c)) = arch_num (arch c)"
      by (cases "arch c") (simp_all add: take_bit_eq_mod)
    then have "bit (arch_num (arch c)) k \<Longrightarrow> k < 4" for k by (metis bit_take_bit_iff)
    from this [of "i - 8"] show ?thesis by (auto simp: bit_push_bit_iff)
  qed
  have e: "bit (engine_num x) i \<longleftrightarrow> i = 0 \<and> x = Capstone" for x
    by (cases x) (auto simp: engine_num_def bit_1_iff)
  have o: "bit (push_bit 16 (order_num x)) i \<longleftrightarrow> i = 16 \<and> x = Big" for x
    by (cases x) (auto simp: order_num_def bit_push_bit_iff bit_1_iff simp del: push_bit_of_1)
  have f: "bit (push_bit 17 (ucast (DecoderFeatureBits x) :: u64)) i \<longleftrightarrow> 17 \<le> i \<and> i < 21 \<and> bit (DecoderFeatureBits x) (i - 17)" for x
    by (auto simp: bit_push_bit_iff bit_unsigned_iff feature_bit)
  show ?thesis unfolding AnalysisIsaSignature_def bit_or_iff a e o f by blast
qed

section \<open>Properties\<close>

text \<open>The persisted decoder-feature mask decodes to exactly the features it was written from,
  and every other 32-bit value (any unknown bit) is refused.\<close>

theorem DecoderFeatures_roundtrip:
  "DecoderFeaturesFromBits (DecoderFeatureBits f) = Some f \<and>
   (DecoderFeaturesFromBits bits = None \<longleftrightarrow> bits \<notin> range DecoderFeatureBits)"
proof
  show "DecoderFeaturesFromBits (DecoderFeatureBits f) = Some f" by (simp add: DecoderFeaturesFromBits_iff)
  show "DecoderFeaturesFromBits bits = None \<longleftrightarrow> bits \<notin> range DecoderFeatureBits"
    using DecoderFeaturesFromBits_iff [of bits] by (metis (no_types, lifting) not_None_eq rangeE rangeI)
qed

text \<open>The analysis cache key never aliases two decoder configurations: two signatures are equal
  exactly when architecture, effective engine, byte order and every decoder feature agree.\<close>

theorem AnalysisIsaSignature_injective:
  "AnalysisIsaSignature c = AnalysisIsaSignature d \<longleftrightarrow>
     arch c = arch d \<and> EffectiveDisasmEngine (engine c) (arch c) = EffectiveDisasmEngine (engine d) (arch d) \<and>
     byteOrder c = byteOrder d \<and> features c = features d"
proof
  assume "AnalysisIsaSignature c = AnalysisIsaSignature d"
  then have eq: "bit (AnalysisIsaSignature c) i = bit (AnalysisIsaSignature d) i" for i by simp
  have "bit (arch_num (arch c)) i = bit (arch_num (arch d)) i" if "i < 4" for i
    using eq [of "i + 8"] that unfolding signature_bit by auto
  moreover have "take_bit 4 (arch_num a) = arch_num a" for a
    by (cases a) (simp_all add: take_bit_eq_mod)
  ultimately have "arch_num (arch c) = arch_num (arch d)"
    by (metis bit_take_bit_iff bit_eqI)
  then have a: "arch c = arch d" by (rule arch_num_inj)
  have "bit (DecoderFeatureBits (features c)) i = bit (DecoderFeatureBits (features d)) i" if "i < 4" for i
    using eq [of "i + 17"] that unfolding signature_bit by auto
  then have "DecoderFeatureBits (features c) = DecoderFeatureBits (features d)"
    using feature_bit_less by (intro bit_word_eqI) blast
  then have f: "features c = features d" by (rule features_eqI)
  have "EffectiveDisasmEngine (engine c) (arch c) = EffectiveDisasmEngine (engine d) (arch d)"
    using eq [of 0] unfolding signature_bit by simp (metis Engine.exhaust)
  moreover have "byteOrder c = byteOrder d"
    using eq [of 16] unfolding signature_bit by simp (metis ByteOrder.exhaust)
  ultimately show "arch c = arch d \<and> EffectiveDisasmEngine (engine c) (arch c) = EffectiveDisasmEngine (engine d) (arch d) \<and>
     byteOrder c = byteOrder d \<and> features c = features d" using a f by simp
next
  assume "arch c = arch d \<and> EffectiveDisasmEngine (engine c) (arch c) = EffectiveDisasmEngine (engine d) (arch d) \<and>
     byteOrder c = byteOrder d \<and> features c = features d"
  then show "AnalysisIsaSignature c = AnalysisIsaSignature d" unfolding AnalysisIsaSignature_def by metis
qed

text \<open>The names persisted with a project are read back as the same architecture and engine.\<close>

theorem ArchName_roundtrip:
  "ArchFromName (ArchName a) = Some a" "EngineFromName (EngineNameOf e) = Some e"
proof -
  show "ArchFromName (ArchName a) = Some a" by (cases a) (simp_all add: ArchFromName_def)
  show "EngineFromName (EngineNameOf e) = Some e" by (cases e) (simp_all add: EngineFromName_def EngineNameOf_def)
qed

text \<open>A flat mapping is accepted exactly when it is non-empty and its last byte lies inside the
  address space: \<open>2^64\<close> for every architecture, \<open>2^32\<close> for the 32-bit ones.\<close>

theorem ArchMappingRangeFits_exact:
  "ArchMappingRangeFits a base sz \<longleftrightarrow>
     0 < unat sz \<and> unat base + unat sz \<le>
       (if a \<in> {X86, ARM, THUMB, MIPS, PPC, RISCV32} then 2 ^ 32 else 2 ^ 64)"
proof (cases "sz = 0")
  case True
  then show ?thesis by (simp add: ArchMappingRangeFits_def)
next
  case False
  then have n: "0 < unat sz" "unat (sz - 1) = unat sz - 1" by (simp_all add: unat_gt_0 unat_minus_one)
  have w: "sz - 1 > u64_max - base \<longleftrightarrow> \<not> unat base + unat sz \<le> 2 ^ 64"
    using n unfolding add_guard n(2) by (simp, arith)
  have s: "base \<le> 0xFFFFFFFF \<and> sz - 1 \<le> 0xFFFFFFFF - base \<longleftrightarrow> unat base + unat sz \<le> 2 ^ 32"
  proof (cases "base \<le> 0xFFFFFFFF")
    case True
    then have "unat (0xFFFFFFFF - base) = 0xFFFFFFFF - unat base" by (simp add: unat_sub)
    with True n show ?thesis by (auto simp: word_le_nat_alt)
  next
    case f: False
    with n show ?thesis by (auto simp: word_le_nat_alt)
  qed
  show ?thesis
    unfolding ArchMappingRangeFits_def Let_def w s using False n by auto
qed

end
