(* ===== verification/Trace_Coverage.thy ===== *)
theory Trace_Coverage
  imports Machine Instruction_Model
begin

text \<open>
  \<open>src/src/Core/TraceCoverage.h\<close>, \<open>TraceCoverage.cpp\<close>: the session state of the one-shot
  basic-block tracer, and \<open>TracePlan.h\<close>, the code spans it shades. Every public operation takes
  the mutex for its whole body, so the object is a machine with one event per operation. The
  \<open>std::set\<close> of \<open>begin\<close> is a sorted list; an \<open>unordered_map\<close> is an association list whose
  order is the iteration order.
\<close>

datatype SiteState = Pending | Armed | Hit | Skipped | Retired

record TraceHitCount =
  va :: u64
  hits :: u64

record TraceCoverageSnapshot =
  sn_active :: bool
  sn_generation :: u64
  sn_revision :: u64
  sn_requestedSites :: nat
  plannedSites :: nat
  sn_planTruncated :: bool
  armedSites :: nat
  hitSites :: nat
  skippedSites :: nat
  retiredSites :: nat
  instructionHitTotal :: u64
  blockHitTotal :: u64
  instructions :: "TraceHitCount list"
  blocks :: "TraceHitCount list"
  armed :: "u64 list"

record TraceCoverage =
  active :: bool
  generation :: u64
  revision :: u64
  requestedSites :: nat
  planTruncated :: bool
  sites :: "(u64 \<times> SiteState) list"
  instructionHits :: "(u64 \<times> u64) list"
  blockHits :: "(u64 \<times> u64) list"

definition coverage0 :: TraceCoverage where
  "coverage0 = \<lparr>active = False, generation = 0, revision = 0, requestedSites = 0, planTruncated = False,
     sites = [], instructionHits = [], blockHits = []\<rparr>"

definition kMaxSites :: nat where "kMaxSites = 65536"

section \<open>Counters\<close>

definition bump :: "u64 \<Rightarrow> (u64 \<times> u64) list \<Rightarrow> (u64 \<times> u64) list" where
  "bump v counts =
     (let n = (case map_of counts v of None \<Rightarrow> 0 | Some n \<Rightarrow> n)
      in AList.update v (if n \<noteq> u64_max then n + 1 else n) counts)"

definition add_total :: "u64 \<Rightarrow> u64 \<Rightarrow> u64" where
  "add_total total_n h = (if u64_max - total_n < h then u64_max else total_n + h)"

definition copyCounts :: "(u64 \<times> u64) list \<Rightarrow> TraceHitCount list \<times> u64" where
  "copyCounts counts =
     fold (\<lambda>(v, h) (out, total_n). (out @ [\<lparr>va = v, hits = h\<rparr>], add_total total_n h)) counts ([], 0)"

definition sortSnapshot :: "TraceCoverageSnapshot \<Rightarrow> TraceCoverageSnapshot" where
  "sortSnapshot s = s\<lparr>instructions := sort_key va (instructions s), blocks := sort_key va (blocks s),
     armed := sort (armed s)\<rparr>"

section \<open>Sessions\<close>

definition set_insert :: "u64 \<Rightarrow> u64 list \<Rightarrow> u64 list" where
  "set_insert x xs = (if x \<in> set xs then xs else insort x xs)"

definition select_step :: "nat \<Rightarrow> u64 \<Rightarrow> u64 list \<times> bool \<Rightarrow> u64 list \<times> bool" where
  "select_step limit v = (\<lambda>(selected, truncated).
     if length selected = limit \<and> v > last selected then (selected, True)
     else
       let s1 = set_insert v selected
       in if length s1 > limit then (butlast s1, True) else (s1, truncated))"

definition plan_sites :: "u64 list \<Rightarrow> nat \<Rightarrow> u64 list \<times> bool" where
  "plan_sites basicBlockStarts limit =
     (if length basicBlockStarts \<le> limit then (remdups_adj (sort basicBlockStarts), False)
      else if limit = 0 then ([], basicBlockStarts \<noteq> [])
      else fold (select_step limit) basicBlockStarts ([], False))"

definition next_generation :: "u64 \<Rightarrow> u64" where
  "next_generation g = (let g1 = g + 1 in if g1 = 0 then g1 + 1 else g1)"

definition begin_session :: "u64 list \<Rightarrow> nat \<Rightarrow> TraceCoverage \<Rightarrow> TraceCoverage" where
  "begin_session basicBlockStarts maxSites s =
     (let limit = min maxSites kMaxSites;
          (starts, truncated) = plan_sites basicBlockStarts limit
      in s\<lparr>generation := next_generation (generation s), active := True, revision := revision s + 1,
           requestedSites := length basicBlockStarts, planTruncated := truncated,
           sites := map (\<lambda>v. (v, Pending)) starts, instructionHits := [], blockHits := []\<rparr>)"

definition stop :: "TraceCoverage \<Rightarrow> TraceCoverage" where
  "stop s = (if active s then s\<lparr>active := False, revision := revision s + 1\<rparr> else s)"

definition clearHits :: "TraceCoverage \<Rightarrow> TraceCoverage" where
  "clearHits s =
     (if instructionHits s = [] \<and> blockHits s = [] then s
      else s\<lparr>instructionHits := [], blockHits := [],
             sites := map (\<lambda>(v, st). (v, if st = Hit then Retired else st)) (sites s),
             revision := revision s + 1\<rparr>)"

definition reset_session :: "TraceCoverage \<Rightarrow> TraceCoverage" where
  "reset_session s = s\<lparr>generation := next_generation (generation s), revision := revision s + 1,
     active := False, requestedSites := 0, planTruncated := False, sites := [],
     instructionHits := [], blockHits := []\<rparr>"

definition pendingSites :: "u64 \<Rightarrow> TraceCoverage \<Rightarrow> u64 list" where
  "pendingSites g s =
     (if \<not> active s \<or> g \<noteq> generation s then []
      else sort (map fst (filter (\<lambda>(v, st). st = Pending) (sites s))))"

definition set_site :: "u64 \<Rightarrow> SiteState \<Rightarrow> TraceCoverage \<Rightarrow> TraceCoverage" where
  "set_site v st s = s\<lparr>sites := AList.update v st (sites s), revision := revision s + 1\<rparr>"

definition markArmed :: "u64 \<Rightarrow> u64 \<Rightarrow> TraceCoverage \<Rightarrow> TraceCoverage" where
  "markArmed g v s =
     (if \<not> active s \<or> g \<noteq> generation s then s
      else if map_of (sites s) v = Some Pending then set_site v Armed s else s)"

definition markSkipped :: "u64 \<Rightarrow> u64 \<Rightarrow> TraceCoverage \<Rightarrow> TraceCoverage" where
  "markSkipped g v s =
     (if g \<noteq> generation s then s
      else case map_of (sites s) v of
             None \<Rightarrow> s
           | Some st \<Rightarrow> if st \<noteq> Hit \<and> st \<noteq> Retired \<and> st \<noteq> Skipped then set_site v Skipped s else s)"

definition markDisarmed :: "u64 \<Rightarrow> u64 \<Rightarrow> TraceCoverage \<Rightarrow> TraceCoverage" where
  "markDisarmed g v s =
     (if g \<noteq> generation s then s
      else if map_of (sites s) v = Some Armed then set_site v Pending s else s)"

definition recordBlockHit :: "u64 \<Rightarrow> u64 \<Rightarrow> TraceCoverage \<Rightarrow> TraceCoverage" where
  "recordBlockHit g v s =
     (if \<not> active s \<or> g \<noteq> generation s then s
      else case map_of (sites s) v of
             None \<Rightarrow> s
           | Some st \<Rightarrow> set_site v Hit
               (s\<lparr>instructionHits := bump v (instructionHits s), blockHits := bump v (blockHits s)\<rparr>))"

definition recordInstructionHit :: "u64 \<Rightarrow> u64 \<Rightarrow> TraceCoverage \<Rightarrow> TraceCoverage" where
  "recordInstructionHit g v s =
     (if active s \<and> g = generation s
      then s\<lparr>instructionHits := bump v (instructionHits s), revision := revision s + 1\<rparr> else s)"

section \<open>Snapshots\<close>

definition count_state :: "SiteState \<Rightarrow> u64 \<times> SiteState \<Rightarrow> nat \<Rightarrow> nat" where
  "count_state st site n = (if snd site = st then n + 1 else n)"

definition snapshotLocked :: "TraceCoverage \<Rightarrow> TraceCoverageSnapshot" where
  "snapshotLocked s =
     (let (ins, itotal) = copyCounts (instructionHits s);
          (bls, btotal) = copyCounts (blockHits s)
      in \<lparr>sn_active = active s, sn_generation = generation s, sn_revision = revision s,
          sn_requestedSites = requestedSites s, plannedSites = length (sites s),
          sn_planTruncated = planTruncated s,
          armedSites = fold (count_state Armed) (sites s) 0,
          hitSites = fold (count_state Hit) (sites s) 0,
          skippedSites = fold (count_state Skipped) (sites s) 0,
          retiredSites = fold (count_state Retired) (sites s) 0,
          instructionHitTotal = itotal, blockHitTotal = btotal,
          instructions = ins, blocks = bls,
          armed = fold (\<lambda>(v, st) out. if st = Armed then out @ [v] else out) (sites s) []\<rparr>)"

definition snapshot :: "TraceCoverage \<Rightarrow> TraceCoverageSnapshot" where
  "snapshot s = sortSnapshot (snapshotLocked s)"

definition snapshotIfChanged :: "TraceCoverageSnapshot \<Rightarrow> TraceCoverage \<Rightarrow> bool \<times> TraceCoverageSnapshot" where
  "snapshotIfChanged retained s =
     (if sn_generation retained = generation s \<and> sn_revision retained = revision s then (False, retained)
      else (True, sortSnapshot (snapshotLocked s)))"

section \<open>The plan keeps the lowest distinct addresses\<close>

abbreviation slos :: "u64 set \<Rightarrow> u64 list" where
  "slos S \<equiv> sorted_list_of_set S"

lemma take_insort: "sorted xs \<Longrightarrow> take k (insort v xs) = take k (insort v (take k (xs :: u64 list)))"
proof (induction xs arbitrary: k)
  case (Cons x xs)
  then show ?case by (cases k) (auto simp: take_Cons' insort_is_Cons)
qed simp

lemma insort_last: "sorted xs \<Longrightarrow> xs \<noteq> [] \<Longrightarrow> last xs \<le> (v :: u64) \<Longrightarrow> v \<notin> set xs \<Longrightarrow> insort v xs = xs @ [v]"
proof (induction xs)
  case (Cons x xs)
  have "x \<le> v" using Cons.prems(1,3) by (cases "xs = []") (auto intro: order_trans [OF _ Cons.prems(3)])
  with Cons show ?case by (cases "xs = []") auto
qed simp

lemma remdups_adj_sorted: "sorted xs \<Longrightarrow> remdups_adj xs = slos (set xs)"
proof -
  assume "sorted xs"
  then have "sorted (remdups_adj xs) \<and> distinct (remdups_adj xs)"
    by (induction xs rule: remdups_adj.induct) auto
  then show ?thesis
    using sorted_distinct_set_unique [of "remdups_adj xs" "slos (set xs)"] by simp
qed

lemma select_step_correct:
  assumes "finite S" "0 < limit"
  shows "select_step limit v (take limit (slos S), limit < card S) =
     (take limit (slos (insert v S)), limit < card (insert v S))"
proof -
  let ?T = "slos S" and ?sel = "take limit (slos S)"
  have T: "sorted ?T" "distinct ?T" "set ?T = S" "length ?T = card S" using assms(1) by simp_all
  have sel: "sorted ?sel" "distinct ?sel" using T by simp_all
  show ?thesis
  proof (cases "v \<in> set ?sel")
    case True
    then have "v \<in> S" using T(3) by (metis in_set_takeD)
    moreover have "\<not> v > last ?sel" using True sel(1) by (metis leD in_set_conv_nth last_conv_nth
          diff_less le_numeral_extra(4) length_pos_if_in_set less_Suc_eq_le Suc_pred' sorted_nth_mono zero_less_one length_greater_0_conv)
    ultimately show ?thesis using True
      by (simp add: select_step_def set_insert_def insert_absorb)
  next
    case new: False
    show ?thesis
    proof (cases "length ?sel = limit")
      case False
      then have "card S < limit" using T(4) by simp
      then have "?sel = ?T" by (simp add: T(4))
      with new T(3) have "v \<notin> S" by simp
      with \<open>card S < limit\<close> \<open>?sel = ?T\<close> new False assms(1) show ?thesis
        by (simp add: select_step_def set_insert_def T(4))
    next
      case full: True
      then have ge: "limit \<le> card S" using T(4) by simp
      have ne: "?sel \<noteq> []" using full assms(2) by auto
      show ?thesis
      proof (cases "v > last ?sel")
        case True
        have app: "insort v ?sel = ?sel @ [v]" using sel(1) ne True new by (intro insort_last) auto
        have "take limit (slos (insert v S)) = ?sel"
        proof (cases "v \<in> S")
          case False
          then have "take limit (slos (insert v S)) = take limit (insort v ?sel)"
            using assms(1) take_insort [OF T(1), of limit v] by simp
          then show ?thesis using full by (simp add: app)
        qed (simp add: insert_absorb)
        moreover have "limit < card (insert v S)"
        proof (cases "v \<in> S")
          case True
          then have "?sel \<noteq> ?T" using new T(3) by auto
          then have "limit < card S" using T(4) by (metis not_le take_all)
          with True show ?thesis by (simp add: insert_absorb)
        qed (use ge assms(1) in simp)
        ultimately show ?thesis using True full by (simp add: select_step_def)
      next
        case False
        have "v \<notin> S"
        proof
          assume "v \<in> S"
          then have "v \<in> set (drop limit ?T)" using new T(3) by (metis UnE append_take_drop_id set_append)
          moreover have "sorted (?sel @ drop limit ?T)" using T(1) by simp
          ultimately have "last ?sel \<le> v" using last_in_set [OF ne] unfolding sorted_append by blast
          with False new ne show False by (metis last_in_set le_less)
        qed
        then have e: "take limit (slos (insert v S)) = take limit (insort v ?sel)"
          using assms(1) take_insort [OF T(1), of limit v] by simp
        have "length (insort v ?sel) = Suc limit" using full by simp
        then have "butlast (insort v ?sel) = take limit (insort v ?sel)" by (simp add: butlast_conv_take)
        with e \<open>v \<notin> S\<close> new full False ge assms(1) show ?thesis
          by (simp add: select_step_def set_insert_def)
      qed
    qed
  qed
qed

lemma plan_sites_lowest: "plan_sites bs limit = (take limit (slos (set bs)), limit < card (set bs))"
proof -
  have fold: "fold (select_step limit) bs (take limit (slos S), limit < card S) =
      (take limit (slos (S \<union> set bs)), limit < card (S \<union> set bs))" if "finite S" "0 < limit" for S
    using that(1)
  proof (induction bs arbitrary: S)
    case (Cons b bs)
    then show ?case using select_step_correct [OF Cons.prems that(2), of b] Cons.IH [of "insert b S"] by simp
  qed simp
  show ?thesis
  proof (cases "length bs \<le> limit")
    case True
    moreover have "card (set bs) \<le> length bs" by (rule card_length)
    ultimately show ?thesis by (simp add: plan_sites_def remdups_adj_sorted)
  next
    case False
    then show ?thesis
      using fold [of "{}"] by (cases "limit = 0") (auto simp: plan_sites_def card_gt_0_iff)
  qed
qed

section \<open>The coverage state as a machine\<close>

datatype trace_event =
    Begin "u64 list" nat
  | Stop
  | ClearHits
  | Reset
  | MarkArmed u64 u64
  | MarkSkipped u64 u64
  | MarkDisarmed u64 u64
  | BlockHit u64 u64
  | InstructionHit u64 u64

fun trace_step :: "trace_event \<Rightarrow> TraceCoverage \<Rightarrow> TraceCoverage" where
  "trace_step (Begin bs m) s = begin_session bs m s"
| "trace_step Stop s = stop s"
| "trace_step ClearHits s = clearHits s"
| "trace_step Reset s = reset_session s"
| "trace_step (MarkArmed g v) s = markArmed g v s"
| "trace_step (MarkSkipped g v) s = markSkipped g v s"
| "trace_step (MarkDisarmed g v) s = markDisarmed g v s"
| "trace_step (BlockHit g v) s = recordBlockHit g v s"
| "trace_step (InstructionHit g v) s = recordInstructionHit g v s"

lemmas trace_op_defs = begin_session_def stop_def clearHits_def reset_session_def markArmed_def
  markSkipped_def markDisarmed_def recordBlockHit_def recordInstructionHit_def

definition count_of :: "(u64 \<times> u64) list \<Rightarrow> u64 \<Rightarrow> u64" where
  "count_of m v = (case map_of m v of None \<Rightarrow> 0 | Some n \<Rightarrow> n)"

definition coverage_inv :: "TraceCoverage \<Rightarrow> bool" where
  "coverage_inv s \<longleftrightarrow>
     map_ok (sites s) \<and> map_ok (instructionHits s) \<and> map_ok (blockHits s) \<and>
     (\<forall>v. map_of (sites s) v = Some Hit \<longleftrightarrow> count_of (blockHits s) v \<noteq> 0) \<and>
     (\<forall>v. count_of (blockHits s) v \<le> count_of (instructionHits s) v) \<and>
     (blockHits s \<noteq> [] \<longrightarrow> instructionHits s \<noteq> [])"

definition sat_inc :: "u64 \<Rightarrow> u64" where
  "sat_inc n = (if n \<noteq> u64_max then n + 1 else n)"

lemma count_of_bump: "count_of (bump v m) w = (if w = v then sat_inc (count_of m v) else count_of m w)"
  by (auto simp: count_of_def bump_def Let_def sat_inc_def)

lemma map_ok_bump [simp, intro]: "map_ok m \<Longrightarrow> map_ok (bump v m)"
  by (simp add: bump_def Let_def)

lemma bump_nonempty [simp]: "bump v m \<noteq> []"
  by (simp add: bump_def Let_def)

lemma unat_sat_inc: "unat (sat_inc n) = min 18446744073709551615 (unat n + 1)"
proof (cases "n = u64_max")
  case False
  then have "unat n \<noteq> 18446744073709551615" by (metis unat_u64_max word_unat_eq_iff)
  then have "unat n < 18446744073709551615" using unat_u64_lt [of n] by linarith
  with False show ?thesis by (simp add: sat_inc_def unat_add_no_wrap)
qed (simp add: sat_inc_def)

lemma sat_inc_facts: "sat_inc n \<noteq> 0" "m \<le> n \<Longrightarrow> sat_inc m \<le> sat_inc n"
proof -
  have "unat (sat_inc n) \<noteq> 0" by (simp add: unat_sat_inc)
  then show "sat_inc n \<noteq> 0" by auto
  show "m \<le> n \<Longrightarrow> sat_inc m \<le> sat_inc n" by (simp add: word_le_nat_alt unat_sat_inc)
qed

lemma le_sat_inc: "n \<le> sat_inc n"
  using unat_u64_lt [of n] by (simp add: word_le_nat_alt unat_sat_inc)

lemma map_ok_retire [simp]: "map fst (map (\<lambda>(v, st). (v, f st)) m) = map fst m"
  by (induction m) auto

lemma map_of_retire: "map_of (map (\<lambda>(v, st). (v, f st)) m) w = map_option f (map_of m w)"
  by (induction m) auto

lemma map_of_pending: "map_of (map (\<lambda>v. (v, x)) vs) w = (if w \<in> set vs then Some x else None)"
  by (induction vs) auto

lemma set_site_inv:
  assumes "coverage_inv s" "map_of (sites s) v = Some a" "a \<noteq> Hit" "b \<noteq> Hit"
  shows "coverage_inv (set_site v b s)"
proof -
  have "count_of (blockHits s) v = 0" using assms unfolding coverage_inv_def by (metis option.inject)
  with assms(1,4) show ?thesis by (auto simp: set_site_def coverage_inv_def simp del: map_of_eq_Some_iff)
qed

lemma coverage_step_inv [inv_intros]: "coverage_inv s \<Longrightarrow> coverage_inv (trace_step e s)"
proof (cases e)
  case (Begin bs m)
  have "distinct (fst (plan_sites bs k))" for k by (simp add: plan_sites_lowest)
  then show ?thesis
    by (simp add: Begin coverage_inv_def begin_session_def case_prod_unfold Let_def map_of_pending count_of_def comp_def del: map_of_eq_Some_iff)
next
  case Stop
  assume "coverage_inv s"
  then show ?thesis by (simp add: Stop stop_def coverage_inv_def del: map_of_eq_Some_iff)
next
  case ClearHits
  assume inv: "coverage_inv s"
  then show ?thesis
    by (auto simp: ClearHits clearHits_def coverage_inv_def map_of_retire count_of_def
        simp del: map_map map_of_eq_Some_iff split: option.splits)
next
  case Reset
  then show ?thesis by (simp add: reset_session_def coverage_inv_def count_of_def)
next
  case (MarkArmed g v)
  assume "coverage_inv s"
  then show ?thesis using set_site_inv [of s v Pending Armed] by (simp add: MarkArmed markArmed_def)
next
  case (MarkSkipped g v)
  assume "coverage_inv s"
  then show ?thesis using set_site_inv [of s v _ Skipped]
    by (simp add: MarkSkipped markSkipped_def split: option.splits)
next
  case (MarkDisarmed g v)
  assume "coverage_inv s"
  then show ?thesis using set_site_inv [of s v Armed Pending] by (simp add: MarkDisarmed markDisarmed_def)
next
  case (BlockHit g v)
  assume "coverage_inv s"
  then show ?thesis
    by (auto simp: BlockHit recordBlockHit_def set_site_def coverage_inv_def count_of_bump sat_inc_facts simp del: map_of_eq_Some_iff split: option.splits)
next
  case (InstructionHit g v)
  assume inv: "coverage_inv s"
  have "count_of (blockHits s) v \<le> sat_inc (count_of (instructionHits s) v)"
    using inv le_sat_inc order_trans by (fastforce simp: coverage_inv_def)
  with inv show ?thesis by (auto simp: InstructionHit recordInstructionHit_def coverage_inv_def count_of_bump simp del: map_of_eq_Some_iff)
qed

interpretation tracer: machine trace_step coverage_inv
  by unfold_locales (rule coverage_step_inv)

lemma coverage0_inv: "coverage_inv coverage0"
  by (simp add: coverage_inv_def coverage0_def count_of_def)

section \<open>The life of a site\<close>

inductive site_step :: "SiteState \<Rightarrow> SiteState \<Rightarrow> bool" where
  Arm: "site_step Pending Armed"
| Disarm: "site_step Armed Pending"
| Skip: "st = Pending \<or> st = Armed \<Longrightarrow> site_step st Skipped"
| Consume: "site_step st Hit"
| Retire: "site_step Hit Retired"

inductive_cases site_stepE: "site_step st st'"
inductive_simps site_step_Hit: "site_step Hit st'"
inductive_simps site_step_Retired: "site_step Retired st'"

definition consumed :: "SiteState \<Rightarrow> bool" where
  "consumed st \<longleftrightarrow> st = Hit \<or> st = Retired"

lemma consumed_forever: "site_step\<^sup>*\<^sup>* st st' \<Longrightarrow> consumed st \<Longrightarrow> consumed st'"
  by (induction rule: rtranclp_induct) (auto simp: consumed_def site_step_Hit site_step_Retired)

definition in_session :: "trace_event \<Rightarrow> bool" where
  "in_session e \<longleftrightarrow> (case e of Begin _ _ \<Rightarrow> False | Reset \<Rightarrow> False | _ \<Rightarrow> True)"

definition site_evolves :: "SiteState option \<Rightarrow> SiteState option \<Rightarrow> bool" where
  "site_evolves a b \<longleftrightarrow> (case (a, b) of
     (None, None) \<Rightarrow> True | (Some x, Some y) \<Rightarrow> site_step\<^sup>*\<^sup>* x y | _ \<Rightarrow> False)"

lemma site_evolves_refl [simp]: "site_evolves a a"
  by (cases a) (simp_all add: site_evolves_def)

lemma site_evolves_trans: "site_evolves a b \<Longrightarrow> site_evolves b c \<Longrightarrow> site_evolves a c"
  by (auto simp: site_evolves_def split: option.splits)

lemma session_step:
  "in_session e \<Longrightarrow> generation (trace_step e s) = generation s \<and>
     site_evolves (map_of (sites s) v) (map_of (sites (trace_step e s)) v)"
proof (cases e)
  case ClearHits
  have "site_evolves a (map_option (\<lambda>st. if st = Hit then Retired else st) a)" for a
    by (cases a) (auto simp: site_evolves_def intro: Retire)
  then show ?thesis by (simp add: ClearHits clearHits_def map_of_retire)
qed (auto simp: in_session_def stop_def markArmed_def markSkipped_def markDisarmed_def recordBlockHit_def
    recordInstructionHit_def set_site_def site_evolves_def split: option.splits intro: site_step.intros,
  (metis Skip SiteState.exhaust r_into_rtranclp)?)

lemma session_run:
  "list_all in_session es \<Longrightarrow> generation (fold trace_step es s) = generation s \<and>
     site_evolves (map_of (sites s) v) (map_of (sites (fold trace_step es s)) v)"
proof (induction es arbitrary: s)
  case (Cons e es)
  then show ?case using session_step [of e s v] Cons.IH [of "trace_step e s"] site_evolves_trans by auto
qed simp

section \<open>Snapshots are canonical\<close>

lemma unat_add_total: "unat (add_total t h) = min 18446744073709551615 (unat t + unat h)"
proof (cases "u64_max - t < h")
  case True
  then show ?thesis using add_guard [of t h] by (simp add: add_total_def)
next
  case False
  then have "unat t + unat h < 18446744073709551616" using add_guard [of t h] by simp
  with False show ?thesis by (simp add: add_total_def unat_add_no_wrap)
qed

lemma copyCounts_fold:
  "fold (\<lambda>(v, h) (out, t). (out @ [\<lparr>va = v, hits = h\<rparr>], add_total t h)) m (out0, t0) =
     (out0 @ map (\<lambda>(v, h). \<lparr>va = v, hits = h\<rparr>) m, fold (\<lambda>(v, h) t. add_total t h) m t0)"
  by (induction m arbitrary: out0 t0) auto

lemma fold_add_total:
  "unat (fold (\<lambda>(v, h) t. add_total t h) m t0) =
     min 18446744073709551615 (unat t0 + sum_list (map (\<lambda>(v, h). unat h) m))"
proof (induction m arbitrary: t0)
  case Nil
  then show ?case using unat_u64_lt [of t0] by simp
next
  case (Cons x m)
  obtain v h where "x = (v, h)" by force
  with Cons show ?case by (simp add: unat_add_total min_def)
qed

lemma copyCounts_map:
  "fst (copyCounts m) = map (\<lambda>(v, h). \<lparr>va = v, hits = h\<rparr>) m"
  "unat (snd (copyCounts m)) = min 18446744073709551615 (sum_list (map (\<lambda>(v, h). unat h) m))"
  unfolding copyCounts_def copyCounts_fold by (simp_all add: fold_add_total)

lemma sort_key_canonical:
  fixes f :: "'a \<Rightarrow> u64"
  assumes "distinct (map f xs)" "\<And>x. x \<in> set xs \<Longrightarrow> g (f x) = x"
  shows "sort_key f xs = map g (slos (f ` set xs))"
proof -
  have "map f (sort_key f xs) = slos (f ` set xs)"
  proof (rule sorted_distinct_set_unique)
    show "distinct (map f (sort_key f xs))" using assms(1)
      by (metis distinct_map distinct_sort set_sort)
  qed simp_all
  moreover have "map g (map f (sort_key f xs)) = sort_key f xs"
    unfolding map_map by (rule map_idI) (simp add: assms(2))
  ultimately show ?thesis by simp
qed

lemma sorted_counts:
  assumes "map_ok m"
  shows "sort_key va (fst (copyCounts m)) = map (\<lambda>v. \<lparr>va = v, hits = count_of m v\<rparr>) (slos (dom (map_of m)))"
proof -
  have "map va (fst (copyCounts m)) = map fst m" by (simp add: copyCounts_map(1) case_prod_unfold comp_def)
  then have d: "distinct (map va (fst (copyCounts m)))" and v: "va ` set (fst (copyCounts m)) = dom (map_of m)"
    using assms by (simp_all flip: set_map add: dom_map_of_conv_image_fst)
  have "sort_key va (fst (copyCounts m)) =
      map (\<lambda>v. \<lparr>va = v, hits = count_of m v\<rparr>) (slos (va ` set (fst (copyCounts m))))"
    using assms by (intro sort_key_canonical [OF d]) (auto simp: copyCounts_map(1) count_of_def)
  then show ?thesis by (simp only: v)
qed

lemma state_keys:
  assumes "map_ok m" shows "fst ` set (filter (\<lambda>x. snd x = st) m) = {v. map_of m v = Some st}"
proof (rule set_eqI)
  fix v
  have "v \<in> fst ` set (filter (\<lambda>x. snd x = st) m) \<longleftrightarrow> (v, st) \<in> set m" by force
  then show "v \<in> fst ` set (filter (\<lambda>x. snd x = st) m) \<longleftrightarrow> v \<in> {v. map_of m v = Some st}" using assms by simp
qed

lemma count_state_card:
  assumes "map_ok m" shows "fold (count_state st) m 0 = card {v. map_of m v = Some st}"
proof -
  have "fold (count_state st) m n = n + length (filter (\<lambda>x. snd x = st) m)" for n
    by (induction m arbitrary: n) (auto simp: count_state_def)
  moreover have "length (filter (\<lambda>x. snd x = st) m) = card (fst ` set (filter (\<lambda>x. snd x = st) m))"
    using distinct_card [OF distinct_map_filter [OF assms, of "\<lambda>x. snd x = st"]] by simp
  moreover have "fst ` set (filter (\<lambda>x. snd x = st) m) = {v. map_of m v = Some st}"
    using assms by (rule state_keys)
  ultimately show ?thesis by simp
qed

lemma armed_list:
  assumes "map_ok m"
  shows "sort (fold (\<lambda>(v, st) out. if st = Armed then out @ [v] else out) m []) = slos {v. map_of m v = Some Armed}"
proof -
  have "fold (\<lambda>(v, st) out. if st = Armed then out @ [v] else out) m out0 =
      out0 @ map fst (filter (\<lambda>x. snd x = Armed) m)" for out0
    by (induction m arbitrary: out0) auto
  moreover have "set (map fst (filter (\<lambda>x. snd x = Armed) m)) = {v. map_of m v = Some Armed}"
    unfolding set_map using assms by (rule state_keys)
  moreover have "distinct (map fst (filter (\<lambda>x. snd x = Armed) m))" using assms by (rule distinct_map_filter)
  moreover have "sort xs = slos (set xs)" if "distinct xs" for xs :: "u64 list"
    using that by (simp add: sorted_list_of_set_sort_remdups distinct_remdups_id)
  ultimately show ?thesis by (simp only: append_Nil)
qed

lemma card_states:
  assumes "map_ok (m :: (u64 \<times> SiteState) list)"
  shows "length m = card {v. map_of m v = Some Pending} + card {v. map_of m v = Some Armed} +
     card {v. map_of m v = Some Hit} + card {v. map_of m v = Some Skipped} + card {v. map_of m v = Some Retired}"
proof -
  have "length m = length (filter (\<lambda>x. snd x = Pending) m) + length (filter (\<lambda>x. snd x = Armed) m) +
      length (filter (\<lambda>x. snd x = Hit) m) + length (filter (\<lambda>x. snd x = Skipped) m) + length (filter (\<lambda>x. snd x = Retired) m)"
  proof (induction m)
    case (Cons x m)
    then show ?case by (cases "snd x") auto
  qed simp
  moreover have "fold (count_state st) m n = n + length (filter (\<lambda>x. snd x = st) m)" for n st
    by (induction m arbitrary: n) (auto simp: count_state_def)
  ultimately show ?thesis using count_state_card [OF assms] by simp
qed

section \<open>Revisions\<close>

lemma step_revision: "trace_step e s = s \<or> revision (trace_step e s) = revision s + 1"
  by (cases e) (auto simp: trace_op_defs set_site_def Let_def case_prod_unfold split: option.splits)

lemma run_revision:
  "\<exists>k \<le> length es. revision (fold trace_step es s) = revision s + of_nat k \<and> (k = 0 \<longrightarrow> fold trace_step es s = s)"
proof (induction es arbitrary: s)
  case (Cons e es)
  from Cons.IH [of "trace_step e s"] obtain k where k: "k \<le> length es"
    "revision (fold trace_step es (trace_step e s)) = revision (trace_step e s) + of_nat k"
    "k = 0 \<longrightarrow> fold trace_step es (trace_step e s) = trace_step e s" by blast
  from step_revision [of e s] show ?case
  proof
    assume "trace_step e s = s"
    with k show ?thesis by (intro exI [of _ k]) auto
  next
    assume "revision (trace_step e s) = revision s + 1"
    with k show ?thesis by (intro exI [of _ "Suc k"]) auto
  qed
qed auto

lemma snapshot_fields [simp]:
  "sn_generation (snapshot s) = generation s" "sn_revision (snapshot s) = revision s"
  by (simp_all add: snapshot_def sortSnapshot_def snapshotLocked_def case_prod_unfold Let_def)

section \<open>Properties\<close>

text \<open>A session plans exactly the lowest distinct requested addresses up to the site limit, all
  pending and with no counts, and reports truncation exactly when a distinct address was left out.\<close>

theorem begin_plans_lowest:
  "case trace_step (Begin bs m) s of t \<Rightarrow>
     sites t = map (\<lambda>v. (v, Pending)) (take (min m kMaxSites) (sorted_list_of_set (set bs))) \<and>
     instructionHits t = [] \<and> blockHits t = [] \<and>
     (planTruncated t \<longleftrightarrow> min m kMaxSites < card (set bs)) \<and> active t \<and> generation t \<noteq> 0 \<and> generation t \<noteq> generation s"
proof -
  have "next_generation g \<noteq> 0 \<and> next_generation g \<noteq> g" for g
    by (auto simp: next_generation_def Let_def)
  then show ?thesis by (auto simp: begin_session_def plan_sites_lowest Let_def)
qed

text \<open>C28: counting invariant of every history. A site is in state Hit exactly when it has a
  block count, a block never has more block hits than instruction hits, and no map has a duplicate key.\<close>

theorem coverage_invariant:
  "coverage_inv (fold trace_step es coverage0)"
  by (rule tracer.run_inv [OF coverage0_inv])

text \<open>C27: coverage is one-shot. Within a session, whatever events arrive in whatever order, no site
  appears or disappears, every site moves only along the life cycle, and a consumed site (hit, or
  retired by Clear Trace) is never pending or armed again.\<close>

theorem sites_one_shot:
  assumes "s = fold trace_step hist coverage0" "list_all in_session es"
    and "map_of (sites s) v = Some st" "consumed st"
  shows "case fold trace_step es s of t \<Rightarrow> v \<notin> set (pendingSites g t) \<and> v \<notin> set (armed (snapshot t)) \<and>
     (\<exists>st'. map_of (sites t) v = Some st' \<and> consumed st' \<and> site_step\<^sup>*\<^sup>* st st')"
proof -
  let ?t = "fold trace_step es s"
  have ok: "map_ok (sites ?t)"
    using tracer.run_inv [OF coverage0_inv, of "hist @ es"] assms(1) by (simp add: coverage_inv_def)
  from session_run [OF assms(2), of s v] assms(3) obtain st' where
    st': "map_of (sites ?t) v = Some st'" "site_step\<^sup>*\<^sup>* st st'"
    by (auto simp: site_evolves_def split: option.splits)
  then have c: "consumed st'" using consumed_forever assms(4) by blast
  have "v \<notin> set (pendingSites g ?t)"
  proof
    assume "v \<in> set (pendingSites g ?t)"
    then have "(v, Pending) \<in> set (sites ?t)" by (auto simp: pendingSites_def split: if_splits)
    then have "map_of (sites ?t) v = Some Pending" using ok by simp
    with st'(1) c show False by (simp add: consumed_def del: map_of_eq_Some_iff)
  qed
  moreover have "armed (snapshot ?t) = slos {v. map_of (sites ?t) v = Some Armed}"
    using armed_list [OF ok] by (simp add: snapshot_def sortSnapshot_def snapshotLocked_def case_prod_unfold Let_def)
  then have "v \<notin> set (armed (snapshot ?t))"
    using st'(1) c by (auto simp: consumed_def simp del: map_of_eq_Some_iff)
  ultimately show ?thesis using st' c by auto
qed

theorem sites_one_shot_witness:
  "7 \<notin> set (armed (snapshot (fold trace_step [ClearHits, MarkArmed 1 7]
     (fold trace_step [Begin [7] 5, BlockHit 1 7] coverage0))))"
proof -
  let ?s = "fold trace_step [Begin [7] 5, BlockHit 1 7] coverage0"
  have "map_of (sites ?s) 7 = Some Hit"
    by (simp add: begin_session_def plan_sites_lowest recordBlockHit_def set_site_def coverage0_def
        next_generation_def kMaxSites_def Let_def)
  then show ?thesis
    using sites_one_shot [of ?s "[Begin [7] 5, BlockHit 1 7]" "[ClearHits, MarkArmed 1 7]" 7 Hit 1]
    by (simp add: in_session_def consumed_def)
qed

text \<open>Hooks carrying another generation than the current one change nothing, so a late event of
  a stopped or replaced session cannot touch the new one; starting or resetting always changes the
  generation.\<close>

theorem stale_hooks_ignored:
  assumes "g \<noteq> generation s" "e \<in> {MarkArmed g v, MarkSkipped g v, MarkDisarmed g v, BlockHit g v, InstructionHit g v}"
  shows "trace_step e s = s \<and> pendingSites g s = [] \<and> generation (trace_step Reset s) \<noteq> generation s"
  using assms by (auto simp: trace_op_defs pendingSites_def next_generation_def Let_def)

theorem stale_hooks_ignored_witness:
  "trace_step (BlockHit 1 7) (fold trace_step [Begin [7] 5, Begin [7] 5] coverage0) =
     fold trace_step [Begin [7] 5, Begin [7] 5] coverage0"
proof -
  have "generation (fold trace_step [Begin [7] 5, Begin [7] 5] coverage0) = 2"
    by (simp add: begin_session_def coverage0_def next_generation_def Let_def case_prod_unfold)
  then show ?thesis using stale_hooks_ignored [THEN conjunct1, of 1 _ "BlockHit 1 7" 7] by simp
qed

text \<open>What a snapshot shows of a map and of the site states, in terms of the maps' contents alone.\<close>

definition counts_shown :: "(u64 \<times> u64) list \<Rightarrow> TraceHitCount list" where
  "counts_shown m = map (\<lambda>v. \<lparr>va = v, hits = the (map_of m v)\<rparr>) (sorted_list_of_set (dom (map_of m)))"

definition total_shown :: "(u64 \<times> u64) list \<Rightarrow> u64" where
  "total_shown m = of_nat (min (2 ^ 64 - 1) (sum (\<lambda>v. unat (the (map_of m v))) (dom (map_of m))))"

definition sites_in :: "SiteState \<Rightarrow> TraceCoverage \<Rightarrow> u64 set" where
  "sites_in st s = {v. map_of (sites s) v = Some st}"

lemma counts_shown_sorted:
  assumes "map_ok m"
  shows "sort_key va (fst (copyCounts m)) = counts_shown m"
proof -
  have "finite (dom (map_of m))" by (rule finite_dom_map_of)
  then have "v \<in> dom (map_of m)" if "v \<in> set (slos (dom (map_of m)))" for v using that by simp
  then show ?thesis
    unfolding sorted_counts [OF assms] counts_shown_def by (intro map_cong refl) (auto simp: count_of_def)
qed

lemma total_shown_saturated:
  assumes "map_ok m"
  shows "snd (copyCounts m) = total_shown m"
proof -
  have "sum (\<lambda>v. unat (the (map_of m v))) (set (keys m)) = sum_list (map (\<lambda>v. unat (the (map_of m v))) (keys m))"
    by (rule sum_list_distinct_conv_sum_set [OF assms, symmetric])
  also have "\<dots> = sum_list (map (\<lambda>(v, h). unat h) m)"
    unfolding map_map using assms by (intro arg_cong [where f = sum_list] map_cong refl) (auto simp: case_prod_unfold)
  finally have "sum (\<lambda>v. unat (the (map_of m v))) (dom (map_of m)) = sum_list (map (\<lambda>(v, h). unat h) m)"
    by (simp add: dom_map_of_conv_image_fst)
  then have "unat (snd (copyCounts m)) = min (2 ^ 64 - 1) (sum (\<lambda>v. unat (the (map_of m v))) (dom (map_of m)))"
    by (simp add: copyCounts_map)
  then have "of_nat (unat (snd (copyCounts m))) = total_shown m" unfolding total_shown_def by (rule arg_cong)
  then show ?thesis by simp
qed

text \<open>C40: a snapshot is determined by the contents of the maps, not by their iteration order. After every history
  each of its fields is what the state says: counts sorted by address with each address once, the total of
  each map the sum of its counts, saturated; the number of sites planned, armed, hit, skipped and retired
  each counted by its own state; the armed sites sorted; and those numbers, with the pending sites, add up
  to the plan.\<close>

theorem snapshot_canonical:
  "case fold trace_step es coverage0 of s \<Rightarrow>
     snapshot s = \<lparr>sn_active = active s, sn_generation = generation s, sn_revision = revision s,
       sn_requestedSites = requestedSites s, plannedSites = card (dom (map_of (sites s))), sn_planTruncated = planTruncated s,
       armedSites = card (sites_in Armed s), hitSites = card (sites_in Hit s),
       skippedSites = card (sites_in Skipped s), retiredSites = card (sites_in Retired s),
       instructionHitTotal = total_shown (instructionHits s), blockHitTotal = total_shown (blockHits s),
       instructions = counts_shown (instructionHits s), blocks = counts_shown (blockHits s),
       armed = sorted_list_of_set (sites_in Armed s)\<rparr> \<and>
     plannedSites (snapshot s) = card (sites_in Pending s) + armedSites (snapshot s) + hitSites (snapshot s) +
       skippedSites (snapshot s) + retiredSites (snapshot s)"
proof -
  let ?s = "fold trace_step es coverage0"
  have ok: "map_ok (sites ?s)" "map_ok (instructionHits ?s)" "map_ok (blockHits ?s)"
    using tracer.run_inv [OF coverage0_inv, of es] by (simp_all add: coverage_inv_def)
  have planned: "length (sites ?s) = card (dom (map_of (sites ?s)))"
    using distinct_card [OF ok(1)] by (simp add: dom_map_of_conv_image_fst)
  show ?thesis
    using counts_shown_sorted [OF ok(2)] counts_shown_sorted [OF ok(3)] total_shown_saturated [OF ok(2)]
      total_shown_saturated [OF ok(3)] armed_list [OF ok(1)] count_state_card [OF ok(1)] card_states [OF ok(1)] planned
    by (simp add: snapshot_def sortSnapshot_def snapshotLocked_def case_prod_unfold Let_def sites_in_def
        del: map_of_eq_Some_iff)
qed

text \<open>Polling with a retained snapshot never shows stale data: after fewer than \<open>2^64\<close> operations
  since it was taken, refreshing it leaves exactly the snapshot of the current state, whether or not
  anything was copied.\<close>

theorem snapshotIfChanged_fresh:
  assumes "length es < 2 ^ 64"
  shows "snd (snapshotIfChanged (snapshot s) (fold trace_step es s)) = snapshot (fold trace_step es s)"
proof -
  from run_revision [of es s] obtain k where k: "k \<le> length es"
    "revision (fold trace_step es s) = revision s + of_nat k" "k = 0 \<longrightarrow> fold trace_step es s = s" by blast
  have "k = 0" if "(of_nat k :: u64) = 0"
  proof -
    have "k < 2 ^ 64" using k(1) assms by simp
    then have "unat (of_nat k :: u64) = k" by (simp add: unat_of_nat_u64)
    with that show ?thesis by simp
  qed
  show ?thesis
  proof (cases "k = 0")
    case True
    with k(3) show ?thesis by (simp add: snapshotIfChanged_def)
  next
    case False
    then have "revision s \<noteq> revision (fold trace_step es s)"
      using \<open>(of_nat k :: u64) = 0 \<Longrightarrow> k = 0\<close> unfolding k(2) by auto
    then show ?thesis by (simp add: snapshotIfChanged_def snapshot_def [symmetric])
  qed
qed

theorem snapshotIfChanged_fresh_witness:
  "snd (snapshotIfChanged (snapshot coverage0) (fold trace_step [Begin [7] 5] coverage0)) =
     snapshot (fold trace_step [Begin [7] 5] coverage0)"
  using snapshotIfChanged_fresh [of "[Begin [7] 5]" coverage0] by simp

end
