(* ===== verification/Trace_Plan.thy ===== *)
theory Trace_Plan
  imports Machine Instruction_Model Address_Span
begin

text \<open>
  \<open>src/src/Core/TracePlan.h\<close>: the contiguous code spans that trace shading may colour, built from
  listing rows and searched by address. \<open>std::upper_bound\<close> on a sorted vector is the length of
  the prefix whose elements are not after the key.
\<close>

record TraceCodeSpan =
  sp_begin :: u64
  sp_end :: u64

definition TraceInstructionCanSeed :: "Instruction \<Rightarrow> bool" where
  "TraceInstructionCanSeed i \<longleftrightarrow>
     in_length i > 0 \<and> in_length i \<le> 15 \<and> in_address i \<le> u64_max - ucast (in_length i) \<and>
     mnemonic i \<noteq> [] \<and> mnemonic i \<noteq> ''db'' \<and> mnemonic i \<noteq> ''dw'' \<and> mnemonic i \<noteq> ''dd'' \<and> mnemonic i \<noteq> ''dq''"

definition TraceInstructionEndsSpan :: "Instruction \<Rightarrow> bool" where
  "TraceInstructionEndsSpan i \<longleftrightarrow>
     InstructionEndsBlock i \<or> InstructionIsCall i \<or> InstructionIsReturn i \<or>
     List.member [''int'', ''int1'', ''int3'', ''into'', ''ud0'', ''ud1'', ''ud2'', ''hlt'', ''syscall'',
       ''sysenter'', ''sysexit'', ''sysret'', ''sysretq''] (mnemonic i)"

definition AppendTraceCodeSpan :: "Instruction \<Rightarrow> bool \<Rightarrow> nat \<Rightarrow> TraceCodeSpan list \<Rightarrow> bool \<times> TraceCodeSpan list" where
  "AppendTraceCodeSpan i boundary maxSpans spans =
     (let fin = in_address i + ucast (in_length i)
      in if \<not> TraceInstructionCanSeed i then (False, spans)
         else if spans \<noteq> [] \<and> in_address i < sp_end (last spans) then (False, spans)
         else if \<not> boundary \<and> spans \<noteq> [] \<and> sp_end (last spans) = in_address i then
           (True, butlast spans @ [(last spans)\<lparr>sp_end := fin\<rparr>])
         else if length spans \<ge> maxSpans then (False, spans)
         else (True, spans @ [\<lparr>sp_begin = in_address i, sp_end = fin\<rparr>]))"

definition FindTraceCodeSpan :: "TraceCodeSpan list \<Rightarrow> u64 \<Rightarrow> TraceCodeSpan option" where
  "FindTraceCodeSpan spans a =
     (let n = length (takeWhile (\<lambda>x. \<not> a < sp_begin x) spans)
      in if n = 0 then None
         else let span = spans ! (n - 1) in if a < sp_end span then Some span else None)"

definition TraceCoveredByBlock :: "u64 list \<Rightarrow> TraceCodeSpan list \<Rightarrow> (u64 \<times> u64) list \<Rightarrow> u64 \<Rightarrow> bool" where
  "TraceCoveredByBlock starts spans hits a =
     (case FindTraceCodeSpan spans a of
        None \<Rightarrow> False
      | Some span \<Rightarrow>
          let n = length (takeWhile (\<lambda>x. \<not> a < x) starts)
          in if n = 0 then False
             else
               let site = starts ! (n - 1)
               in if site < sp_begin span then False
                  else case map_of hits site of None \<Rightarrow> False | Some h \<Rightarrow> h \<noteq> 0)"

section \<open>Upper bound\<close>

text \<open>The element before \<open>upper_bound\<close> in a sorted list is the last one not after the key.\<close>

lemma upper_bound_last:
  assumes "sorted (map f xs)" "i < length xs" "(f (xs ! i) :: u64) \<le> a"
  shows "i < length (takeWhile (\<lambda>x. \<not> a < f x) xs)"
proof (rule ccontr)
  let ?n = "length (takeWhile (\<lambda>x. \<not> a < f x) xs)"
  assume "\<not> i < ?n"
  then have n: "?n \<le> i" by simp
  then have "\<not> (\<not> a < f (xs ! ?n))" using assms(2) by (intro nth_length_takeWhile) simp
  moreover have "f (xs ! ?n) \<le> f (xs ! i)"
    using sorted_nth_mono [OF assms(1), of ?n i] n assms(2) by simp
  ultimately show False using assms(3) by simp
qed

lemma takeWhile_holds: "i < length (takeWhile P xs) \<Longrightarrow> P (xs ! i)"
  by (metis nth_mem set_takeWhileD takeWhile_nth)

section \<open>Well-formed spans\<close>

definition in_span :: "u64 \<Rightarrow> TraceCodeSpan \<Rightarrow> bool" where
  "in_span a x \<longleftrightarrow> sp_begin x \<le> a \<and> a < sp_end x"

definition row_bytes :: "Instruction \<Rightarrow> u64 \<Rightarrow> bool" where
  "row_bytes i a \<longleftrightarrow> unat (in_address i) \<le> unat a \<and> unat a < unat (in_address i) + unat (in_length i)"

definition spans_ok :: "TraceCodeSpan list \<Rightarrow> bool" where
  "spans_ok spans \<longleftrightarrow> sorted_wrt (\<lambda>x y. sp_end x \<le> sp_begin y) spans \<and> (\<forall>x \<in> set spans. sp_begin x < sp_end x)"

definition covered :: "TraceCodeSpan list \<Rightarrow> u64 \<Rightarrow> bool" where
  "covered spans a \<longleftrightarrow> (\<exists>x \<in> set spans. in_span a x)"

lemma seed_end:
  assumes "TraceInstructionCanSeed i"
  shows "unat (in_address i + ucast (in_length i)) = unat (in_address i) + unat (in_length i)"
    and "in_address i < in_address i + ucast (in_length i)"
proof -
  have n: "unat (ucast (in_length i) :: u64) = unat (in_length i)"
    using unsigned_less [of "in_length i", where ?'a = nat] by (simp add: unsigned_ucast_eq take_bit_nat_eq_self)
  have "unat (in_address i) + unat (ucast (in_length i) :: u64) < 18446744073709551616"
    using assms add_guard [of "ucast (in_length i)" "in_address i"]
    by (simp only: TraceInstructionCanSeed_def) (metis not_le)
  then show e: "unat (in_address i + ucast (in_length i)) = unat (in_address i) + unat (in_length i)"
    by (simp add: unat_add_no_wrap n)
  have "0 < unat (in_length i)" using assms by (simp add: TraceInstructionCanSeed_def word_gt_0 unat_gt_0)
  then show "in_address i < in_address i + ucast (in_length i)" by (simp add: word_less_nat_alt e)
qed

lemma row_bytes_span:
  "TraceInstructionCanSeed i \<Longrightarrow> row_bytes i a \<longleftrightarrow> in_address i \<le> a \<and> a < in_address i + ucast (in_length i)"
  by (simp add: row_bytes_def word_le_nat_alt word_less_nat_alt seed_end)

lemma append_spans:
  assumes "spans_ok spans"
  shows "spans_ok (snd (AppendTraceCodeSpan i b m spans)) \<and>
     (\<forall>a. covered (snd (AppendTraceCodeSpan i b m spans)) a \<longleftrightarrow>
        covered spans a \<or> fst (AppendTraceCodeSpan i b m spans) \<and> row_bytes i a)"
proof (cases "TraceInstructionCanSeed i \<and> \<not> (spans \<noteq> [] \<and> in_address i < sp_end (last spans))")
  case False
  then show ?thesis using assms by (auto simp: AppendTraceCodeSpan_def Let_def)
next
  case ok: True
  note e = seed_end [OF conjunct1 [OF ok]] and rb = row_bytes_span [OF conjunct1 [OF ok]]
  let ?fin = "in_address i + ucast (in_length i)"
  show ?thesis
  proof (cases "\<not> b \<and> spans \<noteq> [] \<and> sp_end (last spans) = in_address i")
    case True
    define bs l where "bs = butlast spans" and "l = last spans"
    have sp: "spans = bs @ [l]" using True by (simp add: bs_def l_def)
    have le: "sp_end l = in_address i" using True by (simp add: l_def)
    have "sp_begin l < sp_end l" using assms by (simp add: spans_ok_def sp)
    then have "sp_begin l < ?fin" using e(2) le by simp
    then show ?thesis
      using ok True assms le \<open>sp_begin l < sp_end l\<close> e(2)
      by (auto simp: AppendTraceCodeSpan_def Let_def spans_ok_def covered_def in_span_def rb sp sorted_wrt_append)
  next
    case False
    have "sp_end x \<le> in_address i" if "x \<in> set spans" for x
    proof -
      have ne: "spans \<noteq> []" using that by auto
      have "sp_end x \<le> sp_end (last spans)"
      proof (cases "x = last spans")
        case False
        with that have "x \<in> set (butlast spans)" by (metis append_butlast_last_id ne in_set_butlastD set_ConsD rotate1.simps(2) set_rotate1)
        then have "sp_end x \<le> sp_begin (last spans)"
          using assms sorted_wrt_append [of _ "butlast spans" "[last spans]"] ne by (simp add: spans_ok_def)
        moreover have "sp_begin (last spans) < sp_end (last spans)" using assms ne by (simp add: spans_ok_def)
        ultimately show ?thesis by simp
      qed simp
      moreover have "sp_end (last spans) \<le> in_address i" using ok ne by (simp add: not_less)
      ultimately show ?thesis by (rule order_trans)
    qed
    with False ok assms e(2) show ?thesis
      by (auto simp: AppendTraceCodeSpan_def Let_def spans_ok_def covered_def in_span_def rb sorted_wrt_append)
  qed
qed

lemma spans_sorted: "spans_ok spans \<Longrightarrow> sorted (map sp_begin spans)"
proof -
  assume ok: "spans_ok spans"
  have "sorted_wrt (\<lambda>x y. sp_begin x \<le> sp_begin y) spans"
  proof (rule sorted_wrt_mono_rel)
    show "sorted_wrt (\<lambda>x y. sp_end x \<le> sp_begin y) spans" using ok by (simp add: spans_ok_def)
    show "sp_begin x \<le> sp_begin y" if "x \<in> set spans" "sp_end x \<le> sp_begin y" for x y
      using ok that by (meson less_imp_le order_trans spans_ok_def)
  qed
  then show ?thesis by (simp add: sorted_map)
qed

lemma FindTraceCodeSpan_correct:
  assumes "spans_ok spans"
  shows "FindTraceCodeSpan spans a = Some x \<longleftrightarrow> x \<in> set spans \<and> in_span a x"
proof -
  let ?n = "length (takeWhile (\<lambda>x. \<not> a < sp_begin x) spans)"
  have le: "?n \<le> length spans" by (rule length_takeWhile_le)
  show ?thesis
  proof
    assume "FindTraceCodeSpan spans a = Some x"
    then have f: "?n \<noteq> 0" "x = spans ! (?n - 1)" "a < sp_end x"
      by (auto simp: FindTraceCodeSpan_def Let_def split: if_splits)
    then have "\<not> a < sp_begin x" using takeWhile_holds [of "?n - 1" "\<lambda>x. \<not> a < sp_begin x" spans] by simp
    moreover have "?n - 1 < length spans" using f(1) le by linarith
    ultimately show "x \<in> set spans \<and> in_span a x" using f(2,3) nth_mem by (simp add: in_span_def not_less)
  next
    assume x: "x \<in> set spans \<and> in_span a x"
    then obtain i where i: "i < length spans" "spans ! i = x" by (auto simp: in_set_conv_nth)
    have n: "i < ?n" using upper_bound_last [OF spans_sorted [OF assms] i(1), of a] x i(2) by (simp add: in_span_def)
    have "\<not> i < ?n - 1"
    proof
      assume less: "i < ?n - 1"
      then have "sp_end x \<le> sp_begin (spans ! (?n - 1))"
        using assms sorted_wrt_nth_less [of "\<lambda>x y. sp_end x \<le> sp_begin y" spans i "?n - 1"] le i
        by (simp add: spans_ok_def)
      moreover have "\<not> a < sp_begin (spans ! (?n - 1))"
        using takeWhile_holds [of "?n - 1" "\<lambda>x. \<not> a < sp_begin x" spans] n by simp
      ultimately show False using x by (auto simp: in_span_def)
    qed
    with n have "?n - 1 = i" by simp
    with n i x show "FindTraceCodeSpan spans a = Some x" by (auto simp: FindTraceCodeSpan_def Let_def in_span_def)
  qed
qed

section \<open>Building the spans\<close>

text \<open>The caller appends listing rows one after another and ignores refused ones.\<close>

definition append_step :: "nat \<Rightarrow> Instruction \<times> bool \<Rightarrow> TraceCodeSpan list \<Rightarrow> TraceCodeSpan list" where
  "append_step m row spans = snd (AppendTraceCodeSpan (fst row) (snd row) m spans)"

fun accepted :: "nat \<Rightarrow> (Instruction \<times> bool) list \<Rightarrow> TraceCodeSpan list \<Rightarrow> Instruction list" where
  "accepted m [] spans = []"
| "accepted m (row # rows) spans =
     (if fst (AppendTraceCodeSpan (fst row) (snd row) m spans) then [fst row] else []) @
     accepted m rows (append_step m row spans)"

interpretation span_builder: machine "append_step m" spans_ok for m
  by unfold_locales (simp add: append_step_def append_spans)

lemma append_run_covered:
  "spans_ok spans \<Longrightarrow> covered (fold (append_step m) rows spans) a \<longleftrightarrow>
     covered spans a \<or> (\<exists>i \<in> set (accepted m rows spans). row_bytes i a)"
proof (induction rows arbitrary: spans)
  case (Cons row rows)
  have "spans_ok (append_step m row spans)" using Cons.prems by (rule span_builder.step_inv)
  from Cons.IH [OF this] append_spans [OF Cons.prems, of "fst row" "snd row" m] show ?case
    by (auto simp: append_step_def)
qed simp

text \<open>C37: whatever rows are appended in whatever order, an address is found in a code span exactly
  when it is a byte of an accepted instruction, so shading never covers a gap, data or a refused row;
  the spans stay sorted, non-empty and disjoint.\<close>

theorem trace_spans_exact:
  "case fold (append_step m) rows [] of spans \<Rightarrow>
     spans_ok spans \<and>
     ((\<exists>x. FindTraceCodeSpan spans a = Some x) \<longleftrightarrow> (\<exists>i \<in> set (accepted m rows []). row_bytes i a))"
proof -
  have ok: "spans_ok []" by (simp add: spans_ok_def)
  have run: "spans_ok (fold (append_step m) rows [])" by (rule span_builder.run_inv [OF ok])
  with append_run_covered [OF ok, of m rows a] show ?thesis
    by (auto simp: FindTraceCodeSpan_correct covered_def)
qed

end
