(* ===== verification/Memory_Mutation.thy ===== *)
theory Memory_Mutation
  imports Prelude
begin

unbundle bit_operations_syntax

text \<open>
  \<open>src/src/Core/DebuggerMemoryMutation.h\<close> and \<open>DebuggerExecutionPolicy.h\<close>: applying a remote write
  with verification and rollback, and the transactional update of control-register bits. The
  native adapter (the template parameter \<open>IO\<close>, the \<open>read\<close>/\<open>write\<close> callbacks) is a parameter: a
  record of functions over an arbitrary world. A failed read leaves its buffer untouched in the
  model; the code never looks at the buffer after a failed read.
\<close>

record MemoryMutationRegion =
  rg_address :: u64
  rg_size :: nat
  originalProtection :: u32
  writableProtection :: u32
  restorePending :: bool

record MemoryMutation =
  mm_address :: u64
  original :: bytes
  replacement :: bytes
  working :: bytes
  verified :: bytes
  regions :: "MemoryMutationRegion list"
  rollbackPending :: bool
  flushPending :: bool
  applied :: bool
  failures :: u32

definition MutationProtectFailed :: u32 where "MutationProtectFailed = 1"
definition MutationWriteFailed :: u32 where "MutationWriteFailed = 2"
definition MutationVerifyFailed :: u32 where "MutationVerifyFailed = 4"
definition MutationRollbackFailed :: u32 where "MutationRollbackFailed = 8"
definition MutationRestoreProtectionFailed :: u32 where "MutationRestoreProtectionFailed = 16"
definition MutationFlushFailed :: u32 where "MutationFlushFailed = 32"

record 'w MutationIO =
  io_read :: "u64 \<Rightarrow> nat \<Rightarrow> 'w \<Rightarrow> bytes option \<times> 'w"
  io_write :: "u64 \<Rightarrow> bytes \<Rightarrow> 'w \<Rightarrow> bool \<times> 'w"
  io_protect :: "u64 \<Rightarrow> nat \<Rightarrow> u32 \<Rightarrow> 'w \<Rightarrow> bool \<times> 'w"
  io_protectionMatches :: "u64 \<Rightarrow> nat \<Rightarrow> u32 \<Rightarrow> 'w \<Rightarrow> bool \<times> 'w"
  io_flush :: "u64 \<Rightarrow> nat \<Rightarrow> 'w \<Rightarrow> bool \<times> 'w"

definition MemoryMutationPending :: "MemoryMutation \<Rightarrow> bool" where
  "MemoryMutationPending m \<longleftrightarrow> rollbackPending m \<or> flushPending m \<or> list_ex restorePending (regions m)"

definition fail_flag :: "u32 \<Rightarrow> MemoryMutation \<Rightarrow> MemoryMutation" where
  "fail_flag f m = m\<lparr>failures := failures m OR f\<rparr>"

text \<open>The loop over the regions stops at the first refusal; the regions after it keep their state.\<close>

fun make_writable :: "'w MutationIO \<Rightarrow> MemoryMutationRegion list \<Rightarrow> 'w \<Rightarrow> bool \<times> MemoryMutationRegion list \<times> 'w" where
  "make_writable io [] w = (True, [], w)"
| "make_writable io (r # rs) w =
     (let r1 = r\<lparr>restorePending := True\<rparr>;
          (ok, w1) = io_protect io (rg_address r) (rg_size r) (writableProtection r) w
      in if \<not> ok then (False, r1 # rs, w1)
         else let (ok2, rs2, w2) = make_writable io rs w1 in (ok2, r1 # rs2, w2))"

definition MakeMutationWritable :: "'w MutationIO \<Rightarrow> MemoryMutation \<Rightarrow> 'w \<Rightarrow> bool \<times> MemoryMutation \<times> 'w" where
  "MakeMutationWritable io m w =
     (let (ok, rs, w1) = make_writable io (regions m) w;
          m1 = m\<lparr>regions := rs\<rparr>
      in (ok, if ok then m1 else fail_flag MutationProtectFailed m1, w1))"

definition restore_region :: "'w MutationIO \<Rightarrow> MemoryMutationRegion \<Rightarrow> 'w \<Rightarrow> MemoryMutationRegion \<times> bool \<times> 'w" where
  \<comment> \<open>the region afterwards and whether restoring failed\<close>
  "restore_region io r w =
     (if \<not> restorePending r then (r, False, w)
      else
        let (restored, w1) = io_protect io (rg_address r) (rg_size r) (originalProtection r) w
        in if restored then (r\<lparr>restorePending := False\<rparr>, False, w1)
           else
             let (same, w2) = io_protectionMatches io (rg_address r) (rg_size r) (originalProtection r) w1
             in (if same then r\<lparr>restorePending := False\<rparr> else r, True, w2))"

fun restore_regions :: "'w MutationIO \<Rightarrow> MemoryMutationRegion list \<Rightarrow> bool \<Rightarrow> 'w \<Rightarrow> MemoryMutationRegion list \<times> bool \<times> 'w" where
  \<comment> \<open>the list is the reversed vector\<close>
  "restore_regions io [] failed w = ([], failed, w)"
| "restore_regions io (r # rs) failed w =
     (let (r1, f1, w1) = restore_region io r w;
          (rs2, f2, w2) = restore_regions io rs (failed \<or> f1) w1
      in (r1 # rs2, f2, w2))"

definition RestoreMutationEnvironment :: "'w MutationIO \<Rightarrow> MemoryMutation \<Rightarrow> 'w \<Rightarrow> MemoryMutation \<times> 'w" where
  "RestoreMutationEnvironment io m w =
     (let (rs, failed, w1) = restore_regions io (rev (regions m)) False w;
          m0 = m\<lparr>regions := rev rs\<rparr>;
          m1 = (if failed then fail_flag MutationRestoreProtectionFailed m0 else m0)
      in if flushPending m1 then
           let (ok, w2) = io_flush io (mm_address m1) (length (original m1)) w1
           in (if ok then m1\<lparr>flushPending := False\<rparr> else fail_flag MutationFlushFailed m1, w2)
         else (m1, w1))"

definition undo_bytes :: "bytes \<Rightarrow> bytes \<Rightarrow> bytes \<Rightarrow> bytes" where
  \<comment> \<open>the working buffer with every byte that is still this write's replaced by the original\<close>
  "undo_bytes work repl orig =
     map (\<lambda>i. if work ! i = repl ! i \<and> work ! i \<noteq> orig ! i then orig ! i else work ! i) [0..<length work]"

definition read_back :: "'w MutationIO \<Rightarrow> MemoryMutation \<Rightarrow> bytes \<Rightarrow> 'w \<Rightarrow> bool \<times> MemoryMutation \<times> 'w" where
  \<comment> \<open>read into \<open>verified\<close> and compare with \<open>expected\<close>\<close>
  "read_back io m expected w =
     (case io_read io (mm_address m) (length (verified m)) w of
        (None, w1) \<Rightarrow> (False, m, w1)
      | (Some d, w1) \<Rightarrow> (d = expected, m\<lparr>verified := d\<rparr>, w1))"

definition rollback :: "'w MutationIO \<Rightarrow> MemoryMutation \<Rightarrow> 'w \<Rightarrow> MemoryMutation \<times> 'w" where
  "rollback io m w =
     (case io_read io (mm_address m) (length (working m)) w of
        (None, w1) \<Rightarrow> (fail_flag MutationRollbackFailed m, w1)
      | (Some d, w1) \<Rightarrow>
          let fixed = undo_bytes d (replacement m) (original m);
              m1 = m\<lparr>working := fixed\<rparr>
          in if fixed = d then (m1\<lparr>rollbackPending := False\<rparr>, w1)
             else
               case MakeMutationWritable io m1 w1 of
                 (False, m2, w2) \<Rightarrow> (fail_flag MutationRollbackFailed m2, w2)
               | (True, m2, w2) \<Rightarrow>
                   let (wrote, w3) = io_write io (mm_address m2) (working m2) w2;
                       (ok, m3, w4) = read_back io (m2\<lparr>flushPending := True\<rparr>) (working m2) w3;
                       m4 = (if \<not> wrote then fail_flag MutationRollbackFailed m3 else m3)
                   in (if ok then m4\<lparr>rollbackPending := False\<rparr> else fail_flag MutationRollbackFailed m4, w4))"

definition ReconcileMemoryMutation :: "'w MutationIO \<Rightarrow> MemoryMutation \<Rightarrow> 'w \<Rightarrow> bool \<times> MemoryMutation \<times> 'w" where
  "ReconcileMemoryMutation io m w =
     (let (m1, w1) = (if rollbackPending m then rollback io m w else (m, w));
          (m2, w2) = RestoreMutationEnvironment io m1 w1
      in (\<not> MemoryMutationPending m2, m2, w2))"

definition ApplyMemoryMutation :: "'w MutationIO \<Rightarrow> MemoryMutation \<Rightarrow> 'w \<Rightarrow> bool \<times> MemoryMutation \<times> 'w" where
  "ApplyMemoryMutation io m w =
     (case MakeMutationWritable io m w of
        (False, m1, w1) \<Rightarrow> (let (m2, w2) = RestoreMutationEnvironment io m1 w1 in (False, m2, w2))
      | (True, m1, w1) \<Rightarrow>
          let (wrote, w2) = io_write io (mm_address m1) (replacement m1) w1;
              (ok, m2, w3) = read_back io (m1\<lparr>flushPending := True\<rparr>) (replacement m1) w2;
              m3 = (if \<not> wrote then fail_flag MutationWriteFailed m2 else m2);
              m4 = (if \<not> ok then fail_flag MutationVerifyFailed m3 else m3);
              m5 = m4\<lparr>applied := (wrote \<and> ok), rollbackPending := \<not> (wrote \<and> ok)\<rparr>;
              (_, m6, w4) = ReconcileMemoryMutation io m5 w3
          in (applied m6, m6, w4))"

section \<open>Control bits and hardware breakpoints\<close>

datatype ControlMutationResult = Applied | ReadFailed | WriteFailed | VerifyFailed | RollbackFailed

text \<open>The callbacks: a read that may fail and a write that may fail, over an arbitrary world.\<close>

definition control_rollback :: "u32 \<Rightarrow> u32 \<Rightarrow> bool \<Rightarrow> ('w \<Rightarrow> u32 option \<times> 'w) \<Rightarrow> (u32 \<Rightarrow> 'w \<Rightarrow> bool \<times> 'w) \<Rightarrow>
    'w \<Rightarrow> ControlMutationResult \<times> 'w" where
  "control_rollback msk before written rd wr w =
     (case rd w of
        (None, w1) \<Rightarrow> (RollbackFailed, w1)
      | (Some current, w1) \<Rightarrow>
          (case wr ((current AND NOT msk) OR (before AND msk)) w1 of
             (False, w2) \<Rightarrow> (RollbackFailed, w2)
           | (True, w2) \<Rightarrow>
               (case rd w2 of
                  (None, w3) \<Rightarrow> (RollbackFailed, w3)
                | (Some v, w3) \<Rightarrow>
                    if v AND msk \<noteq> before AND msk then (RollbackFailed, w3)
                    else (if written then VerifyFailed else WriteFailed, w3))))"

definition UpdateControlBits :: "u32 \<Rightarrow> bool \<Rightarrow> ('w \<Rightarrow> u32 option \<times> 'w) \<Rightarrow> (u32 \<Rightarrow> 'w \<Rightarrow> bool \<times> 'w) \<Rightarrow>
    'w \<Rightarrow> ControlMutationResult \<times> 'w" where
  "UpdateControlBits msk enabled rd wr w =
     (case rd w of
        (None, w1) \<Rightarrow> (ReadFailed, w1)
      | (Some before, w1) \<Rightarrow>
          let expected = (if enabled then before OR msk else before AND NOT msk)
          in if expected = before then (Applied, w1)
             else
               case wr expected w1 of
                 (False, w2) \<Rightarrow> control_rollback msk before False rd wr w2
               | (True, w2) \<Rightarrow>
                   (case rd w2 of
                      (None, w3) \<Rightarrow> control_rollback msk before True rd wr w3
                    | (Some v, w3) \<Rightarrow>
                        if v AND msk = expected AND msk then (Applied, w3)
                        else control_rollback msk before True rd wr w3))"

definition ValidHardwareBreakpoint :: "u64 \<Rightarrow> bool \<Rightarrow> u8 \<Rightarrow> bool \<Rightarrow> bool" where
  "ValidHardwareBreakpoint addr execute size0 wow64 =
     (let sz = (if execute then 1 else size0); len = ucast sz :: u64
      in if sz \<noteq> 1 \<and> sz \<noteq> 2 \<and> sz \<noteq> 4 \<and> sz \<noteq> 8 then False
         else if wow64 \<and> (sz = 8 \<or> addr > 0xFFFFFFFF \<or> len - 1 > 0xFFFFFFFF - addr) then False
         else if addr > u64_max - (len - 1) then False
         else addr mod len = 0)"

definition CheckedInstructionContinuation :: "u64 \<Rightarrow> u32 \<Rightarrow> bool \<Rightarrow> bool \<Rightarrow> u64 option" where
  \<comment> \<open>\<open>None\<close>: false (the out parameter is then not used by the callers)\<close>
  "CheckedInstructionContinuation addr len decoded wow64 =
     (if \<not> decoded \<or> len = 0 \<or> len > 15 \<or> addr > u64_max - ucast len then None
      else
        let out = addr + ucast len
        in if \<not> wow64 \<or> out \<le> 0xFFFFFFFF then Some out else None)"

section \<open>Lawful adapters\<close>

text \<open>What the native memory interface documents: reads return the bytes of the target and change
  nothing, a write touches only its own span and leaves each byte there old or new (a failing write
  may be partial), protection changes and cache flushes do not change bytes.\<close>

definition mem_bytes :: "(u64 \<Rightarrow> u8) \<Rightarrow> u64 \<Rightarrow> nat \<Rightarrow> bytes" where
  "mem_bytes f a n = map (\<lambda>i. f (a + of_nat i)) [0..<n]"

definition outside :: "u64 \<Rightarrow> nat \<Rightarrow> u64 \<Rightarrow> bool" where
  "outside a n x \<longleftrightarrow> (\<forall>i < n. x \<noteq> a + of_nat i)"

definition read_lawful :: "(u64 \<Rightarrow> u8) \<Rightarrow> u64 \<Rightarrow> nat \<Rightarrow> bytes option \<Rightarrow> (u64 \<Rightarrow> u8) \<Rightarrow> bool" where
  "read_lawful f a n r g \<longleftrightarrow> g = f \<and> (r = None \<or> r = Some (mem_bytes f a n))"

definition write_lawful :: "(u64 \<Rightarrow> u8) \<Rightarrow> u64 \<Rightarrow> bytes \<Rightarrow> (u64 \<Rightarrow> u8) \<Rightarrow> bool" where
  "write_lawful f a d g \<longleftrightarrow> (\<forall>x. outside a (length d) x \<longrightarrow> g x = f x) \<and>
     (\<forall>i < length d. g (a + of_nat i) = d ! i \<or> g (a + of_nat i) = f (a + of_nat i))"

definition io_lawful :: "'w MutationIO \<Rightarrow> ('w \<Rightarrow> u64 \<Rightarrow> u8) \<Rightarrow> bool" where
  "io_lawful io mem \<longleftrightarrow>
     (\<forall>a n w. read_lawful (mem w) a n (fst (io_read io a n w)) (mem (snd (io_read io a n w)))) \<and>
     (\<forall>a d w. write_lawful (mem w) a d (mem (snd (io_write io a d w)))) \<and>
     (\<forall>a n p w. mem (snd (io_protect io a n p w)) = mem w) \<and>
     (\<forall>a n p w. mem (snd (io_protectionMatches io a n p w)) = mem w) \<and>
     (\<forall>a n w. mem (snd (io_flush io a n w)) = mem w)"

lemma io_read_law:
  "io_lawful io mem \<Longrightarrow> io_read io a n w = (r, w1) \<Longrightarrow> read_lawful (mem w) a n r (mem w1)"
  unfolding io_lawful_def by (metis fst_conv snd_conv)

lemma io_write_law:
  "io_lawful io mem \<Longrightarrow> io_write io a d w = (ok, w1) \<Longrightarrow> write_lawful (mem w) a d (mem w1)"
  unfolding io_lawful_def by (metis snd_conv)

lemma io_other_law:
  "io_lawful io mem \<Longrightarrow> io_protect io a n p w = (b, w1) \<Longrightarrow> mem w1 = mem w"
  "io_lawful io mem \<Longrightarrow> io_protectionMatches io a n p w = (b, w1) \<Longrightarrow> mem w1 = mem w"
  "io_lawful io mem \<Longrightarrow> io_flush io a n w = (b, w1) \<Longrightarrow> mem w1 = mem w"
  unfolding io_lawful_def by (metis snd_conv)+

section \<open>What the steps keep\<close>

text \<open>No step changes the buffers the transaction was prepared with.\<close>

definition same_plan :: "MemoryMutation \<Rightarrow> MemoryMutation \<Rightarrow> bool" where
  "same_plan m m' \<longleftrightarrow> mm_address m' = mm_address m \<and> original m' = original m \<and> replacement m' = replacement m \<and>
     length (working m') = length (working m) \<and> length (verified m') = length (verified m)"

lemma same_plan_refl [simp]: "same_plan m m"
  by (simp add: same_plan_def)

lemma same_plan_trans: "same_plan m n \<Longrightarrow> same_plan n k \<Longrightarrow> same_plan m k"
  by (simp add: same_plan_def)

lemma fail_flag_simps [simp]:
  "same_plan m (fail_flag f m') \<longleftrightarrow> same_plan m m'" "working (fail_flag f m) = working m"
  "verified (fail_flag f m) = verified m" "mm_address (fail_flag f m) = mm_address m"
  "original (fail_flag f m) = original m" "replacement (fail_flag f m) = replacement m"
  "rollbackPending (fail_flag f m) = rollbackPending m" "applied (fail_flag f m) = applied m"
  "regions (fail_flag f m) = regions m" "flushPending (fail_flag f m) = flushPending m"
  by (simp_all add: fail_flag_def same_plan_def)

lemma same_plan_simps [simp]:
  "same_plan m (m'\<lparr>regions := rs\<rparr>) \<longleftrightarrow> same_plan m m'" "same_plan m (m'\<lparr>flushPending := b\<rparr>) \<longleftrightarrow> same_plan m m'"
  "same_plan m (m'\<lparr>applied := b\<rparr>) \<longleftrightarrow> same_plan m m'" "same_plan m (m'\<lparr>rollbackPending := b\<rparr>) \<longleftrightarrow> same_plan m m'"
  by (simp_all add: same_plan_def)

lemma make_writable_mem:
  "io_lawful io mem \<Longrightarrow> make_writable io rs w = (ok, rs1, w1) \<Longrightarrow> mem w1 = mem w"
  by (induction io rs w arbitrary: ok rs1 w1 rule: make_writable.induct)
     (auto simp: Let_def io_other_law split: prod.splits if_splits)

lemma MakeMutationWritable_keeps:
  assumes "io_lawful io mem" "MakeMutationWritable io m w = (ok, m1, w1)"
  shows "mem w1 = mem w" "same_plan m m1" "working m1 = working m" "applied m1 = applied m"
    "rollbackPending m1 = rollbackPending m"
  using assms by (auto simp: MakeMutationWritable_def Let_def make_writable_mem split: prod.splits if_splits)

lemma restore_regions_mem:
  "io_lawful io mem \<Longrightarrow> restore_regions io rs b w = (rs1, f, w1) \<Longrightarrow> mem w1 = mem w"
  by (induction io rs b w arbitrary: f rs1 w1 rule: restore_regions.induct)
     (auto simp: Let_def restore_region_def io_other_law split: prod.splits if_splits)

lemma RestoreMutationEnvironment_keeps:
  assumes "io_lawful io mem" "RestoreMutationEnvironment io m w = (m1, w1)"
  shows "mem w1 = mem w" "same_plan m m1" "applied m1 = applied m" "rollbackPending m1 = rollbackPending m"
  using assms
  by (auto simp: RestoreMutationEnvironment_def Let_def restore_regions_mem io_other_law split: prod.splits if_splits)

lemma read_back_keeps:
  assumes "io_lawful io mem" "read_back io m expected w = (ok, m1, w1)"
  shows "mem w1 = mem w" "same_plan m m1" "applied m1 = applied m" "rollbackPending m1 = rollbackPending m"
    "ok \<Longrightarrow> expected = mem_bytes (mem w) (mm_address m) (length (verified m))"
  using assms
  by (auto simp: read_back_def same_plan_def read_lawful_def mem_bytes_def dest!: io_read_law
      split: prod.splits option.splits)

section \<open>Applying and rolling back\<close>

definition buffers_ok :: "MemoryMutation \<Rightarrow> bool" where
  \<comment> \<open>the four buffers of a prepared transaction have one length\<close>
  "buffers_ok m \<longleftrightarrow> length (replacement m) = length (original m) \<and> length (working m) = length (original m) \<and>
     length (verified m) = length (original m)"

definition span_is :: "(u64 \<Rightarrow> u8) \<Rightarrow> MemoryMutation \<Rightarrow> bytes \<Rightarrow> bool" where
  "span_is f m bs \<longleftrightarrow> mem_bytes f (mm_address m) (length (original m)) = bs"

definition span_mixed :: "(u64 \<Rightarrow> u8) \<Rightarrow> MemoryMutation \<Rightarrow> bool" where
  \<comment> \<open>every byte of the span is this write's or the original\<close>
  "span_mixed f m \<longleftrightarrow> (\<forall>i < length (original m).
     f (mm_address m + of_nat i) = replacement m ! i \<or> f (mm_address m + of_nat i) = original m ! i)"

definition same_outside :: "MemoryMutation \<Rightarrow> (u64 \<Rightarrow> u8) \<Rightarrow> (u64 \<Rightarrow> u8) \<Rightarrow> bool" where
  "same_outside m f g \<longleftrightarrow> (\<forall>x. outside (mm_address m) (length (original m)) x \<longrightarrow> g x = f x)"

lemma same_outside_refl [simp]: "same_outside m f f"
  by (simp add: same_outside_def)

lemma same_outside_trans: "same_outside m f g \<Longrightarrow> same_outside m g h \<Longrightarrow> same_outside m f h"
  by (simp add: same_outside_def)

lemma same_plan_cong:
  assumes "same_plan m m'"
  shows "buffers_ok m' = buffers_ok m" "span_is f m' = span_is f m" "span_mixed f m' = span_mixed f m"
    "same_outside m' f g = same_outside m f g"
  using assms by (auto simp: same_plan_def buffers_ok_def span_is_def span_mixed_def same_outside_def fun_eq_iff)

lemma length_mem_bytes [simp]: "length (mem_bytes f a n) = n"
  by (simp add: mem_bytes_def)

lemma nth_mem_bytes [simp]: "i < n \<Longrightarrow> mem_bytes f a n ! i = f (a + of_nat i)"
  by (simp add: mem_bytes_def)

lemma undo_bytes_mixed:
  assumes "length d = length orig" "\<And>i. i < length orig \<Longrightarrow> d ! i = repl ! i \<or> d ! i = orig ! i"
  shows "undo_bytes d repl orig = orig"
proof (intro nth_equalityI)
  show "length (undo_bytes d repl orig) = length orig"
    using assms(1) by (simp add: undo_bytes_def)
  show "undo_bytes d repl orig ! i = orig ! i" if "i < length (undo_bytes d repl orig)" for i
    using assms that by (cases "d ! i = repl ! i") (force simp: undo_bytes_def)+
qed

lemma undo_bytes_keeps_foreign:
  "i < length d \<Longrightarrow> d ! i \<noteq> repl ! i \<Longrightarrow> undo_bytes d repl orig ! i = d ! i"
  by (simp add: undo_bytes_def)

lemma write_outside:
  assumes "write_lawful f (mm_address m) d g" "length d = length (original m)"
  shows "same_outside m f g"
  using assms by (simp add: write_lawful_def same_outside_def)

lemma write_mixed:
  assumes "write_lawful f (mm_address m) (replacement m) g" "buffers_ok m" "span_is f m (original m)"
  shows "span_mixed g m"
proof -
  have "f (mm_address m + of_nat i) = original m ! i" if "i < length (original m)" for i
    using assms(3) nth_mem_bytes [OF that, of f "mm_address m"] by (simp add: span_is_def)
  with assms show ?thesis
    by (auto simp: write_lawful_def span_mixed_def buffers_ok_def)
qed

lemma rollback_spec:
  assumes law: "io_lawful io mem" and bufs: "buffers_ok m" and mixed: "span_mixed (mem w) m"
    and run: "rollback io m w = (m1, w1)" and pending: "rollbackPending m"
  shows "same_plan m m1" "applied m1 = applied m" "same_outside m (mem w) (mem w1)"
    "\<not> rollbackPending m1 \<Longrightarrow> span_is (mem w1) m (original m)"
proof -
  obtain r wr where rd: "io_read io (mm_address m) (length (working m)) w = (r, wr)" by force
  have rl: "mem wr = mem w" "r = None \<or> r = Some (mem_bytes (mem w) (mm_address m) (length (original m)))"
    using io_read_law [OF law rd] bufs by (auto simp: read_lawful_def buffers_ok_def)
  have undo: "undo_bytes (mem_bytes (mem w) (mm_address m) (length (original m))) (replacement m) (original m) = original m"
    using mixed by (intro undo_bytes_mixed) (auto simp: span_mixed_def)
  let ?m1 = "m\<lparr>working := original m\<rparr>"
  have plan1: "same_plan m ?m1"
    using bufs by (simp add: same_plan_def buffers_ok_def)
  have "same_plan m m1 \<and> applied m1 = applied m \<and> same_outside m (mem w) (mem w1) \<and>
    (\<not> rollbackPending m1 \<longrightarrow> span_is (mem w1) m (original m))"
  proof (cases "r = None \<or> r = Some (original m)")
    case True
    then show ?thesis
      using run rd rl undo pending plan1
      by (auto simp: rollback_def span_is_def Let_def same_plan_def)
  next
    case False
    then have r: "r = Some (mem_bytes (mem w) (mm_address m) (length (original m)))"
      and neq: "original m \<noteq> mem_bytes (mem w) (mm_address m) (length (original m))"
      using rl by auto
    obtain ok m2 w2 where mk: "MakeMutationWritable io ?m1 wr = (ok, m2, w2)"
      by (metis prod_cases3)
    note mkeep = MakeMutationWritable_keeps [OF law mk]
    have plan2: "same_plan m m2"
      using same_plan_trans [OF plan1 mkeep(2)] .
    show ?thesis
    proof (cases ok)
      case False
      then show ?thesis
        using run rd r undo neq mk mkeep rl plan2 pending by (auto simp: rollback_def Let_def)
    next
      case True
      obtain wrote w3 where wr: "io_write io (mm_address m2) (working m2) w2 = (wrote, w3)" by force
      obtain vok m3 w4 where rb: "read_back io (m2\<lparr>flushPending := True\<rparr>) (working m2) w3 = (vok, m3, w4)"
        by (metis prod_cases3)
      note rkeep = read_back_keeps [OF law rb]
      have m2: "working m2 = original m" "mm_address m2 = mm_address m" "length (verified m2) = length (original m)"
        using mkeep(3) plan2 bufs by (auto simp: same_plan_def buffers_ok_def)
      have out: "same_outside m (mem w) (mem w4)"
        using write_outside [of "mem w2" m "original m" "mem w3"] io_write_law [OF law wr] m2 mkeep(1) rl(1) rkeep(1)
        by simp
      have "same_plan m2 m3" using rkeep(2) by (simp add: same_plan_def)
      then have plan3: "same_plan m m3" using same_plan_trans [OF plan2] by blast
      have sp: "vok \<Longrightarrow> span_is (mem w4) m (original m)"
        using rkeep(1,5) m2 by (simp add: span_is_def)
      show ?thesis
        using run rd r undo neq mk True wr rb out plan3 sp rkeep(3,4) mkeep(4,5) pending m2
        by (auto simp: rollback_def Let_def split: if_splits)
    qed
  qed
  then show "same_plan m m1" "applied m1 = applied m" "same_outside m (mem w) (mem w1)"
    "\<not> rollbackPending m1 \<Longrightarrow> span_is (mem w1) m (original m)"
    by auto
qed

lemma ReconcileMemoryMutation_spec:
  assumes law: "io_lawful io mem" and bufs: "buffers_ok m" and mixed: "rollbackPending m \<Longrightarrow> span_mixed (mem w) m"
    and run: "ReconcileMemoryMutation io m w = (done1, m1, w1)"
  shows "same_plan m m1" "applied m1 = applied m" "same_outside m (mem w) (mem w1)"
    "\<not> rollbackPending m \<Longrightarrow> mem w1 = mem w"
    "rollbackPending m \<Longrightarrow> \<not> rollbackPending m1 \<Longrightarrow> span_is (mem w1) m (original m)"
    "done1 \<longleftrightarrow> \<not> MemoryMutationPending m1"
proof -
  obtain m2 w2 where step: "(if rollbackPending m then rollback io m w else (m, w)) = (m2, w2)"
    by (metis surj_pair)
  have rest: "RestoreMutationEnvironment io m2 w2 = (m1, w1)" and dn: "done1 \<longleftrightarrow> \<not> MemoryMutationPending m1"
    using run step by (auto simp: ReconcileMemoryMutation_def split: prod.splits)
  note keep = RestoreMutationEnvironment_keeps [OF law rest]
  have "same_plan m m1 \<and> applied m1 = applied m \<and> same_outside m (mem w) (mem w1) \<and>
      (\<not> rollbackPending m \<longrightarrow> mem w1 = mem w) \<and>
      (rollbackPending m \<longrightarrow> \<not> rollbackPending m1 \<longrightarrow> span_is (mem w1) m (original m))"
  proof (cases "rollbackPending m")
    case True
    then have "rollback io m w = (m2, w2)" using step by simp
    note rb = rollback_spec [OF law bufs mixed [OF True] this True]
    show ?thesis
      using rb keep True same_plan_trans by auto
  next
    case False
    then show ?thesis using step keep by auto
  qed
  then show "same_plan m m1" "applied m1 = applied m" "same_outside m (mem w) (mem w1)"
    "\<not> rollbackPending m \<Longrightarrow> mem w1 = mem w"
    "rollbackPending m \<Longrightarrow> \<not> rollbackPending m1 \<Longrightarrow> span_is (mem w1) m (original m)"
    "done1 \<longleftrightarrow> \<not> MemoryMutationPending m1"
    using dn by auto
qed

text \<open>What the caller of \<open>ApplyMemoryMutation\<close> may rely on.\<close>

definition mutation_outcome :: "MemoryMutation \<Rightarrow> (u64 \<Rightarrow> u8) \<Rightarrow> bool \<Rightarrow> MemoryMutation \<Rightarrow> (u64 \<Rightarrow> u8) \<Rightarrow> bool" where
  "mutation_outcome m f ok m' g \<longleftrightarrow>
     same_plan m m' \<and> same_outside m f g \<and> (if ok then span_is g m (replacement m)
     else rollbackPending m' \<or> span_is g m (original m))"

lemma apply_outcome:
  assumes law: "io_lawful io mem" and bufs: "buffers_ok m" and orig: "span_is (mem w) m (original m)"
    and run: "ApplyMemoryMutation io m w = (ok, m', w')"
  shows "mutation_outcome m (mem w) ok m' (mem w')"
proof -
  obtain ok1 m1 w1 where mk: "MakeMutationWritable io m w = (ok1, m1, w1)"
    by (metis prod_cases3)
  note mkeep = MakeMutationWritable_keeps [OF law mk]
  show ?thesis
  proof (cases ok1)
    case False
    obtain m2 w2 where rest: "RestoreMutationEnvironment io m1 w1 = (m2, w2)" by force
    note keep = RestoreMutationEnvironment_keeps [OF law rest]
    show ?thesis
      using run mk False rest keep mkeep orig same_plan_trans [OF mkeep(2) keep(2)]
      by (auto simp: ApplyMemoryMutation_def mutation_outcome_def)
  next
    case True
    obtain wrote w2 where wr: "io_write io (mm_address m1) (replacement m1) w1 = (wrote, w2)" by force
    obtain vok m2 w3 where rb: "read_back io (m1\<lparr>flushPending := True\<rparr>) (replacement m1) w2 = (vok, m2, w3)"
      by (metis prod_cases3)
    note rkeep = read_back_keeps [OF law rb]
    let ?m3 = "if \<not> wrote then fail_flag MutationWriteFailed m2 else m2"
    let ?m4 = "if \<not> vok then fail_flag MutationVerifyFailed ?m3 else ?m3"
    let ?m5 = "?m4\<lparr>applied := (wrote \<and> vok), rollbackPending := \<not> (wrote \<and> vok)\<rparr>"
    obtain dn m6 w4 where rec: "ReconcileMemoryMutation io ?m5 w3 = (dn, m6, w4)"
      by (metis prod_cases3)
    have res: "ok = applied m6" "m' = m6" "w' = w4"
      using run mk True wr rb rec by (auto simp: ApplyMemoryMutation_def Let_def)
    have "same_plan m1 m2" using rkeep(2) by (simp add: same_plan_def)
    then have p2: "same_plan m m2" using same_plan_trans [OF mkeep(2)] by blast
    then have p5: "same_plan m ?m5" by auto
    have sames: "replacement m1 = replacement m" "mm_address m1 = mm_address m"
        "length (verified m1) = length (original m)"
      using mkeep(2) bufs by (auto simp: same_plan_def buffers_ok_def)
    have law_w: "write_lawful (mem w) (mm_address m) (replacement m) (mem w3)"
      using io_write_law [OF law wr] sames mkeep(1) rkeep(1) by simp
    have mixed: "span_mixed (mem w3) ?m5"
      using write_mixed [OF law_w bufs orig] same_plan_cong(3) [OF p5] by blast
    have outw: "same_outside m (mem w) (mem w3)"
      using write_outside [OF law_w] bufs by (simp add: buffers_ok_def)
    have new: "vok \<Longrightarrow> span_is (mem w3) m (replacement m)"
      using rkeep(1,5) sames by (simp add: span_is_def)
    have bufs5: "buffers_ok ?m5" using bufs same_plan_cong(1) [OF p5] by blast
    note fin = ReconcileMemoryMutation_spec [OF law bufs5 mixed rec]
    have p6: "same_plan m m6" using same_plan_trans [OF p5 fin(1)] .
    have out6: "same_outside m (mem w) (mem w4)"
      using same_outside_trans [OF outw] fin(3) same_plan_cong(4) [OF p5] by blast
    have orig5: "original ?m5 = original m" using p5 by (simp only: same_plan_def)
    show ?thesis
    proof (cases "wrote \<and> vok")
      case done1: True
      then show ?thesis using res p6 out6 fin(2,4) new by (simp add: mutation_outcome_def)
    next
      case False
      then have "\<not> ok" using fin(2) res by simp
      moreover have "rollbackPending m6 \<or> span_is (mem w4) m (original m)"
      proof (cases "rollbackPending m6")
        case done2: False
        have "rollbackPending ?m5" using False by simp
        from fin(5) [OF this done2] have "span_is (mem w4) m (original m)"
          unfolding same_plan_cong(2) [OF p5] orig5 .
        then show ?thesis ..
      qed simp
      ultimately show ?thesis using res p6 out6 by (simp add: mutation_outcome_def)
    qed
  qed
qed

text \<open>C3: a prepared remote write is all or nothing. For an adapter that keeps the documented memory
  laws, a transaction whose original bytes are what the target holds: when \<open>ApplyMemoryMutation\<close>
  returns true the target's span holds the replacement; when it returns false the span holds the
  original bytes again unless the transaction still carries a rollback obligation. In every case
  no byte outside the span changes, partial and lying writes and failing protections included.
\<close>

theorem ApplyMemoryMutation_atomic:
  assumes "io_lawful io mem" "buffers_ok m" "span_is (mem w) m (original m)"
  shows "case ApplyMemoryMutation io m w of (ok, m', w') \<Rightarrow> mutation_outcome m (mem w) ok m' (mem w')"
  using apply_outcome [OF assms] by (auto split: prod.splits)

text \<open>An adapter over a byte map whose writes lose their last byte (and everything past a page) and
  report success.\<close>

definition lossy_io :: "(u64 \<Rightarrow> u8) MutationIO" where
  "lossy_io = \<lparr>
     io_read = (\<lambda>a n f. (Some (mem_bytes f a n), f)),
     io_write = (\<lambda>a d f. (True, \<lambda>x. if length d \<le> 4096 \<and> unat (x - a) + 1 < length d then d ! unat (x - a) else f x)),
     io_protect = (\<lambda>a n p f. (True, f)),
     io_protectionMatches = (\<lambda>a n p f. (True, f)),
     io_flush = (\<lambda>a n f. (True, f))\<rparr>"

lemma lossy_io_lawful: "io_lawful lossy_io (\<lambda>f. f)"
proof -
  have "write_lawful f a d (\<lambda>x. if length d \<le> 4096 \<and> unat (x - a) + 1 < length d then d ! unat (x - a) else f x)" for f a d
  proof -
    have "\<not> unat (x - a) + 1 < length d" if "outside a (length d) x" for x
    proof
      assume "unat (x - a) + 1 < length d"
      moreover have "x = a + of_nat (unat (x - a))" by simp
      ultimately show False using that unfolding outside_def by (metis add_lessD1)
    qed
    moreover have "unat (of_nat i :: u64) = i" if "i < length d" "length d \<le> 4096" for i
      using that by (simp add: unat_of_nat)
    ultimately show ?thesis by (auto simp: write_lawful_def)
  qed
  then show ?thesis
    by (simp add: io_lawful_def lossy_io_def read_lawful_def)
qed

definition sample_mutation :: MemoryMutation where
  "sample_mutation = \<lparr>mm_address = 0x1000, original = [1, 2], replacement = [7, 8], working = [1, 2],
     verified = [0, 0],
     regions = [\<lparr>rg_address = 0x1000, rg_size = 4096, originalProtection = 2, writableProtection = 4, restorePending = False\<rparr>],
     rollbackPending = False, flushPending = False, applied = False, failures = 0\<rparr>"

lemma ApplyMemoryMutation_atomic_witness:
  "case ApplyMemoryMutation lossy_io sample_mutation (\<lambda>x. if x = 0x1000 then 1 else 2) of (ok, m', w') \<Rightarrow>
     mutation_outcome sample_mutation (\<lambda>x. if x = 0x1000 then 1 else 2) ok m' w'"
  by (rule ApplyMemoryMutation_atomic [OF lossy_io_lawful])
     (simp_all add: buffers_ok_def sample_mutation_def span_is_def mem_bytes_def upt_rec)

section \<open>Control bits\<close>

definition reads_truly :: "('w \<Rightarrow> u32 option \<times> 'w) \<Rightarrow> ('w \<Rightarrow> u32) \<Rightarrow> bool" where
  "reads_truly rd reg \<longleftrightarrow> (\<forall>w. reg (snd (rd w)) = reg w \<and> (fst (rd w) = None \<or> fst (rd w) = Some (reg w)))"

lemma reads_trulyD:
  "reads_truly rd reg \<Longrightarrow> rd w = (r, w1) \<Longrightarrow> reg w1 = reg w \<and> (r = None \<or> r = Some (reg w))"
  unfolding reads_truly_def by (metis fst_conv snd_conv)

definition control_outcome :: "u32 \<Rightarrow> bool \<Rightarrow> u32 \<Rightarrow> u32 \<Rightarrow> ControlMutationResult \<Rightarrow> bool" where
  \<comment> \<open>what a result says of the register before and after\<close>
  "control_outcome msk enabled before after r =
     (case r of Applied \<Rightarrow> after AND msk = (if enabled then msk else 0)
      | ReadFailed \<Rightarrow> after = before
      | WriteFailed \<Rightarrow> after AND msk = before AND msk
      | VerifyFailed \<Rightarrow> after AND msk = before AND msk
      | RollbackFailed \<Rightarrow> True)"

lemma masked_request:
  fixes b msk :: u32
  shows "(b OR msk) AND msk = msk" "(b AND NOT msk) AND msk = 0"
    "b OR msk = b \<Longrightarrow> b AND msk = msk" "b AND NOT msk = b \<Longrightarrow> b AND msk = 0"
proof -
  show 1: "(b OR msk) AND msk = msk" and 2: "(b AND NOT msk) AND msk = 0"
    by (auto intro!: bit_word_eqI simp: bit_simps)
  show "b OR msk = b \<Longrightarrow> b AND msk = msk" "b AND NOT msk = b \<Longrightarrow> b AND msk = 0"
    using 1 2 by metis+
qed

lemma control_rollback_outcome:
  assumes "reads_truly rd reg" "control_rollback msk before written rd wr w = (r, w1)"
  shows "control_outcome msk enabled before (reg w1) r"
  using assms
  by (auto simp: control_rollback_def control_outcome_def dest!: reads_trulyD [OF assms(1)]
      split: prod.splits option.splits bool.splits if_splits)

text \<open>The debug-register update reports what it did. With a context reader that reports the
  register and changes nothing, and any writer at all (writes that fail, that fail after changing
  the register, or that succeed and change something else), \<open>Applied\<close> means the masked bits are as
  requested, \<open>WriteFailed\<close> and \<open>VerifyFailed\<close> mean they are as they were before the call, and
  \<open>ReadFailed\<close> means nothing was touched.
\<close>

theorem UpdateControlBits_outcome:
  assumes "reads_truly rd reg"
  shows "case UpdateControlBits msk enabled rd wr w of (r, w1) \<Rightarrow> control_outcome msk enabled (reg w) (reg w1) r"
proof -
  obtain r w1 where run: "UpdateControlBits msk enabled rd wr w = (r, w1)" by force
  obtain v wa where rd: "rd w = (v, wa)" by force
  note first = reads_trulyD [OF assms rd]
  have "control_outcome msk enabled (reg w) (reg w1) r"
    using run rd first
    by (auto simp: UpdateControlBits_def Let_def masked_request control_outcome_def
        dest!: control_rollback_outcome [OF assms, where enabled = enabled] dest: reads_trulyD [OF assms]
        split: prod.splits option.splits bool.splits if_splits)
  with run show ?thesis by simp
qed

lemma UpdateControlBits_outcome_witness:
  "case UpdateControlBits 0x100 True (\<lambda>w. (Some w, w)) (\<lambda>v w. (False, v)) (0x40 :: u32) of (r, w1) \<Rightarrow>
     control_outcome 0x100 True 0x40 w1 r"
  by (rule UpdateControlBits_outcome [where reg = "\<lambda>w. w"]) (simp add: reads_truly_def)

section \<open>Hardware breakpoints\<close>

text \<open>The accepted requests: a length of 1, 2, 4 or 8 bytes (8 never for a 32-bit target, always 1
  for execution), aligned to itself and inside the target's address space.\<close>

lemma unat_pred:
  fixes len :: u64
  assumes "0 < len"
  shows "unat (len - 1) = unat len - 1" "0 < unat len"
proof -
  have "len \<noteq> 0" using assms by auto
  then show "unat (len - 1) = unat len - 1" by (rule unat_minus_one)
  show "0 < unat len" using assms by (simp add: word_less_nat_alt)
qed

lemma aligned_span:
  fixes addr len :: u64
  assumes "0 < len"
  shows "addr > u64_max - (len - 1) \<longleftrightarrow> \<not> unat addr + unat len \<le> 2 ^ 64"
    and "addr mod len = 0 \<longleftrightarrow> unat len dvd unat addr"
proof -
  note pred = unat_pred [OF assms]
  have "unat (u64_max - (len - 1)) = 18446744073709551615 - (unat len - 1)"
    by (simp only: unat_max_minus pred)
  with pred show "addr > u64_max - (len - 1) \<longleftrightarrow> \<not> unat addr + unat len \<le> 2 ^ 64"
    using unat_u64_lt [of len] by (simp add: word_less_nat_alt) linarith
  show "addr mod len = 0 \<longleftrightarrow> unat len dvd unat addr"
    by (simp add: word_unat_eq_iff unat_mod_distrib mod_eq_0_iff_dvd)
qed

lemma wow64_span:
  fixes addr len :: u64
  assumes "0 < len" "len \<le> 8"
  shows "(0xFFFFFFFF < addr \<or> 0xFFFFFFFF - addr < len - 1) \<longleftrightarrow> \<not> unat addr + unat len \<le> 2 ^ 32"
proof (cases "0xFFFFFFFF < addr")
  case True
  then show ?thesis using unat_pred(2) [OF assms(1)] by (simp add: word_less_nat_alt)
next
  case False
  then have le: "addr \<le> 0xFFFFFFFF" by simp
  then have "unat (0xFFFFFFFF - addr) = 4294967295 - unat addr"
    by (simp add: unat_sub)
  then show ?thesis using False unat_pred [OF assms(1)] le
    by (simp add: word_less_nat_alt word_le_nat_alt) linarith
qed

lemma ValidHardwareBreakpoint_exact:
  "ValidHardwareBreakpoint addr execute size0 wow64 \<longleftrightarrow>
     (let len = (if execute then 1 else unat size0) in
      len \<in> {1, 2, 4, 8} \<and> (wow64 \<longrightarrow> len \<noteq> 8 \<and> unat addr + len \<le> 2 ^ 32) \<and>
      unat addr + len \<le> 2 ^ 64 \<and> len dvd unat addr)"
proof -
  define sz where "sz = (if execute then 1 else size0)"
  have len: "unat sz = (if execute then 1 else unat size0)"
    by (simp add: sz_def)
  have mem: "unat sz \<in> {1, 2, 4, 8} \<longleftrightarrow> sz \<in> {1, 2, 4, 8}" "unat sz = 8 \<longleftrightarrow> sz = 8"
    by (simp_all add: word_unat_eq_iff)
  show ?thesis
  proof (cases "sz \<in> {1, 2, 4, 8}")
    case False
    then show ?thesis
      using mem unfolding ValidHardwareBreakpoint_def sz_def [symmetric] len [symmetric] by (simp add: Let_def)
  next
    case True
    then have pos: "0 < (ucast sz :: u64)" "(ucast sz :: u64) \<le> 8" "unat (ucast sz :: u64) = unat sz"
      by (auto simp: unsigned_ucast_eq)
    show ?thesis
      using True mem aligned_span [OF pos(1), of addr] wow64_span [OF pos(1,2), of addr]
      unfolding ValidHardwareBreakpoint_def sz_def [symmetric] len [symmetric] pos(3)
      by (auto simp add: Let_def not_less)
  qed
qed

lemma CheckedInstructionContinuation_exact:
  "CheckedInstructionContinuation addr len decoded wow64 = Some out \<longleftrightarrow>
     decoded \<and> 0 < len \<and> len \<le> 15 \<and> unat out = unat addr + unat len \<and> (wow64 \<longrightarrow> unat out < 2 ^ 32)"
proof -
  have up: "unat (ucast len :: u64) = unat len"
    using unsigned_less [of len, where ?'a = nat] by (simp add: unsigned_ucast_eq take_bit_nat_eq_self)
  show ?thesis
  proof (cases "unat addr + unat len < 2 ^ 64")
  case True
  then have "addr \<le> u64_max - ucast len"
    by (simp add: word_le_nat_alt unat_max_minus up)
  moreover have sum: "unat (addr + ucast len) = unat addr + unat len"
    using True by (simp add: unat_add_lem [THEN iffD1] up unat_word_ariths)
  ultimately show ?thesis
    by (auto simp: CheckedInstructionContinuation_def Let_def word_le_nat_alt word_less_nat_alt word_unat_eq_iff)
next
  case False
  then have "\<not> addr \<le> u64_max - ucast len"
    unfolding not_le add_guard up by simp
  with False show ?thesis
    using unat_u64_lt [of out] by (auto simp: CheckedInstructionContinuation_def)
qed
qed

end
