(* ===== verification/Patch_Set.thy ===== *)
theory Patch_Set
  imports C_Lib "HOL-Library.Product_Lexorder"
begin

text \<open>
  \<open>src/src/Core/PatchSet.h\<close> (with the records of \<open>Project.h\<close>): validation and selection of named
  patch experiments. A plan is refused at the first failing check, in the order of the code; the
  allocation failures of the standard library (\<open>AllocationFailure\<close>) are outside the model. A
  \<open>size_t\<close> that holds \<open>SIZE_MAX\<close> for "none" is an option.
\<close>

record PjPatch =
  pj_address :: u64
  pj_orig :: bytes
  pj_bytes :: bytes
  patchSetId :: u64

record PjPatchSet =
  ps_id :: u64
  ps_name :: string
  ps_enabled :: bool

record PjPatchSetEnableOverride =
  ov_id :: u64
  ov_enabled :: bool

datatype PjPatchSetPlanError =
    NoError | TooManySets | InvalidSetId | InvalidSetName | DuplicateSetId | DuplicateSetName | TooManyPatches
  | EmptyReplacement | OriginalSizeMismatch | PatchTooLarge | TotalPatchBytesExceeded | AddressRangeOverflow
  | UnknownPatchSet | DuplicateSelectionOverride | OverlapValidationBudgetExceeded | OriginalOverlapMismatch
  | ActiveOverlapConflict | IdSpaceExhausted | AllocationFailure

record PjPatchSetPlan =
  success :: bool
  activePatchIndices :: "nat list"
  plan_error :: PjPatchSetPlanError
  failedPatch :: "nat option"
  conflictingPatch :: "nat option"
  failedSetId :: u64
  conflictAddress :: u64

fun PjPatchSetPlanErrorText :: "PjPatchSetPlanError \<Rightarrow> string" where
  "PjPatchSetPlanErrorText NoError = ''no error''"
| "PjPatchSetPlanErrorText TooManySets = ''too many named patch sets''"
| "PjPatchSetPlanErrorText InvalidSetId = ''patch set id zero is reserved''"
| "PjPatchSetPlanErrorText InvalidSetName = ''patch set name is invalid''"
| "PjPatchSetPlanErrorText DuplicateSetId = ''patch set id is duplicated''"
| "PjPatchSetPlanErrorText DuplicateSetName = ''patch set name is duplicated''"
| "PjPatchSetPlanErrorText TooManyPatches = ''too many patch records''"
| "PjPatchSetPlanErrorText EmptyReplacement = ''a replacement byte sequence is empty''"
| "PjPatchSetPlanErrorText OriginalSizeMismatch = ''original and replacement byte counts differ''"
| "PjPatchSetPlanErrorText PatchTooLarge = ''a patch record exceeds the bounded size''"
| "PjPatchSetPlanErrorText TotalPatchBytesExceeded = ''total patch bytes exceed the bounded size''"
| "PjPatchSetPlanErrorText AddressRangeOverflow = ''a patch address range overflows''"
| "PjPatchSetPlanErrorText UnknownPatchSet = ''a patch or selection names an unknown set''"
| "PjPatchSetPlanErrorText DuplicateSelectionOverride = ''a selection overrides one set more than once''"
| "PjPatchSetPlanErrorText OverlapValidationBudgetExceeded = ''overlap validation exceeded its bounded comparison budget''"
| "PjPatchSetPlanErrorText OriginalOverlapMismatch = ''overlapping records disagree about pristine bytes''"
| "PjPatchSetPlanErrorText ActiveOverlapConflict = ''enabled patch sets write conflicting bytes''"
| "PjPatchSetPlanErrorText IdSpaceExhausted = ''no patch set id remains available''"
| "PjPatchSetPlanErrorText AllocationFailure = ''there was not enough memory to plan patch sets''"

definition kUngroupedPatchSetId :: u64 where "kUngroupedPatchSetId = 0"
definition kMaxNamedPatchSets :: nat where "kMaxNamedPatchSets = 128"
definition kMaxPatchSetNameBytes :: nat where "kMaxPatchSetNameBytes = 128"
definition kMaxPatchSetRecords :: nat where "kMaxPatchSetRecords = 131072"
definition kMaxPatchSetTotalBytes :: nat where "kMaxPatchSetTotalBytes = 32 * 1024 * 1024"
definition kMaxPatchSetRecordBytes :: nat where "kMaxPatchSetRecordBytes = kMaxPatchSetTotalBytes"
definition kMaxPatchSetOverlapComparisonBytes :: u64 where "kMaxPatchSetOverlapComparisonBytes = 64 * 1024 * 1024"

definition PatchRecordCanBeReplacedInPlace :: "PjPatch \<Rightarrow> nat \<Rightarrow> bool" where
  "PatchRecordCanBeReplacedInPlace existing n \<longleftrightarrow> length (pj_bytes existing) = n \<and> length (pj_orig existing) = n"

section \<open>Names and ids\<close>

definition ValidName :: "string \<Rightarrow> bool" where
  "ValidName name \<longleftrightarrow>
     name \<noteq> [] \<and> length name \<le> kMaxPatchSetNameBytes \<and> \<not> c_isspace (hd name) \<and> \<not> c_isspace (last name) \<and>
     list_all (\<lambda>c. let n = (of_char c :: nat) in \<not> (n < 0x20 \<or> n = 0x7F)) name"

definition same_char_insensitive :: "char \<Rightarrow> char \<Rightarrow> bool" where
  "same_char_insensitive a b \<longleftrightarrow>
     (if (of_char a :: nat) < 0x80 \<and> (of_char b :: nat) < 0x80 then c_tolower a = c_tolower b else a = b)"

definition EqualNameAsciiInsensitive :: "string \<Rightarrow> string \<Rightarrow> bool" where
  "EqualNameAsciiInsensitive a b \<longleftrightarrow>
     length a = length b \<and> list_all (\<lambda>(x, y). same_char_insensitive x y) (zip a b)"

definition FindSet :: "PjPatchSet list \<Rightarrow> u64 \<Rightarrow> PjPatchSet option" where
  "FindSet sets i = (if i = kUngroupedPatchSetId then None else List.find (\<lambda>s. ps_id s = i) sets)"

definition NextPatchSetId :: "PjPatchSet list \<Rightarrow> u64 option" where
  "NextPatchSetId sets =
     (let greatest = foldl (\<lambda>g s. max g (ps_id s)) 0 sets
      in if greatest = u64_max then None
         else if greatest + 1 \<noteq> kUngroupedPatchSetId then Some (greatest + 1) else None)"

section \<open>The checks before the overlap scan\<close>

fun set_clash :: "PjPatchSet list \<Rightarrow> PjPatchSet \<Rightarrow> PjPatchSetPlanError option" where
  \<comment> \<open>the inner loop over the earlier sets\<close>
  "set_clash [] s = None"
| "set_clash (t # ts) s =
     (if ps_id t = ps_id s then Some DuplicateSetId
      else if EqualNameAsciiInsensitive (ps_name t) (ps_name s) then Some DuplicateSetName
      else set_clash ts s)"

definition set_error :: "PjPatchSet list \<Rightarrow> PjPatchSet \<Rightarrow> PjPatchSetPlanError option" where
  "set_error earlier s =
     (if ps_id s = kUngroupedPatchSetId then Some InvalidSetId
      else if \<not> ValidName (ps_name s) then Some InvalidSetName
      else set_clash earlier s)"

fun check_sets :: "PjPatchSet list \<Rightarrow> PjPatchSet list \<Rightarrow> u64 \<Rightarrow> PjPatchSetPlanError option \<times> u64" where
  \<comment> \<open>the error and \<open>failedSetId\<close>, which holds the last set looked at\<close>
  "check_sets earlier [] f = (None, f)"
| "check_sets earlier (s # ss) f =
     (case set_error earlier s of Some e \<Rightarrow> (Some e, ps_id s) | None \<Rightarrow> check_sets (earlier @ [s]) ss (ps_id s))"

definition override_error :: "PjPatchSet list \<Rightarrow> PjPatchSetEnableOverride list \<Rightarrow> PjPatchSetEnableOverride \<Rightarrow>
    PjPatchSetPlanError option" where
  "override_error sets earlier v =
     (if ov_id v \<noteq> kUngroupedPatchSetId \<and> FindSet sets (ov_id v) = None then Some UnknownPatchSet
      else if list_ex (\<lambda>u. ov_id u = ov_id v) earlier then Some DuplicateSelectionOverride else None)"

fun check_overrides :: "PjPatchSet list \<Rightarrow> PjPatchSetEnableOverride list \<Rightarrow> PjPatchSetEnableOverride list \<Rightarrow>
    u64 \<Rightarrow> PjPatchSetPlanError option \<times> u64" where
  "check_overrides sets earlier [] f = (None, f)"
| "check_overrides sets earlier (v # vs) f =
     (case override_error sets earlier v of Some e \<Rightarrow> (Some e, ov_id v)
      | None \<Rightarrow> check_overrides sets (earlier @ [v]) vs (ov_id v))"

definition set_enabled :: "PjPatchSet list \<Rightarrow> PjPatchSetEnableOverride list \<Rightarrow> u64 \<Rightarrow> bool" where
  \<comment> \<open>the lambda \<open>enabled\<close>\<close>
  "set_enabled sets overrides i =
     (case List.find (\<lambda>v. ov_id v = i) overrides of
        Some v \<Rightarrow> ov_enabled v
      | None \<Rightarrow> if i = kUngroupedPatchSetId then True
                else case FindSet sets i of Some s \<Rightarrow> ps_enabled s | None \<Rightarrow> False)"

definition patch_error :: "PjPatchSet list \<Rightarrow> nat \<Rightarrow> PjPatch \<Rightarrow> PjPatchSetPlanError option" where
  "patch_error sets totalBytes p =
     (let n = length (pj_bytes p)
      in if pj_bytes p = [] then Some EmptyReplacement
         else if length (pj_orig p) \<noteq> n then Some OriginalSizeMismatch
         else if n > kMaxPatchSetRecordBytes then Some PatchTooLarge
         else if n > kMaxPatchSetTotalBytes - min totalBytes kMaxPatchSetTotalBytes then Some TotalPatchBytesExceeded
         else if pj_address p > u64_max - of_nat n then Some AddressRangeOverflow
         else if patchSetId p \<noteq> kUngroupedPatchSetId \<and> FindSet sets (patchSetId p) = None then Some UnknownPatchSet
         else None)"

fun check_patches :: "PjPatchSet list \<Rightarrow> PjPatchSetEnableOverride list \<Rightarrow> nat \<Rightarrow> nat \<Rightarrow> PjPatch list \<Rightarrow>
    PjPatchSetPlan \<Rightarrow> PjPatchSetPlan" where
  \<comment> \<open>the loop over the records from index \<open>i\<close>; it stops with \<open>plan_error\<close> set\<close>
  "check_patches sets overrides i totalBytes [] r = r"
| "check_patches sets overrides i totalBytes (p # ps) r =
     (let r1 = r\<lparr>failedPatch := Some i, failedSetId := patchSetId p\<rparr>
      in case patch_error sets totalBytes p of
           Some e \<Rightarrow> r1\<lparr>plan_error := e\<rparr>
         | None \<Rightarrow>
             check_patches sets overrides (i + 1) (totalBytes + length (pj_bytes p)) ps
               (if set_enabled sets overrides (patchSetId p)
                then r1\<lparr>activePatchIndices := activePatchIndices r1 @ [i]\<rparr> else r1))"

section \<open>The overlap scan\<close>

definition patch_end :: "PjPatch \<Rightarrow> u64" where
  "patch_end p = pj_address p + of_nat (length (pj_bytes p))"

definition bytes_agree :: "bytes \<Rightarrow> u64 \<Rightarrow> bytes \<Rightarrow> u64 \<Rightarrow> u64 \<Rightarrow> u64 \<Rightarrow> bool" where
  \<comment> \<open>\<open>std::equal\<close> on the two slices for the addresses from \<open>b\<close> up to \<open>e\<close>\<close>
  "bytes_agree xs xa ys ya b e =
     (let count = unat (e - b)
      in take count (drop (unat (b - xa)) xs) = take count (drop (unat (b - ya)) ys))"

definition ReplacementBytesAgree :: "PjPatch \<Rightarrow> PjPatch \<Rightarrow> u64 \<Rightarrow> u64 \<Rightarrow> bool" where
  "ReplacementBytesAgree a b ob oe = bytes_agree (pj_bytes a) (pj_address a) (pj_bytes b) (pj_address b) ob oe"

definition OriginalBytesAgree :: "PjPatch \<Rightarrow> PjPatch \<Rightarrow> u64 \<Rightarrow> u64 \<Rightarrow> bool" where
  "OriginalBytesAgree a b ob oe = bytes_agree (pj_orig a) (pj_address a) (pj_orig b) (pj_address b) ob oe"

definition addressOrder :: "PjPatch list \<Rightarrow> nat list" where
  "addressOrder patches = sort_key (\<lambda>i. (unat (pj_address (patches ! i)), i)) [0..<length patches]"

definition overlap_error :: "PjPatch list \<Rightarrow> bool list \<Rightarrow> nat \<Rightarrow> nat \<Rightarrow> u64 \<Rightarrow> u64 \<Rightarrow> u64 \<Rightarrow> PjPatchSetPlanError option" where
  "overlap_error patches active i j compared ob oe =
     (let first = patches ! i; second = patches ! j
      in if oe - ob > kMaxPatchSetOverlapComparisonBytes - min compared kMaxPatchSetOverlapComparisonBytes
         then Some OverlapValidationBudgetExceeded
         else if \<not> OriginalBytesAgree first second ob oe then Some OriginalOverlapMismatch
         else if active ! i \<and> active ! j \<and> \<not> ReplacementBytesAgree first second ob oe \<and>
             \<not> (patchSetId first = kUngroupedPatchSetId \<and> patchSetId second = kUngroupedPatchSetId)
         then Some ActiveOverlapConflict
         else None)"

fun scan_second :: "PjPatch list \<Rightarrow> bool list \<Rightarrow> nat \<Rightarrow> nat list \<Rightarrow> u64 \<Rightarrow>
    (PjPatchSetPlanError \<times> nat \<times> nat \<times> u64) + u64" where
  "scan_second patches active i [] compared = Inr compared"
| "scan_second patches active i (j # js) compared =
     (let first = patches ! i; second = patches ! j
      in if pj_address second \<ge> patch_end first then Inr compared
         else
           let ob = max (pj_address first) (pj_address second); oe = min (patch_end first) (patch_end second)
           in if ob \<ge> oe then scan_second patches active i js compared
              else case overlap_error patches active i j compared ob oe of
                     Some e \<Rightarrow> Inl (e, i, j, ob)
                   | None \<Rightarrow> scan_second patches active i js (compared + (oe - ob)))"

fun scan_overlaps :: "PjPatch list \<Rightarrow> bool list \<Rightarrow> nat list \<Rightarrow> u64 \<Rightarrow>
    (PjPatchSetPlanError \<times> nat \<times> nat \<times> u64) + u64" where
  "scan_overlaps patches active [] compared = Inr compared"
| "scan_overlaps patches active (i # is) compared =
     (case scan_second patches active i is compared of
        Inl e \<Rightarrow> Inl e
      | Inr c \<Rightarrow> scan_overlaps patches active is c)"

section \<open>The plan\<close>

definition empty_plan :: PjPatchSetPlan where
  "empty_plan = \<lparr>success = False, activePatchIndices = [], plan_error = NoError, failedPatch = None,
     conflictingPatch = None, failedSetId = 0, conflictAddress = 0\<rparr>"

definition finish_plan :: "PjPatch list \<Rightarrow> PjPatchSet list \<Rightarrow> PjPatchSetEnableOverride list \<Rightarrow> PjPatchSetPlan \<Rightarrow> PjPatchSetPlan" where
  \<comment> \<open>from the overlap scan on\<close>
  "finish_plan patches sets overrides r =
     (case scan_overlaps patches (map (\<lambda>p. set_enabled sets overrides (patchSetId p)) patches) (addressOrder patches) 0 of
        Inl (e, i, j, a) \<Rightarrow>
          r\<lparr>failedPatch := Some i, conflictingPatch := Some j, conflictAddress := a, plan_error := e\<rparr>
      | Inr _ \<Rightarrow>
          r\<lparr>success := True, plan_error := NoError, failedPatch := None, conflictingPatch := None,
            failedSetId := 0, conflictAddress := 0\<rparr>)"

definition BuildPatchSetPlan :: "PjPatch list \<Rightarrow> PjPatchSet list \<Rightarrow> PjPatchSetEnableOverride list \<Rightarrow> PjPatchSetPlan" where
  "BuildPatchSetPlan patches sets overrides =
     (if length sets > kMaxNamedPatchSets then empty_plan\<lparr>plan_error := TooManySets\<rparr>
      else if length patches > kMaxPatchSetRecords then empty_plan\<lparr>plan_error := TooManyPatches\<rparr>
      else case check_sets [] sets 0 of
        (Some e, f) \<Rightarrow> empty_plan\<lparr>plan_error := e, failedSetId := f\<rparr>
      | (None, f) \<Rightarrow>
          case check_overrides sets [] overrides f of
            (Some e, g) \<Rightarrow> empty_plan\<lparr>plan_error := e, failedSetId := g\<rparr>
          | (None, g) \<Rightarrow>
              let r = check_patches sets overrides 0 0 patches (empty_plan\<lparr>failedSetId := g\<rparr>)
              in if plan_error r \<noteq> NoError then r else finish_plan patches sets overrides r)"

definition SnapshotActivePatchRecords :: "PjPatch list \<Rightarrow> PjPatchSet list \<Rightarrow> PjPatchSetEnableOverride list \<Rightarrow>
    PjPatchSetPlan \<times> PjPatch list" where
  "SnapshotActivePatchRecords patches sets overrides =
     (let plan = BuildPatchSetPlan patches sets overrides
      in (plan, if success plan then map (\<lambda>i. patches ! i) (activePatchIndices plan) else []))"

section \<open>The declarative contract\<close>

definition record_ok :: "PjPatchSet list \<Rightarrow> PjPatch \<Rightarrow> bool" where
  "record_ok sets p \<longleftrightarrow> pj_bytes p \<noteq> [] \<and> length (pj_orig p) = length (pj_bytes p) \<and>
     unat (pj_address p) + length (pj_bytes p) < 2 ^ 64 \<and>
     (patchSetId p = 0 \<or> patchSetId p \<in> set (map ps_id sets))"

definition byte_at :: "u64 \<Rightarrow> bytes \<Rightarrow> nat \<Rightarrow> u8 option" where
  \<comment> \<open>the byte a span of bytes holds for an address\<close>
  "byte_at a bs x = (if unat a \<le> x \<and> x < unat a + length bs then Some (bs ! (x - unat a)) else None)"

definition records_agree :: "(u64 \<Rightarrow> bool) \<Rightarrow> PjPatch \<Rightarrow> PjPatch \<Rightarrow> bool" where
  "records_agree enabled p q \<longleftrightarrow>
     (\<forall>x. byte_at (pj_address p) (pj_bytes p) x \<noteq> None \<and> byte_at (pj_address q) (pj_bytes q) x \<noteq> None \<longrightarrow>
        byte_at (pj_address p) (pj_orig p) x = byte_at (pj_address q) (pj_orig q) x \<and>
        (enabled (patchSetId p) \<and> enabled (patchSetId q) \<and> \<not> (patchSetId p = 0 \<and> patchSetId q = 0) \<longrightarrow>
           byte_at (pj_address p) (pj_bytes p) x = byte_at (pj_address q) (pj_bytes q) x))"

definition sets_ok :: "PjPatchSet list \<Rightarrow> bool" where
  "sets_ok sets \<longleftrightarrow> length sets \<le> kMaxNamedPatchSets \<and> list_all (\<lambda>s. ps_id s \<noteq> 0 \<and> ValidName (ps_name s)) sets \<and>
     sorted_wrt (\<lambda>s t. ps_id s \<noteq> ps_id t \<and> \<not> EqualNameAsciiInsensitive (ps_name s) (ps_name t)) sets"

definition overrides_ok :: "PjPatchSet list \<Rightarrow> PjPatchSetEnableOverride list \<Rightarrow> bool" where
  "overrides_ok sets vs \<longleftrightarrow> distinct (map ov_id vs) \<and> set (map ov_id vs) \<subseteq> insert 0 (set (map ps_id sets))"

definition records_ok :: "PjPatchSet list \<Rightarrow> PjPatchSetEnableOverride list \<Rightarrow> PjPatch list \<Rightarrow> bool" where
  "records_ok sets vs patches \<longleftrightarrow> length patches \<le> kMaxPatchSetRecords \<and> list_all (record_ok sets) patches \<and>
     sum_list (map (length \<circ> pj_bytes) patches) \<le> kMaxPatchSetTotalBytes \<and>
     sorted_wrt (records_agree (set_enabled sets vs)) patches"

section \<open>The checks decide the contract\<close>

lemma FindSet_None: "FindSet sets i = None \<longleftrightarrow> i = 0 \<or> i \<notin> set (map ps_id sets)"
  by (auto simp: FindSet_def kUngroupedPatchSetId_def find_None_iff)

abbreviation sets_differ :: "PjPatchSet \<Rightarrow> PjPatchSet \<Rightarrow> bool" where
  "sets_differ \<equiv> \<lambda>s t. ps_id s \<noteq> ps_id t \<and> \<not> EqualNameAsciiInsensitive (ps_name s) (ps_name t)"

lemma set_clash_None: "set_clash ts s = None \<longleftrightarrow> (\<forall>t \<in> set ts. sets_differ t s)"
  by (induction ts) auto

lemma set_error_None:
  "set_error ts s = None \<longleftrightarrow> ps_id s \<noteq> 0 \<and> ValidName (ps_name s) \<and> (\<forall>t \<in> set ts. sets_differ t s)"
  by (auto simp: set_error_def kUngroupedPatchSetId_def set_clash_None)

lemma check_sets_None:
  "sorted_wrt sets_differ earlier \<Longrightarrow>
     fst (check_sets earlier ss f) = None \<longleftrightarrow>
     list_all (\<lambda>s. ps_id s \<noteq> 0 \<and> ValidName (ps_name s)) ss \<and> sorted_wrt sets_differ (earlier @ ss)"
proof (induction earlier ss f rule: check_sets.induct)
  case (2 earlier s ss f)
  show ?case
  proof (cases "set_error earlier s")
    case None
    moreover have "sorted_wrt sets_differ (earlier @ [s])"
      using 2(2) None by (auto simp: sorted_wrt_append set_error_None)
    ultimately show ?thesis
      using 2(1) [OF None] None iffD1 [OF set_error_None None] by auto
  next
    case (Some e)
    then have "\<not> (ps_id s \<noteq> 0 \<and> ValidName (ps_name s) \<and> (\<forall>t \<in> set earlier. sets_differ t s))"
      unfolding set_error_None [symmetric] by simp
    with Some show ?thesis by (auto simp: sorted_wrt_append)
  qed
qed simp

lemma override_error_None:
  "override_error sets earlier v = None \<longleftrightarrow>
     ov_id v \<in> insert 0 (set (map ps_id sets)) \<and> ov_id v \<notin> set (map ov_id earlier)"
  by (force simp: override_error_def kUngroupedPatchSetId_def FindSet_None list_ex_iff image_iff)

lemma check_overrides_None:
  "distinct (map ov_id earlier) \<Longrightarrow>
     fst (check_overrides sets earlier vs f) = None \<longleftrightarrow>
     distinct (map ov_id (earlier @ vs)) \<and> set (map ov_id vs) \<subseteq> insert 0 (set (map ps_id sets))"
proof (induction sets earlier vs f rule: check_overrides.induct)
  case (2 sets earlier v vs f)
  show ?case
  proof (cases "override_error sets earlier v")
    case None
    then show ?thesis
      using 2(1) [OF None] 2(2) iffD1 [OF override_error_None None] by auto
  next
    case (Some e)
    then have "\<not> (ov_id v \<in> insert 0 (set (map ps_id sets)) \<and> ov_id v \<notin> set (map ov_id earlier))"
      unfolding override_error_None [symmetric] by simp
    with Some show ?thesis by auto
  qed
qed simp

lemma patch_error_None:
  assumes "total0 \<le> kMaxPatchSetTotalBytes"
  shows "patch_error sets total0 p = None \<longleftrightarrow>
    record_ok sets p \<and> total0 + length (pj_bytes p) \<le> kMaxPatchSetTotalBytes"
proof (cases "total0 + length (pj_bytes p) \<le> kMaxPatchSetTotalBytes")
  case True
  then have "unat (of_nat (length (pj_bytes p)) :: u64) = length (pj_bytes p)"
    by (intro unat_of_nat_u64) (simp add: kMaxPatchSetTotalBytes_def)
  then have "pj_address p > u64_max - of_nat (length (pj_bytes p)) \<longleftrightarrow>
      \<not> unat (pj_address p) + length (pj_bytes p) < 18446744073709551616"
    by (simp add: add_guard not_less)
  with True show ?thesis
    by (auto simp: patch_error_def Let_def kMaxPatchSetRecordBytes_def record_ok_def kUngroupedPatchSetId_def
        FindSet_None min_def)
next
  case False
  then show ?thesis using assms
    by (auto simp: patch_error_def Let_def min_def)
qed

lemma patch_error_not_NoError: "patch_error sets total0 p \<noteq> Some NoError"
  by (simp add: patch_error_def Let_def)

lemma check_patches_spec:
  assumes "plan_error r = NoError" "total0 \<le> kMaxPatchSetTotalBytes"
  shows "plan_error (check_patches sets vs i total0 ps r) = NoError \<longleftrightarrow>
      list_all (record_ok sets) ps \<and> total0 + sum_list (map (length \<circ> pj_bytes) ps) \<le> kMaxPatchSetTotalBytes"
    and "plan_error (check_patches sets vs i total0 ps r) = NoError \<Longrightarrow>
      activePatchIndices (check_patches sets vs i total0 ps r) = activePatchIndices r @
        map fst (filter (\<lambda>(k, p). set_enabled sets vs (patchSetId p)) (zip [i..<i + length ps] ps))"
    and "success (check_patches sets vs i total0 ps r) = success r"
  using assms
proof (induction sets vs i total0 ps r rule: check_patches.induct)
  case (2 sets vs i total0 p ps r)
  {
    case 1
    then show ?case
      using 2(1) patch_error_None [OF 1(2), of sets p] patch_error_not_NoError [of sets total0 p]
      by (cases "patch_error sets total0 p") (auto simp: Let_def)
  next
    case 2
    then show ?case
      using "2.IH"(2) patch_error_None [OF 2(3), of sets p] patch_error_not_NoError [of sets total0 p]
      by (cases "patch_error sets total0 p") (auto simp: Let_def upt_conv_Cons simp del: upt_Suc)
  next
    case 3
    then show ?case
      using "2.IH"(3) patch_error_None [OF 3(2), of sets p]
      by (cases "patch_error sets total0 p") (auto simp: Let_def)
  }
qed simp_all

section \<open>The scan decides agreement\<close>

lemma bytes_agree_iff:
  assumes "unat xa \<le> unat b" "unat ya \<le> unat b" "b \<le> e"
    and "unat e \<le> unat xa + length xs" "unat e \<le> unat ya + length ys"
  shows "bytes_agree xs xa ys ya b e \<longleftrightarrow> (\<forall>x. unat b \<le> x \<and> x < unat e \<longrightarrow> byte_at xa xs x = byte_at ya ys x)"
proof -
  have cnt: "unat (e - b) = unat e - unat b" "unat (b - xa) = unat b - unat xa" "unat (b - ya) = unat b - unat ya"
    using assms by (simp_all add: unat_sub word_le_nat_alt)
  have "bytes_agree xs xa ys ya b e \<longleftrightarrow>
      (\<forall>k < unat e - unat b. xs ! (unat b - unat xa + k) = ys ! (unat b - unat ya + k))"
    using assms by (auto simp: bytes_agree_def Let_def cnt list_eq_iff_nth_eq)
  also have "\<dots> \<longleftrightarrow> (\<forall>x. unat b \<le> x \<and> x < unat e \<longrightarrow> byte_at xa xs x = byte_at ya ys x)"
  proof safe
    fix x
    assume all: "\<forall>k < unat e - unat b. xs ! (unat b - unat xa + k) = ys ! (unat b - unat ya + k)"
      and x: "unat b \<le> x" "x < unat e"
    have "unat b - unat xa + (x - unat b) = x - unat xa" "unat b - unat ya + (x - unat b) = x - unat ya"
      using x assms by auto
    with all x have "xs ! (x - unat xa) = ys ! (x - unat ya)"
      by (metis diff_less_mono)
    then show "byte_at xa xs x = byte_at ya ys x"
      using x assms by (auto simp: byte_at_def)
  next
    fix k
    assume all: "\<forall>x. unat b \<le> x \<and> x < unat e \<longrightarrow> byte_at xa xs x = byte_at ya ys x" and k: "k < unat e - unat b"
    have "byte_at xa xs (unat b + k) = byte_at ya ys (unat b + k)"
      using all k by auto
    then show "xs ! (unat b - unat xa + k) = ys ! (unat b - unat ya + k)"
      using k assms by (simp add: byte_at_def less_diff_conv add.commute [of k] split: if_splits)
  qed
  finally show ?thesis .
qed

lemma record_okD:
  assumes "record_ok sets p"
  shows "unat (patch_end p) = unat (pj_address p) + length (pj_bytes p)" "length (pj_orig p) = length (pj_bytes p)"
    "0 < length (pj_bytes p)"
proof -
  have "unat (of_nat (length (pj_bytes p)) :: u64) = length (pj_bytes p)"
    using assms by (intro unat_of_nat_u64) (simp add: record_ok_def)
  then show "unat (patch_end p) = unat (pj_address p) + length (pj_bytes p)"
    using assms unat_add_no_wrap [of "pj_address p" "of_nat (length (pj_bytes p))"]
    by (simp add: patch_end_def record_ok_def)
qed (use assms in \<open>auto simp: record_ok_def\<close>)

lemma byte_at_None: "byte_at a bs x = None \<longleftrightarrow> \<not> (unat a \<le> x \<and> x < unat a + length bs)"
  by (simp add: byte_at_def)

lemma overlap_error_agree:
  assumes ok: "record_ok sets (patches ! i)" "record_ok sets (patches ! j)"
    and le: "pj_address (patches ! i) \<le> pj_address (patches ! j)" "pj_address (patches ! j) < patch_end (patches ! i)"
    and act: "active ! i = en (patchSetId (patches ! i))" "active ! j = en (patchSetId (patches ! j))"
  defines "ob \<equiv> max (pj_address (patches ! i)) (pj_address (patches ! j))"
    and "oe \<equiv> min (patch_end (patches ! i)) (patch_end (patches ! j))"
  shows "ob < oe"
    and "overlap_error patches active i j compared ob oe = None \<Longrightarrow> records_agree en (patches ! i) (patches ! j)"
    and "records_agree en (patches ! i) (patches ! j) \<Longrightarrow>
      overlap_error patches active i j compared ob oe \<in> {None, Some OverlapValidationBudgetExceeded}"
proof -
  let ?p = "patches ! i" and ?q = "patches ! j"
  note p = record_okD [OF ok(1)] and q = record_okD [OF ok(2)]
  have ob: "ob = pj_address ?q" using le(1) by (simp add: ob_def max_def)
  have oe: "unat oe = min (unat (patch_end ?p)) (unat (patch_end ?q))"
    by (simp add: oe_def min_def word_le_nat_alt)
  have le': "unat (pj_address ?p) \<le> unat (pj_address ?q)" "unat (pj_address ?q) < unat (pj_address ?p) + length (pj_bytes ?p)"
    using le p(1) by (simp_all add: word_le_nat_alt word_less_nat_alt)
  show lt: "ob < oe"
    using le' p q by (simp add: ob word_less_nat_alt oe)
  have rng: "(unat ob \<le> x \<and> x < unat oe) \<longleftrightarrow>
      byte_at (pj_address ?p) (pj_bytes ?p) x \<noteq> None \<and> byte_at (pj_address ?q) (pj_bytes ?q) x \<noteq> None" for x
    using le' p(1) q(1) by (auto simp: byte_at_None ob oe)
  have orig: "OriginalBytesAgree ?p ?q ob oe \<longleftrightarrow> (\<forall>x. unat ob \<le> x \<and> x < unat oe \<longrightarrow>
      byte_at (pj_address ?p) (pj_orig ?p) x = byte_at (pj_address ?q) (pj_orig ?q) x)"
    unfolding OriginalBytesAgree_def
    by (rule bytes_agree_iff) (use le' lt p q in \<open>auto simp: ob oe\<close>)
  have repl: "ReplacementBytesAgree ?p ?q ob oe \<longleftrightarrow> (\<forall>x. unat ob \<le> x \<and> x < unat oe \<longrightarrow>
      byte_at (pj_address ?p) (pj_bytes ?p) x = byte_at (pj_address ?q) (pj_bytes ?q) x)"
    unfolding ReplacementBytesAgree_def
    by (rule bytes_agree_iff) (use le' lt p q in \<open>auto simp: ob oe\<close>)
  have agree: "records_agree en ?p ?q \<longleftrightarrow> OriginalBytesAgree ?p ?q ob oe \<and>
      (active ! i \<and> active ! j \<and> \<not> (patchSetId ?p = 0 \<and> patchSetId ?q = 0) \<longrightarrow> ReplacementBytesAgree ?p ?q ob oe)"
    unfolding records_agree_def rng [symmetric] orig repl act by blast
  show "overlap_error patches active i j compared ob oe = None \<Longrightarrow> records_agree en ?p ?q"
    unfolding agree by (auto simp: overlap_error_def Let_def kUngroupedPatchSetId_def split: if_splits)
  show "records_agree en ?p ?q \<Longrightarrow>
      overlap_error patches active i j compared ob oe \<in> {None, Some OverlapValidationBudgetExceeded}"
    unfolding agree by (auto simp: overlap_error_def Let_def kUngroupedPatchSetId_def)
qed

lemma records_agree_disjoint:
  assumes "record_ok sets p" "patch_end p \<le> pj_address q"
  shows "records_agree en p q"
  using assms(2) record_okD(1) [OF assms(1)] by (auto simp: records_agree_def byte_at_None word_le_nat_alt)

lemma records_agree_sym: "records_agree en p q \<Longrightarrow> records_agree en q p"
  unfolding records_agree_def by metis

abbreviation by_address :: "PjPatch list \<Rightarrow> nat \<Rightarrow> nat \<Rightarrow> bool" where
  "by_address patches \<equiv> \<lambda>i j. pj_address (patches ! i) \<le> pj_address (patches ! j)"

definition scan_verdict :: "((PjPatchSetPlanError \<times> nat \<times> nat \<times> u64) + u64) \<Rightarrow> bool \<Rightarrow> bool" where
  \<comment> \<open>what a scan's result says of the agreement of the records it looked at\<close>
  "scan_verdict r agree = (case r of Inr _ \<Rightarrow> agree | Inl e \<Rightarrow> agree \<longrightarrow> fst e = OverlapValidationBudgetExceeded)"

lemma scan_second_spec:
  assumes "record_ok sets (patches ! i)" "list_all (\<lambda>j. record_ok sets (patches ! j)) js"
    and "list_all (\<lambda>j. active ! j = en (patchSetId (patches ! j))) (i # js)"
    and "sorted_wrt (by_address patches) (i # js)"
  shows "scan_verdict (scan_second patches active i js c) (list_all (\<lambda>j. records_agree en (patches ! i) (patches ! j)) js)"
  using assms
proof (induction js arbitrary: c)
  case Nil
  show ?case by (simp add: scan_verdict_def)
next
  case (Cons j js)
  let ?ob = "max (pj_address (patches ! i)) (pj_address (patches ! j))"
  let ?oe = "min (patch_end (patches ! i)) (patch_end (patches ! j))"
  have okj: "record_ok sets (patches ! j)" and act: "active ! i = en (patchSetId (patches ! i))"
      "active ! j = en (patchSetId (patches ! j))" and le: "by_address patches i j"
    using Cons.prems by simp_all
  have IH: "scan_verdict (scan_second patches active i js c')
      (list_all (\<lambda>j. records_agree en (patches ! i) (patches ! j)) js)" for c'
    using Cons.IH Cons.prems by simp
  show ?case
  proof (cases "pj_address (patches ! j) \<ge> patch_end (patches ! i)")
    case True
    have "patch_end (patches ! i) \<le> pj_address (patches ! m)" if "m \<in> set (j # js)" for m
      using that True Cons.prems(4) by (auto intro: order_trans)
    then have "list_all (\<lambda>j. records_agree en (patches ! i) (patches ! j)) (j # js)"
      unfolding list_all_iff using records_agree_disjoint [OF Cons.prems(1)] by blast
    with True show ?thesis by (simp add: scan_verdict_def)
  next
    case False
    then have lt: "pj_address (patches ! j) < patch_end (patches ! i)" by simp
    note step = overlap_error_agree [OF Cons.prems(1) okj le lt act]
    have nle: "\<not> ?ob \<ge> ?oe" using step(1) by (simp only: not_le)
    show ?thesis
    proof (cases "overlap_error patches active i j c ?ob ?oe")
      case None
      then have "scan_second patches active i (j # js) c = scan_second patches active i js (c + (?oe - ?ob))"
        by (simp only: scan_second.simps Let_def False nle if_False option.case)
      then show ?thesis
        using IH [of "c + (?oe - ?ob)"] step(2) [OF None] by (simp add: scan_verdict_def split: sum.splits)
    next
      case (Some x)
      then have "scan_second patches active i (j # js) c = Inl (x, i, j, ?ob)"
        by (simp only: scan_second.simps Let_def False nle if_False option.case)
      moreover have "records_agree en (patches ! i) (patches ! j) \<Longrightarrow> x = OverlapValidationBudgetExceeded"
        using step(3) [where compared = c] Some by simp
      ultimately show ?thesis by (simp add: scan_verdict_def del: scan_second.simps)
    qed
  qed
qed

lemma scan_overlaps_spec:
  assumes "list_all (\<lambda>j. record_ok sets (patches ! j)) js"
    and "list_all (\<lambda>j. active ! j = en (patchSetId (patches ! j))) js"
    and "sorted_wrt (by_address patches) js"
  shows "scan_verdict (scan_overlaps patches active js c)
    (sorted_wrt (\<lambda>i j. records_agree en (patches ! i) (patches ! j)) js)"
  using assms
proof (induction js arbitrary: c)
  case Nil
  show ?case by (simp add: scan_verdict_def)
next
  case (Cons i js)
  have "record_ok sets (patches ! i)" "list_all (\<lambda>j. record_ok sets (patches ! j)) js"
    using Cons.prems(1) by simp_all
  note step = scan_second_spec [OF this Cons.prems(2,3), of c]
  show ?case
  proof (cases "scan_second patches active i js c")
    case (Inl e)
    then show ?thesis using step by (simp add: scan_verdict_def list_all_iff)
  next
    case (Inr d)
    then show ?thesis using step Cons.IH [of d] Cons.prems
      by (simp add: scan_verdict_def list_all_iff split: sum.splits)
  qed
qed

lemma addressOrder_props:
  shows "set (addressOrder patches) = {..<length patches}" "distinct (addressOrder patches)"
    "sorted_wrt (by_address patches) (addressOrder patches)"
proof -
  show "set (addressOrder patches) = {..<length patches}" "distinct (addressOrder patches)"
    by (auto simp: addressOrder_def)
  have "sorted (map (\<lambda>i. (unat (pj_address (patches ! i)), i)) (addressOrder patches))"
    unfolding addressOrder_def by (rule sorted_sort_key)
  then have "sorted_wrt (\<lambda>i j. (unat (pj_address (patches ! i)), i) \<le> (unat (pj_address (patches ! j)), j)) (addressOrder patches)"
    by (simp only: sorted_wrt_map)
  then show "sorted_wrt (by_address patches) (addressOrder patches)"
    by (rule sorted_wrt_mono_rel [rotated]) (auto simp: word_le_nat_alt)
qed

lemma sorted_wrt_perm:
  assumes sym: "\<And>i j. R i j \<Longrightarrow> R j i" and ks: "set ks = {..<n}" "distinct ks"
  shows "sorted_wrt R ks \<longleftrightarrow> sorted_wrt R [0..<n]"
proof -
  have pair: "sorted_wrt R xs \<longleftrightarrow> (\<forall>x \<in> set xs. \<forall>y \<in> set xs. x \<noteq> y \<longrightarrow> R x y)" if "distinct xs" for xs
    using that by (induction xs) (auto dest: sym)
  show ?thesis
    using pair [OF ks(2)] pair [of "[0..<n]"] ks(1) by (simp add: lessThan_atLeast0)
qed

section \<open>A plan is built exactly for a consistent project\<close>

lemma finish_plan_spec:
  fixes sets vs r
  assumes "list_all (record_ok sets) patches"
  shows "\<not> success r \<Longrightarrow> success (finish_plan patches sets vs r) \<Longrightarrow> sorted_wrt (records_agree (set_enabled sets vs)) patches"
    and "sorted_wrt (records_agree (set_enabled sets vs)) patches \<Longrightarrow>
      success (finish_plan patches sets vs r) \<or> plan_error (finish_plan patches sets vs r) = OverlapValidationBudgetExceeded"
    and "activePatchIndices (finish_plan patches sets vs r) = activePatchIndices r"
proof -
  let ?en = "set_enabled sets vs" and ?ord = "addressOrder patches"
  let ?active = "map (\<lambda>p. ?en (patchSetId p)) patches"
  have "list_all (\<lambda>j. record_ok sets (patches ! j)) ?ord" "list_all (\<lambda>j. ?active ! j = ?en (patchSetId (patches ! j))) ?ord"
    using assms by (auto simp: list_all_iff addressOrder_props)
  note scan = scan_overlaps_spec [OF this addressOrder_props(3), of 0]
  have "sorted_wrt (\<lambda>i j. records_agree ?en (patches ! i) (patches ! j)) ?ord \<longleftrightarrow>
      sorted_wrt (\<lambda>i j. records_agree ?en (patches ! i) (patches ! j)) [0..<length patches]"
    by (rule sorted_wrt_perm) (use addressOrder_props in \<open>auto intro: records_agree_sym\<close>)
  also have "\<dots> \<longleftrightarrow> sorted_wrt (records_agree ?en) (map ((!) patches) [0..<length patches])"
    by (simp only: sorted_wrt_map)
  finally have "sorted_wrt (\<lambda>i j. records_agree ?en (patches ! i) (patches ! j)) ?ord \<longleftrightarrow>
      sorted_wrt (records_agree ?en) patches"
    by (simp only: map_nth)
  with scan have verdict: "scan_verdict (scan_overlaps patches ?active ?ord 0) (sorted_wrt (records_agree ?en) patches)"
    by simp
  show "\<not> success r \<Longrightarrow> success (finish_plan patches sets vs r) \<Longrightarrow> sorted_wrt (records_agree ?en) patches"
    using verdict by (auto simp: finish_plan_def scan_verdict_def split: sum.splits)
  show "sorted_wrt (records_agree ?en) patches \<Longrightarrow>
      success (finish_plan patches sets vs r) \<or> plan_error (finish_plan patches sets vs r) = OverlapValidationBudgetExceeded"
    using verdict by (auto simp: finish_plan_def scan_verdict_def split: sum.splits)
  show "activePatchIndices (finish_plan patches sets vs r) = activePatchIndices r"
    by (auto simp: finish_plan_def split: sum.splits)
qed

lemma map_fst_filter_zip:
  "map fst (filter (\<lambda>(k, p). Q p) (zip [i..<i + length ps] ps)) = filter (\<lambda>k. Q (ps ! (k - i))) [i..<i + length ps]"
proof (induction ps arbitrary: i)
  case (Cons p ps)
  have "filter (\<lambda>k. Q ((p # ps) ! (k - i))) [Suc i..<Suc i + length ps] = filter (\<lambda>k. Q (ps ! (k - Suc i))) [Suc i..<Suc i + length ps]"
    by (intro filter_cong) (auto simp: nth_Cons' Suc_diff_le)
  with Cons.IH [of "Suc i"] show ?case
    by (simp add: upt_conv_Cons del: upt_Suc)
qed simp

lemma plan_stages:
  assumes "length sets \<le> kMaxNamedPatchSets" "length patches \<le> kMaxPatchSetRecords"
    and "fst (check_sets [] sets 0) = None" "fst (check_overrides sets [] vs (snd (check_sets [] sets 0))) = None"
  obtains r0 where "r0 = empty_plan\<lparr>failedSetId := snd (check_overrides sets [] vs (snd (check_sets [] sets 0)))\<rparr>"
    "BuildPatchSetPlan patches sets vs =
      (let r = check_patches sets vs 0 0 patches r0 in if plan_error r \<noteq> NoError then r else finish_plan patches sets vs r)"
  using assms by (cases "check_sets [] sets 0"; cases "check_overrides sets [] vs (snd (check_sets [] sets 0))")
    (simp add: BuildPatchSetPlan_def)

lemma sets_ok_check: "fst (check_sets [] sets 0) = None \<and> length sets \<le> kMaxNamedPatchSets \<longleftrightarrow> sets_ok sets"
  using check_sets_None [of "[]" sets 0] by (auto simp: sets_ok_def)

lemma overrides_ok_check: "fst (check_overrides sets [] vs f) = None \<longleftrightarrow> overrides_ok sets vs"
  using check_overrides_None [of "[]" sets vs f] by (simp add: overrides_ok_def)

lemma plan_consistent:
  assumes "success (BuildPatchSetPlan patches sets vs)"
  shows "sets_ok sets \<and> overrides_ok sets vs \<and> records_ok sets vs patches \<and>
    activePatchIndices (BuildPatchSetPlan patches sets vs) =
      filter (\<lambda>i. set_enabled sets vs (patchSetId (patches ! i))) [0..<length patches]"
proof -
  have stages: "length sets \<le> kMaxNamedPatchSets" "length patches \<le> kMaxPatchSetRecords"
    "fst (check_sets [] sets 0) = None" "fst (check_overrides sets [] vs (snd (check_sets [] sets 0))) = None"
    using assms by (auto simp: BuildPatchSetPlan_def empty_plan_def split: if_splits prod.splits option.splits)
  obtain r0 where r0: "r0 = empty_plan\<lparr>failedSetId := snd (check_overrides sets [] vs (snd (check_sets [] sets 0)))\<rparr>"
    and build: "BuildPatchSetPlan patches sets vs =
      (let r = check_patches sets vs 0 0 patches r0 in if plan_error r \<noteq> NoError then r else finish_plan patches sets vs r)"
    by (rule plan_stages [OF stages])
  have "plan_error r0 = NoError" "success r0 = False" "activePatchIndices r0 = []"
    by (simp_all add: r0 empty_plan_def)
  note chk = check_patches_spec [OF this(1), of 0 sets vs 0 patches] this
  let ?r = "check_patches sets vs 0 0 patches r0"
  have noerr: "plan_error ?r = NoError"
    using assms build chk by (auto simp: Let_def split: if_splits)
  have recs: "list_all (record_ok sets) patches"
    using chk(1) noerr by simp
  have fin: "success (finish_plan patches sets vs ?r)"
    using assms build noerr by (simp add: Let_def)
  note fs = finish_plan_spec [OF recs, where vs = vs and r = ?r]
  show ?thesis
    using stages sets_ok_check [of sets] overrides_ok_check [of sets vs] fs(1,3) fin chk noerr build recs
      map_fst_filter_zip [of "\<lambda>p. set_enabled sets vs (patchSetId p)" 0 patches]
    by (auto simp: records_ok_def Let_def)
qed

text \<open>C14: a successful plan is a consistent project. If \<open>BuildPatchSetPlan\<close> succeeds, the named sets have
  non-zero, pairwise distinct ids and valid names that differ case-insensitively; the overrides
  name known sets once; every record has original bytes for its bytes, fits the address space and
  names a known set; any two records that share an address agree on its original byte, and on its
  new byte too when both are enabled and not both ungrouped. The selected indices are exactly the
  enabled records, in application order.
\<close>

theorem BuildPatchSetPlan_success:
  assumes "success (BuildPatchSetPlan patches sets vs)"
  shows "sets_ok sets \<and> overrides_ok sets vs \<and> records_ok sets vs patches \<and>
    activePatchIndices (BuildPatchSetPlan patches sets vs) =
      filter (\<lambda>i. set_enabled sets vs (patchSetId (patches ! i))) [0..<length patches]"
  using plan_consistent [OF assms] .

lemma build_by_stages:
  assumes "sets_ok sets" "overrides_ok sets vs" "length patches \<le> kMaxPatchSetRecords" "list_all (record_ok sets) patches"
    and "sum_list (map (length \<circ> pj_bytes) patches) \<le> kMaxPatchSetTotalBytes"
  obtains r where "BuildPatchSetPlan patches sets vs = finish_plan patches sets vs r"
proof -
  have stages: "length sets \<le> kMaxNamedPatchSets" "length patches \<le> kMaxPatchSetRecords"
    "fst (check_sets [] sets 0) = None" "fst (check_overrides sets [] vs (snd (check_sets [] sets 0))) = None"
    using assms sets_ok_check [of sets] overrides_ok_check [of sets vs] by auto
  obtain r0 where r0: "r0 = empty_plan\<lparr>failedSetId := snd (check_overrides sets [] vs (snd (check_sets [] sets 0)))\<rparr>"
    and build: "BuildPatchSetPlan patches sets vs =
      (let r = check_patches sets vs 0 0 patches r0 in if plan_error r \<noteq> NoError then r else finish_plan patches sets vs r)"
    by (rule plan_stages [OF stages])
  have "plan_error r0 = NoError" by (simp add: r0 empty_plan_def)
  note chk = check_patches_spec(1) [OF this, of 0 sets vs 0 patches]
  show thesis
    using that build chk assms(4,5) by (simp add: Let_def)
qed

text \<open>C15: a consistent project is never refused for another reason than the comparison budget: every
  error of \<open>BuildPatchSetPlan\<close> but \<open>OverlapValidationBudgetExceeded\<close> reports a real violation.
\<close>

theorem BuildPatchSetPlan_complete:
  assumes "sets_ok sets" "overrides_ok sets vs" "records_ok sets vs patches"
  shows "success (BuildPatchSetPlan patches sets vs) \<or>
    plan_error (BuildPatchSetPlan patches sets vs) = OverlapValidationBudgetExceeded"
proof -
  have recs: "list_all (record_ok sets) patches" using assms(3) by (simp add: records_ok_def)
  obtain r where "BuildPatchSetPlan patches sets vs = finish_plan patches sets vs r"
    using build_by_stages [OF assms(1,2) _ recs] assms(3) unfolding records_ok_def by blast
  then show ?thesis
    using finish_plan_spec(2) [OF recs, where vs = vs and r = r] assms(3) by (simp add: records_ok_def)
qed

definition demo_sets :: "PjPatchSet list" where
  "demo_sets = [\<lparr>ps_id = 1, ps_name = ''a'', ps_enabled = True\<rparr>, \<lparr>ps_id = 2, ps_name = ''b'', ps_enabled = False\<rparr>]"

definition demo_patches :: "PjPatch list" where
  \<comment> \<open>the first two records overlap and differ, the third repeats the first\<close>
  "demo_patches =
     [\<lparr>pj_address = 16, pj_orig = [1, 2], pj_bytes = [7, 8], patchSetId = 1\<rparr>,
      \<lparr>pj_address = 17, pj_orig = [2, 3], pj_bytes = [9, 9], patchSetId = 2\<rparr>,
      \<lparr>pj_address = 16, pj_orig = [1], pj_bytes = [7], patchSetId = 0\<rparr>]"

lemma demo_order: "addressOrder demo_patches = [0, 2, 1]"
  by (simp add: addressOrder_def demo_patches_def upt_rec)

lemma demo_checks:
  "sets_ok demo_sets" "overrides_ok demo_sets []" "list_all (record_ok demo_sets) demo_patches"
  by (simp_all add: sets_ok_def overrides_ok_def demo_sets_def demo_patches_def record_ok_def ValidName_def
      EqualNameAsciiInsensitive_def same_char_insensitive_def c_tolower_def c_isspace_def kMaxNamedPatchSets_def
      kMaxPatchSetNameBytes_def)

lemma demo_scan:
  "\<exists>c. scan_overlaps demo_patches (map (\<lambda>p. set_enabled demo_sets [] (patchSetId p)) demo_patches) [0, 2, 1] 0 = Inr c"
  by (simp add: demo_patches_def demo_sets_def set_enabled_def FindSet_def kUngroupedPatchSetId_def patch_end_def
      overlap_error_def OriginalBytesAgree_def ReplacementBytesAgree_def bytes_agree_def
      kMaxPatchSetOverlapComparisonBytes_def)

lemma demo_success: "success (BuildPatchSetPlan demo_patches demo_sets [])"
proof -
  have "length demo_patches \<le> kMaxPatchSetRecords" "sum_list (map (length \<circ> pj_bytes) demo_patches) \<le> kMaxPatchSetTotalBytes"
    by (simp_all add: demo_patches_def kMaxPatchSetRecords_def kMaxPatchSetTotalBytes_def)
  then obtain r where "BuildPatchSetPlan demo_patches demo_sets [] = finish_plan demo_patches demo_sets [] r"
    using build_by_stages [OF demo_checks(1,2) _ demo_checks(3)] by blast
  then show ?thesis
    using demo_scan by (auto simp: finish_plan_def demo_order)
qed

lemma BuildPatchSetPlan_success_witness:
  "records_ok demo_sets [] demo_patches \<and>
     activePatchIndices (BuildPatchSetPlan demo_patches demo_sets []) =
       filter (\<lambda>i. set_enabled demo_sets [] (patchSetId (demo_patches ! i))) [0..<length demo_patches]"
  using BuildPatchSetPlan_success [OF demo_success] by blast

lemma BuildPatchSetPlan_complete_witness:
  "success (BuildPatchSetPlan demo_patches demo_sets []) \<or>
    plan_error (BuildPatchSetPlan demo_patches demo_sets []) = OverlapValidationBudgetExceeded"
proof (rule BuildPatchSetPlan_complete [OF demo_checks(1,2)])
  show "records_ok demo_sets [] demo_patches"
    by (simp add: records_ok_def demo_checks kMaxPatchSetRecords_def kMaxPatchSetTotalBytes_def)
       (auto simp: demo_patches_def records_agree_def byte_at_def demo_sets_def set_enabled_def FindSet_def
          kUngroupedPatchSetId_def nth_Cons' split: if_splits)
qed

section \<open>Fresh ids\<close>

lemma foldl_max_ge: "g \<le> foldl (\<lambda>g s. max g (ps_id s)) g ss" for g :: u64
proof (induction ss arbitrary: g)
  case (Cons s ss)
  have "max g (ps_id s) \<le> foldl (\<lambda>g s. max g (ps_id s)) (max g (ps_id s)) ss" by (rule Cons.IH)
  then show ?case by simp
qed simp

lemma foldl_max_bound: "s \<in> set ss \<Longrightarrow> ps_id s \<le> foldl (\<lambda>g s. max g (ps_id s)) g ss" for g :: u64
proof (induction ss arbitrary: g)
  case (Cons t ss)
  then show ?case using foldl_max_ge [of "max g (ps_id t)" ss] by auto
qed simp

lemma foldl_max_in: "foldl (\<lambda>g s. max g (ps_id s)) g ss \<in> insert g (ps_id ` set ss)" for g :: u64
proof (induction ss arbitrary: g)
  case (Cons s ss)
  show ?case using Cons.IH [of "max g (ps_id s)"] by (auto simp: max_def split: if_splits)
qed simp

text \<open>A new set id is fresh. \<open>NextPatchSetId\<close> returns an id that no set has and that is not the
  reserved zero, and refuses only when the largest 64-bit id is in use.
\<close>

theorem NextPatchSetId_fresh:
  "case NextPatchSetId sets of
     Some i \<Rightarrow> i \<noteq> kUngroupedPatchSetId \<and> i \<notin> set (map ps_id sets)
   | None \<Rightarrow> u64_max \<in> set (map ps_id sets)"
proof -
  let ?g = "foldl (\<lambda>g s. max g (ps_id s)) 0 sets"
  show ?thesis
  proof (cases "?g = u64_max")
    case True
    then show ?thesis
      using foldl_max_in [of 0 sets] by (simp add: NextPatchSetId_def)
  next
    case False
    then have "unat ?g \<noteq> 18446744073709551615"
      by (simp add: word_unat_eq_iff)
    then have "unat (?g + 1) = unat ?g + 1"
      using unat_u64_lt [of ?g] by (subst unat_add_no_wrap) simp_all
    then have lt: "?g < ?g + 1" and nz: "?g + 1 \<noteq> 0"
      by (simp_all add: word_less_nat_alt word_unat_eq_iff)
    have "?g + 1 \<noteq> ps_id s" if "s \<in> set sets" for s
      using foldl_max_bound [OF that, of 0] lt by auto
    with False nz show ?thesis
      by (auto simp: NextPatchSetId_def Let_def kUngroupedPatchSetId_def)
  qed
qed

text \<open>What background consumers get: the enabled records in order, nothing on a refusal.\<close>

lemma SnapshotActivePatchRecords_exact:
  "snd (SnapshotActivePatchRecords patches sets vs) =
     (if success (BuildPatchSetPlan patches sets vs)
      then filter (\<lambda>p. set_enabled sets vs (patchSetId p)) patches else [])"
proof -
  let ?Q = "\<lambda>p. set_enabled sets vs (patchSetId p)"
  have "map ((!) patches) (filter (\<lambda>i. ?Q (patches ! i)) [0..<length patches]) = filter ?Q patches"
    using filter_map [of ?Q "(!) patches" "[0..<length patches]"] by (simp add: map_nth comp_def)
  then show ?thesis
    using plan_consistent [of patches sets vs] by (auto simp: SnapshotActivePatchRecords_def Let_def)
qed

end
