(* ===== verification/Live_Patch.thy ===== *)
theory Live_Patch
  imports Patch_Set
begin

text \<open>
  \<open>src/src/Core/LivePatchOriginal.h\<close> and \<open>DebugTargetIdentity.h\<close>: the runtime bytes retained for one
  debugger session, the original bytes reconstructed for a new live patch, and the bytes written
  back when a live patch is removed. The \<open>std::unordered_map\<close> of originals is an association list
  with distinct keys in its iteration order; theorems hold for every order. Allocation failure is
  outside the model.
\<close>

record DebugTargetIdentity =
  pid :: u32
  sessionGeneration :: u64

definition identity_valid :: "DebugTargetIdentity \<Rightarrow> bool" where
  "identity_valid d \<longleftrightarrow> pid d \<noteq> 0 \<and> sessionGeneration d \<noteq> 0"

definition DebugTargetIdentityMatches :: "DebugTargetIdentity \<Rightarrow> DebugTargetIdentity \<Rightarrow> bool" where
  "DebugTargetIdentityMatches current expected \<longleftrightarrow>
     identity_valid current \<and> identity_valid expected \<and> pid current = pid expected \<and>
     sessionGeneration current = sessionGeneration expected"

record LivePatchOriginal =
  lp_owner :: DebugTargetIdentity
  lp_runtimeVA :: u64
  lp_bytes :: bytes

type_synonym LivePatchOriginalMap = "(u64 \<times> LivePatchOriginal) list"

definition kMaxLivePatchOriginalRecords :: nat where "kMaxLivePatchOriginalRecords = 4096"
definition kMaxLivePatchOriginalSpan :: nat where "kMaxLivePatchOriginalSpan = 1048576"
definition kMaxLivePatchOriginalBytes :: nat where "kMaxLivePatchOriginalBytes = 32 * 1024 * 1024"

datatype LivePatchOriginalError =
    InvalidIdentity | EmptySpan | SpanTooLarge | AddressOverflow | ReadFailed | OwnerConflict
  | RuntimeMappingConflict | RecordLimit | ByteLimit | AccountingMismatch | OriginalUnavailable
  | PatchSetOwnerConflict | SpanMismatch | LiveAllocationFailure

text \<open>A plan is the error, or the record of the success case.\<close>

record LivePatchOriginalPlan =
  plan_original :: LivePatchOriginal
  retainedBytesAfter :: nat

record LivePatchRestorationPlan =
  restore_runtimeVA :: u64
  restore_bytes :: bytes

fun LivePatchOriginalErrorText :: "LivePatchOriginalError option \<Rightarrow> string" where
  "LivePatchOriginalErrorText None = ''no error''"
| "LivePatchOriginalErrorText (Some InvalidIdentity) = ''the debugger session identity is invalid''"
| "LivePatchOriginalErrorText (Some EmptySpan) = ''the runtime patch span is empty''"
| "LivePatchOriginalErrorText (Some SpanTooLarge) = ''the runtime patch span exceeds the safety limit''"
| "LivePatchOriginalErrorText (Some AddressOverflow) = ''the runtime patch span overflows its address space''"
| "LivePatchOriginalErrorText (Some ReadFailed) = ''the exact-session runtime read was incomplete''"
| "LivePatchOriginalErrorText (Some OwnerConflict) = ''a retained original belongs to another debugger session''"
| "LivePatchOriginalErrorText (Some RuntimeMappingConflict) = ''the live module mapping changed within the session''"
| "LivePatchOriginalErrorText (Some RecordLimit) = ''the runtime-original record limit was reached''"
| "LivePatchOriginalErrorText (Some ByteLimit) = ''the runtime-original byte budget was reached''"
| "LivePatchOriginalErrorText (Some AccountingMismatch) = ''the runtime-original byte accounting is inconsistent''"
| "LivePatchOriginalErrorText (Some OriginalUnavailable) = ''the exact-session runtime original is unavailable''"
| "LivePatchOriginalErrorText (Some PatchSetOwnerConflict) = ''the patch set does not own the retained live write''"
| "LivePatchOriginalErrorText (Some SpanMismatch) = ''a retained runtime original has a different patch span''"
| "LivePatchOriginalErrorText (Some LiveAllocationFailure) = ''there was not enough memory to plan runtime byte restoration''"

section \<open>Reconstructing the original\<close>

definition copy_n :: "bytes \<Rightarrow> nat \<Rightarrow> nat \<Rightarrow> bytes \<Rightarrow> nat \<Rightarrow> bytes" where
  \<comment> \<open>\<open>std::copy_n(src + so, count, dst + po)\<close> within both arrays\<close>
  "copy_n src so count dst po = take po dst @ take count (drop so src) @ drop (po + count) dst"

definition overlay_offsets :: "u64 \<Rightarrow> nat \<Rightarrow> u64 \<Rightarrow> nat \<Rightarrow> (nat \<times> nat) option" where
  \<comment> \<open>\<open>outOffset\<close> and \<open>priorOffset\<close>; \<open>None\<close> is \<open>continue\<close>\<close>
  "overlay_offsets fileVA n priorFileVA m =
     (if priorFileVA \<le> fileVA then
        let delta = fileVA - priorFileVA in if unat delta \<ge> m then None else Some (0, unat delta)
      else
        let delta = priorFileVA - fileVA in if unat delta \<ge> n then None else Some (unat delta, 0))"

definition overlay_step :: "DebugTargetIdentity \<Rightarrow> u64 \<Rightarrow> u64 \<Rightarrow> u64 \<Rightarrow> LivePatchOriginal \<Rightarrow> bytes \<Rightarrow>
    LivePatchOriginalError + bytes" where
  "overlay_step owner fileVA runtimeVA priorFileVA prior observed =
     (if \<not> DebugTargetIdentityMatches (lp_owner prior) owner \<or> lp_bytes prior = [] then Inr observed
      else case overlay_offsets fileVA (length observed) priorFileVA (length (lp_bytes prior)) of
        None \<Rightarrow> Inr observed
      | Some (outOffset, priorOffset) \<Rightarrow>
          let count = min (length observed - outOffset) (length (lp_bytes prior) - priorOffset)
          in if count = 0 then Inr observed
             else if lp_runtimeVA prior > u64_max - of_nat priorOffset \<or>
                 runtimeVA + of_nat outOffset \<noteq> lp_runtimeVA prior + of_nat priorOffset
             then Inl RuntimeMappingConflict
             else Inr (copy_n (lp_bytes prior) priorOffset count observed outOffset))"

fun overlay :: "DebugTargetIdentity \<Rightarrow> u64 \<Rightarrow> u64 \<Rightarrow> LivePatchOriginalMap \<Rightarrow> bytes \<Rightarrow>
    LivePatchOriginalError + bytes" where
  "overlay owner fileVA runtimeVA [] observed = Inr observed"
| "overlay owner fileVA runtimeVA ((k, prior) # rest) observed =
     (case overlay_step owner fileVA runtimeVA k prior observed of
        Inl e \<Rightarrow> Inl e
      | Inr observed1 \<Rightarrow> overlay owner fileVA runtimeVA rest observed1)"

definition live_guard :: "LivePatchOriginalMap \<Rightarrow> DebugTargetIdentity \<Rightarrow> u64 \<Rightarrow> u64 \<Rightarrow> bytes \<Rightarrow> LivePatchOriginalError option" where
  \<comment> \<open>the checks before the loop\<close>
  "live_guard retained owner fileVA runtimeVA observed =
     (let span = of_nat (length observed)
      in if \<not> identity_valid owner then Some InvalidIdentity
         else if observed = [] then Some EmptySpan
         else if length observed > kMaxLivePatchOriginalSpan then Some SpanTooLarge
         else if fileVA > u64_max - span \<or> runtimeVA > u64_max - span then Some AddressOverflow
         else case map_of retained fileVA of
                None \<Rightarrow> None
              | Some exact \<Rightarrow>
                  if \<not> DebugTargetIdentityMatches (lp_owner exact) owner then Some OwnerConflict
                  else if lp_runtimeVA exact \<noteq> runtimeVA then Some RuntimeMappingConflict
                  else None)"

definition PlanLivePatchOriginal :: "LivePatchOriginalMap \<Rightarrow> nat \<Rightarrow> DebugTargetIdentity \<Rightarrow> u64 \<Rightarrow> u64 \<Rightarrow> bytes \<Rightarrow>
    LivePatchOriginalError + LivePatchOriginalPlan" where
  "PlanLivePatchOriginal retained retainedBytes owner fileVA runtimeVA observed =
     (case live_guard retained owner fileVA runtimeVA observed of
        Some e \<Rightarrow> Inl e
      | None \<Rightarrow>
          case overlay owner fileVA runtimeVA retained observed of
            Inl e \<Rightarrow> Inl e
          | Inr bs \<Rightarrow>
              let oldSize = (case map_of retained fileVA of None \<Rightarrow> 0 | Some exact \<Rightarrow> length (lp_bytes exact));
                  withoutOld = retainedBytes - oldSize
              in if retainedBytes < oldSize then Inl AccountingMismatch
                 else if map_of retained fileVA = None \<and> length retained \<ge> kMaxLivePatchOriginalRecords then Inl RecordLimit
                 else if length bs > kMaxLivePatchOriginalBytes - min withoutOld kMaxLivePatchOriginalBytes then Inl ByteLimit
                 else Inr \<lparr>plan_original = \<lparr>lp_owner = owner, lp_runtimeVA = runtimeVA, lp_bytes = bs\<rparr>,
                        retainedBytesAfter = withoutOld + length bs\<rparr>)"

definition FindLivePatchOriginal :: "LivePatchOriginalMap \<Rightarrow> u64 \<Rightarrow> DebugTargetIdentity \<Rightarrow> u64 \<Rightarrow> nat \<Rightarrow> LivePatchOriginal option" where
  "FindLivePatchOriginal retained fileVA owner runtimeVA n =
     (case map_of retained fileVA of
        None \<Rightarrow> None
      | Some found \<Rightarrow>
          if \<not> DebugTargetIdentityMatches (lp_owner found) owner \<or> lp_runtimeVA found \<noteq> runtimeVA \<or>
             length (lp_bytes found) \<noteq> n
          then None else Some found)"

section \<open>Restoring a removed patch\<close>

definition LivePatchSpansOverlap :: "u64 \<Rightarrow> nat \<Rightarrow> u64 \<Rightarrow> nat \<Rightarrow> bool" where
  "LivePatchSpansOverlap a aSize b bSize \<longleftrightarrow>
     (if aSize = 0 \<or> bSize = 0 then False
      else if a \<le> b then b - a < of_nat aSize else a - b < of_nat bSize)"

definition survivor_owned :: "LivePatchOriginalMap \<Rightarrow> (u64 \<times> u64) list \<Rightarrow> DebugTargetIdentity \<Rightarrow> PjPatch \<Rightarrow> LivePatchOriginal option" where
  \<comment> \<open>the retained original of a survivor this session's live writes own; \<open>None\<close> is \<open>continue\<close>\<close>
  "survivor_owned retained setOwners owner p =
     (case (map_of setOwners (pj_address p), map_of retained (pj_address p)) of
        (Some s, Some prior) \<Rightarrow>
          if s \<noteq> patchSetId p \<or> \<not> DebugTargetIdentityMatches (lp_owner prior) owner then None else Some prior
      | _ \<Rightarrow> None)"

definition compose_step :: "LivePatchOriginalMap \<Rightarrow> (u64 \<times> u64) list \<Rightarrow> DebugTargetIdentity \<Rightarrow> PjPatch \<Rightarrow> u64 \<Rightarrow>
    PjPatch \<Rightarrow> bytes \<times> nat \<Rightarrow> LivePatchOriginalError + (bytes \<times> nat)" where
  "compose_step retained setOwners owner removed runtimeVA p acc =
     (let (out, composed) = acc; n = length (pj_bytes removed); m = length (pj_bytes p)
      in if \<not> LivePatchSpansOverlap (pj_address removed) n (pj_address p) m then Inr acc
         else case survivor_owned retained setOwners owner p of
           None \<Rightarrow> Inr acc
         | Some prior \<Rightarrow>
             if length (lp_bytes prior) \<noteq> m \<or> length (pj_orig p) \<noteq> m then Inl SpanMismatch
             else if m > kMaxLivePatchOriginalSpan then Inl SpanTooLarge
             else if pj_address p > u64_max - of_nat m \<or> lp_runtimeVA prior > u64_max - of_nat m then Inl AddressOverflow
             else
               let ob = max (pj_address removed) (pj_address p);
                   oe = min (pj_address removed + of_nat n) (pj_address p + of_nat m);
                   outOffset = unat (ob - pj_address removed);
                   priorOffset = unat (ob - pj_address p);
                   count = unat (oe - ob)
               in if runtimeVA + of_nat outOffset \<noteq> lp_runtimeVA prior + of_nat priorOffset then Inl RuntimeMappingConflict
                  else if count > kMaxLivePatchOriginalBytes - composed then Inl ByteLimit
                  else Inr (copy_n (pj_bytes p) priorOffset count out outOffset, composed + count))"

fun compose_survivors :: "LivePatchOriginalMap \<Rightarrow> (u64 \<times> u64) list \<Rightarrow> DebugTargetIdentity \<Rightarrow> PjPatch \<Rightarrow> u64 \<Rightarrow>
    PjPatch list \<Rightarrow> bytes \<times> nat \<Rightarrow> LivePatchOriginalError + (bytes \<times> nat)" where
  "compose_survivors retained setOwners owner removed runtimeVA [] acc = Inr acc"
| "compose_survivors retained setOwners owner removed runtimeVA (p # ps) acc =
     (case compose_step retained setOwners owner removed runtimeVA p acc of
        Inl e \<Rightarrow> Inl e
      | Inr acc1 \<Rightarrow> compose_survivors retained setOwners owner removed runtimeVA ps acc1)"

definition restoration_guard :: "LivePatchOriginalMap \<Rightarrow> (u64 \<times> u64) list \<Rightarrow> DebugTargetIdentity \<Rightarrow> PjPatch \<Rightarrow> PjPatch list \<Rightarrow>
    LivePatchOriginalError + LivePatchOriginal" where
  \<comment> \<open>the checks before the composition and the original they find\<close>
  "restoration_guard retained setOwners owner removed remaining =
     (let n = length (pj_bytes removed)
      in if \<not> identity_valid owner then Inl InvalidIdentity
         else if length remaining > kMaxPatchSetRecords \<or> length retained > kMaxLivePatchOriginalRecords \<or>
             length setOwners > kMaxLivePatchOriginalRecords then Inl RecordLimit
         else if pj_bytes removed = [] then Inl EmptySpan
         else if n > kMaxLivePatchOriginalSpan then Inl SpanTooLarge
         else if length (pj_orig removed) \<noteq> n then Inl SpanMismatch
         else if map_of setOwners (pj_address removed) \<noteq> Some (patchSetId removed) then Inl PatchSetOwnerConflict
         else case map_of retained (pj_address removed) of
           None \<Rightarrow> Inl OriginalUnavailable
         | Some original \<Rightarrow>
             if \<not> DebugTargetIdentityMatches (lp_owner original) owner then Inl OwnerConflict
             else if length (lp_bytes original) \<noteq> n then Inl SpanMismatch
             else if pj_address removed > u64_max - of_nat n \<or> lp_runtimeVA original > u64_max - of_nat n
             then Inl AddressOverflow
             else Inr original)"

definition PlanLivePatchRestoration :: "LivePatchOriginalMap \<Rightarrow> (u64 \<times> u64) list \<Rightarrow> DebugTargetIdentity \<Rightarrow> PjPatch \<Rightarrow>
    PjPatch list \<Rightarrow> LivePatchOriginalError + LivePatchRestorationPlan" where
  "PlanLivePatchRestoration retained setOwners owner removed remaining =
     (case restoration_guard retained setOwners owner removed remaining of
        Inl e \<Rightarrow> Inl e
      | Inr original \<Rightarrow>
          case compose_survivors retained setOwners owner removed (lp_runtimeVA original) remaining (lp_bytes original, 0) of
            Inl e \<Rightarrow> Inl e
          | Inr (bs, _) \<Rightarrow> Inr \<lparr>restore_runtimeVA = lp_runtimeVA original, restore_bytes = bs\<rparr>)"

section \<open>Spans and copies\<close>

lemma copy_n_nth:
  assumes "so + count \<le> length src" "po + count \<le> length dst"
  shows "length (copy_n src so count dst po) = length dst"
    and "i < length dst \<Longrightarrow> copy_n src so count dst po ! i =
      (if po \<le> i \<and> i < po + count then src ! (so + (i - po)) else dst ! i)"
proof -
  have "length (take count (drop so src)) = count" "length (take po dst) = po"
    using assms by simp_all
  then show "length (copy_n src so count dst po) = length dst"
    and "i < length dst \<Longrightarrow> copy_n src so count dst po ! i =
      (if po \<le> i \<and> i < po + count then src ! (so + (i - po)) else dst ! i)"
    using assms unfolding copy_n_def nth_append length_append by auto
qed

definition covers :: "u64 \<Rightarrow> nat \<Rightarrow> nat \<Rightarrow> bool" where
  "covers a n x \<longleftrightarrow> unat a \<le> x \<and> x < unat a + n"

lemma unat_diff_le: "a \<le> b \<Longrightarrow> unat (b - a) = unat b - unat a" for a b :: u64
  by (simp add: unat_sub)

lemma overlay_offsets_None:
  "overlay_offsets a n b m = None \<Longrightarrow> i < n \<Longrightarrow> \<not> covers b m (unat a + i)"
  by (auto simp: overlay_offsets_def Let_def covers_def unat_diff_le word_le_nat_alt split: if_splits)

lemma overlay_offsets_Some:
  assumes "overlay_offsets a n b m = Some (po, so)" "i < n"
  shows "po \<le> n" "so \<le> m"
    and "covers b m (unat a + i) \<longleftrightarrow> po \<le> i \<and> i < po + min (n - po) (m - so)"
    and "po \<le> i \<Longrightarrow> so + (i - po) = unat a + i - unat b"
  using assms
  by (auto simp: overlay_offsets_def Let_def covers_def unat_diff_le word_le_nat_alt split: if_splits)

lemma overlay_step_nth:
  assumes "overlay_step owner fileVA runtimeVA k prior obs = Inr obs1"
  shows "length obs1 = length obs"
    and "i < length obs \<Longrightarrow> obs1 ! i =
      (if DebugTargetIdentityMatches (lp_owner prior) owner \<and> covers k (length (lp_bytes prior)) (unat fileVA + i)
       then lp_bytes prior ! (unat fileVA + i - unat k) else obs ! i)"
proof -
  let ?m = "length (lp_bytes prior)"
  have "length obs1 = length obs \<and> (\<forall>i < length obs. obs1 ! i =
      (if DebugTargetIdentityMatches (lp_owner prior) owner \<and> covers k ?m (unat fileVA + i)
       then lp_bytes prior ! (unat fileVA + i - unat k) else obs ! i))"
  proof (cases "\<not> DebugTargetIdentityMatches (lp_owner prior) owner \<or> lp_bytes prior = []")
    case True
    then show ?thesis using assms by (auto simp: overlay_step_def covers_def)
  next
    case match: False
    show ?thesis
    proof (cases "overlay_offsets fileVA (length obs) k ?m")
      case None
      then show ?thesis
        using assms match overlay_offsets_None [OF None] by (auto simp: overlay_step_def)
    next
      case (Some off)
      obtain po so where off: "overlay_offsets fileVA (length obs) k ?m = Some (po, so)"
        using Some by (cases off) auto
      let ?c = "min (length obs - po) (?m - so)"
      note o = overlay_offsets_Some [OF off]
      have res: "obs1 = obs \<and> ?c = 0 \<or> obs1 = copy_n (lp_bytes prior) so ?c obs po"
        using assms match off by (auto simp: overlay_step_def Let_def split: if_splits)
      show ?thesis
      proof (cases "?c = 0")
        case True
        then have "obs1 = obs" using assms match off by (auto simp: overlay_step_def Let_def split: if_splits)
        with True show ?thesis using o(3) by auto
      next
        case False
        then have "0 < length obs" by auto
        then have b: "so + ?c \<le> ?m" "po + ?c \<le> length obs"
          using o(1,2) [of 0] by auto
        from res False have "obs1 = copy_n (lp_bytes prior) so ?c obs po" by auto
        then show ?thesis
          using copy_n_nth [OF b] o(3,4) match by auto
      qed
    qed
  qed
  then show "length obs1 = length obs"
    and "i < length obs \<Longrightarrow> obs1 ! i =
      (if DebugTargetIdentityMatches (lp_owner prior) owner \<and> covers k ?m (unat fileVA + i)
       then lp_bytes prior ! (unat fileVA + i - unat k) else obs ! i)"
    by blast+
qed

section \<open>What a capture keeps\<close>

text \<open>The target's bytes before any live patch of the session are a function of the runtime address.\<close>

definition session_record :: "DebugTargetIdentity \<Rightarrow> LivePatchOriginal \<Rightarrow> bool" where
  "session_record owner r \<longleftrightarrow> DebugTargetIdentityMatches (lp_owner r) owner"

definition holds_pristine :: "(nat \<Rightarrow> u8) \<Rightarrow> LivePatchOriginal \<Rightarrow> bool" where
  "holds_pristine orig r \<longleftrightarrow> lp_bytes r = map (\<lambda>j. orig (unat (lp_runtimeVA r) + j)) [0..<length (lp_bytes r)]"

definition retained_pristine :: "(nat \<Rightarrow> u8) \<Rightarrow> DebugTargetIdentity \<Rightarrow> LivePatchOriginalMap \<Rightarrow> bool" where
  "retained_pristine orig owner retained \<longleftrightarrow> list_all (\<lambda>(k, r). session_record owner r \<longrightarrow> holds_pristine orig r) retained"

definition patched_at :: "DebugTargetIdentity \<Rightarrow> LivePatchOriginalMap \<Rightarrow> nat \<Rightarrow> bool" where
  \<comment> \<open>a file address whose original is retained for this session\<close>
  "patched_at owner retained x \<longleftrightarrow> list_ex (\<lambda>(k, r). session_record owner r \<and> covers k (length (lp_bytes r)) x) retained"

definition observed_honest :: "(nat \<Rightarrow> u8) \<Rightarrow> DebugTargetIdentity \<Rightarrow> LivePatchOriginalMap \<Rightarrow> u64 \<Rightarrow> u64 \<Rightarrow> bytes \<Rightarrow> bool" where
  \<comment> \<open>what was read differs from the pristine bytes only where an original is retained\<close>
  "observed_honest orig owner retained fileVA runtimeVA obs \<longleftrightarrow>
     list_all (\<lambda>i. patched_at owner retained (unat fileVA + i) \<or> obs ! i = orig (unat runtimeVA + i)) [0..<length obs]"

definition mapped_alike :: "u64 \<Rightarrow> u64 \<Rightarrow> u64 \<Rightarrow> LivePatchOriginal \<Rightarrow> bool" where
  \<comment> \<open>file and runtime addresses are as far apart as in the record\<close>
  "mapped_alike fileVA runtimeVA k r \<longleftrightarrow>
     unat (lp_runtimeVA r) + unat fileVA = unat runtimeVA + unat k"

definition spans_meet :: "u64 \<Rightarrow> nat \<Rightarrow> u64 \<Rightarrow> nat \<Rightarrow> bool" where
  "spans_meet a n b m \<longleftrightarrow> (\<exists>x. covers a n x \<and> covers b m x)"

definition mapping_conflict :: "DebugTargetIdentity \<Rightarrow> u64 \<Rightarrow> u64 \<Rightarrow> nat \<Rightarrow> u64 \<times> LivePatchOriginal \<Rightarrow> bool" where
  "mapping_conflict owner fileVA runtimeVA n kr \<longleftrightarrow>
     session_record owner (snd kr) \<and> spans_meet fileVA n (fst kr) (length (lp_bytes (snd kr))) \<and>
     \<not> mapped_alike fileVA runtimeVA (fst kr) (snd kr)"

lemma overlay_step_conflict:
  assumes room: "unat fileVA + length obs < 18446744073709551616" "unat runtimeVA + length obs < 18446744073709551616"
  shows "isl (overlay_step owner fileVA runtimeVA k prior obs) \<longleftrightarrow> mapping_conflict owner fileVA runtimeVA (length obs) (k, prior)"
proof (cases "session_record owner prior \<and> lp_bytes prior \<noteq> []")
  case False
  then show ?thesis by (auto simp: overlay_step_def mapping_conflict_def session_record_def spans_meet_def covers_def)
next
  case match: True
  let ?n = "length obs" and ?m = "length (lp_bytes prior)" and ?p = "lp_runtimeVA prior"
  show ?thesis
  proof (cases "overlay_offsets fileVA ?n k ?m")
    case None
    have "\<not> spans_meet fileVA ?n k ?m"
    proof
      assume "spans_meet fileVA ?n k ?m"
      then obtain x where x: "covers fileVA ?n x" "covers k ?m x" by (auto simp: spans_meet_def)
      then have "x - unat fileVA < ?n" "unat fileVA + (x - unat fileVA) = x" by (auto simp: covers_def)
      with overlay_offsets_None [OF None] x(2) show False by fastforce
    qed
    with None match show ?thesis by (simp add: overlay_step_def mapping_conflict_def session_record_def)
  next
    case (Some off)
    obtain po so where off: "overlay_offsets fileVA ?n k ?m = Some (po, so)" using Some by (cases off) auto
    let ?c = "min (?n - po) (?m - so)"
    note o = overlay_offsets_Some [OF off]
    have meet: "spans_meet fileVA ?n k ?m \<longleftrightarrow> ?c \<noteq> 0"
    proof
      assume "spans_meet fileVA ?n k ?m"
      then obtain x where x: "covers fileVA ?n x" "covers k ?m x" by (auto simp: spans_meet_def)
      then have i: "x - unat fileVA < ?n" "unat fileVA + (x - unat fileVA) = x" by (auto simp: covers_def)
      with o(3) [OF i(1)] x(2) show "?c \<noteq> 0" by auto
    next
      assume c: "?c \<noteq> 0"
      then have "po < ?n" by auto
      with o(3) [OF this] c have "covers k ?m (unat fileVA + po)" by simp
      with \<open>po < ?n\<close> show "spans_meet fileVA ?n k ?m"
        unfolding spans_meet_def by (intro exI [of _ "unat fileVA + po"]) (simp add: covers_def)
    qed
    have "(?p > u64_max - of_nat so \<or> runtimeVA + of_nat po \<noteq> ?p + of_nat so) \<longleftrightarrow> \<not> mapped_alike fileVA runtimeVA k prior" if "?c \<noteq> 0"
    proof -
      have po: "po < ?n" using that by auto
      consider "po = 0" "so + unat k = unat fileVA" | "so = 0" "po + unat fileVA = unat k"
        using off by (auto simp: overlay_offsets_def Let_def unat_diff_le word_le_nat_alt split: if_splits)
      then show ?thesis
      proof cases
        case 1
        have so: "so < 18446744073709551616" using 1(2) unat_u64_lt [of fileVA] by linarith
        have "?p > u64_max - of_nat so \<longleftrightarrow> 18446744073709551616 \<le> unat ?p + so"
          using so by (simp add: word_less_nat_alt unat_max_minus unat_of_nat_u64) (use unat_u64_lt [of ?p] in linarith)
        moreover have "unat (?p + of_nat so) = unat ?p + so" if "unat ?p + so < 18446744073709551616"
          using that so by (subst unat_add_no_wrap) (simp_all add: unat_of_nat_u64)
        ultimately show ?thesis
          using 1 unat_u64_lt [of runtimeVA] by (auto simp: mapped_alike_def word_unat_eq_iff not_less)
      next
        case 2
        have "unat (runtimeVA + of_nat po) = unat runtimeVA + po"
          using po room(2) by (subst unat_add_no_wrap) (simp_all add: unat_of_nat_u64)
        with 2 show ?thesis by (auto simp: mapped_alike_def word_unat_eq_iff)
      qed
    qed
    with meet off match show ?thesis
      by (auto simp: overlay_step_def mapping_conflict_def session_record_def Let_def)
  qed
qed

lemma overlay_conflict:
  assumes "unat fileVA + length obs < 18446744073709551616" "unat runtimeVA + length obs < 18446744073709551616"
  shows "isl (overlay owner fileVA runtimeVA retained obs) \<longleftrightarrow>
    list_ex (mapping_conflict owner fileVA runtimeVA (length obs)) retained"
  using assms
proof (induction retained arbitrary: obs)
  case (Cons kr rest)
  obtain k prior where kr: "kr = (k, prior)" by force
  note c = overlay_step_conflict [OF Cons.prems, of owner k prior]
  show ?case
  proof (cases "overlay_step owner fileVA runtimeVA k prior obs")
    case (Inl e)
    with c kr show ?thesis by simp
  next
    case (Inr obs1)
    with c kr Cons.IH [of obs1] Cons.prems overlay_step_nth(1) [OF Inr] show ?thesis by simp
  qed
qed simp

lemma overlay_pristine:
  assumes "overlay owner fileVA runtimeVA retained obs = Inr obs1" "retained_pristine orig owner retained"
    and "unat fileVA + length obs < 18446744073709551616" "unat runtimeVA + length obs < 18446744073709551616"
  shows "length obs1 = length obs \<and> (\<forall>i < length obs. obs1 ! i =
    (if patched_at owner retained (unat fileVA + i) then orig (unat runtimeVA + i) else obs ! i))"
  using assms
proof (induction retained arbitrary: obs)
  case Nil
  then show ?case by (simp add: patched_at_def)
next
  case (Cons kr rest)
  obtain k prior where kr: "kr = (k, prior)" by force
  obtain obs2 where st: "overlay_step owner fileVA runtimeVA k prior obs = Inr obs2"
    and rest: "overlay owner fileVA runtimeVA rest obs2 = Inr obs1"
    using Cons.prems(1) kr by (auto split: sum.splits)
  note step = overlay_step_nth [OF st]
  have IH: "length obs1 = length obs2 \<and> (\<forall>i < length obs2. obs1 ! i =
      (if patched_at owner rest (unat fileVA + i) then orig (unat runtimeVA + i) else obs2 ! i))"
    using Cons.IH [OF rest] Cons.prems(2-4) step(1) by (simp add: retained_pristine_def)
  have own: "lp_bytes prior ! (unat fileVA + i - unat k) = orig (unat runtimeVA + i)"
    if i: "i < length obs" and m: "session_record owner prior" and c: "covers k (length (lp_bytes prior)) (unat fileVA + i)" for i
  proof -
    let ?j = "unat fileVA + i - unat k"
    have "spans_meet fileVA (length obs) k (length (lp_bytes prior))"
      using i c unfolding spans_meet_def by (intro exI [of _ "unat fileVA + i"]) (simp add: covers_def)
    then have alike: "mapped_alike fileVA runtimeVA k prior"
      using overlay_step_conflict [OF Cons.prems(3,4), of owner k prior] st m by (simp add: mapping_conflict_def)
    have "holds_pristine orig prior" using Cons.prems(2) kr m by (simp add: retained_pristine_def)
    then have "lp_bytes prior ! ?j = map (\<lambda>j. orig (unat (lp_runtimeVA prior) + j)) [0..<length (lp_bytes prior)] ! ?j"
      unfolding holds_pristine_def by (rule arg_cong)
    also have "\<dots> = orig (unat (lp_runtimeVA prior) + ?j)" using c by (auto simp: covers_def)
    also have "unat (lp_runtimeVA prior) + ?j = unat runtimeVA + i"
      using alike c by (auto simp: mapped_alike_def covers_def)
    finally show ?thesis .
  qed
  show ?case
    using IH step own kr by (auto simp: patched_at_def session_record_def)
qed

text \<open>When a capture is allowed: a live session, a span of 1 byte to 1 MiB that does not wrap, an exact
  record that belongs to the session at the same runtime address, every overlapping record of the
  session mapped alike, and room in the map and in the byte budget.\<close>

definition capture_allowed :: "LivePatchOriginalMap \<Rightarrow> nat \<Rightarrow> DebugTargetIdentity \<Rightarrow> u64 \<Rightarrow> u64 \<Rightarrow> nat \<Rightarrow> bool" where
  "capture_allowed retained held owner fileVA runtimeVA n \<longleftrightarrow>
     identity_valid owner \<and> 0 < n \<and> n \<le> 2 ^ 20 \<and> unat fileVA + n < 2 ^ 64 \<and> unat runtimeVA + n < 2 ^ 64 \<and>
     (case map_of retained fileVA of
        None \<Rightarrow> length retained < 4096 \<and> held + n \<le> 2 ^ 25
      | Some r \<Rightarrow> session_record owner r \<and> lp_runtimeVA r = runtimeVA \<and> length (lp_bytes r) \<le> held \<and>
          held - length (lp_bytes r) + n \<le> 2 ^ 25) \<and>
     \<not> list_ex (mapping_conflict owner fileVA runtimeVA n) retained"

text \<open>C12: what is captured before a live write. Let the records retained for this debugger session hold the
  bytes the target had at their runtime addresses before its first live write, and let the bytes just
  read differ from those only where an original is retained. Then \<open>PlanLivePatchOriginal\<close> succeeds exactly
  when the capture is allowed, and what it plans to retain is, byte for byte, what the target held at
  the runtime span before the session, whatever overlapping, nested or same-address patches were
  written since, in whatever order the map is walked; the new byte held replaces the old record's
  size by the new one.\<close>

theorem PlanLivePatchOriginal_exact:
  assumes "retained_pristine orig owner retained" "observed_honest orig owner retained fileVA runtimeVA observed"
  shows "if capture_allowed retained held owner fileVA runtimeVA (length observed)
    then PlanLivePatchOriginal retained held owner fileVA runtimeVA observed =
      Inr \<lparr>plan_original = \<lparr>lp_owner = owner, lp_runtimeVA = runtimeVA,
             lp_bytes = map (\<lambda>i. orig (unat runtimeVA + i)) [0..<length observed]\<rparr>,
           retainedBytesAfter = held - (case map_of retained fileVA of None \<Rightarrow> 0 | Some r \<Rightarrow> length (lp_bytes r)) +
             length observed\<rparr>
    else isl (PlanLivePatchOriginal retained held owner fileVA runtimeVA observed)"
proof -
  let ?n = "length observed"
  let ?room = "identity_valid owner \<and> 0 < ?n \<and> ?n \<le> 2 ^ 20 \<and> unat fileVA + ?n < 2 ^ 64 \<and> unat runtimeVA + ?n < 2 ^ 64"
  have wrap: "x > u64_max - of_nat ?n \<longleftrightarrow> 2 ^ 64 \<le> unat x + ?n" if "?n \<le> 2 ^ 20" for x :: u64
  proof -
    have "unat (of_nat ?n :: u64) = ?n" using that by (simp add: unat_of_nat_u64)
    then show ?thesis
      using that unat_u64_lt [of x] by (simp add: word_less_nat_alt unat_max_minus) linarith
  qed
  have guard: "live_guard retained owner fileVA runtimeVA observed = None \<longleftrightarrow>
      ?room \<and> (case map_of retained fileVA of None \<Rightarrow> True | Some r \<Rightarrow> session_record owner r \<and> lp_runtimeVA r = runtimeVA)"
    using wrap [of fileVA] wrap [of runtimeVA]
    by (auto simp: live_guard_def Let_def session_record_def kMaxLivePatchOriginalSpan_def not_less split: option.splits)
  show ?thesis
  proof (cases "live_guard retained owner fileVA runtimeVA observed")
    case (Some e)
    then have "\<not> capture_allowed retained held owner fileVA runtimeVA ?n"
      using guard by (auto simp: capture_allowed_def split: option.splits)
    with Some show ?thesis by (simp add: PlanLivePatchOriginal_def)
  next
    case None
    then have g: ?room "case map_of retained fileVA of None \<Rightarrow> True | Some r \<Rightarrow> session_record owner r \<and> lp_runtimeVA r = runtimeVA"
      using guard by auto
    have room: "unat fileVA + ?n < 18446744073709551616" "unat runtimeVA + ?n < 18446744073709551616" using g(1) by simp_all
    show ?thesis
    proof (cases "overlay owner fileVA runtimeVA retained observed")
      case (Inl e)
      then have "list_ex (mapping_conflict owner fileVA runtimeVA ?n) retained"
        using overlay_conflict [OF room, of owner retained] by simp
      then show ?thesis using None Inl by (simp add: PlanLivePatchOriginal_def capture_allowed_def)
    next
      case (Inr bs)
      then have nc: "\<not> list_ex (mapping_conflict owner fileVA runtimeVA ?n) retained"
        using overlay_conflict [OF room, of owner retained] by simp
      note p = overlay_pristine [OF Inr assms(1) room]
      have bs: "bs = map (\<lambda>i. orig (unat runtimeVA + i)) [0..<?n]"
        using p assms(2) by (intro nth_equalityI) (auto simp: observed_honest_def list_all_iff)
      have budget: "?n > kMaxLivePatchOriginalBytes - min w kMaxLivePatchOriginalBytes \<longleftrightarrow> w + ?n > 2 ^ 25" for w
        using g(1) by (auto simp: kMaxLivePatchOriginalBytes_def min_def)
      show ?thesis
      proof (cases "map_of retained fileVA")
        case none: None
        then show ?thesis
          using None Inr g(1) nc budget [of held] p
          by (simp add: PlanLivePatchOriginal_def capture_allowed_def Let_def kMaxLivePatchOriginalRecords_def bs)
      next
        case (Some r)
        then show ?thesis
          using None Inr g nc budget [of "held - length (lp_bytes r)"] p
          by (simp add: PlanLivePatchOriginal_def capture_allowed_def Let_def bs)
      qed
    qed
  qed
qed

text \<open>A repatch of two bytes of which the first was patched before.\<close>

definition capture_owner :: DebugTargetIdentity where
  "capture_owner = \<lparr>pid = 1, sessionGeneration = 1\<rparr>"

theorem PlanLivePatchOriginal_exact_witness:
  "PlanLivePatchOriginal [(16, \<lparr>lp_owner = capture_owner, lp_runtimeVA = 96, lp_bytes = [0]\<rparr>)] 1 capture_owner 16 96 [0x90, 0] =
     Inr \<lparr>plan_original = \<lparr>lp_owner = capture_owner, lp_runtimeVA = 96, lp_bytes = [0, 0]\<rparr>, retainedBytesAfter = 2\<rparr>"
proof -
  let ?r = "[(16, \<lparr>lp_owner = capture_owner, lp_runtimeVA = 96, lp_bytes = [0]\<rparr>)]"
  have own: "session_record capture_owner \<lparr>lp_owner = capture_owner, lp_runtimeVA = 96, lp_bytes = [0]\<rparr>"
    by (simp add: session_record_def DebugTargetIdentityMatches_def identity_valid_def capture_owner_def)
  have "retained_pristine (\<lambda>_. 0) capture_owner ?r"
    by (simp add: retained_pristine_def holds_pristine_def)
  moreover have "observed_honest (\<lambda>_. 0) capture_owner ?r 16 96 [0x90, 0]"
    using own by (simp add: observed_honest_def patched_at_def covers_def upt_rec)
  moreover have "capture_allowed ?r 1 capture_owner 16 96 (length [0x90 :: u8, 0])"
    using own by (simp add: capture_allowed_def mapping_conflict_def mapped_alike_def)
      (simp add: identity_valid_def capture_owner_def)
  ultimately show ?thesis
    using PlanLivePatchOriginal_exact [of "\<lambda>_. 0" capture_owner ?r 16 96 "[0x90, 0]" 1]
    by (simp only: if_True) (simp add: upt_rec)
qed

text \<open>
  The planner does not ask whether the record it will replace is longer: a one-byte capture at the
  address of a retained two-byte original is accepted, and storing it forgets the second byte's
  original.
\<close>

lemma shorter_capture_forgets:
  defines "m \<equiv> [(16 :: u64, \<lparr>lp_owner = capture_owner, lp_runtimeVA = 16, lp_bytes = [1, 2]\<rparr>)]"
  shows "case PlanLivePatchOriginal m 2 capture_owner 16 16 [9] of
    Inl _ \<Rightarrow> False
  | Inr plan \<Rightarrow> lp_bytes (plan_original plan) = [1] \<and> patched_at capture_owner m 17 \<and>
      \<not> patched_at capture_owner (AList.update 16 (plan_original plan) m) 17"
  by (simp add: capture_owner_def m_def PlanLivePatchOriginal_def live_guard_def identity_valid_def session_record_def
      DebugTargetIdentityMatches_def kMaxLivePatchOriginalSpan_def kMaxLivePatchOriginalBytes_def
      overlay_step_def overlay_offsets_def copy_n_def patched_at_def covers_def)

section \<open>What a removal writes back\<close>

lemma LivePatchSpansOverlap_iff:
  assumes "n < 2 ^ 64" "m < 2 ^ 64"
  shows "LivePatchSpansOverlap a n b m \<longleftrightarrow> (\<exists>x. covers a n x \<and> covers b m x)"
proof -
  have u: "unat (of_nat n :: u64) = n" "unat (of_nat m :: u64) = m"
    using assms by (simp_all add: unat_of_nat_u64)
  show ?thesis
  proof (cases "a \<le> b")
    case True
    then have le: "unat a \<le> unat b" by (simp add: word_le_nat_alt)
    have "LivePatchSpansOverlap a n b m \<longleftrightarrow> n \<noteq> 0 \<and> m \<noteq> 0 \<and> unat b < unat a + n"
      using True le by (auto simp: LivePatchSpansOverlap_def word_less_nat_alt unat_diff_le u)
    also have "\<dots> \<longleftrightarrow> (\<exists>x. covers a n x \<and> covers b m x)"
      using le by (auto simp: covers_def intro: exI [of _ "unat b"])
    finally show ?thesis .
  next
    case False
    then have le: "unat b < unat a" by (simp add: word_le_nat_alt)
    have "LivePatchSpansOverlap a n b m \<longleftrightarrow> n \<noteq> 0 \<and> m \<noteq> 0 \<and> unat a < unat b + m"
      using False le by (auto simp: LivePatchSpansOverlap_def word_less_nat_alt unat_diff_le u)
    also have "\<dots> \<longleftrightarrow> (\<exists>x. covers a n x \<and> covers b m x)"
      using le by (auto simp: covers_def intro: exI [of _ "unat a"])
    finally show ?thesis .
  qed
qed

definition survives_at :: "LivePatchOriginalMap \<Rightarrow> (u64 \<times> u64) list \<Rightarrow> DebugTargetIdentity \<Rightarrow> nat \<Rightarrow> PjPatch \<Rightarrow> bool" where
  \<comment> \<open>a record whose live write this session made and which covers the address\<close>
  "survives_at retained setOwners owner x p \<longleftrightarrow>
     survivor_owned retained setOwners owner p \<noteq> None \<and> covers (pj_address p) (length (pj_bytes p)) x"

definition live_byte :: "LivePatchOriginalMap \<Rightarrow> (u64 \<times> u64) list \<Rightarrow> DebugTargetIdentity \<Rightarrow> PjPatch list \<Rightarrow> u8 \<Rightarrow> nat \<Rightarrow> u8" where
  \<comment> \<open>the byte the surviving patches leave at an address: the last one's, or the original\<close>
  "live_byte retained setOwners owner remaining b x =
     (case List.find (survives_at retained setOwners owner x) (rev remaining) of
        Some p \<Rightarrow> pj_bytes p ! (x - unat (pj_address p))
      | None \<Rightarrow> b)"

lemma find_append: "List.find P (xs @ ys) = (case List.find P xs of None \<Rightarrow> List.find P ys | Some x \<Rightarrow> Some x)"
  by (induction xs) auto

lemma live_byte_Cons:
  "live_byte retained so owner (p # ps) b x =
     live_byte retained so owner ps (if survives_at retained so owner x p then pj_bytes p ! (x - unat (pj_address p)) else b) x"
  by (simp add: live_byte_def find_append split: option.splits)

lemma compose_step_nth:
  assumes run: "compose_step retained so owner removed va p (out, c) = Inr (out1, c1)"
    and n: "length out = length (pj_bytes removed)" "unat (pj_address removed) + length (pj_bytes removed) < 2 ^ 64"
    and m: "length (pj_bytes p) < 2 ^ 64"
  shows "length out1 = length out"
    and "i < length out \<Longrightarrow> out1 ! i =
      (if survives_at retained so owner (unat (pj_address removed) + i) p
       then pj_bytes p ! (unat (pj_address removed) + i - unat (pj_address p)) else out ! i)"
proof -
  let ?a = "pj_address removed" and ?b = "pj_address p" and ?n = "length (pj_bytes removed)" and ?m = "length (pj_bytes p)"
  have ov: "LivePatchSpansOverlap ?a ?n ?b ?m \<longleftrightarrow> (\<exists>x. covers ?a ?n x \<and> covers ?b ?m x)"
    by (rule LivePatchSpansOverlap_iff) (use n m in auto)
  have "length out1 = length out \<and> (\<forall>i < length out. out1 ! i =
      (if survives_at retained so owner (unat ?a + i) p then pj_bytes p ! (unat ?a + i - unat ?b) else out ! i))"
  proof (cases "LivePatchSpansOverlap ?a ?n ?b ?m \<and> survivor_owned retained so owner p \<noteq> None")
    case False
    then have "out1 = out"
      using run by (auto simp: compose_step_def Let_def split: if_splits option.splits)
    moreover have "\<not> survives_at retained so owner (unat ?a + i) p" if "i < length out" for i
      using False ov that n(1) by (auto simp: survives_at_def covers_def)
    ultimately show ?thesis by simp
  next
    case True
    then obtain prior where prior: "survivor_owned retained so owner p = Some prior" by auto
    let ?ob = "max ?a ?b" and ?oe = "min (?a + of_nat ?n) (?b + of_nat ?m)"
    have res: "out1 = copy_n (pj_bytes p) (unat (?ob - ?b)) (unat (?oe - ?ob)) out (unat (?ob - ?a))"
      and nowrap: "\<not> ?b > u64_max - of_nat ?m"
      using run True prior by (auto simp: compose_step_def Let_def split: if_splits)
    have um: "unat (of_nat ?m :: u64) = ?m" "unat (of_nat ?n :: u64) = ?n"
      using m n(2) by (simp_all add: unat_of_nat_u64)
    then have bm: "unat ?b + ?m < 18446744073709551616"
      using nowrap unfolding add_guard by simp
    have ends: "unat (?a + of_nat ?n) = unat ?a + ?n" "unat (?b + of_nat ?m) = unat ?b + ?m"
      using bm n(2) um by (simp_all add: unat_add_no_wrap)
    have ob: "unat ?ob = max (unat ?a) (unat ?b)" and oe: "unat ?oe = min (unat ?a + ?n) (unat ?b + ?m)"
      by (simp_all add: max_def min_def word_le_nat_alt ends)
    obtain x where "covers ?a ?n x" "covers ?b ?m x" using True ov by blast
    then have lt: "max (unat ?a) (unat ?b) < min (unat ?a + ?n) (unat ?b + ?m)"
      by (auto simp: covers_def)
    have d: "unat (?ob - ?b) = max (unat ?a) (unat ?b) - unat ?b" "unat (?ob - ?a) = max (unat ?a) (unat ?b) - unat ?a"
      "unat (?oe - ?ob) = min (unat ?a + ?n) (unat ?b + ?m) - max (unat ?a) (unat ?b)"
      using lt ob oe by (simp_all add: unat_diff_le word_le_nat_alt)
    have b1: "unat (?ob - ?b) + unat (?oe - ?ob) \<le> length (pj_bytes p)" "unat (?ob - ?a) + unat (?oe - ?ob) \<le> length out"
      unfolding d using lt n(1) by auto
    have sv: "survives_at retained so owner (unat ?a + i) p \<longleftrightarrow>
        unat (?ob - ?a) \<le> i \<and> i < unat (?ob - ?a) + unat (?oe - ?ob)" if "i < length out" for i
      unfolding survives_at_def prior covers_def d using lt that n(1) by auto
    have ix: "unat (?ob - ?b) + (i - unat (?ob - ?a)) = unat ?a + i - unat ?b"
      if "unat (?ob - ?a) \<le> i" for i
      using that unfolding d by auto
    show ?thesis
      unfolding res using copy_n_nth [OF b1] sv ix by auto
  qed
  then show "length out1 = length out"
    and "i < length out \<Longrightarrow> out1 ! i =
      (if survives_at retained so owner (unat ?a + i) p then pj_bytes p ! (unat ?a + i - unat ?b) else out ! i)"
    by blast+
qed

lemma compose_survivors_nth:
  assumes "compose_survivors retained so owner removed va ps (out, c) = Inr (out1, c1)"
    and "length out = length (pj_bytes removed)" "unat (pj_address removed) + length (pj_bytes removed) < 2 ^ 64"
    and "list_all (\<lambda>p. length (pj_bytes p) < 2 ^ 64) ps"
  shows "out1 = map (\<lambda>i. live_byte retained so owner ps (out ! i) (unat (pj_address removed) + i)) [0..<length out]"
  using assms
proof (induction ps arbitrary: out c)
  case Nil
  then show ?case by (simp add: live_byte_def) (metis map_nth)
next
  case (Cons p ps)
  obtain out2 c2 where st: "compose_step retained so owner removed va p (out, c) = Inr (out2, c2)"
    and rest: "compose_survivors retained so owner removed va ps (out2, c2) = Inr (out1, c1)"
    using Cons.prems(1) by (auto split: sum.splits)
  have m: "length (pj_bytes p) < 2 ^ 64" using Cons.prems(4) by simp
  note step = compose_step_nth [OF st Cons.prems(2,3) m]
  have "out1 = map (\<lambda>i. live_byte retained so owner ps (out2 ! i) (unat (pj_address removed) + i)) [0..<length out2]"
    using Cons.IH [OF rest] Cons.prems step(1) by simp
  then show ?case
    using step by (simp add: live_byte_Cons)
qed

lemma restoration_guard_Inr:
  assumes "restoration_guard retained so owner removed remaining = Inr orig"
  shows "map_of retained (pj_address removed) = Some orig" "DebugTargetIdentityMatches (lp_owner orig) owner"
    "map_of so (pj_address removed) = Some (patchSetId removed)" "length (lp_bytes orig) = length (pj_bytes removed)"
    "unat (pj_address removed) + length (pj_bytes removed) < 2 ^ 64"
proof -
  have small: "length (pj_bytes removed) \<le> kMaxLivePatchOriginalSpan" and nw: "\<not> pj_address removed > u64_max - of_nat (length (pj_bytes removed))"
    using assms by (auto simp: restoration_guard_def Let_def split: if_splits option.splits)
  have "unat (of_nat (length (pj_bytes removed)) :: u64) = length (pj_bytes removed)"
    using small by (intro unat_of_nat_u64) (simp add: kMaxLivePatchOriginalSpan_def)
  then show "unat (pj_address removed) + length (pj_bytes removed) < 2 ^ 64"
    using nw unfolding add_guard by simp
qed (use assms in \<open>auto simp: restoration_guard_def Let_def split: if_splits option.splits\<close>)

text \<open>C13: removing a live patch writes back exactly what the other patches leave there. When the
  restoration is planned, the retained original of this session at the removed address supplies the
  runtime address, and each byte of the removed span becomes the byte of the last remaining record
  (in application order) whose live write this session made and which covers it, or the retained
  original byte when there is none.\<close>

theorem PlanLivePatchRestoration_exact:
  assumes "PlanLivePatchRestoration retained setOwners owner removed remaining = Inr plan"
    and "list_all (\<lambda>p. length (pj_bytes p) < 2 ^ 64) remaining"
  shows "\<exists>orig. map_of retained (pj_address removed) = Some orig \<and>
    DebugTargetIdentityMatches (lp_owner orig) owner \<and> restore_runtimeVA plan = lp_runtimeVA orig \<and>
    restore_bytes plan = map (\<lambda>i. live_byte retained setOwners owner remaining (lp_bytes orig ! i)
      (unat (pj_address removed) + i)) [0..<length (pj_bytes removed)]"
proof -
  obtain orig bs c where g: "restoration_guard retained setOwners owner removed remaining = Inr orig"
    and comp: "compose_survivors retained setOwners owner removed (lp_runtimeVA orig) remaining (lp_bytes orig, 0) = Inr (bs, c)"
    and plan: "plan = \<lparr>restore_runtimeVA = lp_runtimeVA orig, restore_bytes = bs\<rparr>"
    using assms(1) by (auto simp: PlanLivePatchRestoration_def split: sum.splits prod.splits)
  note gd = restoration_guard_Inr [OF g]
  show ?thesis
    using compose_survivors_nth [OF comp gd(4,5) assms(2)] gd plan by auto
qed

definition live_owner :: DebugTargetIdentity where "live_owner = \<lparr>pid = 7, sessionGeneration = 1\<rparr>"

definition demo_retained :: LivePatchOriginalMap where
  "demo_retained = [(16, \<lparr>lp_owner = live_owner, lp_runtimeVA = 96, lp_bytes = [1, 2]\<rparr>),
     (17, \<lparr>lp_owner = live_owner, lp_runtimeVA = 97, lp_bytes = [2, 3]\<rparr>)]"

definition demo_removed :: PjPatch where
  "demo_removed = \<lparr>pj_address = 16, pj_orig = [1, 2], pj_bytes = [7, 7], patchSetId = 1\<rparr>"

definition demo_remaining :: "PjPatch list" where
  "demo_remaining = [\<lparr>pj_address = 17, pj_orig = [2, 3], pj_bytes = [8, 9], patchSetId = 2\<rparr>]"

lemma demo_restoration:
  "PlanLivePatchRestoration demo_retained [(16, 1), (17, 2)] live_owner demo_removed demo_remaining =
     Inr \<lparr>restore_runtimeVA = 96, restore_bytes = [1, 8]\<rparr>"
  by (simp add: PlanLivePatchRestoration_def restoration_guard_def identity_valid_def live_owner_def demo_retained_def
      demo_removed_def demo_remaining_def DebugTargetIdentityMatches_def kMaxLivePatchOriginalSpan_def
      kMaxLivePatchOriginalBytes_def kMaxPatchSetRecords_def kMaxLivePatchOriginalRecords_def compose_step_def
      LivePatchSpansOverlap_def survivor_owned_def copy_n_def)

lemma PlanLivePatchRestoration_exact_witness:
  "\<exists>orig. map_of demo_retained (pj_address demo_removed) = Some orig \<and>
    DebugTargetIdentityMatches (lp_owner orig) live_owner \<and> 96 = lp_runtimeVA orig \<and>
    [1, 8] = map (\<lambda>i. live_byte demo_retained [(16, 1), (17, 2)] live_owner demo_remaining (lp_bytes orig ! i)
      (unat (pj_address demo_removed) + i)) [0..<length (pj_bytes demo_removed)]"
  using PlanLivePatchRestoration_exact [OF demo_restoration] by (simp add: demo_remaining_def)

end
