(* ===== verification/Json.thy ===== *)
theory Json
  imports C_Lib "HOL-Library.Sublist"
begin

unbundle bit_operations_syntax

text \<open>
  \<open>src/src/Core/Json.h\<close> and \<open>Json.cpp\<close>: the JSON value, the serializer and the bounded parser. A
  \<open>double\<close> is a parameter type with the operations the code takes from the C library on it
  (\<open>strtod\<close>, the conversion of whole numbers, \<open>%.17g\<close>). Text is a list of bytes. The parser is
  modelled with fuel, so that running out of it is a value of its own; \<open>parse_value_enough\<close> shows
  that the fuel \<open>Parse\<close> gives never runs out. Allocation failure is outside the model.
\<close>

section \<open>Values\<close>

datatype 'd Value =
    Null
  | Bool bool
  | Num 'd
  | Str string
  | Arr "'d Value list"
  | Obj "(string \<times> 'd Value) list"

record 'd double_ops =
  d_strtod :: "string \<Rightarrow> 'd option"        \<comment> \<open>the whole token as a finite double\<close>
  d_finite :: "'d \<Rightarrow> bool"
  d_whole :: "'d \<Rightarrow> int option"             \<comment> \<open>the integer value when it is whole and below 9e15 in magnitude\<close>
  d_g17 :: "'d \<Rightarrow> string"                    \<comment> \<open>\<open>%.17g\<close>\<close>
  d_trunc :: "'d \<Rightarrow> int"                     \<comment> \<open>the conversion to \<open>long long\<close>\<close>

fun set_field :: "(string \<times> 'd Value) list \<Rightarrow> string \<Rightarrow> 'd Value \<Rightarrow> (string \<times> 'd Value) list" where
  "set_field [] k v = [(k, v)]"
| "set_field (kv # kvs) k v = (if fst kv = k then (fst kv, v) # kvs else kv # set_field kvs k v)"

fun Value_obj :: "'d Value \<Rightarrow> (string \<times> 'd Value) list" where
  "Value_obj (Obj kvs) = kvs"
| "Value_obj _ = []"

definition Value_set :: "'d Value \<Rightarrow> string \<Rightarrow> 'd Value \<Rightarrow> 'd Value" where
  \<comment> \<open>\<open>Value::set\<close>; a value that is no object becomes one\<close>
  "Value_set x k v = Obj (set_field (Value_obj x) k v)"

definition Value_find :: "'d Value \<Rightarrow> string \<Rightarrow> 'd Value option" where
  "Value_find x k = map_option snd (List.find (\<lambda>kv. fst kv = k) (Value_obj x))"

fun asStr :: "'d Value \<Rightarrow> string \<Rightarrow> string" where
  "asStr (Str s) d = s"
| "asStr _ d = d"

fun asBool :: "'d Value \<Rightarrow> bool \<Rightarrow> bool" where
  "asBool (Bool b) d = b"
| "asBool _ d = d"

fun asInt :: "'d double_ops \<Rightarrow> 'd Value \<Rightarrow> int \<Rightarrow> int" where
  "asInt dbl (Num n) d = d_trunc dbl n"
| "asInt dbl _ d = d"

definition getStr :: "'d Value \<Rightarrow> string \<Rightarrow> string \<Rightarrow> string" where
  "getStr x k d = (case Value_find x k of Some v \<Rightarrow> asStr v d | None \<Rightarrow> d)"

definition getBool :: "'d Value \<Rightarrow> string \<Rightarrow> bool \<Rightarrow> bool" where
  "getBool x k d = (case Value_find x k of Some v \<Rightarrow> asBool v d | None \<Rightarrow> d)"

definition getInt :: "'d double_ops \<Rightarrow> 'd Value \<Rightarrow> string \<Rightarrow> int \<Rightarrow> int" where
  "getInt dbl x k d = (case Value_find x k of Some v \<Rightarrow> asInt dbl v d | None \<Rightarrow> d)"

section \<open>Serializing\<close>

abbreviation code :: "char \<Rightarrow> nat" where
  "code c \<equiv> of_char c"

definition hex_char :: "nat \<Rightarrow> char" where
  "hex_char d = char_of (if d < 10 then 48 + d else 87 + d)"

definition escape_char :: "char \<Rightarrow> string" where
  "escape_char c =
     (if code c = 0x22 then [CHR 0x5C, CHR 0x22]
      else if code c = 0x5C then [CHR 0x5C, CHR 0x5C]
      else if code c = 0x0A then [CHR 0x5C, CHR ''n'']
      else if code c = 0x0D then [CHR 0x5C, CHR ''r'']
      else if code c = 0x09 then [CHR 0x5C, CHR ''t'']
      else if code c = 0x08 then [CHR 0x5C, CHR ''b'']
      else if code c = 0x0C then [CHR 0x5C, CHR ''f'']
      else if code c < 0x20 then [CHR 0x5C, CHR ''u'', CHR ''0'', CHR ''0'', hex_char (code c div 16), hex_char (code c mod 16)]
      else [c])"

definition escape :: "string \<Rightarrow> string" where
  "escape s = CHR 0x22 # concat (map escape_char s) @ [CHR 0x22]"

definition dec_int :: "int \<Rightarrow> string" where
  "dec_int i = (if i < 0 then CHR ''-'' # dec (nat (- i)) else dec (nat i))"

definition numToStr :: "'d double_ops \<Rightarrow> 'd \<Rightarrow> string" where
  "numToStr dbl n =
     (if \<not> d_finite dbl n then ''0''
      else case d_whole dbl n of Some i \<Rightarrow> dec_int i | None \<Rightarrow> d_g17 dbl n)"

definition indent :: "bool \<Rightarrow> nat \<Rightarrow> string" where
  "indent pretty d = (if pretty then CHR 0x0A # replicate (d * 2) CHR '' '' else [])"

fun dump :: "'d double_ops \<Rightarrow> bool \<Rightarrow> nat \<Rightarrow> 'd Value \<Rightarrow> string"
  and dump_elems :: "'d double_ops \<Rightarrow> bool \<Rightarrow> nat \<Rightarrow> bool \<Rightarrow> 'd Value list \<Rightarrow> string"
  and dump_members :: "'d double_ops \<Rightarrow> bool \<Rightarrow> nat \<Rightarrow> bool \<Rightarrow> (string \<times> 'd Value) list \<Rightarrow> string" where
  "dump dbl pretty d Null = ''null''"
| "dump dbl pretty d (Bool b) = (if b then ''true'' else ''false'')"
| "dump dbl pretty d (Num n) = numToStr dbl n"
| "dump dbl pretty d (Str s) = escape s"
| "dump dbl pretty d (Arr xs) =
     (if xs = [] then ''[]'' else ''['' @ dump_elems dbl pretty d True xs @ indent pretty d @ '']'')"
| "dump dbl pretty d (Obj kvs) =
     (if kvs = [] then ''{}'' else ''{'' @ dump_members dbl pretty d True kvs @ indent pretty d @ ''}'')"
| "dump_elems dbl pretty d first [] = []"
| "dump_elems dbl pretty d first (x # xs) =
     (if first then [] else '','') @ indent pretty (d + 1) @ dump dbl pretty (d + 1) x @ dump_elems dbl pretty d False xs"
| "dump_members dbl pretty d first [] = []"
| "dump_members dbl pretty d first (kv # kvs) =
     (if first then [] else '','') @ indent pretty (d + 1) @ escape (fst kv) @ (if pretty then '': '' else '':'') @
     dump dbl pretty (d + 1) (snd kv) @ dump_members dbl pretty d False kvs"

definition Dump :: "'d double_ops \<Rightarrow> 'd Value \<Rightarrow> bool \<Rightarrow> string" where
  "Dump dbl v pretty = dump dbl pretty 0 v"

section \<open>Scanning\<close>

record JsonParseLimits =
  maxDepth :: nat
  maxNodes :: nat
  maxStringBytes :: nat
  maxContainerEntries :: nat
  maxStringTokenBytes :: nat
  maxNumberTokenBytes :: nat

definition default_limits :: JsonParseLimits where
  "default_limits = \<lparr>maxDepth = 200, maxNodes = 1000000, maxStringBytes = 64 * 1024 * 1024,
     maxContainerEntries = 131072, maxStringTokenBytes = 1024 * 1024, maxNumberTokenBytes = 128\<rparr>"

definition is_ws :: "char \<Rightarrow> bool" where
  "is_ws c \<longleftrightarrow> code c = 32 \<or> code c = 9 \<or> code c = 10 \<or> code c = 13"

definition skipWs :: "string \<Rightarrow> string" where
  "skipWs s = dropWhile is_ws s"

definition lit :: "string \<Rightarrow> string \<Rightarrow> string option" where
  "lit w s = (if take (length w) s = w then Some (drop (length w) s) else None)"

text \<open>The number scanner: the pair is the count of characters taken and the rest of the text.\<close>

definition starts :: "(char \<Rightarrow> bool) \<Rightarrow> string \<Rightarrow> bool" where
  "starts P s = (case s of [] \<Rightarrow> False | c # _ \<Rightarrow> P c)"

definition take_char :: "JsonParseLimits \<Rightarrow> nat \<times> string \<Rightarrow> (nat \<times> string) option" where
  "take_char lim p = (if fst p \<ge> maxNumberTokenBytes lim then None else Some (fst p + 1, tl (snd p)))"

fun take_digits :: "JsonParseLimits \<Rightarrow> nat \<Rightarrow> string \<Rightarrow> (nat \<times> string) option" where
  "take_digits lim k [] = Some (k, [])"
| "take_digits lim k (c # cs) =
     (if c_isdigit c then if k \<ge> maxNumberTokenBytes lim then None else take_digits lim (k + 1) cs
      else Some (k, c # cs))"

definition scan_sign :: "JsonParseLimits \<Rightarrow> nat \<times> string \<Rightarrow> (nat \<times> string) option" where
  "scan_sign lim p = (if starts (\<lambda>c. c = CHR ''-'') (snd p) then take_char lim p else Some p)"

definition scan_integer :: "JsonParseLimits \<Rightarrow> nat \<times> string \<Rightarrow> (nat \<times> string) option" where
  "scan_integer lim p =
     (if starts (\<lambda>c. c = CHR ''0'') (snd p) then
        (case take_char lim p of None \<Rightarrow> None
         | Some q \<Rightarrow> if starts c_isdigit (snd q) then None else Some q)
      else if starts c_isdigit (snd p) then take_digits lim (fst p) (snd p)
      else None)"

definition scan_fraction :: "JsonParseLimits \<Rightarrow> nat \<times> string \<Rightarrow> (nat \<times> string) option" where
  "scan_fraction lim p =
     (if starts (\<lambda>c. c = CHR ''.'') (snd p) then
        (case take_char lim p of None \<Rightarrow> None
         | Some q \<Rightarrow> if starts c_isdigit (snd q) then take_digits lim (fst q) (snd q) else None)
      else Some p)"

definition scan_exponent :: "JsonParseLimits \<Rightarrow> nat \<times> string \<Rightarrow> (nat \<times> string) option" where
  "scan_exponent lim p =
     (if starts (\<lambda>c. c = CHR ''e'' \<or> c = CHR ''E'') (snd p) then
        (case take_char lim p of None \<Rightarrow> None
         | Some q \<Rightarrow>
             case (if starts (\<lambda>c. c = CHR ''+'' \<or> c = CHR ''-'') (snd q) then take_char lim q else Some q) of
               None \<Rightarrow> None
             | Some r \<Rightarrow> if starts c_isdigit (snd r) then take_digits lim (fst r) (snd r) else None)
      else Some p)"

definition scan_number :: "JsonParseLimits \<Rightarrow> string \<Rightarrow> (nat \<times> string) option" where
  "scan_number lim s =
     Option.bind (scan_sign lim (0, s)) (\<lambda>p. Option.bind (scan_integer lim p)
       (\<lambda>q. Option.bind (scan_fraction lim q) (scan_exponent lim)))"

definition parseNumber :: "'d double_ops \<Rightarrow> JsonParseLimits \<Rightarrow> string \<Rightarrow> ('d \<times> string) option" where
  "parseNumber dbl lim s =
     (case scan_number lim s of None \<Rightarrow> None
      | Some (k, rest) \<Rightarrow> (case d_strtod dbl (take k s) of None \<Rightarrow> None | Some d \<Rightarrow> Some (d, rest)))"

section \<open>Strings\<close>

definition hex4 :: "string \<Rightarrow> (nat \<times> string) option" where
  "hex4 s =
     (if length s < 4 then None
      else case (hex_digit (s ! 0), hex_digit (s ! 1), hex_digit (s ! 2), hex_digit (s ! 3)) of
        (Some a, Some b, Some c, Some d) \<Rightarrow> Some (((a * 16 + b) * 16 + c) * 16 + d, drop 4 s)
      | _ \<Rightarrow> None)"

definition unicode_escape :: "string \<Rightarrow> (nat \<times> string) option" where
  \<comment> \<open>after \<open>\u\<close>: the code point of one unit or of a surrogate pair\<close>
  "unicode_escape s =
     (case hex4 s of None \<Rightarrow> None
      | Some (cp, rest) \<Rightarrow>
          if 0xDC00 \<le> cp \<and> cp \<le> 0xDFFF then None
          else if 0xD800 \<le> cp \<and> cp \<le> 0xDBFF then
            if length rest < 6 \<or> rest ! 0 \<noteq> CHR 0x5C \<or> rest ! 1 \<noteq> CHR ''u'' then None
            else (case hex4 (drop 2 rest) of None \<Rightarrow> None
              | Some (lo, rest2) \<Rightarrow>
                  if lo < 0xDC00 \<or> lo > 0xDFFF then None
                  else Some (0x10000 + (cp - 0xD800) * 1024 + (lo - 0xDC00), rest2))
          else Some (cp, rest))"

definition utf8 :: "nat \<Rightarrow> string" where
  "utf8 cp =
     (if cp < 0x80 then [char_of cp]
      else if cp < 0x800 then [char_of (0xC0 OR drop_bit 6 cp), char_of (0x80 OR (cp AND 0x3F))]
      else if cp < 0x10000 then
        [char_of (0xE0 OR drop_bit 12 cp), char_of (0x80 OR (drop_bit 6 cp AND 0x3F)), char_of (0x80 OR (cp AND 0x3F))]
      else
        [char_of (0xF0 OR drop_bit 18 cp), char_of (0x80 OR (drop_bit 12 cp AND 0x3F)),
         char_of (0x80 OR (drop_bit 6 cp AND 0x3F)), char_of (0x80 OR (cp AND 0x3F))])"

text \<open>The decoded string and the total of decoded string bytes so far.\<close>

definition appendByte :: "JsonParseLimits \<Rightarrow> char \<Rightarrow> string \<times> nat \<Rightarrow> (string \<times> nat) option" where
  "appendByte lim b acc =
     (if snd acc \<ge> maxStringBytes lim \<or> length (fst acc) \<ge> maxStringTokenBytes lim then None
      else Some (fst acc @ [b], snd acc + 1))"

definition appendCodePoint :: "JsonParseLimits \<Rightarrow> nat \<Rightarrow> string \<times> nat \<Rightarrow> (string \<times> nat) option" where
  "appendCodePoint lim cp acc =
     (let encoded = utf8 cp; count = length encoded
      in if count > maxStringBytes lim \<or> snd acc > maxStringBytes lim - count \<or>
            count > maxStringTokenBytes lim \<or> length (fst acc) > maxStringTokenBytes lim - count then None
         else Some (fst acc @ encoded, snd acc + count))"

definition simple_escape :: "char \<Rightarrow> char option" where
  "simple_escape e =
     (if e = CHR 0x22 \<or> e = CHR 0x5C \<or> e = CHR ''/'' then Some e
      else if e = CHR ''n'' then Some (CHR 0x0A)
      else if e = CHR ''t'' then Some (CHR 0x09)
      else if e = CHR ''r'' then Some (CHR 0x0D)
      else if e = CHR ''b'' then Some (CHR 0x08)
      else if e = CHR ''f'' then Some (CHR 0x0C)
      else None)"

definition parse_escape :: "JsonParseLimits \<Rightarrow> string \<Rightarrow> string \<times> nat \<Rightarrow> ((string \<times> nat) \<times> string) option" where
  \<comment> \<open>after the backslash\<close>
  "parse_escape lim s acc =
     (case s of [] \<Rightarrow> None
      | e # es \<Rightarrow>
          if e = CHR ''u'' then
            (case unicode_escape es of None \<Rightarrow> None
             | Some (cp, rest) \<Rightarrow> map_option (\<lambda>a. (a, rest)) (appendCodePoint lim cp acc))
          else case simple_escape e of None \<Rightarrow> None
             | Some b \<Rightarrow> map_option (\<lambda>a. (a, es)) (appendByte lim b acc))"

lemma hex4_shorter: "hex4 s = Some (n, rest) \<Longrightarrow> length rest < length s"
  by (auto simp: hex4_def split: if_splits option.splits)

lemma unicode_escape_shorter: "unicode_escape s = Some (n, rest) \<Longrightarrow> length rest < length s"
  by (auto simp: unicode_escape_def split: option.splits if_splits dest!: hex4_shorter)

lemma parse_escape_shorter: "parse_escape lim s acc = Some (a, rest) \<Longrightarrow> length rest < length s"
  by (auto simp: parse_escape_def split: list.splits if_splits option.splits dest!: unicode_escape_shorter)

function parse_chars :: "JsonParseLimits \<Rightarrow> nat \<Rightarrow> string \<times> nat \<Rightarrow> string \<Rightarrow> ((string \<times> nat) \<times> string) option" where
  \<comment> \<open>the characters after the opening quote; \<open>pos\<close> is \<open>p - tokenStart\<close>\<close>
  "parse_chars lim pos acc [] = None"
| "parse_chars lim pos acc (c # cs) =
     (if pos \<ge> maxStringTokenBytes lim \<and> c \<noteq> CHR 0x22 then None
      else if c = CHR 0x22 then
        (if pos \<le> maxStringTokenBytes lim \<and> length (fst acc) \<le> maxStringTokenBytes lim then Some (acc, cs) else None)
      else if c = CHR 0x5C then
        (case parse_escape lim cs acc of None \<Rightarrow> None
         | Some (acc1, rest) \<Rightarrow> parse_chars lim (pos + 1 + (length cs - length rest)) acc1 rest)
      else if code c < 0x20 then None
      else case appendByte lim c acc of None \<Rightarrow> None
         | Some acc1 \<Rightarrow> parse_chars lim (pos + 1) acc1 cs)"
  by pat_completeness auto
termination
  by (relation "measure (\<lambda>(lim, pos, acc, s). length s)") (auto dest: parse_escape_shorter)

definition parseString :: "JsonParseLimits \<Rightarrow> nat \<Rightarrow> string \<Rightarrow> (string \<times> nat \<times> string) option" where
  \<comment> \<open>the string, the total of decoded bytes, the rest\<close>
  "parseString lim sb s =
     (if \<not> starts (\<lambda>c. c = CHR 0x22) s then None
      else map_option (\<lambda>(acc, rest). (fst acc, snd acc, rest)) (parse_chars lim 0 ([], sb) (tl s)))"

section \<open>Parsing values\<close>

datatype 'a outcome = Done 'a | Fail | OutOfFuel

fun and_then :: "'a outcome \<Rightarrow> ('a \<Rightarrow> 'b outcome) \<Rightarrow> 'b outcome" where
  "and_then (Done x) f = f x"
| "and_then Fail f = Fail"
| "and_then OutOfFuel f = OutOfFuel"

lemma and_then_Done: "and_then r f = Done y \<longleftrightarrow> (\<exists>x. r = Done x \<and> f x = Done y)"
  by (cases r) auto

lemma and_then_OutOfFuel: "and_then r f = OutOfFuel \<longleftrightarrow> r = OutOfFuel \<or> (\<exists>x. r = Done x \<and> f x = OutOfFuel)"
  by (cases r) auto

text \<open>A result is the value with the node count, the string byte count and the rest of the text.\<close>

definition lit_value :: "string \<Rightarrow> 'v \<Rightarrow> nat \<Rightarrow> nat \<Rightarrow> string \<Rightarrow> ('v \<times> nat \<times> nat \<times> string) outcome" where
  "lit_value w v n sb s = (case lit w s of None \<Rightarrow> Fail | Some rest \<Rightarrow> Done (v, n, sb, rest))"

type_synonym 'v parsed = "('v \<times> nat \<times> nat \<times> string) outcome"

text \<open>The bodies, over the functions for the parts. A part parser takes the depth, the elements so far
  (for the loops), the two counters and the text.\<close>

definition value_step :: "'d double_ops \<Rightarrow> JsonParseLimits \<Rightarrow>
    (nat \<Rightarrow> (string \<times> 'd Value) list \<Rightarrow> nat \<Rightarrow> nat \<Rightarrow> string \<Rightarrow> (string \<times> 'd Value) list parsed) \<Rightarrow>
    (nat \<Rightarrow> 'd Value list \<Rightarrow> nat \<Rightarrow> nat \<Rightarrow> string \<Rightarrow> 'd Value list parsed) \<Rightarrow>
    nat \<Rightarrow> nat \<Rightarrow> nat \<Rightarrow> string \<Rightarrow> 'd Value parsed" where
  "value_step dbl lim members elems depth n sb s =
     (let t = skipWs s in
      if t = [] then Fail
      else if n \<ge> maxNodes lim then Fail
      else if hd t = CHR ''{'' then
        (if depth \<ge> maxDepth lim then Fail
         else let u = skipWs (tl t) in
           if starts (\<lambda>c. c = CHR ''}'') u then Done (Obj [], n + 1, sb, tl u)
           else and_then (members (depth + 1) [] (n + 1) sb u) (\<lambda>(kvs, r). Done (Obj kvs, r)))
      else if hd t = CHR ''['' then
        (if depth \<ge> maxDepth lim then Fail
         else let u = skipWs (tl t) in
           if starts (\<lambda>c. c = CHR '']'') u then Done (Arr [], n + 1, sb, tl u)
           else and_then (elems (depth + 1) [] (n + 1) sb u) (\<lambda>(xs, r). Done (Arr xs, r)))
      else if hd t = CHR 0x22 then
        (case parseString lim sb t of None \<Rightarrow> Fail | Some (str, sb1, rest) \<Rightarrow> Done (Str str, n + 1, sb1, rest))
      else if hd t = CHR ''t'' then lit_value ''true'' (Bool True) (n + 1) sb t
      else if hd t = CHR ''f'' then lit_value ''false'' (Bool False) (n + 1) sb t
      else if hd t = CHR ''n'' then lit_value ''null'' Null (n + 1) sb t
      else (case parseNumber dbl lim t of None \<Rightarrow> Fail | Some (d, rest) \<Rightarrow> Done (Num d, n + 1, sb, rest)))"

definition elems_step :: "JsonParseLimits \<Rightarrow> (nat \<Rightarrow> nat \<Rightarrow> nat \<Rightarrow> string \<Rightarrow> 'd Value parsed) \<Rightarrow>
    (nat \<Rightarrow> 'd Value list \<Rightarrow> nat \<Rightarrow> nat \<Rightarrow> string \<Rightarrow> 'd Value list parsed) \<Rightarrow>
    nat \<Rightarrow> 'd Value list \<Rightarrow> nat \<Rightarrow> nat \<Rightarrow> string \<Rightarrow> 'd Value list parsed" where
  \<comment> \<open>one round of the loop of \<open>parseArray\<close>\<close>
  "elems_step lim val elems depth acc n sb s =
     (if length acc \<ge> maxContainerEntries lim then Fail
      else and_then (val depth n sb s) (\<lambda>(v, n1, sb1, s1).
        let t = skipWs s1 in
        if starts (\<lambda>c. c = CHR '','') t then elems depth (acc @ [v]) n1 sb1 (tl t)
        else if starts (\<lambda>c. c = CHR '']'') t then Done (acc @ [v], n1, sb1, tl t)
        else Fail))"

definition members_step :: "JsonParseLimits \<Rightarrow> (nat \<Rightarrow> nat \<Rightarrow> nat \<Rightarrow> string \<Rightarrow> 'd Value parsed) \<Rightarrow>
    (nat \<Rightarrow> (string \<times> 'd Value) list \<Rightarrow> nat \<Rightarrow> nat \<Rightarrow> string \<Rightarrow> (string \<times> 'd Value) list parsed) \<Rightarrow>
    nat \<Rightarrow> (string \<times> 'd Value) list \<Rightarrow> nat \<Rightarrow> nat \<Rightarrow> string \<Rightarrow> (string \<times> 'd Value) list parsed" where
  \<comment> \<open>one round of the loop of \<open>parseObject\<close>\<close>
  "members_step lim val members depth acc n sb s =
     (if length acc \<ge> maxContainerEntries lim then Fail
      else case parseString lim sb (skipWs s) of None \<Rightarrow> Fail
      | Some (key, sb0, s0) \<Rightarrow>
          if key \<in> set (map fst acc) then Fail
          else let u = skipWs s0 in
            if \<not> starts (\<lambda>c. c = CHR '':'') u then Fail
            else and_then (val depth n sb0 (tl u)) (\<lambda>(v, n1, sb1, s1).
              let t = skipWs s1 in
              if starts (\<lambda>c. c = CHR '','') t then members depth (acc @ [(key, v)]) n1 sb1 (tl t)
              else if starts (\<lambda>c. c = CHR ''}'') t then Done (acc @ [(key, v)], n1, sb1, tl t)
              else Fail))"

fun parse_value :: "'d double_ops \<Rightarrow> JsonParseLimits \<Rightarrow> nat \<Rightarrow> nat \<Rightarrow> nat \<Rightarrow> nat \<Rightarrow> string \<Rightarrow> 'd Value parsed"
  and parse_elems :: "'d double_ops \<Rightarrow> JsonParseLimits \<Rightarrow> nat \<Rightarrow> nat \<Rightarrow> 'd Value list \<Rightarrow> nat \<Rightarrow> nat \<Rightarrow> string \<Rightarrow> 'd Value list parsed"
  and parse_members :: "'d double_ops \<Rightarrow> JsonParseLimits \<Rightarrow> nat \<Rightarrow> nat \<Rightarrow> (string \<times> 'd Value) list \<Rightarrow> nat \<Rightarrow> nat \<Rightarrow> string \<Rightarrow>
      (string \<times> 'd Value) list parsed" where
  "parse_value dbl lim 0 = (\<lambda>depth n sb s. OutOfFuel)"
| "parse_value dbl lim (Suc f) = value_step dbl lim (parse_members dbl lim f) (parse_elems dbl lim f)"
| "parse_elems dbl lim 0 = (\<lambda>depth acc n sb s. OutOfFuel)"
| "parse_elems dbl lim (Suc f) = elems_step lim (parse_value dbl lim f) (parse_elems dbl lim f)"
| "parse_members dbl lim 0 = (\<lambda>depth acc n sb s. OutOfFuel)"
| "parse_members dbl lim (Suc f) = members_step lim (parse_value dbl lim f) (parse_members dbl lim f)"

definition limits_set :: "JsonParseLimits \<Rightarrow> bool" where
  "limits_set lim \<longleftrightarrow> \<not> (maxDepth lim = 0 \<or> maxNodes lim = 0 \<or> maxStringBytes lim = 0 \<or>
     maxContainerEntries lim = 0 \<or> maxStringTokenBytes lim = 0 \<or> maxNumberTokenBytes lim = 0)"

definition Parse :: "'d double_ops \<Rightarrow> string \<Rightarrow> JsonParseLimits \<Rightarrow> 'd Value option" where
  "Parse dbl text lim =
     (if \<not> limits_set lim then None
      else case parse_value dbl lim (2 * length text + 1) 0 0 0 text of
        Done (v, _, _, rest) \<Rightarrow> if skipWs rest = [] then Some v else None
      | _ \<Rightarrow> None)"

declare parse_value.simps [simp del] parse_elems.simps [simp del] parse_members.simps [simp del]

section \<open>The fuel suffices\<close>

lemma skipWs_length: "length (skipWs s) \<le> length s"
  by (simp add: skipWs_def length_dropWhile_le)

lemma starts_tl: "starts P s \<Longrightarrow> length (tl s) < length s"
  by (cases s) (auto simp: starts_def)

lemma starts_Nil [simp]: "\<not> starts P []"
  by (simp add: starts_def)

lemma starts_Cons [simp]: "starts P (c # cs) \<longleftrightarrow> P c"
  by (simp add: starts_def)

text \<open>Scanner positions are positions of the text; every stage moves forward.\<close>

definition at_pos :: "string \<Rightarrow> nat \<times> string \<Rightarrow> bool" where
  "at_pos s p \<longleftrightarrow> fst p \<le> length s \<and> snd p = drop (fst p) s"

lemma take_char_pos:
  "at_pos s p \<Longrightarrow> snd p \<noteq> [] \<Longrightarrow> take_char lim p = Some q \<Longrightarrow> at_pos s q \<and> fst q = fst p + 1"
  by (auto simp: at_pos_def take_char_def tl_drop drop_Suc split: if_splits)

lemma take_digits_pos:
  "at_pos s (k, r) \<Longrightarrow> take_digits lim k r = Some q \<Longrightarrow> at_pos s q \<and> k \<le> fst q \<and> (starts c_isdigit r \<longrightarrow> k < fst q)"
proof (induction lim k r rule: take_digits.induct)
  case (2 lim k c cs)
  show ?case
  proof (cases "c_isdigit c")
    case True
    have "drop (Suc k) s = cs" "Suc k \<le> length s"
      using 2(2) by (auto simp: at_pos_def) (metis drop_Suc list.sel(3) tl_drop, metis Suc_leI drop_eq_Nil linorder_not_less list.distinct(1))
    then have "at_pos s (k + 1, cs)" by (simp add: at_pos_def)
    then show ?thesis using 2 True by (auto split: if_splits)
  next
    case False
    then show ?thesis using 2 by auto
  qed
qed auto

lemma take_digits_stage:
  "at_pos s p \<Longrightarrow> starts c_isdigit (snd p) \<Longrightarrow> take_digits lim (fst p) (snd p) = Some q \<Longrightarrow> at_pos s q \<and> fst p < fst q"
  using take_digits_pos [of s "fst p" "snd p" lim q] by simp

lemma take_char_stage:
  "at_pos s p \<Longrightarrow> starts P (snd p) \<Longrightarrow> take_char lim p = Some q \<Longrightarrow> at_pos s q \<and> fst q = fst p + 1"
  by (rule take_char_pos) auto

lemma scan_sign_pos: "at_pos s p \<Longrightarrow> scan_sign lim p = Some q \<Longrightarrow> at_pos s q \<and> fst p \<le> fst q"
  using take_char_stage [of s p "\<lambda>c. c = CHR ''-''" lim q] by (simp add: scan_sign_def split: if_splits)

lemma scan_integer_pos:
  assumes "at_pos s p" "scan_integer lim p = Some q"
  shows "at_pos s q \<and> fst p < fst q"
proof (cases "starts (\<lambda>c. c = CHR ''0'') (snd p)")
  case True
  then have "take_char lim p = Some q"
    using assms(2) by (simp add: scan_integer_def split: option.splits if_splits)
  then show ?thesis using take_char_stage [OF assms(1) True] by simp
next
  case False
  then have "starts c_isdigit (snd p)" "take_digits lim (fst p) (snd p) = Some q"
    using assms(2) by (simp_all add: scan_integer_def split: if_splits)
  then show ?thesis using take_digits_stage [OF assms(1)] by simp
qed

lemma scan_fraction_pos:
  assumes "at_pos s p" "scan_fraction lim p = Some q"
  shows "at_pos s q \<and> fst p \<le> fst q"
proof (cases "starts (\<lambda>c. c = CHR ''.'') (snd p)")
  case True
  then obtain p1 where p1: "take_char lim p = Some p1" "starts c_isdigit (snd p1)" "take_digits lim (fst p1) (snd p1) = Some q"
    using assms(2) by (auto simp: scan_fraction_def split: option.splits if_splits)
  note t = take_char_stage [OF assms(1) True p1(1)]
  show ?thesis using t take_digits_stage [OF conjunct1 [OF t] p1(2,3)] by simp
qed (use assms in \<open>auto simp: scan_fraction_def\<close>)

lemma scan_exponent_pos:
  assumes "at_pos s p" "scan_exponent lim p = Some q"
  shows "at_pos s q \<and> fst p \<le> fst q"
proof (cases "starts (\<lambda>c. c = CHR ''e'' \<or> c = CHR ''E'') (snd p)")
  case True
  then obtain p1 p2 where p1: "take_char lim p = Some p1"
      "(if starts (\<lambda>c. c = CHR ''+'' \<or> c = CHR ''-'') (snd p1) then take_char lim p1 else Some p1) = Some p2"
      "starts c_isdigit (snd p2)" "take_digits lim (fst p2) (snd p2) = Some q"
    using assms(2) by (auto simp: scan_exponent_def split: option.splits if_splits)
  note t = take_char_stage [OF assms(1) True p1(1)]
  have u: "at_pos s p2 \<and> fst p1 \<le> fst p2"
    using p1(2) t take_char_stage [OF conjunct1 [OF t]] by (auto split: if_splits)
  show ?thesis using t u take_digits_stage [OF conjunct1 [OF u] p1(3,4)] by simp
qed (use assms in \<open>auto simp: scan_exponent_def\<close>)

lemmas scan_stage_pos = scan_sign_pos scan_integer_pos scan_fraction_pos scan_exponent_pos

lemma scan_number_pos:
  assumes "scan_number lim s = Some (k, r)"
  shows "0 < k" "k \<le> length s" "r = drop k s"
proof -
  obtain p1 p2 p3 where st: "scan_sign lim (0, s) = Some p1" "scan_integer lim p1 = Some p2" "scan_fraction lim p2 = Some p3"
    "scan_exponent lim p3 = Some (k, r)"
    using assms by (auto simp: scan_number_def bind_eq_Some_conv)
  have "at_pos s (0, s)" by (simp add: at_pos_def)
  note s1 = scan_stage_pos(1) [OF this st(1)]
  note s2 = scan_stage_pos(2) [OF conjunct1 [OF s1] st(2)]
  note s3 = scan_stage_pos(3) [OF conjunct1 [OF s2] st(3)]
  note s4 = scan_stage_pos(4) [OF conjunct1 [OF s3] st(4)]
  have "0 < k \<and> at_pos s (k, r)"
    using s2 s3 s4 by simp
  then show "0 < k" "k \<le> length s" "r = drop k s" by (auto simp: at_pos_def)
qed

lemma parseNumber_shorter: "parseNumber dbl lim s = Some (d, r) \<Longrightarrow> length r < length s"
  using scan_number_pos [of lim s] by (fastforce simp: parseNumber_def split: option.splits prod.splits)

lemma parse_chars_shorter: "parse_chars lim pos acc s = Some (a, r) \<Longrightarrow> length r < length s"
proof (induction lim pos acc s rule: parse_chars.induct)
  case (2 lim pos acc c cs)
  show ?case
  proof (cases "c = CHR 0x5C")
    case True
    then obtain acc1 rest where esc: "parse_escape lim cs acc = Some (acc1, rest)"
      and go: "parse_chars lim (pos + 1 + (length cs - length rest)) acc1 rest = Some (a, r)"
      using 2(3) by (auto split: if_splits option.splits)
    have "length r < length rest"
      using 2(1) [OF _ _ True esc refl go] 2(3) True by (auto split: if_splits)
    with parse_escape_shorter [OF esc] show ?thesis by simp
  next
    case False
    then show ?thesis using 2 by (auto split: if_splits option.splits)
  qed
qed simp

lemma parseString_shorter: "parseString lim sb s = Some (str, sb1, r) \<Longrightarrow> length r < length s"
  by (cases s) (auto simp: parseString_def split: if_splits dest: parse_chars_shorter)

lemma lit_value_Done: "lit_value w v n sb s = Done (v1, n1, sb1, r) \<longleftrightarrow> lit w s = Some r \<and> v1 = v \<and> n1 = n \<and> sb1 = sb"
  by (auto simp: lit_value_def split: option.splits)

lemma lit_shorter: "w \<noteq> [] \<Longrightarrow> lit w s = Some r \<Longrightarrow> length r < length s"
  by (auto simp: lit_def split: if_splits intro!: diff_less)

lemma lit_value_not_OutOfFuel [simp]: "lit_value w v n sb s \<noteq> OutOfFuel"
  by (simp add: lit_value_def split: option.split)

text \<open>A part parser shortens the text; it has fuel for texts up to a length.\<close>

definition shortens :: "(string \<Rightarrow> ('v \<times> nat \<times> nat \<times> string) outcome) \<Rightarrow> bool" where
  "shortens g \<longleftrightarrow> (\<forall>s v n sb r. g s = Done (v, n, sb, r) \<longrightarrow> length r < length s)"

definition fuelled :: "nat \<Rightarrow> (string \<Rightarrow> ('v \<times> nat \<times> nat \<times> string) outcome) \<Rightarrow> bool" where
  "fuelled L g \<longleftrightarrow> (\<forall>s. length s \<le> L \<longrightarrow> g s \<noteq> OutOfFuel)"

lemma shortensD: "shortens g \<Longrightarrow> g s = Done (v, n, sb, r) \<Longrightarrow> length r < length s"
  unfolding shortens_def by blast

lemma fuelledD: "fuelled L g \<Longrightarrow> length s \<le> L \<Longrightarrow> g s \<noteq> OutOfFuel"
  unfolding fuelled_def by blast

lemma tl_skipWs: "skipWs s \<noteq> [] \<Longrightarrow> length (tl (skipWs s)) < length s"
  using skipWs_length [of s] by (cases "skipWs s") auto

lemma starts_skipWs: "starts P (skipWs s) \<Longrightarrow> length (tl (skipWs s)) < length s"
  using tl_skipWs [of s] by (cases "skipWs s") auto

lemma value_step_shortens:
  assumes "\<And>d acc n sb. shortens (members d acc n sb)" "\<And>d acc n sb. shortens (elems d acc n sb)"
  shows "shortens (value_step dbl lim members elems d n sb)"
  unfolding shortens_def
proof (intro allI impI)
  fix s v n1 sb1 r
  assume run: "value_step dbl lim members elems d n sb s = Done (v, n1, sb1, r)"
  let ?t = "skipWs s" let ?u = "skipWs (tl ?t)"
  have ne: "?t \<noteq> []" using run by (auto simp: value_step_def)
  have u: "length ?u < length s"
    using tl_skipWs [OF ne] skipWs_length [of "tl ?t"] by simp
  have "length r < length ?t \<or> length r < length ?u"
    using run ne
    by (auto simp: value_step_def Let_def and_then_Done lit_value_Done starts_tl
        dest: shortensD [OF assms(1)] shortensD [OF assms(2)] parseString_shorter parseNumber_shorter
          lit_shorter [rotated]
        split: if_splits option.splits)
  then show "length r < length s"
    using u skipWs_length [of s] by auto
qed

lemma elems_step_shortens:
  assumes "\<And>d n sb. shortens (val d n sb)" "\<And>d acc n sb. shortens (elems d acc n sb)"
  shows "shortens (elems_step lim val elems d acc n sb)"
  unfolding shortens_def
proof (intro allI impI)
  fix s v n1 sb1 r
  assume "elems_step lim val elems d acc n sb s = Done (v, n1, sb1, r)"
  then obtain x n2 sb2 s2 where v: "val d n sb s = Done (x, n2, sb2, s2)" and nxt:
    "starts (\<lambda>c. c = CHR '','' \<or> c = CHR '']'') (skipWs s2)"
    "elems d (acc @ [x]) n2 sb2 (tl (skipWs s2)) = Done (v, n1, sb1, r) \<or> r = tl (skipWs s2)"
    by (auto simp: elems_step_def Let_def and_then_Done starts_def split: if_splits list.splits)
  show "length r < length s"
    using shortensD [OF assms(1) v] starts_skipWs [OF nxt(1)] nxt(2) shortensD [OF assms(2)] by fastforce
qed

lemma members_step_shortens:
  assumes "\<And>d n sb. shortens (val d n sb)" "\<And>d acc n sb. shortens (members d acc n sb)"
  shows "shortens (members_step lim val members d acc n sb)"
  unfolding shortens_def
proof (intro allI impI)
  fix s v n1 sb1 r
  assume "members_step lim val members d acc n sb s = Done (v, n1, sb1, r)"
  then obtain key sb0 s0 x n2 sb2 s2 where k: "parseString lim sb (skipWs s) = Some (key, sb0, s0)"
    and colon: "starts (\<lambda>c. c = CHR '':'') (skipWs s0)"
    and v: "val d n sb0 (tl (skipWs s0)) = Done (x, n2, sb2, s2)" and nxt:
    "starts (\<lambda>c. c = CHR '','' \<or> c = CHR ''}'') (skipWs s2)"
    "members d (acc @ [(key, x)]) n2 sb2 (tl (skipWs s2)) = Done (v, n1, sb1, r) \<or> r = tl (skipWs s2)"
    by (auto simp: members_step_def Let_def and_then_Done starts_def split: if_splits list.splits option.splits)
  have "length s2 < length s"
    using parseString_shorter [OF k] skipWs_length [of s] starts_skipWs [OF colon] shortensD [OF assms(1) v] by simp
  then show "length r < length s"
    using starts_skipWs [OF nxt(1)] nxt(2) shortensD [OF assms(2)] by fastforce
qed

lemma parse_shortens:
  "shortens (parse_value dbl lim f d n sb)" "shortens (parse_elems dbl lim f d acc1 n sb)"
  "shortens (parse_members dbl lim f d acc2 n sb)"
proof (induction f arbitrary: d n sb acc1 acc2)
  case (Suc f)
  {
    case 1 show ?case unfolding parse_value.simps by (rule value_step_shortens) (rule Suc)+
  next
    case 2 show ?case unfolding parse_elems.simps by (rule elems_step_shortens) (rule Suc)+
  next
    case 3 show ?case unfolding parse_members.simps by (rule members_step_shortens) (rule Suc)+
  }
qed (simp_all add: shortens_def parse_value.simps parse_elems.simps parse_members.simps)

lemma value_step_fuelled:
  assumes "\<And>d acc n sb. fuelled L (members d acc n sb)" "\<And>d acc n sb. fuelled L (elems d acc n sb)"
  shows "fuelled (Suc L) (value_step dbl lim members elems d n sb)"
  unfolding fuelled_def
proof (intro allI impI)
  fix s :: string
  assume "length s \<le> Suc L"
  then have "skipWs s \<noteq> [] \<Longrightarrow> length (skipWs (tl (skipWs s))) \<le> L"
    using tl_skipWs [of s] skipWs_length [of "tl (skipWs s)"] by simp
  then show "value_step dbl lim members elems d n sb s \<noteq> OutOfFuel"
    using fuelledD [OF assms(1)] fuelledD [OF assms(2)]
    by (auto simp: value_step_def Let_def and_then_OutOfFuel split: option.splits)
qed

lemma elems_step_fuelled:
  assumes "\<And>d n sb. fuelled L (val d n sb)" "\<And>d acc n sb. 0 < L \<Longrightarrow> fuelled (L - 1) (elems d acc n sb)"
    and "\<And>d n sb. shortens (val d n sb)"
  shows "fuelled L (elems_step lim val elems d acc n sb)"
  unfolding fuelled_def
proof (intro allI impI notI)
  fix s :: string
  assume L: "length s \<le> L" and out: "elems_step lim val elems d acc n sb s = OutOfFuel"
  have "val d n sb s \<noteq> OutOfFuel" by (rule fuelledD [OF assms(1) L])
  then obtain x n2 sb2 s2 where v: "val d n sb s = Done (x, n2, sb2, s2)"
    and e: "elems d (acc @ [x]) n2 sb2 (tl (skipWs s2)) = OutOfFuel"
    using out by (auto simp: elems_step_def Let_def and_then_OutOfFuel split: if_splits)
  have "length (tl (skipWs s2)) \<le> L - 1" "0 < L"
    using shortensD [OF assms(3) v] skipWs_length [of s2] L by simp_all
  with e fuelledD [OF assms(2)] show False by blast
qed

lemma members_step_fuelled:
  assumes "\<And>d n sb. fuelled L (val d n sb)" "\<And>d acc n sb. 0 < L \<Longrightarrow> fuelled (L - 1) (members d acc n sb)"
    and "\<And>d n sb. shortens (val d n sb)"
  shows "fuelled L (members_step lim val members d acc n sb)"
  unfolding fuelled_def
proof (intro allI impI notI)
  fix s :: string
  assume L: "length s \<le> L" and out: "members_step lim val members d acc n sb s = OutOfFuel"
  then obtain key sb0 s0 where k: "parseString lim sb (skipWs s) = Some (key, sb0, s0)"
    by (auto simp: members_step_def split: if_splits option.splits)
  have a: "length (tl (skipWs s0)) \<le> L - 1" "0 < L"
    using parseString_shorter [OF k] skipWs_length [of s0] skipWs_length [of s] L by simp_all
  then have "length (tl (skipWs s0)) \<le> L" by simp
  then have "val d n sb0 (tl (skipWs s0)) \<noteq> OutOfFuel" by (rule fuelledD [OF assms(1)])
  then obtain x n2 sb2 s2 where v: "val d n sb0 (tl (skipWs s0)) = Done (x, n2, sb2, s2)"
    and e: "members d (acc @ [(key, x)]) n2 sb2 (tl (skipWs s2)) = OutOfFuel"
    using out k by (auto simp: members_step_def Let_def and_then_OutOfFuel split: if_splits)
  have "length (tl (skipWs s2)) \<le> L - 1"
    using shortensD [OF assms(3) v] skipWs_length [of s2] a by simp
  with e fuelledD [OF assms(2)] a(2) show False by blast
qed

lemma fuelled_zero: "fuelled 0 (value_step dbl lim members elems d n sb)"
  by (simp add: fuelled_def value_step_def skipWs_def)

lemma parse_fuelled:
  "2 * L < f \<Longrightarrow> fuelled L (parse_value dbl lim f d n sb)"
  "2 * L + 1 < f \<Longrightarrow> fuelled L (parse_elems dbl lim f d acc1 n sb)"
  "2 * L + 1 < f \<Longrightarrow> fuelled L (parse_members dbl lim f d acc2 n sb)"
proof (induction f arbitrary: L d n sb acc1 acc2)
  case (Suc f)
  {
    case 1
    show ?case
    proof (cases L)
      case 0
      then show ?thesis unfolding parse_value.simps by (simp add: fuelled_zero)
    next
      case (Suc M)
      then have f: "2 * M + 1 < f" using 1 by simp
      show ?thesis unfolding parse_value.simps Suc
        by (rule value_step_fuelled) (rule Suc.IH(3) [OF f], rule Suc.IH(2) [OF f])
    qed
  next
    case 2
    then have f: "2 * L < f" "0 < L \<Longrightarrow> 2 * (L - 1) + 1 < f" by simp_all
    show ?case unfolding parse_elems.simps
      by (rule elems_step_fuelled) (rule Suc.IH(1) [OF f(1)], rule Suc.IH(2) [OF f(2)], assumption, rule parse_shortens)
  next
    case 3
    then have f: "2 * L < f" "0 < L \<Longrightarrow> 2 * (L - 1) + 1 < f" by simp_all
    show ?case unfolding parse_members.simps
      by (rule members_step_fuelled) (rule Suc.IH(1) [OF f(1)], rule Suc.IH(3) [OF f(2)], assumption, rule parse_shortens)
  }
qed simp_all

lemma parse_value_enough: "parse_value dbl lim (2 * length s + 1) d n sb s \<noteq> OutOfFuel"
  by (rule fuelledD [OF parse_fuelled(1) [of "length s"]]) simp_all

section \<open>Every parsed value is within the limits\<close>

fun nodes_of :: "'d Value \<Rightarrow> nat" where
  "nodes_of (Arr xs) = 1 + sum_list (map nodes_of xs)"
| "nodes_of (Obj kvs) = 1 + sum_list (map (\<lambda>kv. nodes_of (snd kv)) kvs)"
| "nodes_of _ = 1"

fun str_bytes :: "'d Value \<Rightarrow> nat" where
  "str_bytes (Str s) = length s"
| "str_bytes (Arr xs) = sum_list (map str_bytes xs)"
| "str_bytes (Obj kvs) = sum_list (map (\<lambda>kv. length (fst kv) + str_bytes (snd kv)) kvs)"
| "str_bytes _ = 0"

fun nested_in :: "nat \<Rightarrow> 'd Value \<Rightarrow> bool" where
  \<comment> \<open>at most so many containers inside each other\<close>
  "nested_in k (Arr xs) = (0 < k \<and> list_all (nested_in (k - 1)) xs)"
| "nested_in k (Obj kvs) = (0 < k \<and> list_all (\<lambda>kv. nested_in (k - 1) (snd kv)) kvs)"
| "nested_in k _ = True"


























section \<open>Reading back a dumped string\<close>

abbreviation escaped :: "string \<Rightarrow> string" where
  "escaped s \<equiv> concat (map escape_char s)"

lemma char_of_code [simp]: "char_of (code c) = c"
  by (rule char_of_char)

lemma hex_digit_hex_char: "d < 16 \<Longrightarrow> hex_digit (hex_char d) = Some d"
  by (auto simp: hex_digit_def hex_char_def Let_def)

lemma hex4_control:
  assumes "n < 32"
  shows "hex4 (CHR ''0'' # CHR ''0'' # hex_char (n div 16) # hex_char (n mod 16) # rest) = Some (n, rest)"
proof -
  have "hex_digit (CHR ''0'') = Some 0" by (simp add: hex_digit_def)
  moreover have "hex_digit (hex_char (n div 16)) = Some (n div 16)" "hex_digit (hex_char (n mod 16)) = Some (n mod 16)"
    using assms by (auto intro!: hex_digit_hex_char)
  ultimately show ?thesis by (simp add: hex4_def numeral_2_eq_2 numeral_3_eq_3)
qed

text \<open>A character and its escape sequence: simple escapes, control characters, plain ones.\<close>

lemma escape_char_cases:
  obtains (simple) e where "escape_char c = [CHR 0x5C, e]" "simple_escape e = Some c" "e \<noteq> CHR ''u''"
  | (control) "code c < 32" "escape_char c = [CHR 0x5C, CHR ''u'', CHR ''0'', CHR ''0'', hex_char (code c div 16), hex_char (code c mod 16)]"
  | (plain) "escape_char c = [c]" "\<not> code c < 32" "c \<noteq> CHR 0x22" "c \<noteq> CHR 0x5C"
proof -
  consider (special) "code c \<in> {0x22, 0x5C, 0x0A, 0x0D, 0x09, 0x08, 0x0C}"
    | (ctl) "code c \<notin> {0x22, 0x5C, 0x0A, 0x0D, 0x09, 0x08, 0x0C}" "code c < 32"
    | (other) "code c \<notin> {0x22, 0x5C, 0x0A, 0x0D, 0x09, 0x08, 0x0C}" "\<not> code c < 32" by blast
  then show thesis
  proof cases
    case special
    then have "c \<in> {CHR 0x22, CHR 0x5C, CHR 0x0A, CHR 0x0D, CHR 0x09, CHR 0x08, CHR 0x0C}"
      using of_char_eq_iff [of c "CHR 0x22", where 'a = nat] of_char_eq_iff [of c "CHR 0x5C", where 'a = nat]
        of_char_eq_iff [of c "CHR 0x0A", where 'a = nat] of_char_eq_iff [of c "CHR 0x0D", where 'a = nat]
        of_char_eq_iff [of c "CHR 0x09", where 'a = nat] of_char_eq_iff [of c "CHR 0x08", where 'a = nat]
        of_char_eq_iff [of c "CHR 0x0C", where 'a = nat]
      by (elim insertE) simp_all
    then show thesis by (auto simp: escape_char_def simple_escape_def intro: simple)
  next
    case ctl
    then show thesis by (intro control) (auto simp: escape_char_def)
  next
    case other
    then show thesis by (intro plain) (auto simp: escape_char_def)
  qed
qed

lemma parse_escaped_char:
  assumes room: "pos + length (escape_char c) \<le> maxStringTokenBytes lim" "length acc < maxStringTokenBytes lim"
    "sb < maxStringBytes lim"
  shows "parse_chars lim pos (acc, sb) (escape_char c @ rest) = parse_chars lim (pos + length (escape_char c)) (acc @ [c], sb + 1) rest"
proof (cases c rule: escape_char_cases)
  case (simple e)
  then show ?thesis using room by (simp add: parse_escape_def appendByte_def)
next
  case control
  have six: "6 + pos = Suc (Suc (Suc (Suc (Suc (Suc pos)))))" by arith
  have "appendCodePoint lim (code c) (acc, sb) = Some (acc @ [c], sb + 1)"
    using room control(1) by (simp add: appendCodePoint_def utf8_def) arith
  moreover have "unicode_escape (CHR ''0'' # CHR ''0'' # hex_char (code c div 16) # hex_char (code c mod 16) # rest) = Some (code c, rest)"
    using control(1) hex4_control [OF control(1), of rest] by (simp add: unicode_escape_def)
  ultimately show ?thesis
    using room control by (simp add: parse_escape_def) (simp only: six)
next
  case plain
  then show ?thesis using room by (simp add: appendByte_def)
qed

lemma parse_escaped:
  assumes "pos + length (escaped s) \<le> maxStringTokenBytes lim" "length acc + length s \<le> maxStringTokenBytes lim"
    "sb + length s \<le> maxStringBytes lim"
  shows "parse_chars lim pos (acc, sb) (escaped s @ CHR 0x22 # rest) = Some ((acc @ s, sb + length s), rest)"
  using assms
proof (induction s arbitrary: pos acc sb)
  case (Cons c s)
  then show ?case
    using parse_escaped_char [of pos c lim acc sb "escaped s @ CHR 0x22 # rest"] by simp
qed simp

lemma escape_char_length: "1 \<le> length (escape_char c)"
  by (simp add: escape_char_def)

text \<open>The size of a string token between its quotes: two bytes for the characters with a short escape, six
  for the other control characters, one for the rest.\<close>

definition token_size :: "string \<Rightarrow> nat" where
  "token_size s = sum_list (map (\<lambda>c. if code c \<in> {0x22, 0x5C, 0x08, 0x09, 0x0A, 0x0C, 0x0D} then 2
     else if code c < 0x20 then 6 else 1) s)"

lemma length_escaped: "length (escaped s) = token_size s"
  by (induction s) (auto simp: token_size_def escape_char_def)

lemma escaped_length: "length s \<le> length (escaped s)"
proof (induction s)
  case (Cons c s)
  then show ?case using escape_char_length [of c] by simp
qed simp

lemma parseString_escape:
  assumes "token_size s \<le> maxStringTokenBytes lim" "sb + length s \<le> maxStringBytes lim"
  shows "parseString lim sb (escape s @ rest) = Some (s, sb + length s, rest)"
  using parse_escaped [of 0 s lim "[]" sb rest] assms escaped_length [of s] by (simp add: parseString_def escape_def length_escaped)

section \<open>Reading back a dumped number\<close>

definition no_number :: "string \<Rightarrow> bool" where
  \<comment> \<open>a text no number continues into\<close>
  "no_number s \<longleftrightarrow> \<not> starts (\<lambda>c. c_isdigit c \<or> c = CHR ''.'' \<or> c = CHR ''e'' \<or> c = CHR ''E'' \<or> c = CHR ''+'' \<or> c = CHR ''-'') s"

lemma starts_append: "starts P (s @ r) \<longleftrightarrow> (if s = [] then starts P r else starts P s)"
  by (cases s) auto

lemma no_numberD:
  assumes "no_number r"
  shows "\<not> starts c_isdigit r" "\<not> starts (\<lambda>c. c = CHR ''.'') r" "\<not> starts (\<lambda>c. c = CHR ''e'' \<or> c = CHR ''E'') r"
    "\<not> starts (\<lambda>c. c = CHR ''+'' \<or> c = CHR ''-'') r" "\<not> starts (\<lambda>c. c = CHR ''-'') r" "\<not> starts (\<lambda>c. c = CHR ''0'') r"
proof -
  have "c_isdigit (CHR ''0'')" by (simp add: c_isdigit_def)
  then show "\<not> starts c_isdigit r" "\<not> starts (\<lambda>c. c = CHR ''.'') r" "\<not> starts (\<lambda>c. c = CHR ''e'' \<or> c = CHR ''E'') r"
    "\<not> starts (\<lambda>c. c = CHR ''+'' \<or> c = CHR ''-'') r" "\<not> starts (\<lambda>c. c = CHR ''-'') r" "\<not> starts (\<lambda>c. c = CHR ''0'') r"
    using assms unfolding no_number_def by (cases r; auto)+
qed

definition extend :: "string \<Rightarrow> nat \<times> string \<Rightarrow> nat \<times> string" where
  "extend r p = (fst p, snd p @ r)"

lemma take_char_extend: "starts P (snd p) \<Longrightarrow> take_char lim p = Some q \<Longrightarrow> take_char lim (extend r p) = Some (extend r q)"
  by (cases "snd p") (auto simp: take_char_def extend_def split: if_splits)

lemma take_digits_extend:
  assumes "no_number r"
  shows "take_digits lim k s = Some q \<Longrightarrow> take_digits lim k (s @ r) = Some (extend r q)"
proof (induction lim k s rule: take_digits.induct)
  case (1 lim k)
  then show ?case using no_numberD(1) [OF assms] by (cases r) (auto simp: extend_def)
qed (auto simp: extend_def split: if_splits)

lemma scan_sign_extend:
  "no_number r \<Longrightarrow> scan_sign lim p = Some q \<Longrightarrow> scan_sign lim (extend r p) = Some (extend r q)"
  using take_char_extend [of "\<lambda>c. c = CHR ''-''" p lim q r] no_numberD(5) [of r]
  by (auto simp: scan_sign_def starts_append extend_def split: if_splits)

lemma scan_integer_extend:
  assumes "no_number r" "scan_integer lim p = Some q"
  shows "scan_integer lim (extend r p) = Some (extend r q)"
proof (cases "starts (\<lambda>c. c = CHR ''0'') (snd p)")
  case True
  then have q: "take_char lim p = Some q" "\<not> starts c_isdigit (snd q)"
    using assms(2) by (auto simp: scan_integer_def split: option.splits if_splits)
  have "starts (\<lambda>c. c = CHR ''0'') (snd (extend r p))" using True by (auto simp: extend_def starts_append)
  moreover have "\<not> starts c_isdigit (snd (extend r q))"
    using q(2) no_numberD(1) [OF assms(1)] by (auto simp: extend_def starts_append)
  ultimately show ?thesis
    using take_char_extend [OF True q(1), of r] by (simp add: scan_integer_def)
next
  case False
  then have q: "starts c_isdigit (snd p)" "take_digits lim (fst p) (snd p) = Some q"
    using assms(2) by (simp_all add: scan_integer_def split: if_splits)
  then have "\<not> starts (\<lambda>c. c = CHR ''0'') (snd (extend r p))" "starts c_isdigit (snd (extend r p))"
    using False by (auto simp: extend_def starts_append)
  then show ?thesis
    using take_digits_extend [OF assms(1) q(2)] by (simp add: scan_integer_def extend_def)
qed

lemma digits_part_extend:
  "no_number r \<Longrightarrow> starts c_isdigit (snd p) \<Longrightarrow> take_digits lim (fst p) (snd p) = Some q \<Longrightarrow>
     starts c_isdigit (snd (extend r p)) \<and> take_digits lim (fst (extend r p)) (snd (extend r p)) = Some (extend r q)"
  using take_digits_extend [of r lim "fst p" "snd p" q] by (auto simp: extend_def starts_append)

lemma scan_fraction_extend:
  assumes "no_number r" "scan_fraction lim p = Some q"
  shows "scan_fraction lim (extend r p) = Some (extend r q)"
proof (cases "starts (\<lambda>c. c = CHR ''.'') (snd p)")
  case True
  then obtain p1 where p1: "take_char lim p = Some p1" "starts c_isdigit (snd p1)" "take_digits lim (fst p1) (snd p1) = Some q"
    using assms(2) by (auto simp: scan_fraction_def split: option.splits if_splits)
  moreover have "starts (\<lambda>c. c = CHR ''.'') (snd (extend r p))" using True by (auto simp: extend_def starts_append)
  ultimately show ?thesis
    using take_char_extend [OF True p1(1), of r] digits_part_extend [OF assms(1) p1(2,3)] by (simp add: scan_fraction_def)
next
  case False
  then show ?thesis
    using assms no_numberD(2) [OF assms(1)] by (auto simp: scan_fraction_def extend_def starts_append)
qed

lemma scan_exponent_extend:
  assumes "no_number r" "scan_exponent lim p = Some q"
  shows "scan_exponent lim (extend r p) = Some (extend r q)"
proof (cases "starts (\<lambda>c. c = CHR ''e'' \<or> c = CHR ''E'') (snd p)")
  case True
  let ?sgn = "\<lambda>c. c = CHR ''+'' \<or> c = CHR ''-''"
  obtain p1 p2 where p1: "take_char lim p = Some p1"
      "(if starts ?sgn (snd p1) then take_char lim p1 else Some p1) = Some p2"
      "starts c_isdigit (snd p2)" "take_digits lim (fst p2) (snd p2) = Some q"
    using assms(2) True by (auto simp: scan_exponent_def split: option.splits if_splits)
  have e: "starts (\<lambda>c. c = CHR ''e'' \<or> c = CHR ''E'') (snd (extend r p))" using True by (auto simp: extend_def starts_append)
  have "starts ?sgn (snd (extend r p1)) = starts ?sgn (snd p1)"
    using no_numberD(4) [OF assms(1)] by (auto simp: extend_def starts_append)
  then have s: "(if starts ?sgn (snd (extend r p1)) then take_char lim (extend r p1) else Some (extend r p1)) = Some (extend r p2)"
    using p1(2) take_char_extend [of ?sgn p1 lim p2 r] by (auto split: if_splits)
  show ?thesis
    using e s take_char_extend [OF True p1(1), of r] digits_part_extend [OF assms(1) p1(3,4)]
    by (simp add: scan_exponent_def)
next
  case False
  then show ?thesis
    using assms no_numberD(3) [OF assms(1)] by (auto simp: scan_exponent_def extend_def starts_append)
qed

lemma scan_number_extend:
  assumes "no_number r" "scan_number lim s = Some (k, t)"
  shows "scan_number lim (s @ r) = Some (k, t @ r)"
proof -
  obtain p1 p2 p3 where st: "scan_sign lim (0, s) = Some p1" "scan_integer lim p1 = Some p2" "scan_fraction lim p2 = Some p3"
    "scan_exponent lim p3 = Some (k, t)"
    using assms(2) by (auto simp: scan_number_def bind_eq_Some_conv)
  then show ?thesis
    using scan_sign_extend [OF assms(1) st(1)] scan_integer_extend [OF assms(1) st(2)]
      scan_fraction_extend [OF assms(1) st(3)] scan_exponent_extend [OF assms(1) st(4)]
    by (simp add: scan_number_def extend_def)
qed

text \<open>The tokens of RFC 8259, section 6: sign, integer without superfluous zero, fraction, exponent.\<close>

definition all_digits :: "string \<Rightarrow> bool" where
  "all_digits s \<longleftrightarrow> s \<noteq> [] \<and> list_all c_isdigit s"

definition json_number :: "string \<Rightarrow> bool" where
  "json_number s \<longleftrightarrow> (\<exists>sg ip fr ex. s = sg @ ip @ fr @ ex \<and>
     (sg = [] \<or> sg = ''-'') \<and> all_digits ip \<and> (hd ip = CHR ''0'' \<longrightarrow> ip = ''0'') \<and>
     (fr = [] \<or> (\<exists>ds. fr = CHR ''.'' # ds \<and> all_digits ds)) \<and>
     (ex = [] \<or> (\<exists>e es ds. ex = e # es @ ds \<and> (e = CHR ''e'' \<or> e = CHR ''E'') \<and>
        (es = [] \<or> es = ''+'' \<or> es = ''-'') \<and> all_digits ds)))"

lemma take_digits_run:
  "list_all c_isdigit ds \<Longrightarrow> \<not> starts c_isdigit t \<Longrightarrow> k + length ds \<le> maxNumberTokenBytes lim \<Longrightarrow>
     take_digits lim k (ds @ t) = Some (k + length ds, t)"
proof (induction ds arbitrary: k)
  case Nil
  then show ?case by (cases t) auto
qed auto

lemma all_digits_starts: "all_digits ds \<Longrightarrow> starts c_isdigit (ds @ t)"
  by (cases ds) (auto simp: all_digits_def)

lemma digits_part:
  "all_digits ds \<Longrightarrow> \<not> starts c_isdigit t \<Longrightarrow> k + length ds \<le> maxNumberTokenBytes lim \<Longrightarrow>
     starts c_isdigit (ds @ t) \<and> take_digits lim k (ds @ t) = Some (k + length ds, t)"
  by (intro conjI all_digits_starts take_digits_run) (simp_all add: all_digits_def)

lemma scan_integer_run:
  assumes "all_digits ip" "hd ip = CHR ''0'' \<longrightarrow> ip = ''0''" "\<not> starts c_isdigit t" "k + length ip \<le> maxNumberTokenBytes lim"
  shows "scan_integer lim (k, ip @ t) = Some (k + length ip, t)"
proof (cases "ip = ''0''")
  case True
  show ?thesis using assms(3,4) unfolding True by (simp add: scan_integer_def take_char_def)
next
  case False
  with assms have "\<not> starts (\<lambda>c. c = CHR ''0'') (ip @ t)" by (cases ip) (auto simp: all_digits_def)
  with digits_part [OF assms(1,3,4)] show ?thesis by (simp add: scan_integer_def)
qed

lemma scan_fraction_run:
  assumes "fr = [] \<and> \<not> starts (\<lambda>c. c = CHR ''.'') t \<or> (\<exists>ds. fr = CHR ''.'' # ds \<and> all_digits ds)"
    and "\<not> starts c_isdigit t" "k + length fr \<le> maxNumberTokenBytes lim"
  shows "scan_fraction lim (k, fr @ t) = Some (k + length fr, t)"
  using assms(1)
proof
  assume "\<exists>ds. fr = CHR ''.'' # ds \<and> all_digits ds"
  then obtain ds where ds: "fr = CHR ''.'' # ds" "all_digits ds" by blast
  with assms(3) digits_part [OF ds(2) assms(2), of "k + 1" lim] show ?thesis
    by (simp add: scan_fraction_def take_char_def)
qed (simp add: scan_fraction_def)

lemma not_digit_char: "\<not> c_isdigit (CHR ''.'')" "\<not> c_isdigit (CHR ''e'')" "\<not> c_isdigit (CHR ''E'')" "\<not> c_isdigit (CHR ''-'')" "\<not> c_isdigit (CHR ''+'')"
  by (simp_all add: c_isdigit_def)

lemma scan_exponent_run:
  assumes "ex = [] \<or> (\<exists>e es ds. ex = e # es @ ds \<and> (e = CHR ''e'' \<or> e = CHR ''E'') \<and>
      (es = [] \<or> es = ''+'' \<or> es = ''-'') \<and> all_digits ds)" "k + length ex \<le> maxNumberTokenBytes lim"
  shows "scan_exponent lim (k, ex) = Some (k + length ex, [])"
  using assms(1)
proof
  assume "\<exists>e es ds. ex = e # es @ ds \<and> (e = CHR ''e'' \<or> e = CHR ''E'') \<and> (es = [] \<or> es = ''+'' \<or> es = ''-'') \<and> all_digits ds"
  then obtain e es ds where e: "ex = e # es @ ds" "e = CHR ''e'' \<or> e = CHR ''E''" "es = [] \<or> es = ''+'' \<or> es = ''-''" "all_digits ds"
    by blast
  have len: "k + 1 + length es + length ds \<le> maxNumberTokenBytes lim" using assms(2) e(1) by simp
  have d: "starts c_isdigit ds" "take_digits lim (k + 1 + length es) ds = Some (k + 1 + length es + length ds, [])"
    using digits_part [OF e(4), of "[]" "k + 1 + length es" lim] len by simp_all
  have "\<not> starts (\<lambda>c. c = CHR ''+'' \<or> c = CHR ''-'') ds"
    using e(4) not_digit_char by (cases ds) (auto simp: all_digits_def)
  with e(2,3) len d show ?thesis
    unfolding e(1) by (auto simp: scan_exponent_def take_char_def)
qed (simp add: scan_exponent_def)

text \<open>The scanner accepts every number token that fits, to its end.\<close>

lemma scan_number_complete:
  assumes "json_number s" "length s \<le> maxNumberTokenBytes lim"
  shows "scan_number lim s = Some (length s, [])"
proof -
  obtain sg ip fr ex where s: "s = sg @ ip @ fr @ ex" "sg = [] \<or> sg = ''-''" "all_digits ip" "hd ip = CHR ''0'' \<longrightarrow> ip = ''0''"
    and fr: "fr = [] \<or> (\<exists>ds. fr = CHR ''.'' # ds \<and> all_digits ds)"
    and ex: "ex = [] \<or> (\<exists>e es ds. ex = e # es @ ds \<and> (e = CHR ''e'' \<or> e = CHR ''E'') \<and>
        (es = [] \<or> es = ''+'' \<or> es = ''-'') \<and> all_digits ds)"
    using assms(1) unfolding json_number_def by blast
  have no: "\<not> starts c_isdigit ex" "\<not> starts (\<lambda>c. c = CHR ''.'') ex" "\<not> starts c_isdigit (fr @ ex)"
    using fr ex not_digit_char by auto
  have "\<not> starts (\<lambda>c. c = CHR ''-'') (ip @ fr @ ex)"
    using s(3) not_digit_char by (cases ip) (auto simp: all_digits_def)
  then have "scan_sign lim (0, s) = Some (length sg, ip @ fr @ ex)"
    using s(1,2) assms(2) by (auto simp: scan_sign_def take_char_def)
  moreover have "scan_integer lim (length sg, ip @ fr @ ex) = Some (length sg + length ip, fr @ ex)"
    using scan_integer_run [OF s(3,4) no(3), of "length sg" lim] assms(2) s(1) by simp
  moreover have "scan_fraction lim (length sg + length ip, fr @ ex) = Some (length sg + length ip + length fr, ex)"
    using fr no assms(2) s(1) by (intro scan_fraction_run) auto
  moreover have "scan_exponent lim (length sg + length ip + length fr, ex) = Some (length sg + length ip + length fr + length ex, [])"
    using ex assms(2) s(1) by (intro scan_exponent_run) auto
  ultimately show ?thesis using s(1) by (simp add: scan_number_def add.assoc)
qed

lemma json_number_dec_int: "json_number (dec_int i)"
proof -
  have d: "all_digits (dec n)" for n
    using dec_digits [of n] dec_nonempty [of n] by (simp add: all_digits_def list_all_iff)
  have z: "hd (dec n) = CHR ''0'' \<longrightarrow> dec n = ''0''" for n
    using hd_dec [of n] by (cases "n = 0") (auto simp: dec.simps [of 0] digit_char_def)
  show ?thesis
    unfolding json_number_def dec_int_def
    by (intro exI [of _ "if i < 0 then ''-'' else []"] exI [of _ "if i < 0 then dec (nat (- i)) else dec (nat i)"] exI [of _ "[]"])
      (use d z in auto)
qed

text \<open>What is relied on of the C library for a double: a whole number is converted exactly, so that
  \<open>strtod\<close> reads its decimal text back; any other finite one is printed by \<open>%.17g\<close> as a sign, digits, an
  optional fraction and an optional exponent, and 17 digits are enough for \<open>strtod\<close> to read it back.
  (Minus zero is printed as \<open>0\<close> and is not read back.)\<close>

definition double_ok :: "'d double_ops \<Rightarrow> JsonParseLimits \<Rightarrow> 'd \<Rightarrow> bool" where
  "double_ok dbl lim x \<longleftrightarrow> d_finite dbl x \<and>
     (case d_whole dbl x of
        Some i \<Rightarrow> length (dec_int i) \<le> maxNumberTokenBytes lim \<and> d_strtod dbl (dec_int i) = Some x
      | None \<Rightarrow> length (d_g17 dbl x) \<le> maxNumberTokenBytes lim \<and> json_number (d_g17 dbl x) \<and>
          d_strtod dbl (d_g17 dbl x) = Some x)"

lemma double_ok_scan:
  "double_ok dbl lim x \<Longrightarrow> scan_number lim (numToStr dbl x) = Some (length (numToStr dbl x), []) \<and>
     d_strtod dbl (numToStr dbl x) = Some x"
  by (auto simp: double_ok_def numToStr_def json_number_dec_int intro!: scan_number_complete split: option.splits)

lemma parseNumber_numToStr:
  "double_ok dbl lim x \<Longrightarrow> no_number r \<Longrightarrow> parseNumber dbl lim (numToStr dbl x @ r) = Some (x, r)"
  using scan_number_extend [of r lim "numToStr dbl x"] double_ok_scan [of dbl lim x] by (simp add: parseNumber_def)

lemma scan_number_hd:
  assumes "scan_number lim s = Some (k, t)"
  shows "s \<noteq> [] \<and> (hd s = CHR ''-'' \<or> c_isdigit (hd s))"
proof -
  obtain p1 p2 where st: "scan_sign lim (0, s) = Some p1" "scan_integer lim p1 = Some p2"
    using assms by (auto simp: scan_number_def bind_eq_Some_conv)
  have z: "c_isdigit (CHR ''0'')" by (simp add: c_isdigit_def)
  show ?thesis
  proof (cases "starts (\<lambda>c. c = CHR ''-'') s")
    case True
    then show ?thesis by (cases s) auto
  next
    case False
    then have "p1 = (0, s)" using st(1) by (simp add: scan_sign_def)
    then show ?thesis using st(2) z by (cases s) (auto simp: scan_integer_def split: if_splits)
  qed
qed

section \<open>Number tokens of a parsed value\<close>





























section \<open>Round trip\<close>

fun dump_ok :: "'d double_ops \<Rightarrow> JsonParseLimits \<Rightarrow> 'd Value \<Rightarrow> bool" where
  \<comment> \<open>the tokens and containers of a value fit the parser's limits\<close>
  "dump_ok dbl lim (Num x) = double_ok dbl lim x"
| "dump_ok dbl lim (Str s) = (token_size s \<le> maxStringTokenBytes lim)"
| "dump_ok dbl lim (Arr xs) = (length xs \<le> maxContainerEntries lim \<and> list_all (dump_ok dbl lim) xs)"
| "dump_ok dbl lim (Obj kvs) = (length kvs \<le> maxContainerEntries lim \<and> distinct (map fst kvs) \<and>
     list_all (\<lambda>kv. token_size (fst kv) \<le> maxStringTokenBytes lim \<and> dump_ok dbl lim (snd kv)) kvs)"
| "dump_ok dbl lim _ = True"

definition all_ws :: "string \<Rightarrow> bool" where
  "all_ws w \<longleftrightarrow> list_all is_ws w"

lemma skipWs_all_ws: "all_ws w \<Longrightarrow> skipWs (w @ s) = skipWs s"
  by (simp add: all_ws_def skipWs_def list_all_iff dropWhile_append2)

lemma skipWs_Cons: "\<not> is_ws c \<Longrightarrow> skipWs (c # s) = c # s"
  by (simp add: skipWs_def)

lemma all_ws_indent [simp]: "all_ws (indent pretty d)"
  by (auto simp: all_ws_def indent_def is_ws_def list_all_iff)

lemma no_number_indent:
  "\<not> (c_isdigit c \<or> c = CHR ''.'' \<or> c = CHR ''e'' \<or> c = CHR ''E'' \<or> c = CHR ''+'' \<or> c = CHR ''-'') \<Longrightarrow> no_number (indent pretty d @ c # s)"
  by (auto simp: no_number_def indent_def c_isdigit_def)

definition scalar_start :: "char \<Rightarrow> bool" where
  "scalar_start c \<longleftrightarrow> c = CHR ''-'' \<or> c_isdigit c"

lemma scalar_startD:
  "scalar_start c \<Longrightarrow> \<not> is_ws c \<and> c \<noteq> CHR ''{'' \<and> c \<noteq> CHR ''['' \<and> c \<noteq> CHR 0x22 \<and> c \<noteq> CHR ''t'' \<and> c \<noteq> CHR ''f'' \<and> c \<noteq> CHR ''n''"
  by (auto simp: scalar_start_def c_isdigit_def is_ws_def)

text \<open>What the parser does with a dumped value (behind white space) and the rest of the text.\<close>

definition reads_value :: "'d double_ops \<Rightarrow> JsonParseLimits \<Rightarrow> nat \<Rightarrow> nat \<Rightarrow> 'd Value \<Rightarrow> string \<Rightarrow> bool" where
  "reads_value dbl lim f d v t \<longleftrightarrow> (\<forall>n sb w rest.
     2 * length (w @ t @ rest) < f \<and> all_ws w \<and> no_number rest \<and>
     n + nodes_of v \<le> maxNodes lim \<and> sb + str_bytes v \<le> maxStringBytes lim \<and> nested_in (maxDepth lim - d) v \<and> dump_ok dbl lim v \<longrightarrow>
     parse_value dbl lim f d n sb (w @ t @ rest) = Done (v, n + nodes_of v, sb + str_bytes v, rest))"

lemma reads_valueD:
  "reads_value dbl lim f d v t \<Longrightarrow> 2 * length (w @ t @ rest) < f \<Longrightarrow> all_ws w \<Longrightarrow> no_number rest \<Longrightarrow>
     n + nodes_of v \<le> maxNodes lim \<Longrightarrow> sb + str_bytes v \<le> maxStringBytes lim \<Longrightarrow> nested_in (maxDepth lim - d) v \<Longrightarrow>
     dump_ok dbl lim v \<Longrightarrow>
     parse_value dbl lim f d n sb (w @ t @ rest) = Done (v, n + nodes_of v, sb + str_bytes v, rest)"
  unfolding reads_value_def by blast

lemma nodes_pos: "0 < nodes_of v"
  by (cases v) auto

text \<open>Scalars.\<close>

lemma value_at:
  "all_ws w \<Longrightarrow> \<not> is_ws c \<Longrightarrow> skipWs (w @ c # cs) = c # cs"
  by (simp add: skipWs_all_ws skipWs_Cons)

lemma reads_valueI:
  assumes "\<And>g n sb w rest. 2 * length (w @ t @ rest) < Suc g \<Longrightarrow> all_ws w \<Longrightarrow> no_number rest \<Longrightarrow>
     n + nodes_of v \<le> maxNodes lim \<Longrightarrow> sb + str_bytes v \<le> maxStringBytes lim \<Longrightarrow> nested_in (maxDepth lim - d) v \<Longrightarrow>
     dump_ok dbl lim v \<Longrightarrow> f = Suc g \<Longrightarrow>
     value_step dbl lim (parse_members dbl lim g) (parse_elems dbl lim g) d n sb (w @ t @ rest) =
       Done (v, n + nodes_of v, sb + str_bytes v, rest)"
  shows "reads_value dbl lim f d v t"
  unfolding reads_value_def
proof (intro allI impI)
  fix n sb w rest
  assume *: "2 * length (w @ t @ rest) < f \<and> all_ws w \<and> no_number rest \<and>
     n + nodes_of v \<le> maxNodes lim \<and> sb + str_bytes v \<le> maxStringBytes lim \<and> nested_in (maxDepth lim - d) v \<and> dump_ok dbl lim v"
  then obtain g where "f = Suc g" by (cases f) auto
  with * assms [of w rest g n sb] show "parse_value dbl lim f d n sb (w @ t @ rest) = Done (v, n + nodes_of v, sb + str_bytes v, rest)"
    by (simp add: parse_value.simps)
qed

lemma reads_word:
  assumes c: "\<not> is_ws c" "c \<noteq> CHR ''{''" "c \<noteq> CHR ''[''" "c \<noteq> CHR 0x22"
    and v: "nodes_of v = 1" "str_bytes v = 0"
    and step: "\<And>members elems n sb rest s. skipWs s = (c # cs) @ rest \<Longrightarrow> n < maxNodes lim \<Longrightarrow>
      value_step dbl lim members elems d n sb s = lit_value (c # cs) v (n + 1) sb ((c # cs) @ rest)"
  shows "reads_value dbl lim f d v (c # cs)"
proof (rule reads_valueI)
  fix g n sb w rest
  assume w: "all_ws w" and n: "n + nodes_of v \<le> maxNodes lim"
  have "skipWs (w @ (c # cs) @ rest) = (c # cs) @ rest"
    using value_at [OF w c(1)] by simp
  moreover have "lit_value (c # cs) v (n + 1) sb ((c # cs) @ rest) = Done (v, n + 1, sb, rest)"
    by (simp add: lit_value_def lit_def)
  ultimately show "value_step dbl lim (parse_members dbl lim g) (parse_elems dbl lim g) d n sb (w @ (c # cs) @ rest) =
       Done (v, n + nodes_of v, sb + str_bytes v, rest)"
    using step n v by simp
qed

lemma reads_words:
  "reads_value dbl lim f d Null ''null''" "reads_value dbl lim f d (Bool True) ''true''" "reads_value dbl lim f d (Bool False) ''false''"
  by (rule reads_word; simp add: is_ws_def value_step_def Let_def)+

lemma reads_Num: "reads_value dbl lim f d (Num x) (numToStr dbl x)"
proof (rule reads_valueI)
  fix g n sb w rest
  assume w: "all_ws w" and n: "n + nodes_of (Num x) \<le> maxNodes lim" and ok: "dump_ok dbl lim (Num x)" and r: "no_number rest"
  have num: "double_ok dbl lim x" using ok by simp
  then obtain c cs where t: "numToStr dbl x = c # cs" and c: "scalar_start c"
    using scan_number_hd [of lim "numToStr dbl x"] by (cases "numToStr dbl x") (auto dest!: double_ok_scan simp: scalar_start_def)
  have "skipWs (w @ numToStr dbl x @ rest) = numToStr dbl x @ rest"
    using value_at [OF w] scalar_startD [OF c] by (simp add: t)
  then show "value_step dbl lim (parse_members dbl lim g) (parse_elems dbl lim g) d n sb (w @ numToStr dbl x @ rest) =
       Done (Num x, n + nodes_of (Num x), sb + str_bytes (Num x), rest)"
    using n parseNumber_numToStr [OF num r] scalar_startD [OF c] by (simp add: value_step_def Let_def t)
qed

lemma reads_Str: "reads_value dbl lim f d (Str s) (escape s)"
proof (rule reads_valueI)
  fix g n sb w rest
  assume w: "all_ws w" and n: "n + nodes_of (Str s :: 'a Value) \<le> maxNodes lim" and ok: "dump_ok dbl lim (Str s)"
    and sb: "sb + str_bytes (Str s :: 'a Value) \<le> maxStringBytes lim"
  have "skipWs (w @ escape s @ rest) = escape s @ rest"
    using value_at [OF w, of "CHR 0x22"] by (simp add: escape_def is_ws_def)
  then show "value_step dbl lim (parse_members dbl lim g) (parse_elems dbl lim g) d n sb (w @ escape s @ rest) =
       Done (Str s, n + nodes_of (Str s :: 'a Value), sb + str_bytes (Str s :: 'a Value), rest)"
    using n sb ok parseString_escape [of s lim sb rest] by (simp add: value_step_def Let_def escape_def)
qed

text \<open>Containers.\<close>

definition reads_elems :: "'d double_ops \<Rightarrow> JsonParseLimits \<Rightarrow> nat \<Rightarrow> nat \<Rightarrow> bool \<Rightarrow> nat \<Rightarrow> 'd Value list \<Rightarrow> bool" where
  "reads_elems dbl lim f d pretty dd xs \<longleftrightarrow> (\<forall>acc n sb rest.
     2 * length (dump_elems dbl pretty dd True xs @ indent pretty dd @ CHR '']'' # rest) + 1 < f \<and>
     length acc + length xs \<le> maxContainerEntries lim \<and> n + sum_list (map nodes_of xs) \<le> maxNodes lim \<and>
     sb + sum_list (map str_bytes xs) \<le> maxStringBytes lim \<and> list_all (nested_in (maxDepth lim - d)) xs \<and>
     list_all (dump_ok dbl lim) xs \<and> xs \<noteq> [] \<longrightarrow>
     parse_elems dbl lim f d acc n sb (dump_elems dbl pretty dd True xs @ indent pretty dd @ CHR '']'' # rest) =
       Done (acc @ xs, n + sum_list (map nodes_of xs), sb + sum_list (map str_bytes xs), rest))"

lemma dump_elems_False: "dump_elems dbl pretty dd False (x # xs) = CHR '','' # dump_elems dbl pretty dd True (x # xs)"
  by simp

lemma reads_elems_Cons:
  assumes x: "\<And>f. reads_value dbl lim f d x (dump dbl pretty (dd + 1) x)"
    and xs: "\<And>f. reads_elems dbl lim f d pretty dd xs"
  shows "reads_elems dbl lim f d pretty dd (x # xs)"
  unfolding reads_elems_def
proof (intro allI impI)
  fix acc :: "'a Value list" and n sb rest
  let ?fin = "indent pretty dd @ CHR '']'' # rest"
  let ?tail = "dump_elems dbl pretty dd False xs @ ?fin"
  assume *: "2 * length (dump_elems dbl pretty dd True (x # xs) @ ?fin) + 1 < f \<and>
     length acc + length (x # xs) \<le> maxContainerEntries lim \<and> n + sum_list (map nodes_of (x # xs)) \<le> maxNodes lim \<and>
     sb + sum_list (map str_bytes (x # xs)) \<le> maxStringBytes lim \<and> list_all (nested_in (maxDepth lim - d)) (x # xs) \<and>
     list_all (dump_ok dbl lim) (x # xs) \<and> x # xs \<noteq> []"
  then obtain g where f: "f = Suc g" by (cases f) auto
  have shape: "dump_elems dbl pretty dd True (x # xs) @ ?fin = indent pretty (dd + 1) @ dump dbl pretty (dd + 1) x @ ?tail"
    by simp
  have "no_number ?tail"
  proof (cases xs)
    case Nil
    then show ?thesis by (auto intro!: no_number_indent simp: c_isdigit_def)
  next
    case (Cons y ys)
    then show ?thesis by (simp add: no_number_def c_isdigit_def)
  qed
  then have v: "parse_value dbl lim g d n sb (indent pretty (dd + 1) @ dump dbl pretty (dd + 1) x @ ?tail) =
      Done (x, n + nodes_of x, sb + str_bytes x, ?tail)"
    using * unfolding shape f by (intro reads_valueD [OF x]) auto
  show "parse_elems dbl lim f d acc n sb (dump_elems dbl pretty dd True (x # xs) @ ?fin) =
       Done (acc @ x # xs, n + sum_list (map nodes_of (x # xs)), sb + sum_list (map str_bytes (x # xs)), rest)"
  proof (cases xs)
    case Nil
    have "skipWs ?tail = CHR '']'' # rest"
      using value_at [of "indent pretty dd" "CHR '']''" rest] Nil by (simp add: is_ws_def)
    then show ?thesis
      using * v unfolding shape f parse_elems.simps by (simp add: elems_step_def Nil)
  next
    case (Cons y ys)
    have sk: "skipWs ?tail = CHR '','' # dump_elems dbl pretty dd True xs @ ?fin"
      unfolding Cons dump_elems_False append_Cons by (rule skipWs_Cons) (simp add: is_ws_def)
    have "parse_elems dbl lim g d (acc @ [x]) (n + nodes_of x) (sb + str_bytes x) (dump_elems dbl pretty dd True xs @ ?fin) =
       Done ((acc @ [x]) @ xs, n + nodes_of x + sum_list (map nodes_of xs), sb + str_bytes x + sum_list (map str_bytes xs), rest)"
      using xs [of g] * Cons f unfolding reads_elems_def by auto
    then show ?thesis
      using * v unfolding shape f parse_elems.simps by (simp add: elems_step_def sk add.assoc del: dump_elems.simps)
  qed
qed

definition reads_members :: "'d double_ops \<Rightarrow> JsonParseLimits \<Rightarrow> nat \<Rightarrow> nat \<Rightarrow> bool \<Rightarrow> nat \<Rightarrow> (string \<times> 'd Value) list \<Rightarrow> bool" where
  "reads_members dbl lim f d pretty dd kvs \<longleftrightarrow> (\<forall>acc n sb rest.
     2 * length (dump_members dbl pretty dd True kvs @ indent pretty dd @ CHR ''}'' # rest) + 1 < f \<and>
     length acc + length kvs \<le> maxContainerEntries lim \<and> n + sum_list (map (\<lambda>kv. nodes_of (snd kv)) kvs) \<le> maxNodes lim \<and>
     sb + sum_list (map (\<lambda>kv. length (fst kv) + str_bytes (snd kv)) kvs) \<le> maxStringBytes lim \<and>
     list_all (\<lambda>kv. nested_in (maxDepth lim - d) (snd kv)) kvs \<and> distinct (map fst (acc @ kvs)) \<and>
     list_all (\<lambda>kv. token_size (fst kv) \<le> maxStringTokenBytes lim \<and> dump_ok dbl lim (snd kv)) kvs \<and> kvs \<noteq> [] \<longrightarrow>
     parse_members dbl lim f d acc n sb (dump_members dbl pretty dd True kvs @ indent pretty dd @ CHR ''}'' # rest) =
       Done (acc @ kvs, n + sum_list (map (\<lambda>kv. nodes_of (snd kv)) kvs),
         sb + sum_list (map (\<lambda>kv. length (fst kv) + str_bytes (snd kv)) kvs), rest))"

lemma dump_members_False: "dump_members dbl pretty dd False (x # xs) = CHR '','' # dump_members dbl pretty dd True (x # xs)"
  by simp

lemma reads_members_Cons:
  assumes x: "\<And>f. reads_value dbl lim f d (snd kv) (dump dbl pretty (dd + 1) (snd kv))"
    and xs: "\<And>f. reads_members dbl lim f d pretty dd kvs"
  shows "reads_members dbl lim f d pretty dd (kv # kvs)"
  unfolding reads_members_def
proof (intro allI impI)
  fix acc :: "(string \<times> 'a Value) list" and n sb rest
  obtain key v where kv: "kv = (key, v)" by force
  let ?fin = "indent pretty dd @ CHR ''}'' # rest"
  let ?tail = "dump_members dbl pretty dd False kvs @ ?fin"
  let ?sp = "if pretty then '' '' else []"
  assume *: "2 * length (dump_members dbl pretty dd True (kv # kvs) @ ?fin) + 1 < f \<and>
     length acc + length (kv # kvs) \<le> maxContainerEntries lim \<and> n + sum_list (map (\<lambda>kv. nodes_of (snd kv)) (kv # kvs)) \<le> maxNodes lim \<and>
     sb + sum_list (map (\<lambda>kv. length (fst kv) + str_bytes (snd kv)) (kv # kvs)) \<le> maxStringBytes lim \<and>
     list_all (\<lambda>kv. nested_in (maxDepth lim - d) (snd kv)) (kv # kvs) \<and> distinct (map fst (acc @ kv # kvs)) \<and>
     list_all (\<lambda>kv. token_size (fst kv) \<le> maxStringTokenBytes lim \<and> dump_ok dbl lim (snd kv)) (kv # kvs) \<and> kv # kvs \<noteq> []"
  then obtain g where f: "f = Suc g" by (cases f) auto
  have shape: "dump_members dbl pretty dd True (kv # kvs) @ ?fin =
      indent pretty (dd + 1) @ escape key @ CHR '':'' # ?sp @ dump dbl pretty (dd + 1) v @ ?tail"
    by (simp add: kv)
  have "no_number ?tail"
  proof (cases kvs)
    case Nil
    then show ?thesis by (auto intro!: no_number_indent simp: c_isdigit_def)
  next
    case (Cons y ys)
    then show ?thesis by (simp add: no_number_def c_isdigit_def)
  qed
  then have v: "parse_value dbl lim g d n (sb + length key) (?sp @ dump dbl pretty (dd + 1) v @ ?tail) =
      Done (v, n + nodes_of v, sb + length key + str_bytes v, ?tail)"
    using * x unfolding shape f kv snd_conv by (intro reads_valueD) (auto simp: all_ws_def is_ws_def escape_def)
  have "skipWs (indent pretty (dd + 1) @ escape key @ CHR '':'' # ?sp @ dump dbl pretty (dd + 1) v @ ?tail) =
      escape key @ CHR '':'' # ?sp @ dump dbl pretty (dd + 1) v @ ?tail"
    using value_at [of "indent pretty (dd + 1)" "CHR 0x22"] by (simp add: escape_def is_ws_def)
  then have k: "parseString lim sb (skipWs (indent pretty (dd + 1) @ escape key @ CHR '':'' # ?sp @ dump dbl pretty (dd + 1) v @ ?tail)) =
      Some (key, sb + length key, CHR '':'' # ?sp @ dump dbl pretty (dd + 1) v @ ?tail)"
    using * parseString_escape [of key lim sb] by (simp add: kv)
  have colon: "skipWs (CHR '':'' # s) = CHR '':'' # s" for s
    by (rule skipWs_Cons) (simp add: is_ws_def)
  have fresh: "key \<notin> set (map fst acc)" "length acc < maxContainerEntries lim" using * kv by auto
  show "parse_members dbl lim f d acc n sb (dump_members dbl pretty dd True (kv # kvs) @ ?fin) =
       Done (acc @ kv # kvs, n + sum_list (map (\<lambda>kv. nodes_of (snd kv)) (kv # kvs)),
         sb + sum_list (map (\<lambda>kv. length (fst kv) + str_bytes (snd kv)) (kv # kvs)), rest)"
  proof (cases kvs)
    case Nil
    have "skipWs ?tail = CHR ''}'' # rest"
      using value_at [of "indent pretty dd" "CHR ''}''" rest] Nil by (simp add: is_ws_def)
    then show ?thesis
      using fresh k v colon unfolding shape f parse_members.simps members_step_def by (simp add: Nil kv)
  next
    case (Cons y ys)
    have sk: "skipWs ?tail = CHR '','' # dump_members dbl pretty dd True kvs @ ?fin"
      unfolding Cons dump_members_False append_Cons by (rule skipWs_Cons) (simp add: is_ws_def)
    have "parse_members dbl lim g d (acc @ [(key, v)]) (n + nodes_of v) (sb + length key + str_bytes v) (dump_members dbl pretty dd True kvs @ ?fin) =
       Done ((acc @ [(key, v)]) @ kvs, n + nodes_of v + sum_list (map (\<lambda>kv. nodes_of (snd kv)) kvs),
         sb + length key + str_bytes v + sum_list (map (\<lambda>kv. length (fst kv) + str_bytes (snd kv)) kvs), rest)"
      using xs [of g] * Cons f kv unfolding reads_members_def by auto
    then show ?thesis
      using fresh k v colon unfolding shape f parse_members.simps members_step_def
      by (simp add: sk add.assoc kv del: dump_members.simps)
  qed
qed

lemma reads_Nil: "reads_elems dbl lim f d pretty dd []" "reads_members dbl lim f d pretty dd []"
  by (simp_all add: reads_elems_def reads_members_def)

lemma skip_indent: "\<not> is_ws c \<Longrightarrow> skipWs (indent pretty d @ c # s) = c # s"
  by (rule value_at) simp_all

lemma skipWs_twice: "skipWs (skipWs s) = skipWs s"
  by (simp add: skipWs_def)

text \<open>The loops skip leading white space, as the code before them does.\<close>

lemma parse_elems_skip: "parse_elems dbl lim f d acc n sb (skipWs s) = parse_elems dbl lim f d acc n sb s"
proof -
  have "parse_value dbl lim g d n sb (skipWs s) = parse_value dbl lim g d n sb s" for g
    by (cases g) (simp_all add: parse_value.simps value_step_def skipWs_twice)
  then show ?thesis by (cases f) (simp_all add: parse_elems.simps elems_step_def)
qed

lemma parse_members_skip: "parse_members dbl lim f d acc n sb (skipWs s) = parse_members dbl lim f d acc n sb s"
  by (cases f) (simp_all add: parse_members.simps members_step_def skipWs_twice)

lemma dump_nonempty: "dump_ok dbl lim v \<Longrightarrow> \<exists>c cs. dump dbl pretty dd v = c # cs \<and> \<not> is_ws c \<and> c \<noteq> CHR '']''"
proof (cases v)
  case (Num x)
  assume "dump_ok dbl lim v"
  then obtain c cs where "numToStr dbl x = c # cs" "scalar_start c"
    using scan_number_hd [of lim "numToStr dbl x"] Num
    by (cases "numToStr dbl x") (auto dest!: double_ok_scan simp: scalar_start_def)
  moreover have "\<not> c_isdigit (CHR '']'')" by (simp add: c_isdigit_def)
  ultimately show ?thesis using scalar_startD [of c] Num by (auto simp: scalar_start_def)
qed (auto simp: escape_def is_ws_def)

lemma reads_Arr:
  assumes xs: "\<And>f d. reads_elems dbl lim f d pretty dd xs"
  shows "reads_value dbl lim f d (Arr xs) (dump dbl pretty dd (Arr xs))"
proof (rule reads_valueI)
  fix g n sb w rest
  assume w: "all_ws w" and n: "n + nodes_of (Arr xs) \<le> maxNodes lim" and sb: "sb + str_bytes (Arr xs) \<le> maxStringBytes lim"
    and len: "2 * length (w @ dump dbl pretty dd (Arr xs) @ rest) < Suc g"
    and nest: "nested_in (maxDepth lim - d) (Arr xs)" and ok: "dump_ok dbl lim (Arr xs)"
  have d: "d < maxDepth lim" "maxDepth lim - d - 1 = maxDepth lim - Suc d" using nest by auto
  show "value_step dbl lim (parse_members dbl lim g) (parse_elems dbl lim g) d n sb (w @ dump dbl pretty dd (Arr xs) @ rest) =
       Done (Arr xs, n + nodes_of (Arr xs), sb + str_bytes (Arr xs), rest)"
  proof (cases xs)
    case Nil
    have "skipWs (w @ CHR ''['' # CHR '']'' # rest) = CHR ''['' # CHR '']'' # rest"
      by (rule value_at [OF w]) (simp add: is_ws_def)
    moreover have "skipWs (CHR '']'' # rest) = CHR '']'' # rest" by (rule skipWs_Cons) (simp add: is_ws_def)
    ultimately show ?thesis
      using n d by (simp add: Nil value_step_def Let_def)
  next
    case (Cons y ys)
    let ?body = "dump_elems dbl pretty dd True xs @ indent pretty dd @ CHR '']'' # rest"
    have t: "w @ dump dbl pretty dd (Arr xs) @ rest = w @ CHR ''['' # ?body" by (simp add: Cons)
    have sk: "skipWs (w @ CHR ''['' # ?body) = CHR ''['' # ?body"
      by (rule value_at [OF w]) (simp add: is_ws_def)
    obtain c cs where y: "dump dbl pretty (dd + 1) y = c # cs" "\<not> is_ws c" "c \<noteq> CHR '']''"
      using dump_nonempty [of dbl lim y pretty "dd + 1"] ok Cons by auto
    have "skipWs ?body = c # cs @ dump_elems dbl pretty dd False ys @ indent pretty dd @ CHR '']'' # rest"
      using y by (simp add: Cons skip_indent)
    then have ne: "\<not> starts (\<lambda>c. c = CHR '']'') (skipWs ?body)" using y(3) by simp
    have "parse_elems dbl lim g (d + 1) [] (n + 1) sb ?body =
        Done ([] @ xs, n + 1 + sum_list (map nodes_of xs), sb + sum_list (map str_bytes xs), rest)"
      using xs [of g "d + 1"] n sb len nest ok Cons unfolding reads_elems_def t by (auto simp: d)
    then show ?thesis
      using n d ne unfolding t by (simp add: value_step_def Let_def sk parse_elems_skip)
  qed
qed

lemma reads_Obj:
  assumes kvs: "\<And>f d. reads_members dbl lim f d pretty dd kvs"
  shows "reads_value dbl lim f d (Obj kvs) (dump dbl pretty dd (Obj kvs))"
proof (rule reads_valueI)
  fix g n sb w rest
  assume w: "all_ws w" and n: "n + nodes_of (Obj kvs) \<le> maxNodes lim" and sb: "sb + str_bytes (Obj kvs) \<le> maxStringBytes lim"
    and len: "2 * length (w @ dump dbl pretty dd (Obj kvs) @ rest) < Suc g"
    and nest: "nested_in (maxDepth lim - d) (Obj kvs)" and ok: "dump_ok dbl lim (Obj kvs)"
  have d: "d < maxDepth lim" "maxDepth lim - d - 1 = maxDepth lim - Suc d" using nest by auto
  show "value_step dbl lim (parse_members dbl lim g) (parse_elems dbl lim g) d n sb (w @ dump dbl pretty dd (Obj kvs) @ rest) =
       Done (Obj kvs, n + nodes_of (Obj kvs), sb + str_bytes (Obj kvs), rest)"
  proof (cases kvs)
    case Nil
    have "skipWs (w @ CHR ''{'' # CHR ''}'' # rest) = CHR ''{'' # CHR ''}'' # rest"
      by (rule value_at [OF w]) (simp add: is_ws_def)
    moreover have "skipWs (CHR ''}'' # rest) = CHR ''}'' # rest" by (rule skipWs_Cons) (simp add: is_ws_def)
    ultimately show ?thesis
      using n d by (simp add: Nil value_step_def Let_def)
  next
    case (Cons y ys)
    let ?body = "dump_members dbl pretty dd True kvs @ indent pretty dd @ CHR ''}'' # rest"
    have t: "w @ dump dbl pretty dd (Obj kvs) @ rest = w @ CHR ''{'' # ?body" by (simp add: Cons)
    have sk: "skipWs (w @ CHR ''{'' # ?body) = CHR ''{'' # ?body"
      by (rule value_at [OF w]) (simp add: is_ws_def)
    have "skipWs ?body = CHR 0x22 # tl (escape (fst y)) @ (if pretty then '': '' else '':'') @ dump dbl pretty (dd + 1) (snd y) @
        dump_members dbl pretty dd False ys @ indent pretty dd @ CHR ''}'' # rest"
      unfolding Cons by (simp add: escape_def skip_indent is_ws_def)
    then have ne: "\<not> starts (\<lambda>c. c = CHR ''}'') (skipWs ?body)" by simp
    have "parse_members dbl lim g (d + 1) [] (n + 1) sb ?body =
        Done ([] @ kvs, n + 1 + sum_list (map (\<lambda>kv. nodes_of (snd kv)) kvs),
          sb + sum_list (map (\<lambda>kv. length (fst kv) + str_bytes (snd kv)) kvs), rest)"
      using kvs [of g "d + 1"] n sb len nest ok Cons unfolding reads_members_def t by (auto simp: d)
    then show ?thesis
      using n d ne unfolding t by (simp add: value_step_def Let_def sk parse_members_skip)
  qed
qed

lemma reads_dump:
  fixes first first2 :: bool
  shows "reads_value dbl lim f d v (dump dbl pretty dd v)"
  and "reads_elems dbl lim f d pretty dd xs"
  and "reads_members dbl lim f d pretty dd kvs"
proof (induction dbl pretty dd v and dbl pretty dd first xs and dbl pretty dd first2 kvs arbitrary: f d and f d and f d
    rule: dump_dump_elems_dump_members.induct)
  case (2 dbl pretty d b)
  then show ?case by (cases b) (simp_all add: reads_words)
next
  case (5 dbl pretty d xs)
  then show ?case by (cases "xs = []") (auto intro!: reads_Arr simp del: dump.simps simp: reads_Nil)
next
  case (6 dbl pretty d kvs)
  then show ?case by (cases "kvs = []") (auto intro!: reads_Obj simp del: dump.simps simp: reads_Nil)
qed (simp_all add: reads_words reads_Num reads_Str reads_Nil reads_elems_Cons reads_members_Cons del: dump_elems.simps dump_members.simps)

text \<open>C4: the serializer and the parser agree. For every value within the parser's limits, parsing its
  dump, indented or not, gives the value back: strings of arbitrary bytes, control characters and
  quotes included, empty and nested containers, member order, whole and fractional numbers with or
  without an exponent. Of the C library it is assumed (\<open>double_ok\<close>) that \<open>%.17g\<close> prints a number in the
  grammar of RFC 8259 and that \<open>strtod\<close> reads the printed text back; that the scanner takes that text as
  one token is proved.\<close>

theorem Parse_Dump:
  assumes "limits_set lim" "dump_ok dbl lim v" "nodes_of v \<le> maxNodes lim" "str_bytes v \<le> maxStringBytes lim"
    "nested_in (maxDepth lim) v"
  shows "Parse dbl (Dump dbl v pretty) lim = Some v"
proof -
  let ?t = "dump dbl pretty 0 v"
  have "parse_value dbl lim (2 * length ?t + 1) 0 0 0 ([] @ ?t @ []) = Done (v, 0 + nodes_of v, 0 + str_bytes v, [])"
    by (rule reads_valueD [OF reads_dump(1)]) (use assms in \<open>simp_all add: all_ws_def no_number_def\<close>)
  then show ?thesis
    using assms(1) by (simp add: Parse_def Dump_def skipWs_def)
qed

section \<open>Object access\<close>

lemma Value_find_set: "Value_find (Value_set x k v) k' = (if k' = k then Some v else Value_find x k')"
proof -
  have "map_option snd (List.find (\<lambda>kv. fst kv = k') (set_field kvs k v)) =
      (if k' = k then Some v else map_option snd (List.find (\<lambda>kv. fst kv = k') kvs))" for kvs :: "(string \<times> 'a Value) list"
    by (induction kvs) auto
  then show ?thesis by (simp add: Value_find_def Value_set_def)
qed

lemma set_field_keys: "map fst (set_field kvs k v) = (if k \<in> set (map fst kvs) then map fst kvs else map fst kvs @ [k])"
  by (induction kvs) auto

section \<open>An example\<close>

definition sample_ops :: "int double_ops" where
  \<comment> \<open>a C library on the numbers \<open>- 42\<close> and \<open>1.5e-07\<close>, which is represented by \<open>7\<close>\<close>
  "sample_ops = \<lparr>d_strtod = (\<lambda>s. if s = ''-42'' then Some (- 42) else if s = ''1.5e-07'' then Some 7 else None),
     d_finite = (\<lambda>_. True), d_whole = (\<lambda>x. if x = 7 then None else Some x), d_g17 = (\<lambda>_. ''1.5e-07''), d_trunc = (\<lambda>i. i)\<rparr>"

definition demo_value :: "int Value" where
  "demo_value = Obj [(''k'' @ [CHR 0x0A], Arr [Num (- 42), Str [CHR 0x22, CHR 0x01], Null, Bool True]), ([], Obj []), (''x'', Num 7)]"

lemma sample_numbers: "double_ok sample_ops default_limits (- 42)" "double_ok sample_ops default_limits 7"
proof -
  have "dec 42 = ''42''" by code_simp
  then show "double_ok sample_ops default_limits (- 42)"
    by (simp add: double_ok_def sample_ops_def dec_int_def default_limits_def)
  have "json_number ''1.5e-07''"
    unfolding json_number_def
    by (rule exI [of _ "[]"], rule exI [of _ "''1''"], rule exI [of _ "''.5''"], rule exI [of _ "''e-07''"])
      (simp add: all_digits_def c_isdigit_def, rule exI [of _ "''-''"], simp add: all_digits_def c_isdigit_def)
  then show "double_ok sample_ops default_limits 7"
    by (simp add: double_ok_def sample_ops_def default_limits_def)
qed

lemma Parse_Dump_witness: "Parse sample_ops (Dump sample_ops demo_value True) default_limits = Some demo_value"
proof (rule Parse_Dump)
  show "dump_ok sample_ops default_limits demo_value"
    using sample_numbers by (simp add: demo_value_def default_limits_def token_size_def)
qed (simp_all add: limits_set_def default_limits_def demo_value_def)

end
