(* ===== verification/Jdwp.thy ===== *)
theory Jdwp
  imports Prelude
begin

unbundle bit_operations_syntax

text \<open>
  \<open>src/src/Core/Jdwp.h\<close> and \<open>Jdwp.cpp\<close>: the wire format of the Java debug protocol: the big-endian
  payload writer and reader, packet framing, reply and event parsers, request builders. A parser
  that fills an out parameter and returns a flag returns the pair. The reader keeps the offset and
  the sticky failure flag of the code.
\<close>

section \<open>Constants and records\<close>

definition kJdwpReplyFlag :: u8 where "kJdwpReplyFlag = 0x80"
definition kJdwpHeaderLen :: nat where "kJdwpHeaderLen = 11"

definition JDWP_EK_SINGLE_STEP :: u8 where "JDWP_EK_SINGLE_STEP = 1"
definition JDWP_EK_BREAKPOINT :: u8 where "JDWP_EK_BREAKPOINT = 2"
definition JDWP_EK_EXCEPTION :: u8 where "JDWP_EK_EXCEPTION = 4"
definition JDWP_EK_THREAD_START :: u8 where "JDWP_EK_THREAD_START = 6"
definition JDWP_EK_THREAD_DEATH :: u8 where "JDWP_EK_THREAD_DEATH = 7"
definition JDWP_EK_CLASS_PREPARE :: u8 where "JDWP_EK_CLASS_PREPARE = 8"
definition JDWP_EK_VM_START :: u8 where "JDWP_EK_VM_START = 90"
definition JDWP_EK_VM_DEATH :: u8 where "JDWP_EK_VM_DEATH = 99"
definition JDWP_SP_ALL :: u8 where "JDWP_SP_ALL = 2"

record JdwpIdSizes =
  sz_fieldID :: int
  sz_methodID :: int
  sz_objectID :: int
  sz_referenceTypeID :: int
  sz_frameID :: int

record JdwpLocation =
  loc_typeTag :: u8
  loc_classID :: u64
  loc_methodID :: u64
  loc_index :: u64

record JdwpPacket =
  pk_id :: u32
  pk_flags :: u8
  pk_cmdSet :: u8
  pk_cmd :: u8
  pk_errorCode :: u16
  pk_payload :: bytes

record JdwpVersionInfo =
  ver_description :: bytes
  ver_jdwpMajor :: u32
  ver_jdwpMinor :: u32
  ver_vmVersion :: bytes
  ver_vmName :: bytes

record JdwpClassInfo =
  ci_refTypeTag :: u8
  ci_typeID :: u64
  ci_signature :: bytes
  ci_status :: u32

record JdwpMethodInfo =
  mi_methodID :: u64
  mi_name :: bytes
  mi_signature :: bytes
  mi_modBits :: u32

record JdwpFrameInfo =
  fi_frameID :: u64
  fi_loc :: JdwpLocation

record JdwpEvent =
  ev_eventKind :: u8
  ev_requestID :: u32
  ev_threadID :: u64
  ev_loc :: JdwpLocation
  ev_typeID :: u64
  ev_signature :: bytes

record JdwpEventSet =
  es_suspendPolicy :: u8
  es_events :: "JdwpEvent list"

definition no_location :: JdwpLocation where
  "no_location = \<lparr>loc_typeTag = 1, loc_classID = 0, loc_methodID = 0, loc_index = 0\<rparr>"

section \<open>Writer\<close>

definition be_bytes :: "nat \<Rightarrow> 'a::len word \<Rightarrow> bytes" where
  \<comment> \<open>the shift loops: the most significant of \<open>n\<close> bytes first\<close>
  "be_bytes n v = map (\<lambda>k. ucast (drop_bit (8 * k) v)) (rev [0..<n])"

definition w_u1 :: "u8 \<Rightarrow> bytes" where "w_u1 v = [v]"
definition w_u2 :: "u16 \<Rightarrow> bytes" where "w_u2 v = [ucast (drop_bit 8 v), ucast v]"
definition w_u4 :: "u32 \<Rightarrow> bytes" where "w_u4 v = be_bytes 4 v"
definition w_u8 :: "u64 \<Rightarrow> bytes" where "w_u8 v = be_bytes 8 v"
definition w_id :: "int \<Rightarrow> u64 \<Rightarrow> bytes" where "w_id n v = be_bytes (nat n) v"
definition w_str :: "bytes \<Rightarrow> bytes" where "w_str s = w_u4 (of_nat (length s)) @ s"

definition w_location :: "JdwpIdSizes \<Rightarrow> JdwpLocation \<Rightarrow> bytes" where
  "w_location sz l = w_u1 (loc_typeTag l) @ w_id (sz_referenceTypeID sz) (loc_classID l) @
     w_id (sz_methodID sz) (loc_methodID l) @ w_u8 (loc_index l)"

section \<open>Reader\<close>

record JdwpReader =
  rd_p :: bytes
  rd_off :: nat
  rd_fail :: bool

definition reader :: "bytes \<Rightarrow> JdwpReader" where
  "reader p = \<lparr>rd_p = p, rd_off = 0, rd_fail = False\<rparr>"

definition atEnd :: "JdwpReader \<Rightarrow> bool" where
  "atEnd r \<longleftrightarrow> rd_off r \<ge> length (rd_p r)"

definition need :: "nat \<Rightarrow> JdwpReader \<Rightarrow> bool \<times> JdwpReader" where
  "need k r =
     (if rd_fail r \<or> rd_off r > length (rd_p r) \<or> length (rd_p r) - rd_off r < k
      then (False, r\<lparr>rd_fail := True\<rparr>) else (True, r))"

definition be_fold :: "bytes \<Rightarrow> 'a::len word" where
  "be_fold bs = foldl (\<lambda>v b. push_bit 8 v OR ucast b) 0 bs"

definition take_bytes :: "nat \<Rightarrow> JdwpReader \<Rightarrow> bytes" where
  \<comment> \<open>\<open>p_[off_]\<close> up to \<open>p_[off_ + k - 1]\<close>\<close>
  "take_bytes k r = take k (drop (rd_off r) (rd_p r))"

definition r_be :: "nat \<Rightarrow> JdwpReader \<Rightarrow> 'a::len word \<times> JdwpReader" where
  \<comment> \<open>\<open>k\<close> bytes as a big-endian number, zero when they are not there\<close>
  "r_be k r = (case need k r of (ok, r1) \<Rightarrow>
     if \<not> ok then (0, r1) else (be_fold (take_bytes k r1), r1\<lparr>rd_off := rd_off r1 + k\<rparr>))"

definition r_u1 :: "JdwpReader \<Rightarrow> u8 \<times> JdwpReader" where "r_u1 r = r_be 1 r"
definition r_u2 :: "JdwpReader \<Rightarrow> u16 \<times> JdwpReader" where "r_u2 r = r_be 2 r"
definition r_u4 :: "JdwpReader \<Rightarrow> u32 \<times> JdwpReader" where "r_u4 r = r_be 4 r"
definition r_u8 :: "JdwpReader \<Rightarrow> u64 \<times> JdwpReader" where "r_u8 r = r_be 8 r"

definition r_id :: "int \<Rightarrow> JdwpReader \<Rightarrow> u64 \<times> JdwpReader" where
  "r_id n r = (if n < 1 \<or> n > 8 then (0, r\<lparr>rd_fail := True\<rparr>) else r_be (nat n) r)"

definition r_str :: "JdwpReader \<Rightarrow> bytes \<times> JdwpReader" where
  "r_str r = (case r_u4 r of (len, r1) \<Rightarrow>
     if rd_fail r1 then ([], r1)
     else case need (unat len) r1 of (ok, r2) \<Rightarrow>
       if \<not> ok then ([], r2)
       else (take_bytes (unat len) r2, r2\<lparr>rd_off := rd_off r2 + unat len\<rparr>))"

definition r_location :: "JdwpIdSizes \<Rightarrow> JdwpReader \<Rightarrow> JdwpLocation \<times> JdwpReader" where
  "r_location sz r =
     (let (t, r1) = r_u1 r; (c, r2) = r_id (sz_referenceTypeID sz) r1; (m, r3) = r_id (sz_methodID sz) r2; (i, r4) = r_u8 r3
      in (\<lparr>loc_typeTag = t, loc_classID = c, loc_methodID = m, loc_index = i\<rparr>, r4))"

definition r_skip :: "nat \<Rightarrow> JdwpReader \<Rightarrow> JdwpReader" where
  "r_skip k r = (case need k r of (ok, r1) \<Rightarrow> if ok then r1\<lparr>rd_off := rd_off r1 + k\<rparr> else r1)"

section \<open>Packet framing\<close>

definition JdwpEncodeCommand :: "u32 \<Rightarrow> u8 \<Rightarrow> u8 \<Rightarrow> bytes \<Rightarrow> bytes" where
  "JdwpEncodeCommand i cmdSet cmd payload =
     be_bytes 4 (of_nat (kJdwpHeaderLen + length payload) :: u32) @ be_bytes 4 i @ [0, cmdSet, cmd] @ payload"

definition isReply :: "JdwpPacket \<Rightarrow> bool" where
  "isReply p \<longleftrightarrow> pk_flags p AND kJdwpReplyFlag \<noteq> 0"

datatype JdwpDecode = NeedMore | Malformed | Packet JdwpPacket nat

text \<open>\<open>NeedMore\<close>: false with \<open>consumed = 0\<close>; \<open>Malformed\<close>: false with \<open>consumed = SIZE_MAX\<close>; \<open>Packet\<close>:
  true with the packet and \<open>consumed\<close>.\<close>

definition JdwpDecodePacket :: "bytes \<Rightarrow> JdwpDecode" where
  "JdwpDecodePacket data =
     (if length data < kJdwpHeaderLen then NeedMore
      else
        let len = unat (be_fold (take 4 data) :: u32)
        in if len < kJdwpHeaderLen \<or> len > 512 * 2 ^ 20 then Malformed
           else if length data < len then NeedMore
           else
             let reply = data ! 8 AND kJdwpReplyFlag \<noteq> 0
             in Packet \<lparr>pk_id = be_fold (take 4 (drop 4 data)), pk_flags = data ! 8,
                  pk_cmdSet = (if reply then 0 else data ! 9), pk_cmd = (if reply then 0 else data ! 10),
                  pk_errorCode = (if reply then push_bit 8 (ucast (data ! 9)) OR ucast (data ! 10) else 0),
                  pk_payload = drop kJdwpHeaderLen (take len data)\<rparr> len)"

section \<open>Reply parsers\<close>

definition JdwpParseVersion :: "bytes \<Rightarrow> bool \<times> JdwpVersionInfo" where
  "JdwpParseVersion payload =
     (let (d, r1) = r_str (reader payload); (a, r2) = r_u4 r1; (b, r3) = r_u4 r2; (v, r4) = r_str r3; (n, r5) = r_str r4
      in (\<not> rd_fail r5, \<lparr>ver_description = d, ver_jdwpMajor = a, ver_jdwpMinor = b, ver_vmVersion = v, ver_vmName = n\<rparr>))"

definition id_size_sane :: "int \<Rightarrow> bool" where
  "id_size_sane v \<longleftrightarrow> v \<ge> 1 \<and> v \<le> 8"

definition sizes_sane :: "JdwpIdSizes \<Rightarrow> bool" where
  "sizes_sane sz \<longleftrightarrow> id_size_sane (sz_fieldID sz) \<and> id_size_sane (sz_methodID sz) \<and> id_size_sane (sz_objectID sz) \<and>
     id_size_sane (sz_referenceTypeID sz) \<and> id_size_sane (sz_frameID sz)"

definition JdwpParseIdSizes :: "bytes \<Rightarrow> bool \<times> JdwpIdSizes" where
  "JdwpParseIdSizes payload =
     (let (f, r1) = r_u4 (reader payload); (m, r2) = r_u4 r1; (ob, r3) = r_u4 r2; (rt, r4) = r_u4 r3; (fr, r5) = r_u4 r4;
          out = \<lparr>sz_fieldID = sint f, sz_methodID = sint m, sz_objectID = sint ob, sz_referenceTypeID = sint rt, sz_frameID = sint fr\<rparr>
      in (if rd_fail r5 then False else sizes_sane out, out))"

text \<open>The loops of the list parsers: \<open>i\<close> counts up to \<open>count\<close>, an element that fails to read ends the
  loop, and so does a full output.\<close>

fun read_items :: "(JdwpReader \<Rightarrow> 'a \<times> JdwpReader) \<Rightarrow> nat \<Rightarrow> nat \<Rightarrow> 'a list \<Rightarrow> JdwpReader \<Rightarrow> 'a list \<times> JdwpReader" where
  "read_items get 0 limit out r = (out, r)"
| "read_items get (Suc left) limit out r =
     (if rd_fail r \<or> length out \<ge> limit then (out, r)
      else case get r of (x, r1) \<Rightarrow>
        if rd_fail r1 then (out, r1) else read_items get left limit (out @ [x]) r1)"

definition parse_list :: "(JdwpReader \<Rightarrow> 'a \<times> JdwpReader) \<Rightarrow> nat \<Rightarrow> JdwpReader \<Rightarrow> bool \<times> 'a list" where
  "parse_list get limit r =
     (let (count, r1) = r_u4 r; (out, r2) = read_items get (unat count) limit [] r1 in (\<not> rd_fail r2, out))"

definition r_class :: "JdwpIdSizes \<Rightarrow> JdwpReader \<Rightarrow> JdwpClassInfo \<times> JdwpReader" where
  "r_class sz r =
     (let (t, r1) = r_u1 r; (i, r2) = r_id (sz_referenceTypeID sz) r1; (s, r3) = r_str r2; (st, r4) = r_u4 r3
      in (\<lparr>ci_refTypeTag = t, ci_typeID = i, ci_signature = s, ci_status = st\<rparr>, r4))"

definition JdwpParseAllClasses :: "bytes \<Rightarrow> JdwpIdSizes \<Rightarrow> nat \<Rightarrow> bool \<times> JdwpClassInfo list" where
  "JdwpParseAllClasses payload sz maxClasses = parse_list (r_class sz) maxClasses (reader payload)"

definition JdwpParseAllThreads :: "bytes \<Rightarrow> JdwpIdSizes \<Rightarrow> nat \<Rightarrow> bool \<times> u64 list" where
  "JdwpParseAllThreads payload sz maxThreads = parse_list (r_id (sz_objectID sz)) maxThreads (reader payload)"

definition r_method :: "JdwpIdSizes \<Rightarrow> JdwpReader \<Rightarrow> JdwpMethodInfo \<times> JdwpReader" where
  "r_method sz r =
     (let (i, r1) = r_id (sz_methodID sz) r; (n, r2) = r_str r1; (s, r3) = r_str r2; (m, r4) = r_u4 r3
      in (\<lparr>mi_methodID = i, mi_name = n, mi_signature = s, mi_modBits = m\<rparr>, r4))"

definition JdwpParseMethods :: "bytes \<Rightarrow> JdwpIdSizes \<Rightarrow> nat \<Rightarrow> bool \<times> JdwpMethodInfo list" where
  "JdwpParseMethods payload sz maxMethods = parse_list (r_method sz) maxMethods (reader payload)"

definition r_frame :: "JdwpIdSizes \<Rightarrow> JdwpReader \<Rightarrow> JdwpFrameInfo \<times> JdwpReader" where
  "r_frame sz r = (let (i, r1) = r_id (sz_frameID sz) r; (l, r2) = r_location sz r1 in (\<lparr>fi_frameID = i, fi_loc = l\<rparr>, r2))"

definition JdwpParseFrames :: "bytes \<Rightarrow> JdwpIdSizes \<Rightarrow> nat \<Rightarrow> bool \<times> JdwpFrameInfo list" where
  "JdwpParseFrames payload sz maxFrames = parse_list (r_frame sz) maxFrames (reader payload)"

definition JdwpParseThreadStatus :: "bytes \<Rightarrow> bool \<times> u32 \<times> u32" where
  "JdwpParseThreadStatus payload =
     (let (t, r1) = r_u4 (reader payload); (s, r2) = r_u4 r1 in (\<not> rd_fail r2, t, s))"

definition JdwpParseBytecodes :: "bytes \<Rightarrow> bool \<times> bytes" where
  "JdwpParseBytecodes payload =
     (let (count, r) = r_u4 (reader payload)
      in if rd_fail r \<or> unat count > length payload - 4 then (False, [])
         else (True, take (unat count) (drop 4 payload)))"

definition JdwpParseConstantPool :: "bytes \<Rightarrow> bool \<times> u32 \<times> bytes" where
  "JdwpParseConstantPool payload =
     (let (cpCount, r1) = r_u4 (reader payload); (byteCount, r2) = r_u4 r1
      in if rd_fail r2 \<or> unat byteCount > length payload - 8 then (False, cpCount, [])
         else (True, cpCount, take (unat byteCount) (drop 8 payload)))"

definition r_line :: "JdwpReader \<Rightarrow> (u64 \<times> u32) \<times> JdwpReader" where
  "r_line r = (let (ci, r1) = r_u8 r; (ln, r2) = r_u4 r1 in ((ci, ln), r2))"

definition JdwpParseLineTable :: "bytes \<Rightarrow> bool \<times> (u64 \<times> u32) list" where
  "JdwpParseLineTable payload =
     (let (_, r1) = r_u8 (reader payload); (_, r2) = r_u8 r1 in parse_list r_line 65536 r2)"

section \<open>Events\<close>

definition event_body :: "JdwpIdSizes \<Rightarrow> JdwpEvent \<Rightarrow> JdwpReader \<Rightarrow> (JdwpEvent \<times> JdwpReader) option" where
  \<comment> \<open>the \<open>switch\<close>; \<open>None\<close> is its default branch\<close>
  "event_body sz e r =
     (let k = ev_eventKind e
      in if k = JDWP_EK_VM_START \<or> k = JDWP_EK_THREAD_START \<or> k = JDWP_EK_THREAD_DEATH then
           (let (t, r1) = r_id (sz_objectID sz) r in Some (e\<lparr>ev_threadID := t\<rparr>, r1))
         else if k = JDWP_EK_BREAKPOINT \<or> k = JDWP_EK_SINGLE_STEP then
           (let (t, r1) = r_id (sz_objectID sz) r; (l, r2) = r_location sz r1
            in Some (e\<lparr>ev_threadID := t, ev_loc := l\<rparr>, r2))
         else if k = JDWP_EK_CLASS_PREPARE then
           (let (t, r1) = r_id (sz_objectID sz) r; (tag, r2) = r_u1 r1; (ty, r3) = r_id (sz_referenceTypeID sz) r2;
                (s, r4) = r_str r3; (_, r5) = r_u4 r4
            in Some (e\<lparr>ev_threadID := t, ev_loc := (ev_loc e)\<lparr>loc_typeTag := tag\<rparr>, ev_typeID := ty, ev_signature := s\<rparr>, r5))
         else if k = JDWP_EK_VM_DEATH then Some (e, r)
         else None)"

definition event_head :: "JdwpReader \<Rightarrow> JdwpEvent \<times> JdwpReader" where
  "event_head r =
     (let (k, r1) = r_u1 r; (i, r2) = r_u4 r1
      in (\<lparr>ev_eventKind = k, ev_requestID = i, ev_threadID = 0, ev_loc = no_location, ev_typeID = 0, ev_signature = []\<rparr>, r2))"

fun read_events :: "JdwpIdSizes \<Rightarrow> nat \<Rightarrow> JdwpEvent list \<Rightarrow> JdwpReader \<Rightarrow> bool \<times> JdwpEvent list" where
  "read_events sz 0 out r = (\<not> rd_fail r, out)"
| "read_events sz (Suc left) out r =
     (if rd_fail r then (False, out)
      else case event_head r of (e, r1) \<Rightarrow>
        case event_body sz e r1 of
          None \<Rightarrow> (True, out @ [e])
        | Some (e1, r2) \<Rightarrow> if rd_fail r2 then (False, out) else read_events sz left (out @ [e1]) r2)"

definition JdwpParseEventComposite :: "bytes \<Rightarrow> JdwpIdSizes \<Rightarrow> bool \<times> JdwpEventSet" where
  "JdwpParseEventComposite payload sz =
     (let (sp, r1) = r_u1 (reader payload); (count, r2) = r_u4 r1; (ok, evs) = read_events sz (unat count) [] r2
      in (ok, \<lparr>es_suspendPolicy = sp, es_events = evs\<rparr>))"

section \<open>Request builders\<close>

definition JdwpBuildBreakpointRequest :: "JdwpLocation \<Rightarrow> JdwpIdSizes \<Rightarrow> bytes" where
  "JdwpBuildBreakpointRequest loc sz =
     w_u1 JDWP_EK_BREAKPOINT @ w_u1 JDWP_SP_ALL @ w_u4 1 @ w_u1 7 @ w_location sz loc"

definition JdwpBuildStepRequest :: "u64 \<Rightarrow> u32 \<Rightarrow> JdwpIdSizes \<Rightarrow> u32 \<Rightarrow> bytes" where
  "JdwpBuildStepRequest threadID depth sz stepSize =
     w_u1 JDWP_EK_SINGLE_STEP @ w_u1 JDWP_SP_ALL @ w_u4 2 @ w_u1 10 @ w_id (sz_objectID sz) threadID @
     w_u4 stepSize @ w_u4 depth @ w_u1 1 @ w_u4 1"

definition JdwpBuildClearRequest :: "u8 \<Rightarrow> u32 \<Rightarrow> bytes" where
  "JdwpBuildClearRequest eventKind requestID = w_u1 eventKind @ w_u4 requestID"

definition JdwpSignatureToClassName :: "string \<Rightarrow> string" where
  "JdwpSignatureToClassName sig =
     (if length sig \<ge> 2 \<and> hd sig = CHR ''L'' \<and> last sig = CHR '';'' then butlast (tl sig) else sig)"

section \<open>Big-endian numbers\<close>

lemma be_bytes_Suc: "be_bytes (Suc n) v = ucast (drop_bit (8 * n) v) # be_bytes n v"
  by (simp add: be_bytes_def)

lemma length_be_bytes [simp]: "length (be_bytes n v) = n"
  by (simp add: be_bytes_def)

lemma be_fold_step:
  fixes a v :: "'a::len word"
  assumes "8 * Suc n \<le> LENGTH('a)"
  shows "push_bit (8 * n) (push_bit 8 a OR ucast (ucast (drop_bit (8 * n) v) :: u8)) OR take_bit (8 * n) v =
     push_bit (8 * Suc n) a OR take_bit (8 * Suc n) v"
  using assms by (intro bit_word_eqI) (auto simp: bit_simps ac_simps)

lemma be_fold_acc:
  fixes a v :: "'a::len word"
  assumes "8 * n \<le> LENGTH('a)"
  shows "foldl (\<lambda>v b. push_bit 8 v OR ucast b) a (be_bytes n v) = push_bit (8 * n) a OR take_bit (8 * n) v"
  using assms
proof (induction n arbitrary: a)
  case 0
  then show ?case by (simp add: be_bytes_def)
next
  case (Suc n)
  have le: "8 * n \<le> LENGTH('a)" using Suc.prems by simp
  show ?case
    by (simp only: be_bytes_Suc foldl_Cons Suc.IH [OF le] be_fold_step [OF Suc.prems])
qed

lemma be_fold_bytes:
  fixes v :: "'a::len word"
  shows "8 * n \<le> LENGTH('a) \<Longrightarrow> be_fold (be_bytes n v) = take_bit (8 * n) v"
  by (simp add: be_fold_def be_fold_acc)

section \<open>Reading what was written\<close>

definition reader_at :: "bytes \<Rightarrow> JdwpReader \<Rightarrow> bool" where
  \<comment> \<open>the reader has not failed and these bytes are left\<close>
  "reader_at t r \<longleftrightarrow> \<not> rd_fail r \<and> rd_off r \<le> length (rd_p r) \<and> drop (rd_off r) (rd_p r) = t"

lemma reader_at_reader [simp]: "reader_at p (reader p)"
  by (simp add: reader_at_def reader_def)

lemma reader_at_advance:
  assumes "reader_at (s @ t) r"
  shows "need (length s) r = (True, r)" "take_bytes (length s) r = s" "reader_at t (r\<lparr>rd_off := rd_off r + length s\<rparr>)"
proof -
  have d: "drop (rd_off r) (rd_p r) = s @ t" and ok: "\<not> rd_fail r" "rd_off r \<le> length (rd_p r)"
    using assms by (auto simp: reader_at_def)
  have len: "length (rd_p r) - rd_off r = length s + length t"
    using arg_cong [OF d, of length] by simp
  show "need (length s) r = (True, r)" using ok len by (simp add: need_def)
  show "take_bytes (length s) r = s" by (simp add: take_bytes_def d)
  have "drop (rd_off r + length s) (rd_p r) = drop (length s) (drop (rd_off r) (rd_p r))"
    by (simp add: add.commute)
  then have "drop (rd_off r + length s) (rd_p r) = t" by (simp add: d)
  then show "reader_at t (r\<lparr>rd_off := rd_off r + length s\<rparr>)" using ok len by (simp add: reader_at_def)
qed

lemma r_be_bytes:
  assumes "reader_at (s @ t) r" "length s = k"
  shows "\<exists>r1. r_be k r = (be_fold s, r1) \<and> reader_at t r1"
  using reader_at_advance [OF assms(1)] assms(2) by (simp add: r_be_def)

lemma r_be_put:
  fixes v :: "'a::len word"
  assumes "8 * n \<le> LENGTH('a)" "reader_at (be_bytes n v @ t) r"
  shows "\<exists>r1. r_be n r = (take_bit (8 * n) v, r1) \<and> reader_at t r1"
  using r_be_bytes [OF assms(2), of n, where ?'a = 'a] be_fold_bytes [OF assms(1), of v] by simp

text \<open>The interface the parsers rely on: what a writer put, the reader gets, and it stands behind it.\<close>

locale codec =
  fixes put :: "'a \<Rightarrow> bytes" and get :: "JdwpReader \<Rightarrow> 'a \<times> JdwpReader" and good :: "'a \<Rightarrow> bool"
  assumes get_put: "good x \<Longrightarrow> reader_at (put x @ t) r \<Longrightarrow> \<exists>r1. get r = (x, r1) \<and> reader_at t r1"
begin

lemma items_put:
  assumes "list_all good xs" "reader_at (concat (map put xs) @ t) r" "length out + length xs \<le> limit"
  shows "\<exists>r1. read_items get (length xs) limit out r = (out @ xs, r1) \<and> reader_at t r1"
  using assms
proof (induction xs arbitrary: out r)
  case (Cons x xs)
  obtain r1 where g: "get r = (x, r1)" "reader_at (concat (map put xs) @ t) r1"
    using get_put [of x "concat (map put xs) @ t" r] Cons.prems(1,2) by auto
  have "\<not> rd_fail r" "\<not> rd_fail r1" using Cons.prems(2) g(2) by (auto simp: reader_at_def)
  then show ?case using g Cons.IH [OF _ g(2), of "out @ [x]"] Cons.prems by auto
qed auto

end

interpretation u1: codec w_u1 r_u1 "\<lambda>_. True"
proof
  fix x t r
  assume "reader_at (w_u1 x @ t) r"
  then have "reader_at (be_bytes 1 x @ t) r" by (simp add: w_u1_def be_bytes_def)
  then show "\<exists>r1. r_u1 r = (x, r1) \<and> reader_at t r1"
    using r_be_put [of 1 x t r] by (simp add: r_u1_def take_bit_word_eq_self)
qed

interpretation u4: codec w_u4 r_u4 "\<lambda>_. True"
proof
  show "\<exists>r1. r_u4 r = (x, r1) \<and> reader_at t r1" if "reader_at (w_u4 x @ t) r" for x t r
    using r_be_put [of 4 x t r] that by (simp add: w_u4_def r_u4_def take_bit_word_eq_self)
qed

interpretation u8: codec w_u8 r_u8 "\<lambda>_. True"
proof
  show "\<exists>r1. r_u8 r = (x, r1) \<and> reader_at t r1" if "reader_at (w_u8 x @ t) r" for x t r
    using r_be_put [of 8 x t r] that by (simp add: w_u8_def r_u8_def take_bit_word_eq_self)
qed

definition id_fits :: "int \<Rightarrow> u64 \<Rightarrow> bool" where
  \<comment> \<open>an id of a negotiated width\<close>
  "id_fits n v \<longleftrightarrow> id_size_sane n \<and> take_bit (8 * nat n) v = v"

interpretation ident: codec "w_id n" "r_id n" "id_fits n" for n
proof
  fix x t r
  assume fits: "id_fits n x" and at: "reader_at (w_id n x @ t) r"
  then have "8 * nat n \<le> 64" "\<not> (n < 1 \<or> n > 8)" by (auto simp: id_fits_def id_size_sane_def)
  then show "\<exists>r1. r_id n r = (x, r1) \<and> reader_at t r1"
    using r_be_put [of "nat n" x t r] fits at by (auto simp: w_id_def r_id_def id_fits_def)
qed

definition str_fits :: "bytes \<Rightarrow> bool" where
  "str_fits s \<longleftrightarrow> length s < 2 ^ 32"

interpretation str: codec w_str r_str str_fits
proof
  fix x t r
  assume fits: "str_fits x" and at: "reader_at (w_str x @ t) r"
  obtain r1 where r1: "r_u4 r = (of_nat (length x), r1)" "reader_at (x @ t) r1"
    using u4.get_put [of "of_nat (length x)" "x @ t" r] at by (auto simp: w_str_def)
  have "unat (of_nat (length x) :: u32) = length x" using fits by (simp add: str_fits_def unat_of_nat)
  moreover have "\<not> rd_fail r1" using r1(2) by (simp add: reader_at_def)
  ultimately show "\<exists>r1. r_str r = (x, r1) \<and> reader_at t r1"
    using r1 reader_at_advance [OF r1(2)] by (simp add: r_str_def)
qed

definition location_fits :: "JdwpIdSizes \<Rightarrow> JdwpLocation \<Rightarrow> bool" where
  "location_fits sz l \<longleftrightarrow> id_fits (sz_referenceTypeID sz) (loc_classID l) \<and> id_fits (sz_methodID sz) (loc_methodID l)"

text \<open>Sequences: a parser that reads a written field goes on behind it.\<close>

lemma u1_step: "reader_at (w_u1 v @ t) r \<Longrightarrow> (\<And>r1. reader_at t r1 \<Longrightarrow> r_u1 r = (v, r1) \<Longrightarrow> P) \<Longrightarrow> P"
  using u1.get_put by blast

lemma u4_step: "reader_at (w_u4 v @ t) r \<Longrightarrow> (\<And>r1. reader_at t r1 \<Longrightarrow> r_u4 r = (v, r1) \<Longrightarrow> P) \<Longrightarrow> P"
  using u4.get_put by blast

lemma u8_step: "reader_at (w_u8 v @ t) r \<Longrightarrow> (\<And>r1. reader_at t r1 \<Longrightarrow> r_u8 r = (v, r1) \<Longrightarrow> P) \<Longrightarrow> P"
  using u8.get_put by blast

lemma id_step: "id_fits n v \<Longrightarrow> reader_at (w_id n v @ t) r \<Longrightarrow> (\<And>r1. reader_at t r1 \<Longrightarrow> r_id n r = (v, r1) \<Longrightarrow> P) \<Longrightarrow> P"
  using ident.get_put by blast

lemma str_step: "str_fits s \<Longrightarrow> reader_at (w_str s @ t) r \<Longrightarrow> (\<And>r1. reader_at t r1 \<Longrightarrow> r_str r = (s, r1) \<Longrightarrow> P) \<Longrightarrow> P"
  using str.get_put by blast

interpretation location: codec "w_location sz" "r_location sz" "location_fits sz" for sz
proof
  fix l t r
  assume fits: "location_fits sz l" and "reader_at (w_location sz l @ t) r"
  then have "reader_at (w_u1 (loc_typeTag l) @ w_id (sz_referenceTypeID sz) (loc_classID l) @
      w_id (sz_methodID sz) (loc_methodID l) @ w_u8 (loc_index l) @ t) r"
    by (simp add: w_location_def)
  then obtain r1 where r1: "r_u1 r = (loc_typeTag l, r1)" "reader_at (w_id (sz_referenceTypeID sz) (loc_classID l) @
      w_id (sz_methodID sz) (loc_methodID l) @ w_u8 (loc_index l) @ t) r1"
    by (rule u1_step)
  obtain r2 where r2: "r_id (sz_referenceTypeID sz) r1 = (loc_classID l, r2)"
      "reader_at (w_id (sz_methodID sz) (loc_methodID l) @ w_u8 (loc_index l) @ t) r2"
    by (rule id_step [OF _ r1(2)]) (use fits in \<open>auto simp: location_fits_def\<close>)
  obtain r3 where r3: "r_id (sz_methodID sz) r2 = (loc_methodID l, r3)" "reader_at (w_u8 (loc_index l) @ t) r3"
    by (rule id_step [OF _ r2(2)]) (use fits in \<open>auto simp: location_fits_def\<close>)
  obtain r4 where r4: "r_u8 r3 = (loc_index l, r4)" "reader_at t r4"
    by (rule u8_step [OF r3(2)])
  show "\<exists>r1. r_location sz r = (l, r1) \<and> reader_at t r1"
    using r1 r2 r3 r4 by (simp add: r_location_def)
qed

lemma location_step:
  "location_fits sz l \<Longrightarrow> reader_at (w_location sz l @ t) r \<Longrightarrow> (\<And>r1. reader_at t r1 \<Longrightarrow> r_location sz r = (l, r1) \<Longrightarrow> P) \<Longrightarrow> P"
  using location.get_put by blast

section \<open>Lists of replies\<close>

context codec
begin

lemma list_put:
  assumes "list_all good xs" "length xs \<le> limit" "length xs < 2 ^ 32"
    and "reader_at (w_u4 (of_nat (length xs)) @ concat (map put xs) @ t) r"
  shows "parse_list get limit r = (True, xs)"
proof -
  obtain r1 where r1: "r_u4 r = (of_nat (length xs), r1)" "reader_at (concat (map put xs) @ t) r1"
    by (rule u4_step [OF assms(4)])
  have n: "unat (of_nat (length xs) :: u32) = length xs" using assms(3) by (simp add: unat_of_nat)
  obtain r2 where "read_items get (length xs) limit [] r1 = ([] @ xs, r2)" "reader_at t r2"
    using items_put [OF assms(1) r1(2), of "[]" limit] assms(2) by auto
  then show ?thesis using r1 n by (simp add: parse_list_def reader_at_def)
qed

end

text \<open>The layouts of the list elements, as the protocol has them.\<close>

definition w_class :: "JdwpIdSizes \<Rightarrow> JdwpClassInfo \<Rightarrow> bytes" where
  "w_class sz c = w_u1 (ci_refTypeTag c) @ w_id (sz_referenceTypeID sz) (ci_typeID c) @ w_str (ci_signature c) @ w_u4 (ci_status c)"

definition w_method :: "JdwpIdSizes \<Rightarrow> JdwpMethodInfo \<Rightarrow> bytes" where
  "w_method sz m = w_id (sz_methodID sz) (mi_methodID m) @ w_str (mi_name m) @ w_str (mi_signature m) @ w_u4 (mi_modBits m)"

definition w_frame :: "JdwpIdSizes \<Rightarrow> JdwpFrameInfo \<Rightarrow> bytes" where
  "w_frame sz f = w_id (sz_frameID sz) (fi_frameID f) @ w_location sz (fi_loc f)"

definition w_line :: "u64 \<times> u32 \<Rightarrow> bytes" where
  "w_line l = w_u8 (fst l) @ w_u4 (snd l)"

definition class_fits :: "JdwpIdSizes \<Rightarrow> JdwpClassInfo \<Rightarrow> bool" where
  "class_fits sz c \<longleftrightarrow> id_fits (sz_referenceTypeID sz) (ci_typeID c) \<and> str_fits (ci_signature c)"

definition method_fits :: "JdwpIdSizes \<Rightarrow> JdwpMethodInfo \<Rightarrow> bool" where
  "method_fits sz m \<longleftrightarrow> id_fits (sz_methodID sz) (mi_methodID m) \<and> str_fits (mi_name m) \<and> str_fits (mi_signature m)"

definition frame_fits :: "JdwpIdSizes \<Rightarrow> JdwpFrameInfo \<Rightarrow> bool" where
  "frame_fits sz f \<longleftrightarrow> id_fits (sz_frameID sz) (fi_frameID f) \<and> location_fits sz (fi_loc f)"

interpretation class_info: codec "w_class sz" "r_class sz" "class_fits sz" for sz
proof
  fix c t r
  assume fits: "class_fits sz c" and "reader_at (w_class sz c @ t) r"
  then have at: "reader_at (w_u1 (ci_refTypeTag c) @ w_id (sz_referenceTypeID sz) (ci_typeID c) @ w_str (ci_signature c) @
      w_u4 (ci_status c) @ t) r" by (simp add: w_class_def)
  obtain r1 where r1: "r_u1 r = (ci_refTypeTag c, r1)" "reader_at (w_id (sz_referenceTypeID sz) (ci_typeID c) @
      w_str (ci_signature c) @ w_u4 (ci_status c) @ t) r1"
    by (rule u1_step [OF at])
  obtain r2 where r2: "r_id (sz_referenceTypeID sz) r1 = (ci_typeID c, r2)" "reader_at (w_str (ci_signature c) @ w_u4 (ci_status c) @ t) r2"
    by (rule id_step [OF _ r1(2)]) (use fits in \<open>auto simp: class_fits_def\<close>)
  obtain r3 where r3: "r_str r2 = (ci_signature c, r3)" "reader_at (w_u4 (ci_status c) @ t) r3"
    by (rule str_step [OF _ r2(2)]) (use fits in \<open>auto simp: class_fits_def\<close>)
  obtain r4 where r4: "r_u4 r3 = (ci_status c, r4)" "reader_at t r4"
    by (rule u4_step [OF r3(2)])
  show "\<exists>r1. r_class sz r = (c, r1) \<and> reader_at t r1"
    using r1 r2 r3 r4 by (simp add: r_class_def)
qed

interpretation method_info: codec "w_method sz" "r_method sz" "method_fits sz" for sz
proof
  fix m t r
  assume fits: "method_fits sz m" and "reader_at (w_method sz m @ t) r"
  then have at: "reader_at (w_id (sz_methodID sz) (mi_methodID m) @ w_str (mi_name m) @ w_str (mi_signature m) @
      w_u4 (mi_modBits m) @ t) r" by (simp add: w_method_def)
  obtain r1 where r1: "r_id (sz_methodID sz) r = (mi_methodID m, r1)" "reader_at (w_str (mi_name m) @ w_str (mi_signature m) @ w_u4 (mi_modBits m) @ t) r1"
    by (rule id_step [OF _ at]) (use fits in \<open>auto simp: method_fits_def\<close>)
  obtain r2 where r2: "r_str r1 = (mi_name m, r2)" "reader_at (w_str (mi_signature m) @ w_u4 (mi_modBits m) @ t) r2"
    by (rule str_step [OF _ r1(2)]) (use fits in \<open>auto simp: method_fits_def\<close>)
  obtain r3 where r3: "r_str r2 = (mi_signature m, r3)" "reader_at (w_u4 (mi_modBits m) @ t) r3"
    by (rule str_step [OF _ r2(2)]) (use fits in \<open>auto simp: method_fits_def\<close>)
  obtain r4 where r4: "r_u4 r3 = (mi_modBits m, r4)" "reader_at t r4"
    by (rule u4_step [OF r3(2)])
  show "\<exists>r1. r_method sz r = (m, r1) \<and> reader_at t r1"
    using r1 r2 r3 r4 by (simp add: r_method_def)
qed

interpretation frame_info: codec "w_frame sz" "r_frame sz" "frame_fits sz" for sz
proof
  fix f t r
  assume fits: "frame_fits sz f" and "reader_at (w_frame sz f @ t) r"
  then have at: "reader_at (w_id (sz_frameID sz) (fi_frameID f) @ w_location sz (fi_loc f) @ t) r" by (simp add: w_frame_def)
  obtain r1 where r1: "r_id (sz_frameID sz) r = (fi_frameID f, r1)" "reader_at (w_location sz (fi_loc f) @ t) r1"
    by (rule id_step [OF _ at]) (use fits in \<open>auto simp: frame_fits_def\<close>)
  obtain r2 where r2: "r_location sz r1 = (fi_loc f, r2)" "reader_at t r2"
    by (rule location_step [OF _ r1(2)]) (use fits in \<open>auto simp: frame_fits_def\<close>)
  show "\<exists>r1. r_frame sz r = (f, r1) \<and> reader_at t r1"
    using r1 r2 by (simp add: r_frame_def)
qed

interpretation line_info: codec w_line r_line "\<lambda>_. True"
proof
  fix l t r
  assume "reader_at (w_line l @ t) r"
  then have at: "reader_at (w_u8 (fst l) @ w_u4 (snd l) @ t) r" by (simp add: w_line_def)
  obtain r1 where r1: "r_u8 r = (fst l, r1)" "reader_at (w_u4 (snd l) @ t) r1" by (rule u8_step [OF at])
  obtain r2 where r2: "r_u4 r1 = (snd l, r2)" "reader_at t r2" by (rule u4_step [OF r1(2)])
  show "\<exists>r1. r_line r = (l, r1) \<and> reader_at t r1"
    using r1 r2 by (simp add: r_line_def)
qed

definition w_list :: "('a \<Rightarrow> bytes) \<Rightarrow> 'a list \<Rightarrow> bytes" where
  \<comment> \<open>the count and the elements\<close>
  "w_list put xs = w_u4 (of_nat (length xs)) @ concat (map put xs)"

text \<open>C32: the reply parsers read what the protocol writes. For every negotiated set of id widths, a reply
  listing threads, classes, methods or frames, and a line table, within the parser's element limit and
  the 32-bit counts, is decoded to exactly the listed elements, whatever follows it in the payload.\<close>

theorem Jdwp_lists_roundtrip:
  assumes "list_all (id_fits (sz_objectID sz)) threads" "length threads \<le> maxThreads" "length threads < 2 ^ 32"
    and "list_all (class_fits sz) classes" "length classes \<le> maxClasses" "length classes < 2 ^ 32"
    and "list_all (method_fits sz) methods" "length methods \<le> maxMethods" "length methods < 2 ^ 32"
    and "list_all (frame_fits sz) frames" "length frames \<le> maxFrames" "length frames < 2 ^ 32"
    and "length rows \<le> 65536"
  shows "JdwpParseAllThreads (w_list (w_id (sz_objectID sz)) threads @ t) sz maxThreads = (True, threads) \<and>
    JdwpParseAllClasses (w_list (w_class sz) classes @ t) sz maxClasses = (True, classes) \<and>
    JdwpParseMethods (w_list (w_method sz) methods @ t) sz maxMethods = (True, methods) \<and>
    JdwpParseFrames (w_list (w_frame sz) frames @ t) sz maxFrames = (True, frames) \<and>
    JdwpParseLineTable (w_u8 a @ w_u8 b @ w_list w_line rows @ t) = (True, rows)"
proof (intro conjI)
  show "JdwpParseAllThreads (w_list (w_id (sz_objectID sz)) threads @ t) sz maxThreads = (True, threads)"
    unfolding JdwpParseAllThreads_def w_list_def by (rule ident.list_put [OF assms(1-3), where t = t]) simp
  show "JdwpParseAllClasses (w_list (w_class sz) classes @ t) sz maxClasses = (True, classes)"
    unfolding JdwpParseAllClasses_def w_list_def by (rule class_info.list_put [OF assms(4-6), where t = t]) simp
  show "JdwpParseMethods (w_list (w_method sz) methods @ t) sz maxMethods = (True, methods)"
    unfolding JdwpParseMethods_def w_list_def by (rule method_info.list_put [OF assms(7-9), where t = t]) simp
  show "JdwpParseFrames (w_list (w_frame sz) frames @ t) sz maxFrames = (True, frames)"
    unfolding JdwpParseFrames_def w_list_def by (rule frame_info.list_put [OF assms(10-12), where t = t]) simp
  have at: "reader_at (w_u8 a @ w_u8 b @ w_list w_line rows @ t) (reader (w_u8 a @ w_u8 b @ w_list w_line rows @ t))"
    by simp
  obtain r1 where r1: "r_u8 (reader (w_u8 a @ w_u8 b @ w_list w_line rows @ t)) = (a, r1)" "reader_at (w_u8 b @ w_list w_line rows @ t) r1"
    by (rule u8_step [OF at])
  obtain r2 where r2: "r_u8 r1 = (b, r2)" "reader_at (w_list w_line rows @ t) r2" by (rule u8_step [OF r1(2)])
  have "parse_list r_line 65536 r2 = (True, rows)"
    by (rule line_info.list_put) (use assms(13) r2(2) in \<open>auto simp: w_list_def list_all_iff\<close>)
  then show "JdwpParseLineTable (w_u8 a @ w_u8 b @ w_list w_line rows @ t) = (True, rows)"
    using r1 r2 by (simp add: JdwpParseLineTable_def)
qed

definition wide_ids :: JdwpIdSizes where
  \<comment> \<open>the widths of HotSpot\<close>
  "wide_ids = \<lparr>sz_fieldID = 8, sz_methodID = 8, sz_objectID = 8, sz_referenceTypeID = 8, sz_frameID = 8\<rparr>"

lemma wide_fits: "id_fits 8 v"
  by (simp add: id_fits_def id_size_sane_def take_bit_word_eq_self)

lemma Jdwp_lists_roundtrip_witness:
  "JdwpParseAllThreads (w_list (w_id 8) [1, 2] @ [9]) wide_ids 100 = (True, [1, 2]) \<and>
   JdwpParseMethods (w_list (w_method wide_ids) [\<lparr>mi_methodID = 5, mi_name = [109], mi_signature = [40, 41], mi_modBits = 1\<rparr>] @ [9])
     wide_ids 100 = (True, [\<lparr>mi_methodID = 5, mi_name = [109], mi_signature = [40, 41], mi_modBits = 1\<rparr>])"
  using Jdwp_lists_roundtrip [of wide_ids "[1, 2]" 100 "[]" 100
      "[\<lparr>mi_methodID = 5, mi_name = [109], mi_signature = [40, 41], mi_modBits = 1\<rparr>]" 100 "[]" 100 "[(0, 7)]" "[9]" 0 1]
  by (simp add: wide_ids_def wide_fits method_fits_def str_fits_def)

section \<open>Framing\<close>

lemma decode_need_more:
  "unat (be_fold (take 4 d) :: u32) = m \<Longrightarrow> 11 \<le> m \<Longrightarrow> \<not> m > 512 * 2 ^ 20 \<Longrightarrow> length d < m \<Longrightarrow> JdwpDecodePacket d = NeedMore"
  by (simp add: JdwpDecodePacket_def Let_def kJdwpHeaderLen_def)

text \<open>C33: packet framing. A command packet put in front of anything is decoded to itself and its length
  is consumed; any proper prefix of it asks for more bytes, so a packet split by the transport is never
  misread.\<close>

theorem JdwpPacket_framing:
  assumes "kJdwpHeaderLen + length payload \<le> 512 * 2 ^ 20"
  shows "JdwpDecodePacket (JdwpEncodeCommand i cmdSet cmd payload @ behind) =
      Packet \<lparr>pk_id = i, pk_flags = 0, pk_cmdSet = cmdSet, pk_cmd = cmd, pk_errorCode = 0, pk_payload = payload\<rparr>
        (kJdwpHeaderLen + length payload) \<and>
    list_all (\<lambda>n. JdwpDecodePacket (take n (JdwpEncodeCommand i cmdSet cmd payload)) = NeedMore) [0..<kJdwpHeaderLen + length payload]"
proof
  let ?len = "11 + length payload"
  let ?w = "of_nat ?len :: u32"
  have len: "unat ?w = ?len" using assms by (simp add: unat_of_nat kJdwpHeaderLen_def del: of_nat_add)
  have unbe: "be_fold (be_bytes 4 v) = v" for v :: u32
    using be_fold_bytes [of 4 v] by (simp add: take_bit_word_eq_self)
  have enc: "JdwpEncodeCommand i cmdSet cmd payload = be_bytes 4 ?w @ be_bytes 4 i @ [0, cmdSet, cmd] @ payload"
    by (simp add: JdwpEncodeCommand_def kJdwpHeaderLen_def)
  have bound: "\<not> ?len > 512 * 2 ^ 20" using assms by (simp add: kJdwpHeaderLen_def)
  let ?d = "JdwpEncodeCommand i cmdSet cmd payload @ behind"
  have "take 4 ?d = be_bytes 4 ?w" "take 4 (drop 4 ?d) = be_bytes 4 i" "?d ! 8 = 0" "?d ! 9 = cmdSet" "?d ! 10 = cmd"
    "length ?d = ?len + length behind" "drop 11 (take ?len ?d) = payload"
    by (simp_all add: enc nth_append numeral_2_eq_2 numeral_3_eq_3 del: of_nat_add)
  then show "JdwpDecodePacket ?d =
      Packet \<lparr>pk_id = i, pk_flags = 0, pk_cmdSet = cmdSet, pk_cmd = cmd, pk_errorCode = 0, pk_payload = payload\<rparr>
        (kJdwpHeaderLen + length payload)"
    using len bound by (simp add: JdwpDecodePacket_def kJdwpHeaderLen_def unbe Let_def del: of_nat_add)
  have "JdwpDecodePacket (take n (JdwpEncodeCommand i cmdSet cmd payload)) = NeedMore" if "n < ?len" for n
  proof (cases "n < 11")
    case True
    then show ?thesis by (simp add: JdwpDecodePacket_def kJdwpHeaderLen_def min_less_iff_disj)
  next
    case False
    have "take 4 (take n (JdwpEncodeCommand i cmdSet cmd payload)) = be_bytes 4 ?w"
      using False by (simp add: enc min_def del: of_nat_add)
    moreover have "length (take n (JdwpEncodeCommand i cmdSet cmd payload)) = n"
      using that by (simp add: enc)
    ultimately show ?thesis
      using len bound that by (intro decode_need_more [where m = ?len]) (simp_all add: unbe del: of_nat_add take_take)
  qed
  then show "list_all (\<lambda>n. JdwpDecodePacket (take n (JdwpEncodeCommand i cmdSet cmd payload)) = NeedMore) [0..<kJdwpHeaderLen + length payload]"
    by (simp add: list_all_iff kJdwpHeaderLen_def)
qed

lemma JdwpPacket_framing_witness:
  "JdwpDecodePacket (JdwpEncodeCommand 7 1 9 [1, 2] @ [0, 0]) =
      Packet \<lparr>pk_id = 7, pk_flags = 0, pk_cmdSet = 1, pk_cmd = 9, pk_errorCode = 0, pk_payload = [1, 2]\<rparr> 13"
  using JdwpPacket_framing [of "[1, 2]" 7 1 9 "[0, 0]"] by (simp add: kJdwpHeaderLen_def)

text \<open>What a decoded packet consumes is there, header included.\<close>

lemma JdwpDecodePacket_consumed: "JdwpDecodePacket data = Packet p k \<Longrightarrow> kJdwpHeaderLen \<le> k \<and> k \<le> length data"
  by (auto simp: JdwpDecodePacket_def Let_def split: if_splits)

section \<open>Composite events\<close>

definition location_kind :: "u8 \<Rightarrow> bool" where
  "location_kind k \<longleftrightarrow> k = JDWP_EK_BREAKPOINT \<or> k = JDWP_EK_SINGLE_STEP"

definition thread_kind :: "u8 \<Rightarrow> bool" where
  "thread_kind k \<longleftrightarrow> k = JDWP_EK_VM_START \<or> k = JDWP_EK_THREAD_START \<or> k = JDWP_EK_THREAD_DEATH"

definition w_event :: "JdwpIdSizes \<Rightarrow> JdwpEvent \<Rightarrow> bytes" where
  \<comment> \<open>the layouts of the known kinds; a class-prepare event ends with a status word\<close>
  "w_event sz e = w_u1 (ev_eventKind e) @ w_u4 (ev_requestID e) @
     (if thread_kind (ev_eventKind e) then w_id (sz_objectID sz) (ev_threadID e)
      else if location_kind (ev_eventKind e) then w_id (sz_objectID sz) (ev_threadID e) @ w_location sz (ev_loc e)
      else if ev_eventKind e = JDWP_EK_CLASS_PREPARE then
        w_id (sz_objectID sz) (ev_threadID e) @ w_u1 (loc_typeTag (ev_loc e)) @ w_id (sz_referenceTypeID sz) (ev_typeID e) @
        w_str (ev_signature e) @ w_u4 7
      else [])"

definition event_ok :: "JdwpIdSizes \<Rightarrow> JdwpEvent \<Rightarrow> bool" where
  \<comment> \<open>a known kind with ids of the negotiated widths, and defaults in the fields it does not carry\<close>
  "event_ok sz e \<longleftrightarrow>
     (let k = ev_eventKind e; d = \<lparr>ev_eventKind = k, ev_requestID = ev_requestID e, ev_threadID = 0, ev_loc = no_location,
            ev_typeID = 0, ev_signature = []\<rparr>
      in if thread_kind k then id_fits (sz_objectID sz) (ev_threadID e) \<and> e = d\<lparr>ev_threadID := ev_threadID e\<rparr>
         else if location_kind k then id_fits (sz_objectID sz) (ev_threadID e) \<and> location_fits sz (ev_loc e) \<and>
           e = d\<lparr>ev_threadID := ev_threadID e, ev_loc := ev_loc e\<rparr>
         else if k = JDWP_EK_CLASS_PREPARE then id_fits (sz_objectID sz) (ev_threadID e) \<and>
           id_fits (sz_referenceTypeID sz) (ev_typeID e) \<and> str_fits (ev_signature e) \<and>
           ev_loc e = no_location\<lparr>loc_typeTag := loc_typeTag (ev_loc e)\<rparr>
         else k = JDWP_EK_VM_DEATH \<and> e = d)"

definition r_event :: "JdwpIdSizes \<Rightarrow> JdwpReader \<Rightarrow> JdwpEvent \<times> JdwpReader" where
  "r_event sz r = (case event_head r of (e, r1) \<Rightarrow> case event_body sz e r1 of None \<Rightarrow> (e, r1) | Some er \<Rightarrow> er)"

lemma event_head_put:
  assumes "reader_at (w_u1 k @ w_u4 i @ t) r"
  shows "\<exists>r1. event_head r = (\<lparr>ev_eventKind = k, ev_requestID = i, ev_threadID = 0, ev_loc = no_location, ev_typeID = 0,
    ev_signature = []\<rparr>, r1) \<and> reader_at t r1"
proof -
  obtain r1 where r1: "r_u1 r = (k, r1)" "reader_at (w_u4 i @ t) r1" by (rule u1_step [OF assms])
  obtain r2 where r2: "r_u4 r1 = (i, r2)" "reader_at t r2" by (rule u4_step [OF r1(2)])
  show ?thesis using r1 r2 by (simp add: event_head_def)
qed

lemmas event_kinds = JDWP_EK_SINGLE_STEP_def JDWP_EK_BREAKPOINT_def JDWP_EK_THREAD_START_def JDWP_EK_THREAD_DEATH_def
  JDWP_EK_CLASS_PREPARE_def JDWP_EK_VM_START_def JDWP_EK_VM_DEATH_def

lemma event_put:
  assumes ok: "event_ok sz e" and at: "reader_at (w_event sz e @ t) r"
  shows "\<exists>h r1 r2. event_head r = (h, r1) \<and> event_body sz h r1 = Some (e, r2) \<and> reader_at t r2"
proof -
  let ?k = "ev_eventKind e"
  let ?h = "\<lparr>ev_eventKind = ?k, ev_requestID = ev_requestID e, ev_threadID = 0, ev_loc = no_location, ev_typeID = 0,
    ev_signature = []\<rparr>"
  define body where "body = (if thread_kind ?k then w_id (sz_objectID sz) (ev_threadID e)
      else if location_kind ?k then w_id (sz_objectID sz) (ev_threadID e) @ w_location sz (ev_loc e)
      else if ?k = JDWP_EK_CLASS_PREPARE then
        w_id (sz_objectID sz) (ev_threadID e) @ w_u1 (loc_typeTag (ev_loc e)) @ w_id (sz_referenceTypeID sz) (ev_typeID e) @
        w_str (ev_signature e) @ w_u4 7
      else [])"
  obtain r1 where r1: "event_head r = (?h, r1)" "reader_at (body @ t) r1"
    using event_head_put [of ?k "ev_requestID e" "body @ t" r] at by (auto simp: w_event_def body_def)
  have "\<exists>r2. event_body sz ?h r1 = Some (e, r2) \<and> reader_at t r2"
  proof -
    consider (thread) "thread_kind ?k" | (loc) "\<not> thread_kind ?k" "location_kind ?k"
      | (prep) "\<not> thread_kind ?k" "\<not> location_kind ?k" "?k = JDWP_EK_CLASS_PREPARE"
      | (death) "\<not> thread_kind ?k" "\<not> location_kind ?k" "?k \<noteq> JDWP_EK_CLASS_PREPARE" by blast
    then show ?thesis
    proof cases
      case thread
      then have fits: "id_fits (sz_objectID sz) (ev_threadID e)" and e: "e = ?h\<lparr>ev_threadID := ev_threadID e\<rparr>"
        using ok by (simp_all add: event_ok_def Let_def)
      obtain r2 where r2: "r_id (sz_objectID sz) r1 = (ev_threadID e, r2)" "reader_at t r2"
        by (rule id_step [OF fits, of t r1]) (use r1(2) thread in \<open>simp_all add: body_def\<close>)
      have "event_body sz ?h r1 = Some (?h\<lparr>ev_threadID := ev_threadID e\<rparr>, r2)"
        using thread r2(1) by (simp add: event_body_def Let_def thread_kind_def)
      then show ?thesis using e r2(2) by metis
    next
      case loc
      then have fits: "id_fits (sz_objectID sz) (ev_threadID e)" "location_fits sz (ev_loc e)"
        and e: "e = ?h\<lparr>ev_threadID := ev_threadID e, ev_loc := ev_loc e\<rparr>"
        using ok by (simp_all add: event_ok_def Let_def)
      obtain r2 where r2: "r_id (sz_objectID sz) r1 = (ev_threadID e, r2)" "reader_at (w_location sz (ev_loc e) @ t) r2"
        by (rule id_step [OF fits(1), of "w_location sz (ev_loc e) @ t" r1]) (use r1(2) loc in \<open>simp_all add: body_def\<close>)
      obtain r3 where r3: "r_location sz r2 = (ev_loc e, r3)" "reader_at t r3"
        by (rule location_step [OF fits(2) r2(2)])
      have "event_body sz ?h r1 = Some (?h\<lparr>ev_threadID := ev_threadID e, ev_loc := ev_loc e\<rparr>, r3)"
        using loc r2(1) r3(1) by (simp add: event_body_def Let_def thread_kind_def location_kind_def)
      then show ?thesis using e r3(2) by metis
    next
      case prep
      then have fits: "id_fits (sz_objectID sz) (ev_threadID e)" "id_fits (sz_referenceTypeID sz) (ev_typeID e)" "str_fits (ev_signature e)"
        and el: "ev_loc e = no_location\<lparr>loc_typeTag := loc_typeTag (ev_loc e)\<rparr>"
        using ok by (simp_all add: event_ok_def Let_def)
      let ?t2 = "w_u1 (loc_typeTag (ev_loc e)) @ w_id (sz_referenceTypeID sz) (ev_typeID e) @ w_str (ev_signature e) @ w_u4 7 @ t"
      obtain r2 where r2: "r_id (sz_objectID sz) r1 = (ev_threadID e, r2)" "reader_at ?t2 r2"
        by (rule id_step [OF fits(1), of ?t2 r1]) (use r1(2) prep in \<open>simp_all add: body_def\<close>)
      obtain r3 where r3: "r_u1 r2 = (loc_typeTag (ev_loc e), r3)"
        "reader_at (w_id (sz_referenceTypeID sz) (ev_typeID e) @ w_str (ev_signature e) @ w_u4 7 @ t) r3"
        by (rule u1_step [OF r2(2)])
      obtain r4 where r4: "r_id (sz_referenceTypeID sz) r3 = (ev_typeID e, r4)" "reader_at (w_str (ev_signature e) @ w_u4 7 @ t) r4"
        by (rule id_step [OF fits(2) r3(2)])
      obtain r5 where r5: "r_str r4 = (ev_signature e, r5)" "reader_at (w_u4 7 @ t) r5"
        by (rule str_step [OF fits(3) r4(2)])
      obtain r6 where r6: "r_u4 r5 = (7, r6)" "reader_at t r6"
        by (rule u4_step [OF r5(2)])
      have "event_body sz ?h r1 = Some (?h\<lparr>ev_threadID := ev_threadID e,
          ev_loc := no_location\<lparr>loc_typeTag := loc_typeTag (ev_loc e)\<rparr>, ev_typeID := ev_typeID e, ev_signature := ev_signature e\<rparr>, r6)"
        using prep r2(1) r3(1) r4(1) r5(1) r6(1) by (simp add: event_body_def Let_def thread_kind_def location_kind_def)
      moreover have "?h\<lparr>ev_threadID := ev_threadID e,
          ev_loc := no_location\<lparr>loc_typeTag := loc_typeTag (ev_loc e)\<rparr>, ev_typeID := ev_typeID e, ev_signature := ev_signature e\<rparr> = e"
        using el by simp
      ultimately show ?thesis using r6(2) by metis
    next
      case death
      have "?k = JDWP_EK_VM_DEATH \<and> e = ?h"
        using ok unfolding event_ok_def Let_def if_not_P [OF death(1)] if_not_P [OF death(2)] if_not_P [OF death(3)] .
      then have "?k = JDWP_EK_VM_DEATH" and e: "e = ?h" by blast+
      then have "event_body sz ?h r1 = Some (?h, r1)"
        by (simp add: event_body_def Let_def event_kinds)
      moreover have "reader_at t r1" using r1(2) death by (simp add: body_def)
      ultimately show ?thesis using e by metis
    qed
  qed
  with r1(1) show ?thesis by blast
qed

lemma read_events_put:
  assumes "list_all (event_ok sz) es" "reader_at (concat (map (w_event sz) es) @ t) r"
  shows "\<exists>r1. read_events sz (length es + n) out r = read_events sz n (out @ es) r1 \<and> reader_at t r1"
  using assms
proof (induction es arbitrary: out r)
  case (Cons e es)
  obtain h r1 r2 where h: "event_head r = (h, r1)" "event_body sz h r1 = Some (e, r2)" "reader_at (concat (map (w_event sz) es) @ t) r2"
    using event_put [of sz e "concat (map (w_event sz) es) @ t" r] Cons.prems by auto
  have nf: "\<not> rd_fail r" "\<not> rd_fail r2" using Cons.prems(2) h(3) by (auto simp: reader_at_def)
  obtain r3 where "read_events sz (length es + n) (out @ [e]) r2 = read_events sz n ((out @ [e]) @ es) r3" "reader_at t r3"
    using Cons.IH [OF _ h(3), of "out @ [e]"] Cons.prems(1) by auto
  then show ?case using h nf by (intro exI [of _ r3]) simp
qed auto

text \<open>C31: composite events. The events of the known kinds are decoded exactly, in order, with the suspend
  policy; an event of a kind \<open>Jdwp.h\<close> does not document ends the parse successfully with the events before it
  kept (and the unknown one reported by its kind and request id). EXCEPTION events are left out: the header
  documents their location, and the parser does not read it.\<close>

theorem JdwpParseEventComposite_roundtrip:
  assumes "list_all (event_ok sz) es" "length es + 1 < 2 ^ 32"
    and "k \<notin> {JDWP_EK_VM_START, JDWP_EK_THREAD_START, JDWP_EK_THREAD_DEATH, JDWP_EK_BREAKPOINT, JDWP_EK_SINGLE_STEP,
      JDWP_EK_CLASS_PREPARE, JDWP_EK_VM_DEATH, JDWP_EK_EXCEPTION}"
  shows "JdwpParseEventComposite (w_u1 sp @ w_list (w_event sz) es @ t) sz = (True, \<lparr>es_suspendPolicy = sp, es_events = es\<rparr>) \<and>
    JdwpParseEventComposite (w_u1 sp @ w_u4 (of_nat (length es + 1)) @ concat (map (w_event sz) es) @ w_u1 k @ w_u4 i @ t) sz =
      (True, \<lparr>es_suspendPolicy = sp, es_events = es @ [\<lparr>ev_eventKind = k, ev_requestID = i, ev_threadID = 0,
        ev_loc = no_location, ev_typeID = 0, ev_signature = []\<rparr>]\<rparr>)"
proof
  have at: "reader_at (w_u1 sp @ w_list (w_event sz) es @ t) (reader (w_u1 sp @ w_list (w_event sz) es @ t))" by simp
  obtain r1 where r1: "r_u1 (reader (w_u1 sp @ w_list (w_event sz) es @ t)) = (sp, r1)" "reader_at (w_list (w_event sz) es @ t) r1"
    by (rule u1_step [OF at])
  have "reader_at (w_u4 (of_nat (length es)) @ concat (map (w_event sz) es) @ t) r1"
    using r1(2) by (simp add: w_list_def)
  then obtain r2 where r2: "r_u4 r1 = (of_nat (length es), r2)" "reader_at (concat (map (w_event sz) es) @ t) r2"
    by (rule u4_step)
  have n: "unat (of_nat (length es) :: u32) = length es" using assms(2) by (simp add: unat_of_nat)
  obtain r3 where "read_events sz (length es + 0) [] r2 = read_events sz 0 ([] @ es) r3" "reader_at t r3"
    using read_events_put [OF assms(1) r2(2), of 0 "[]"] by blast
  then have "read_events sz (length es) [] r2 = (True, es)" by (simp add: reader_at_def)
  then show "JdwpParseEventComposite (w_u1 sp @ w_list (w_event sz) es @ t) sz = (True, \<lparr>es_suspendPolicy = sp, es_events = es\<rparr>)"
    using r1 r2 n by (simp add: JdwpParseEventComposite_def)
next
  let ?t = "w_u1 k @ w_u4 i @ t"
  let ?p = "w_u1 sp @ w_u4 (of_nat (length es + 1)) @ concat (map (w_event sz) es) @ ?t"
  let ?u = "\<lparr>ev_eventKind = k, ev_requestID = i, ev_threadID = 0, ev_loc = no_location, ev_typeID = 0, ev_signature = []\<rparr>"
  have at: "reader_at ?p (reader ?p)" by simp
  obtain r1 where r1: "r_u1 (reader ?p) = (sp, r1)" "reader_at (w_u4 (of_nat (length es + 1)) @ concat (map (w_event sz) es) @ ?t) r1"
    by (rule u1_step [OF at])
  obtain r2 where r2: "r_u4 r1 = (of_nat (length es + 1), r2)" "reader_at (concat (map (w_event sz) es) @ ?t) r2"
    by (rule u4_step [OF r1(2)])
  have n: "unat (of_nat (length es + 1) :: u32) = length es + 1"
    using assms(2) by (simp add: unat_of_nat del: of_nat_add of_nat_Suc)
  obtain r3 where r3: "read_events sz (length es + 1) [] r2 = read_events sz 1 ([] @ es) r3" "reader_at ?t r3"
    using read_events_put [OF assms(1) r2(2), of 1 "[]"] by blast
  obtain r4 where r4: "event_head r3 = (?u, r4)" "reader_at t r4"
    using event_head_put [OF r3(2)] by blast
  have "event_body sz ?u r4 = None" using assms(3) by (simp add: event_body_def Let_def)
  moreover have "\<not> rd_fail r3" using r3(2) by (simp add: reader_at_def)
  ultimately have "read_events sz (length es + 1) [] r2 = (True, es @ [?u])"
    using r3(1) r4(1) by (simp add: One_nat_def del: add_0_right)
  then show "JdwpParseEventComposite ?p sz = (True, \<lparr>es_suspendPolicy = sp, es_events = es @ [?u]\<rparr>)"
    using r1(1) r2(1) n by (simp add: JdwpParseEventComposite_def del: of_nat_add of_nat_Suc)
qed

lemma JdwpParseEventComposite_roundtrip_witness:
  "JdwpParseEventComposite (w_u1 2 @ w_list (w_event wide_ids) [\<lparr>ev_eventKind = 99, ev_requestID = 3, ev_threadID = 0,
      ev_loc = no_location, ev_typeID = 0, ev_signature = []\<rparr>] @ []) wide_ids =
    (True, \<lparr>es_suspendPolicy = 2, es_events = [\<lparr>ev_eventKind = 99, ev_requestID = 3, ev_threadID = 0,
      ev_loc = no_location, ev_typeID = 0, ev_signature = []\<rparr>]\<rparr>)"
  by (rule JdwpParseEventComposite_roundtrip [where k = 40, THEN conjunct1])
     (simp_all add: event_ok_def Let_def thread_kind_def location_kind_def event_kinds JDWP_EK_EXCEPTION_def)

text \<open>An EXCEPTION event is treated like an unknown one: its thread and location are lost, and so is every event
  behind it.\<close>

lemma exception_event_lost:
  "JdwpParseEventComposite (w_u1 2 @ w_u4 1 @ w_u1 JDWP_EK_EXCEPTION @ w_u4 3 @ t) sz =
    (True, \<lparr>es_suspendPolicy = 2, es_events = [\<lparr>ev_eventKind = JDWP_EK_EXCEPTION, ev_requestID = 3, ev_threadID = 0,
      ev_loc = no_location, ev_typeID = 0, ev_signature = []\<rparr>]\<rparr>)"
proof -
  let ?p = "w_u1 2 @ w_u4 1 @ w_u1 JDWP_EK_EXCEPTION @ w_u4 3 @ t"
  have at: "reader_at ?p (reader ?p)" by simp
  obtain r1 where r1: "r_u1 (reader ?p) = (2, r1)" "reader_at (w_u4 1 @ w_u1 JDWP_EK_EXCEPTION @ w_u4 3 @ t) r1"
    by (rule u1_step [OF at])
  obtain r2 where r2: "r_u4 r1 = (1, r2)" "reader_at (w_u1 JDWP_EK_EXCEPTION @ w_u4 3 @ t) r2"
    by (rule u4_step [OF r1(2)])
  let ?u = "\<lparr>ev_eventKind = JDWP_EK_EXCEPTION, ev_requestID = 3, ev_threadID = 0, ev_loc = no_location, ev_typeID = 0,
    ev_signature = []\<rparr>"
  obtain r3 where r3: "event_head r2 = (?u, r3)" using event_head_put [OF r2(2)] by blast
  have "event_body sz ?u r3 = None" by (simp add: event_body_def Let_def event_kinds JDWP_EK_EXCEPTION_def)
  moreover have "\<not> rd_fail r2" using r2(2) by (simp add: reader_at_def)
  ultimately have "read_events sz 1 [] r2 = (True, [?u])" using r3 by (simp add: One_nat_def)
  then show ?thesis using r1(1) r2(1) by (simp add: JdwpParseEventComposite_def)
qed

text \<open>A composite event cut off after its count: the parser reports success and one event of kind zero,
  since a failed read of the kind lands in the default branch.\<close>

lemma truncated_composite_accepted:
  "JdwpParseEventComposite [2, 0, 0, 0, 1] wide_ids =
     (True, \<lparr>es_suspendPolicy = 2, es_events = [\<lparr>ev_eventKind = 0, ev_requestID = 0, ev_threadID = 0,
        ev_loc = no_location, ev_typeID = 0, ev_signature = []\<rparr>]\<rparr>)"
  by code_simp

section \<open>Requests\<close>

text \<open>The breakpoint request a client sends reads back as the suspend-all breakpoint at its location.\<close>

lemma JdwpBuildBreakpointRequest_read:
  assumes "location_fits sz l"
  shows "let p = JdwpBuildBreakpointRequest l sz; (k, r1) = r_u1 (reader p); (s, r2) = r_u1 r1; (n, r3) = r_u4 r2;
      (m, r4) = r_u1 r3; (x, r5) = r_location sz r4
    in (k, s, n, m, x) = (JDWP_EK_BREAKPOINT, JDWP_SP_ALL, 1, 7, l) \<and> \<not> rd_fail r5 \<and> atEnd r5"
proof -
  let ?p = "JdwpBuildBreakpointRequest l sz"
  have at: "reader_at (w_u1 JDWP_EK_BREAKPOINT @ w_u1 JDWP_SP_ALL @ w_u4 1 @ w_u1 7 @ w_location sz l @ []) (reader ?p)"
    by (simp add: JdwpBuildBreakpointRequest_def)
  obtain r1 where r1: "r_u1 (reader ?p) = (JDWP_EK_BREAKPOINT, r1)" "reader_at (w_u1 JDWP_SP_ALL @ w_u4 1 @ w_u1 7 @ w_location sz l @ []) r1"
    by (rule u1_step [OF at])
  obtain r2 where r2: "r_u1 r1 = (JDWP_SP_ALL, r2)" "reader_at (w_u4 1 @ w_u1 7 @ w_location sz l @ []) r2" by (rule u1_step [OF r1(2)])
  obtain r3 where r3: "r_u4 r2 = (1, r3)" "reader_at (w_u1 7 @ w_location sz l @ []) r3" by (rule u4_step [OF r2(2)])
  obtain r4 where r4: "r_u1 r3 = (7, r4)" "reader_at (w_location sz l @ []) r4" by (rule u1_step [OF r3(2)])
  obtain r5 where r5: "r_location sz r4 = (l, r5)" "reader_at [] r5" by (rule location_step [OF assms r4(2)])
  show ?thesis using r1(1) r2(1) r3(1) r4(1) r5 by (simp add: reader_at_def atEnd_def)
qed

lemma JdwpSignatureToClassName_class: "JdwpSignatureToClassName (CHR ''L'' # name @ '';'') = name"
  by (simp add: JdwpSignatureToClassName_def)

end
