(* ===== verification/Expr_Ast.thy ===== *)
theory Expr_Ast
  imports C_Lib
begin

unbundle bit_operations_syntax

text \<open>
  \<open>src/src/Core/ExprAst.{h,cpp}\<close>: the bit-vector expression trees shared by the simplifier, the
  default solver, the path explorer and the region synthesis; constant evaluation, structural
  equality and printing. The reference semantics at the end reads an expression as an integer,
  without masks and 64-bit wrap-around, and is what the rewrites and the solver are proved against.

  An \<open>ExprRef\<close> is a shared pointer to an immutable node: a value here, \<open>nullptr\<close> being \<open>Null\<close> (the
  pointer comparison of \<open>ExprEqual\<close> only short-cuts the structural one). Reading a child that is not
  there is undefined in the source and \<open>Null\<close> here; \<open>wf_expr\<close> excludes it, and the shift
  by 64 or more of \<open>Extract\<close> with it.
\<close>

section \<open>Trees\<close>

datatype ExprOp = O_Const | O_Var | O_Not | O_Neg
  | O_Add | O_Sub | O_Mul | O_UDiv | O_URem | O_And | O_Or | O_Xor | O_Shl | O_LShr | O_AShr
  | O_Eq | O_Ne | O_Ult | O_Ule | O_Slt | O_Sle
  | O_Concat | O_Extract | O_ZExt | O_SExt | O_Ite | O_Load

datatype ExprRef = Null | Node ExprOp u32 u64 "ExprRef list"

fun bits_of :: "ExprRef \<Rightarrow> u32" where
  "bits_of Null = 0"
| "bits_of (Node op w v ks) = w"

definition kid :: "'a \<Rightarrow> 'a list \<Rightarrow> nat \<Rightarrow> 'a" where
  "kid missing ks i = (if i < length ks then ks ! i else missing)"

lemma kid_simps [simp]:
  "kid z [] i = z" "kid z (x # xs) 0 = x" "kid z (x # xs) (Suc i) = kid z xs i"
  by (simp_all add: kid_def)

lemma kid_numeral [simp]:
  "kid z (x # xs) 1 = kid z xs 0" "kid z (x # xs) (Suc 0) = kid z xs 0" "kid z (x # y # xs) 2 = kid z xs 0"
  by (simp_all add: kid_def numeral_2_eq_2)

section \<open>Widths\<close>

definition MaskToBits :: "u64 \<Rightarrow> u32 \<Rightarrow> u64" where
  "MaskToBits v bits =
     (if bits \<ge> 64 then v else if bits = 0 then 0 else v AND (push_bit (unat bits) 1 - 1))"

definition SignExtendTo64 :: "u64 \<Rightarrow> u32 \<Rightarrow> u64" where
  "SignExtendTo64 v bits =
     (if bits \<ge> 64 \<or> bits = 0 then v
      else let u = v AND MaskToBits (NOT 0) bits; sgn_bit = push_bit (unat (bits - 1)) 1
           in (u XOR sgn_bit) - sgn_bit)"

section \<open>Builders\<close>

fun isCmp :: "ExprOp \<Rightarrow> bool" where
  "isCmp O_Eq = True" | "isCmp O_Ne = True" | "isCmp O_Ult = True"
| "isCmp O_Ule = True" | "isCmp O_Slt = True" | "isCmp O_Sle = True"
| "isCmp _ = False"

definition C :: "u64 \<Rightarrow> u32 \<Rightarrow> ExprRef" where
  "C v bits = Node O_Const bits (MaskToBits v bits) []"

definition Var :: "u64 \<Rightarrow> u32 \<Rightarrow> ExprRef" where
  "Var i bits = Node O_Var bits i []"

definition UnE :: "ExprOp \<Rightarrow> ExprRef \<Rightarrow> u32 \<Rightarrow> ExprRef" where
  "UnE op a bits = Node op (if bits \<noteq> 0 then bits else bits_of a) 0 [a]"

definition Bin :: "ExprOp \<Rightarrow> ExprRef \<Rightarrow> ExprRef \<Rightarrow> u32 \<Rightarrow> ExprRef" where
  "Bin op a b bits = Node op (if isCmp op then 1 else if bits \<noteq> 0 then bits else bits_of a) 0 [a, b]"

definition Extract :: "ExprRef \<Rightarrow> u32 \<Rightarrow> u32 \<Rightarrow> ExprRef" where
  "Extract a lowBit bits = Node O_Extract bits (ucast lowBit) [a]"

definition Ext :: "ExprOp \<Rightarrow> ExprRef \<Rightarrow> u32 \<Rightarrow> ExprRef" where
  "Ext op a bits = Node op bits 0 [a]"

definition IteE :: "ExprRef \<Rightarrow> ExprRef \<Rightarrow> ExprRef \<Rightarrow> ExprRef" where
  "IteE c a b = Node O_Ite (bits_of a) 0 [c, a, b]"

definition ConcatE :: "ExprRef \<Rightarrow> ExprRef \<Rightarrow> ExprRef" where
  "ConcatE hi lo = (let w = bits_of hi + bits_of lo in Node O_Concat (if w > 64 then 64 else w) 0 [hi, lo])"

definition LoadE :: "ExprRef \<Rightarrow> u32 \<Rightarrow> ExprRef" where
  "LoadE addr bits = Node O_Load bits 0 [addr]"

section \<open>Constant evaluation\<close>

text \<open>The second switch of \<open>EvalConst\<close>: the two-operand operations on evaluated operands; \<open>w\<close> is the
  node's width, \<open>w0\<close> its first child's.\<close>

fun eval_bin :: "ExprOp \<Rightarrow> u32 \<Rightarrow> u32 \<Rightarrow> u64 \<Rightarrow> u64 \<Rightarrow> u64 option" where
  "eval_bin O_Add w w0 a b = Some (MaskToBits (a + b) w)"
| "eval_bin O_Sub w w0 a b = Some (MaskToBits (a - b) w)"
| "eval_bin O_Mul w w0 a b = Some (MaskToBits (a * b) w)"
| "eval_bin O_UDiv w w0 a b = (if b = 0 then None else Some (MaskToBits (a div b) w))"
| "eval_bin O_URem w w0 a b = (if b = 0 then None else Some (MaskToBits (a mod b) w))"
| "eval_bin O_And w w0 a b = Some (MaskToBits (a AND b) w)"
| "eval_bin O_Or w w0 a b = Some (MaskToBits (a OR b) w)"
| "eval_bin O_Xor w w0 a b = Some (MaskToBits (a XOR b) w)"
| "eval_bin O_Shl w w0 a b = Some (if b \<ge> ucast w0 then 0 else MaskToBits (push_bit (unat b) a) w)"
| "eval_bin O_LShr w w0 a b = Some (if b \<ge> ucast w0 then 0 else MaskToBits (drop_bit (unat b) (MaskToBits a w0)) w)"
| "eval_bin O_AShr w w0 a b =
     (let sa = SignExtendTo64 a w0; sh = (if b \<ge> 63 then 63 else unat b)
      in Some (MaskToBits (signed_drop_bit sh sa) w))"
| "eval_bin O_Eq w w0 a b = Some (if MaskToBits a w0 = MaskToBits b w0 then 1 else 0)"
| "eval_bin O_Ne w w0 a b = Some (if MaskToBits a w0 \<noteq> MaskToBits b w0 then 1 else 0)"
| "eval_bin O_Ult w w0 a b = Some (if MaskToBits a w0 < MaskToBits b w0 then 1 else 0)"
| "eval_bin O_Ule w w0 a b = Some (if MaskToBits a w0 \<le> MaskToBits b w0 then 1 else 0)"
| "eval_bin O_Slt w w0 a b = Some (if SignExtendTo64 a w0 <s SignExtendTo64 b w0 then 1 else 0)"
| "eval_bin O_Sle w w0 a b = Some (if SignExtendTo64 a w0 \<le>s SignExtendTo64 b w0 then 1 else 0)"
| "eval_bin _ w w0 a b = None"

text \<open>One node, given its children's widths and their evaluations (evaluation is pure: which children
  are evaluated, and in which order, cannot be observed).\<close>

definition bind_value :: "'a option \<Rightarrow> ('a \<Rightarrow> 'b option) \<Rightarrow> 'b option" where
  "bind_value r f = (case r of None \<Rightarrow> None | Some a \<Rightarrow> f a)"

fun eval_node :: "ExprOp \<Rightarrow> u32 \<Rightarrow> u64 \<Rightarrow> u32 list \<Rightarrow> u64 option list \<Rightarrow> u64 option" where
  "eval_node O_Const w v ws rs = Some v"
| "eval_node O_Var w v ws rs = None"
| "eval_node O_Load w v ws rs = None"
| "eval_node O_Not w v ws rs = bind_value (kid None rs 0) (\<lambda>a. Some (MaskToBits (NOT a) w))"
| "eval_node O_Neg w v ws rs = bind_value (kid None rs 0) (\<lambda>a. Some (MaskToBits (0 - a) w))"
| "eval_node O_Concat w v ws rs =
     bind_value (kid None rs 0) (\<lambda>a. bind_value (kid None rs 1) (\<lambda>b.
       let loW = kid 0 ws 1
       in Some (MaskToBits ((if loW \<ge> 64 then 0 else push_bit (unat loW) a) OR b) w)))"
| "eval_node O_Extract w v ws rs = bind_value (kid None rs 0) (\<lambda>a. Some (MaskToBits (drop_bit (unat v) a) w))"
| "eval_node O_ZExt w v ws rs = bind_value (kid None rs 0) (\<lambda>a. Some (MaskToBits a w))"
| "eval_node O_SExt w v ws rs =
     bind_value (kid None rs 0) (\<lambda>a. Some (MaskToBits (SignExtendTo64 a (kid 0 ws 0)) w))"
| "eval_node O_Ite w v ws rs =
     bind_value (kid None rs 0) (\<lambda>c. if c \<noteq> 0 then kid None rs 1 else kid None rs 2)"
| "eval_node op w v ws rs =
     bind_value (kid None rs 0) (\<lambda>a. bind_value (kid None rs 1) (\<lambda>b. eval_bin op w (kid 0 ws 0) a b))"

fun EvalConst :: "ExprRef \<Rightarrow> u64 option" where
  "EvalConst Null = None"
| "EvalConst (Node op w v ks) = eval_node op w v (map bits_of ks) (map EvalConst ks)"

section \<open>Equality and printing\<close>

lemma zip_size [termination_simp]:
  "(a, b) \<in> set (zip ks js) \<Longrightarrow> size a < Suc (size_list size ks)"
  by (auto dest!: set_zip_leftD simp: less_Suc_eq_le intro: size_list_estimation')

fun ExprEqual :: "ExprRef \<Rightarrow> ExprRef \<Rightarrow> bool" where
  "ExprEqual Null Null \<longleftrightarrow> True"
| "ExprEqual Null (Node op w v ks) \<longleftrightarrow> False"
| "ExprEqual (Node op w v ks) Null \<longleftrightarrow> False"
| "ExprEqual (Node op w v ks) (Node op1 w1 v1 ks1) \<longleftrightarrow>
     op = op1 \<and> w = w1 \<and> v = v1 \<and> length ks = length ks1 \<and> list_all (\<lambda>(x, y). ExprEqual x y) (zip ks ks1)"

fun opName :: "ExprOp \<Rightarrow> string" where
  "opName O_Not = ''~''" | "opName O_Neg = ''neg''"
| "opName O_Add = ''+''" | "opName O_Sub = ''-''" | "opName O_Mul = ''*''"
| "opName O_UDiv = ''udiv''" | "opName O_URem = ''urem''"
| "opName O_And = ''&''" | "opName O_Or = ''|''" | "opName O_Xor = ''^''"
| "opName O_Shl = ''<<''" | "opName O_LShr = ''>>u''" | "opName O_AShr = ''>>s''"
| "opName O_Eq = ''==''" | "opName O_Ne = ''!=''" | "opName O_Ult = ''<u''"
| "opName O_Ule = ''<=u''" | "opName O_Slt = ''<s''" | "opName O_Sle = ''<=s''"
| "opName O_Concat = ''concat''" | "opName O_Extract = ''extract''"
| "opName O_ZExt = ''zext''" | "opName O_SExt = ''sext''" | "opName O_Ite = ''ite''"
| "opName O_Load = ''load''" | "opName _ = ''?''"

text \<open>\<open>%llX\<close>: upper-case hexadecimal digits.\<close>

function upper_hex :: "nat \<Rightarrow> string" where
  "upper_hex n =
     (let c = (if n mod 16 < 10 then char_of (48 + n mod 16) else char_of (55 + n mod 16))
      in if n < 16 then [c] else upper_hex (n div 16) @ [c])"
  by pat_completeness auto
termination by (relation "measure id") auto

fun ExprToString :: "ExprRef \<Rightarrow> string" where
  "ExprToString Null = ''<null>''"
| "ExprToString (Node op w v ks) =
     (if op = O_Const then ''0x'' @ upper_hex (unat v) @ '':'' @ dec (unat w)
      else if op = O_Var then ''v'' @ dec (unat v) @ '':'' @ dec (unat w)
      else ''('' @ opName op @ concat (map (\<lambda>k. '' '' @ ExprToString k) ks) @ '')'')"

lemma ExprEqual_iff [simp]: "ExprEqual a b \<longleftrightarrow> a = b"
proof (induction a b rule: ExprEqual.induct)
  case (4 op w v ks op1 w1 v1 ks1)
  have "list_all (\<lambda>(x, y). ExprEqual x y) (zip ks ks1) \<longleftrightarrow> ks = ks1" if "length ks = length ks1"
  proof -
    have "list_all (\<lambda>(x, y). ExprEqual x y) (zip ks ks1) \<longleftrightarrow> list_all (\<lambda>(x, y). x = y) (zip ks ks1)"
      by (intro list.pred_cong refl) (auto simp: 4)
    also have "\<dots> \<longleftrightarrow> list_all2 (=) ks ks1" using that by (simp add: list_all2_iff list_all_iff)
    also have "\<dots> \<longleftrightarrow> ks = ks1" by (simp add: list.rel_eq)
    finally show ?thesis .
  qed
  then show ?case by auto
qed simp_all

section \<open>Well-formed expressions\<close>

text \<open>The widths the builders and the lowering produce: 1 to 64 bits, operands of one width, predicates
  of one bit, constants already masked.\<close>

definition wf_node :: "ExprOp \<Rightarrow> u32 \<Rightarrow> u64 \<Rightarrow> u32 list \<Rightarrow> bool" where
  "wf_node op w v ws \<longleftrightarrow> w \<noteq> 0 \<and> w \<le> 64 \<and>
     (case op of
        O_Const \<Rightarrow> ws = [] \<and> unat v < 2 ^ unat w
      | O_Var \<Rightarrow> ws = []
      | O_Load \<Rightarrow> length ws = 1
      | O_Not \<Rightarrow> ws = [w]
      | O_Neg \<Rightarrow> ws = [w]
      | O_Concat \<Rightarrow> length ws = 2 \<and> unat (ws ! 0) + unat (ws ! 1) = unat w
      | O_Extract \<Rightarrow> length ws = 1 \<and> unat v + unat w \<le> unat (ws ! 0)
      | O_ZExt \<Rightarrow> length ws = 1 \<and> ws ! 0 \<le> w
      | O_SExt \<Rightarrow> length ws = 1 \<and> ws ! 0 \<le> w
      | O_Ite \<Rightarrow> ws = [1, w, w]
      | _ \<Rightarrow> (if isCmp op then w = 1 \<and> length ws = 2 \<and> ws ! 0 = ws ! 1
              else if op \<in> {O_Shl, O_LShr, O_AShr} then length ws = 2 \<and> ws ! 0 = w
              else ws = [w, w]))"

fun wf_expr :: "ExprRef \<Rightarrow> bool" where
  "wf_expr Null \<longleftrightarrow> False"
| "wf_expr (Node op w v ks) \<longleftrightarrow> wf_node op w v (map bits_of ks) \<and> (\<forall>k \<in> set ks. wf_expr k)"

section \<open>Reference semantics\<close>

text \<open>The value of an expression as an integer: a variable has one value, cut to the width
  it is read at, memory is a function of address and width, arithmetic is done on integers and reduced once, the signed operations read their
  operands in two's complement.\<close>

type_synonym valuation = "u64 \<Rightarrow> int"

definition twos :: "nat \<Rightarrow> int \<Rightarrow> int" where
  "twos n a = (if a < 2 ^ (n - 1) then a else a - 2 ^ n)"

fun den_bin :: "ExprOp \<Rightarrow> nat \<Rightarrow> nat \<Rightarrow> int \<Rightarrow> int \<Rightarrow> int option" where
  "den_bin O_Add n n0 a b = Some ((a + b) mod 2 ^ n)"
| "den_bin O_Sub n n0 a b = Some ((a - b) mod 2 ^ n)"
| "den_bin O_Mul n n0 a b = Some ((a * b) mod 2 ^ n)"
| "den_bin O_UDiv n n0 a b = (if b = 0 then None else Some (a div b))"
| "den_bin O_URem n n0 a b = (if b = 0 then None else Some (a mod b))"
| "den_bin O_And n n0 a b = Some (a AND b)"
| "den_bin O_Or n n0 a b = Some (a OR b)"
| "den_bin O_Xor n n0 a b = Some (a XOR b)"
| "den_bin O_Shl n n0 a b = Some ((a * 2 ^ nat b) mod 2 ^ n)"
| "den_bin O_LShr n n0 a b = Some (a div 2 ^ nat b)"
| "den_bin O_AShr n n0 a b = Some ((twos n0 a div 2 ^ nat b) mod 2 ^ n)"
| "den_bin O_Eq n n0 a b = Some (of_bool (a = b))"
| "den_bin O_Ne n n0 a b = Some (of_bool (a \<noteq> b))"
| "den_bin O_Ult n n0 a b = Some (of_bool (a < b))"
| "den_bin O_Ule n n0 a b = Some (of_bool (a \<le> b))"
| "den_bin O_Slt n n0 a b = Some (of_bool (twos n0 a < twos n0 b))"
| "den_bin O_Sle n n0 a b = Some (of_bool (twos n0 a \<le> twos n0 b))"
| "den_bin _ n n0 a b = None"

fun den_node :: "valuation \<Rightarrow> (int \<Rightarrow> nat \<Rightarrow> int) \<Rightarrow> ExprOp \<Rightarrow> nat \<Rightarrow> u64 \<Rightarrow> nat list \<Rightarrow>
    int option list \<Rightarrow> int option" where
  "den_node env ld O_Const n v ns rs = Some (uint v)"
| "den_node env ld O_Var n v ns rs = Some (env v mod 2 ^ n)"
| "den_node env ld O_Load n v ns rs = bind_value (kid None rs 0) (\<lambda>a. Some (ld a n mod 2 ^ n))"
| "den_node env ld O_Not n v ns rs = bind_value (kid None rs 0) (\<lambda>a. Some (2 ^ n - 1 - a))"
| "den_node env ld O_Neg n v ns rs = bind_value (kid None rs 0) (\<lambda>a. Some ((- a) mod 2 ^ n))"
| "den_node env ld O_Concat n v ns rs =
     bind_value (kid None rs 0) (\<lambda>a. bind_value (kid None rs 1) (\<lambda>b. Some (a * 2 ^ kid 0 ns 1 + b)))"
| "den_node env ld O_Extract n v ns rs = bind_value (kid None rs 0) (\<lambda>a. Some ((a div 2 ^ unat v) mod 2 ^ n))"
| "den_node env ld O_ZExt n v ns rs = kid None rs 0"
| "den_node env ld O_SExt n v ns rs = bind_value (kid None rs 0) (\<lambda>a. Some (twos (kid 0 ns 0) a mod 2 ^ n))"
| "den_node env ld O_Ite n v ns rs =
     bind_value (kid None rs 0) (\<lambda>c. if c \<noteq> 0 then kid None rs 1 else kid None rs 2)"
| "den_node env ld op n v ns rs =
     bind_value (kid None rs 0) (\<lambda>a. bind_value (kid None rs 1) (\<lambda>b. den_bin op n (kid 0 ns 0) a b))"

fun den :: "valuation \<Rightarrow> (int \<Rightarrow> nat \<Rightarrow> int) \<Rightarrow> ExprRef \<Rightarrow> int option" where
  "den env ld Null = None"
| "den env ld (Node op w v ks) =
     den_node env ld op (unat w) v (map (\<lambda>k. unat (bits_of k)) ks) (map (den env ld) ks)"

section \<open>The 64-bit operations compute the reference ones\<close>

lemma width_bounds: "w \<noteq> 0 \<Longrightarrow> w \<le> (64 :: u32) \<Longrightarrow> 0 < unat w \<and> unat w \<le> 64"
  by (simp add: word_le_nat_alt unat_gt_0)

lemma MaskToBits_take_bit: "MaskToBits v w = take_bit (unat w) v"
proof (cases "w \<ge> 64")
  case True
  then have "64 \<le> unat w" by (simp add: word_le_nat_alt)
  with True show ?thesis by (simp add: MaskToBits_def take_bit_word_eq_self)
next
  case False
  then show ?thesis by (auto simp: MaskToBits_def take_bit_eq_mask mask_eq_exp_minus_1 unat_eq_0)
qed

lemma uint_MaskToBits [simp]: "uint (MaskToBits v w) = uint v mod 2 ^ unat w"
  by (simp add: MaskToBits_take_bit unsigned_take_bit_eq) (simp add: take_bit_eq_mod)

lemma MaskToBits_id: "uint v < 2 ^ unat w \<Longrightarrow> MaskToBits v w = v"
  by (simp add: word_uint_eq_iff)

lemma bit_top:
  assumes "0 \<le> a" "a < 2 ^ Suc k"
  shows "bit (a :: int) k \<longleftrightarrow> 2 ^ k \<le> a"
proof -
  have "a div 2 ^ k = (if 2 ^ k \<le> a then 1 else 0)"
  proof (cases "2 ^ k \<le> a")
    case True
    have "a div 2 ^ k = 1" using True assms by (intro int_div_pos_eq [where r = "a - 2 ^ k"]) simp_all
    with True show ?thesis by simp
  next
    case False
    then show ?thesis using assms(1) by (simp add: div_pos_pos_trivial)
  qed
  then show ?thesis by (simp add: bit_iff_odd)
qed

lemma SignExtendTo64_of_int:
  assumes "w \<noteq> 0" "w \<le> 64" "uint v < 2 ^ unat w"
  shows "SignExtendTo64 v w = of_int (twos (unat w) (uint v))"
proof (cases "w = 64")
  case True
  then show ?thesis by (simp add: SignExtendTo64_def twos_def)
next
  case False
  define k where "k = unat w - 1"
  have w: "0 < unat w" "unat w < 64"
    using width_bounds [OF assms(1,2)] False by (auto simp: word_unat_eq_iff)
  then have k: "unat w = Suc k" "k < 63" "\<not> w \<ge> 64"
    by (simp_all add: k_def word_le_nat_alt)
  have k1: "unat (w - 1) = k" using w by (simp add: k_def unat_minus_one assms(1))
  have "v AND MaskToBits (NOT 0) w = MaskToBits v w" by (simp add: MaskToBits_take_bit take_bit_eq_mask)
  then have "v AND MaskToBits (NOT 0) w = v" using assms(3) by (simp add: MaskToBits_id)
  then have "SignExtendTo64 v w = flip_bit k v - push_bit k 1"
    using k(3) k1 assms(1) by (simp add: SignExtendTo64_def Let_def flip_bit_eq_xor)
  moreover have "bit v k \<longleftrightarrow> 2 ^ k \<le> uint v"
    using bit_top [of "uint v" k] assms(3) k(1,2) by (auto simp: bit_uint_iff)
  ultimately show ?thesis
    using k(1) by (auto simp: flip_bit_eq_if set_bit_eq unset_bit_eq twos_def push_bit_eq_mult not_le)
qed

lemma twos_bounds:
  assumes "0 < n" "0 \<le> a" "a < 2 ^ n"
  shows "- (2 ^ (n - 1)) \<le> twos n a" "twos n a < 2 ^ (n - 1)"
  using assms by (cases n; auto simp: twos_def)+

lemma sint_SignExtendTo64:
  assumes "w \<noteq> 0" "w \<le> 64" "uint v < 2 ^ unat w"
  shows "sint (SignExtendTo64 v w) = twos (unat w) (uint v)"
proof -
  have w: "0 < unat w" "unat w \<le> 64" using assms(1,2) width_bounds by auto
  then have "(2::int) ^ (unat w - 1) \<le> 2 ^ 63" by (intro power_increasing) auto
  with twos_bounds [OF w(1) _ assms(3)]
  have "- 9223372036854775808 \<le> twos (unat w) (uint v)" "twos (unat w) (uint v) < 9223372036854775808" by simp_all
  then show ?thesis by (simp add: SignExtendTo64_of_int [OF assms] int_word_sint mod_pos_pos_trivial)
qed

section \<open>The 64-bit operations on masked operands\<close>

abbreviation below :: "u64 \<Rightarrow> u32 \<Rightarrow> bool" where
  "below a w \<equiv> uint a < 2 ^ unat w"

lemma mod_word_mod: "n \<le> 64 \<Longrightarrow> (x :: int) mod 18446744073709551616 mod 2 ^ n = x mod 2 ^ n"
proof -
  assume "n \<le> 64"
  then have "(2::int) ^ n dvd 2 ^ 64" by (rule le_imp_power_dvd)
  then show ?thesis by (simp add: mod_mod_cancel)
qed

lemma uint_eq_sint_mod: "n \<le> 64 \<Longrightarrow> uint (x :: u64) mod 2 ^ n = sint x mod 2 ^ n"
  using mod_word_mod [of n "sint x"] by (simp add: uint_sint take_bit_eq_mod)

lemma take_bit_below: "0 \<le> a \<Longrightarrow> a < 2 ^ n \<Longrightarrow> take_bit n (a :: int) = a"
  by (rule take_bit_int_eq_self)

lemma mask_bitwise:
  assumes "below a w" "below b w"
  shows "uint (MaskToBits (a AND b) w) = uint a AND uint b"
    "uint (MaskToBits (a OR b) w) = uint a OR uint b"
    "uint (MaskToBits (a XOR b) w) = uint a XOR uint b"
  using take_bit_below [OF _ assms(1)] take_bit_below [OF _ assms(2)]
  by (simp_all add: unsigned_and_eq unsigned_or_eq unsigned_xor_eq flip: take_bit_eq_mod)

lemma div_le_int: "0 \<le> a \<Longrightarrow> 0 \<le> b \<Longrightarrow> a div b \<le> (a :: int)"
  using zdiv_mono2 [of a 1 b] by (cases "b = 0") auto

lemma mask_small: "0 \<le> x \<Longrightarrow> x \<le> uint a \<Longrightarrow> below a w \<Longrightarrow> x mod 2 ^ unat w = x"
  by (rule mod_pos_pos_trivial) auto

lemma mask_div: "below a w \<Longrightarrow> uint (MaskToBits (a div b) w) = uint a div uint b"
  by (simp add: uint_div) (rule mask_small [of _ a]; simp add: pos_imp_zdiv_nonneg_iff div_le_int div_int_pos_iff)

lemma mask_mod: "below a w \<Longrightarrow> uint (MaskToBits (a mod b) w) = uint a mod uint b"
proof -
  assume "below a w"
  moreover have "0 \<le> uint a mod uint b" by (cases "uint b = 0") (auto simp: order_less_le)
  ultimately show ?thesis
    by (simp add: uint_mod) (rule mask_small [of _ a]; simp add: zmod_le_nonneg_dividend)
qed

lemma mask_push:
  assumes "unat w \<le> 64" shows "uint (MaskToBits (push_bit n a) w) = uint a * 2 ^ n mod 2 ^ unat w"
  unfolding uint_MaskToBits unsigned_push_bit_eq
  using assms by (simp add: take_bit_eq_mod push_bit_eq_mult mod_word_mod)

lemma mask_drop: "below a w \<Longrightarrow> uint (MaskToBits (drop_bit n a) w) = uint a div 2 ^ n"
  unfolding uint_MaskToBits unsigned_drop_bit_eq
  by (simp add: drop_bit_eq_div bintr_uint)
    (rule mask_small [of _ a]; simp add: pos_imp_zdiv_nonneg_iff div_le_int)

lemma shift_saturates:
  assumes "- (2 ^ 63) \<le> (s :: int)" "s < 2 ^ 63"
  shows "s div 2 ^ (if m \<ge> 63 then 63 else m) = s div 2 ^ m"
proof (cases "m \<ge> 63")
  case True
  then have p: "(2::int) ^ 63 \<le> 2 ^ m" by (intro power_increasing) auto
  show ?thesis
  proof (cases "0 \<le> s")
    case False
    have "s div 2 ^ 63 = - 1" "s div 2 ^ m = - 1"
      using False assms p by (intro int_div_neg_eq int_div_pos_eq [where r = "s + 2 ^ 63"] int_div_pos_eq [where r = "s + 2 ^ m"]; simp)+
    with True show ?thesis by simp
  next
    case pos: True
    with assms p True show ?thesis by simp
  qed
qed simp

lemma mask_ashr:
  assumes "w \<noteq> 0" "w \<le> 64" "below a w"
  shows "uint (MaskToBits (signed_drop_bit (if (b :: u64) \<ge> 63 then 63 else unat b) (SignExtendTo64 a w)) w) =
    twos (unat w) (uint a) div 2 ^ unat b mod 2 ^ unat w"
proof -
  have w: "unat w \<le> 64" using assms width_bounds by auto
  have b: "(if (b :: u64) \<ge> 63 then 63 else unat b) = (if unat b \<ge> 63 then 63 else unat b)"
    by (simp add: word_le_nat_alt)
  have s: "- (2 ^ 63) \<le> sint (SignExtendTo64 a w)" "sint (SignExtendTo64 a w) < 2 ^ 63"
    using sint_ge [of "SignExtendTo64 a w"] sint_lt [of "SignExtendTo64 a w"] by simp_all
  show ?thesis
    unfolding b using shift_saturates [OF s, of "unat b"] sint_SignExtendTo64 [OF assms]
    by (simp add: uint_eq_sint_mod [OF w] sint_signed_drop_bit_eq drop_bit_eq_div)
qed

section \<open>Evaluation computes the reference semantics\<close>

lemma unat_width [simp]: "unat (ucast (w0 :: u32) :: u64) = unat w0"
  using unsigned_less [of w0, where ?'a = nat] by (simp add: unsigned_ucast_eq take_bit_nat_eq_self)

lemma wf_binD:
  assumes "wf_node op w v [w0, w1]" "op \<noteq> O_Concat"
  shows "w \<noteq> 0 \<and> w \<le> 64 \<and> (if isCmp op then w = 1 \<and> w0 = w1
     else w0 = w \<and> (op \<in> {O_Shl, O_LShr, O_AShr} \<or> w1 = w))"
  using assms by (cases op) (auto simp: wf_node_def)

lemma shift_out: "0 \<le> x \<Longrightarrow> x < 2 ^ n \<Longrightarrow> n \<le> m \<Longrightarrow> x * 2 ^ m mod 2 ^ n = 0 \<and> x div 2 ^ m = (0 :: int)"
proof -
  assume x: "0 \<le> x" "x < 2 ^ n" "n \<le> m"
  then have "(2 :: int) ^ n \<le> 2 ^ m" by (intro power_increasing) auto
  with x have "x < 2 ^ m" by linarith
  with x show ?thesis by (simp add: le_imp_power_dvd dvd_mult mod_0_imp_dvd div_pos_pos_trivial)
qed

lemma mask_ring:
  assumes "unat w \<le> 64"
  shows "uint (MaskToBits (a + b) w) = (uint a + uint b) mod 2 ^ unat w"
    "uint (MaskToBits (a - b) w) = (uint a - uint b) mod 2 ^ unat w"
    "uint (MaskToBits (a * b) w) = uint a * uint b mod 2 ^ unat w"
  using assms by (simp_all add: uint_word_ariths mod_word_mod)

lemma width_le: "ucast (w0 :: u32) \<le> (b :: u64) \<longleftrightarrow> unat w0 \<le> unat b"
  by (simp add: word_le_nat_alt)

lemma eval_bin_den:
  assumes wf: "wf_node op w v [w0, w1]" and a: "below a w0" and b: "below b w1" and w0: "w0 \<noteq> 0" "w0 \<le> 64"
    and op: "op \<noteq> O_Concat"
  shows "map_option uint (eval_bin op w w0 a b) = den_bin op (unat w) (unat w0) (uint a) (uint b)"
proof -
  note D = wf_binD [OF wf op]
  have w: "w \<noteq> 0" "w \<le> 64" "unat w \<le> 64" using D width_bounds by auto
  consider (cmp) "isCmp op" "w0 = w1" | (shift) "op \<in> {O_Shl, O_LShr, O_AShr}" "w0 = w"
    | (ring) "\<not> isCmp op" "op \<notin> {O_Shl, O_LShr, O_AShr}" "w0 = w" "w1 = w" using D by (auto split: if_splits)
  then show ?thesis
  proof cases
    case cmp
    then have "below b w0" using b by simp
    note reads = MaskToBits_id [OF a] MaskToBits_id [OF this]
      sint_SignExtendTo64 [OF w0 a] sint_SignExtendTo64 [OF w0 this]
    show ?thesis using cmp(1)
      by (cases op) (simp_all add: reads word_less_def word_le_def word_sless_alt word_sle_eq word_uint_eq_iff [of a b]
          del: uint_MaskToBits)
  next
    case shift
    then show ?thesis using a w
      by (auto simp: MaskToBits_id mask_push mask_drop mask_ashr width_le shift_out Let_def simp del: uint_MaskToBits)
  next
    case ring
    then show ?thesis using a b w
      by (cases op) (simp_all add: mask_ring mask_bitwise mask_div mask_mod uint_0_iff del: uint_MaskToBits)
  qed
qed

lemma eval_bin_below:
  assumes "wf_node op w v [w0, w1]" "op \<noteq> O_Concat" "eval_bin op w w0 a b = Some r"
  shows "below r w"
  using wf_binD [OF assms(1,2)] assms(3)
  by (cases op) (auto simp: Let_def uint_MaskToBits split: if_splits)

fun ground :: "ExprRef \<Rightarrow> bool" where
  "ground Null \<longleftrightarrow> True"
| "ground (Node op w v ks) \<longleftrightarrow> op \<noteq> O_Var \<and> op \<noteq> O_Load \<and> (\<forall>k \<in> set ks. ground k)"

text \<open>The evaluation \<open>r\<close> of an expression of width \<open>w\<close> against its reference value \<open>x\<close>: a value is the
  reference value and fits its width; without variables and loads (\<open>g\<close>) failing is undefined there too.\<close>

definition agrees :: "bool \<Rightarrow> u32 \<Rightarrow> u64 option \<Rightarrow> int option \<Rightarrow> bool" where
  "agrees g w r x \<longleftrightarrow>
     (case r of Some v \<Rightarrow> x = Some (uint v) \<and> below v w | None \<Rightarrow> g \<longrightarrow> x = None)"

lemma agrees_Some: "agrees g w (Some v) x \<longleftrightarrow> x = Some (uint v) \<and> below v w"
  by (simp add: agrees_def)

lemma agrees_None: "agrees g w None x \<longleftrightarrow> (g \<longrightarrow> x = None)"
  by (simp add: agrees_def)

lemma wf_widths:
  assumes "wf_node op w v ws"
  shows "ws = [] \<and> op \<in> {O_Const, O_Var} \<or>
    (\<exists>w0. ws = [w0] \<and> op \<in> {O_Not, O_Neg, O_Extract, O_ZExt, O_SExt, O_Load}) \<or>
    (\<exists>w0 w1. ws = [w0, w1] \<and> op \<notin> {O_Const, O_Var, O_Not, O_Neg, O_Extract, O_ZExt, O_SExt, O_Load, O_Ite}) \<or>
    (\<exists>w0 w1 w2. ws = [w0, w1, w2] \<and> op = O_Ite)"
  using assms by (cases op) (auto simp: wf_node_def length_Suc_conv numeral_2_eq_2)

lemma mask_not: "unat w \<le> 64 \<Longrightarrow> below a w \<Longrightarrow> uint (MaskToBits (NOT a) w) = 2 ^ unat w - 1 - uint a"
proof -
  assume w: "unat w \<le> 64" "below a w"
  have "uint (NOT a) = (- uint a mod 18446744073709551616 - 1) mod 18446744073709551616"
    by (simp add: not_eq_complement uint_word_ariths)
  also have "\<dots> = (- 1 - uint a) mod 18446744073709551616"
    unfolding mod_diff_left_eq by (rule arg_cong [where f = "\<lambda>x. x mod 18446744073709551616"]) simp
  finally have "uint (MaskToBits (NOT a) w) = (- 1 - uint a) mod 2 ^ unat w"
    using w(1) by (simp add: mod_word_mod)
  also have "\<dots> = (2 ^ unat w + (- 1 - uint a)) mod 2 ^ unat w" by simp
  also have "\<dots> = 2 ^ unat w + (- 1 - uint a)" using w(2) uint_nonnegative [of a] by (intro mod_pos_pos_trivial; linarith)
  finally show ?thesis by simp
qed

lemma mask_neg: "unat w \<le> 64 \<Longrightarrow> uint (MaskToBits (0 - a) w) = (- uint a) mod 2 ^ unat w"
  by (simp add: uint_word_ariths mod_word_mod)

lemma mask_extract: "uint (MaskToBits (drop_bit n a) w) = uint a div 2 ^ n mod 2 ^ unat w"
  unfolding uint_MaskToBits unsigned_drop_bit_eq by (simp add: drop_bit_eq_div bintr_uint)

lemma mask_zext:
  assumes "w0 \<le> w" "below a w0" shows "uint (MaskToBits a w) = uint a" "below a w"
proof -
  have "unat w0 \<le> unat w" using assms(1) by (simp add: word_le_nat_alt)
  then have "(2 :: int) ^ unat w0 \<le> 2 ^ unat w" by (intro power_increasing) auto
  with assms(2) show "below a w" by linarith
  then show "uint (MaskToBits a w) = uint a" by (simp add: mod_pos_pos_trivial)
qed

lemma mask_sext:
  assumes "unat w \<le> 64" "w0 \<noteq> 0" "w0 \<le> 64" "below a w0"
  shows "uint (MaskToBits (SignExtendTo64 a w0) w) = twos (unat w0) (uint a) mod 2 ^ unat w"
  using sint_SignExtendTo64 [OF assms(2-4)] by (simp add: uint_eq_sint_mod [OF assms(1)])

lemma mask_concat:
  assumes "unat w0 + unat w1 \<le> 64" "below a w0" "below b w1" "unat w0 + unat w1 = unat w"
  shows "uint (MaskToBits (push_bit (unat w1) a OR b) w) = uint a * 2 ^ unat w1 + uint b"
    and "uint a * 2 ^ unat w1 + uint b < 2 ^ unat w"
proof -
  have "uint a + 1 \<le> 2 ^ unat w0" using assms(2) by simp
  then have "(uint a + 1) * 2 ^ unat w1 \<le> 2 ^ unat w0 * 2 ^ unat w1" by (intro mult_right_mono) auto
  then show small: "uint a * 2 ^ unat w1 + uint b < 2 ^ unat w"
    using assms(3) by (simp add: distrib_right flip: assms(4)) (simp add: power_add)
  have "(2 :: int) ^ unat w \<le> 2 ^ 64" using assms(1,4) by (intro power_increasing) auto
  with small have "uint a * 2 ^ unat w1 < 2 ^ 64"
    using uint_nonnegative [of b] by linarith
  then have push: "uint (push_bit (unat w1) a) = push_bit (unat w1) (uint a)"
    unfolding unsigned_push_bit_eq by (intro take_bit_int_eq_self) (simp_all add: push_bit_eq_mult)
  have "push_bit (unat w1) (uint a) OR uint b = concat_bit (unat w1) (uint b) (uint a)"
    using assms(3) by (simp add: concat_bit_def take_bit_int_eq_self or.commute)
  also have "\<dots> = uint a * 2 ^ unat w1 + uint b"
    using assms(3) by (simp add: concat_bit_eq take_bit_int_eq_self push_bit_eq_mult)
  finally have "uint (push_bit (unat w1) a OR b) = uint a * 2 ^ unat w1 + uint b"
    by (simp only: unsigned_or_eq push)
  then show "uint (MaskToBits (push_bit (unat w1) a OR b) w) = uint a * 2 ^ unat w1 + uint b"
    using small by (simp only: uint_MaskToBits) (simp add: mod_pos_pos_trivial)
qed

lemma wf_unaryD:
  assumes "wf_node op w v [w0]"
  shows "w \<noteq> 0 \<and> w \<le> 64 \<and> (op \<in> {O_Not, O_Neg} \<and> w0 = w \<or> op \<in> {O_ZExt, O_SExt} \<and> w0 \<le> w \<or>
    op = O_Extract \<and> unat v + unat w \<le> unat w0 \<or> op = O_Load)"
  using assms by (cases op) (auto simp: wf_node_def)

lemma eval_unary_den:
  assumes wf: "wf_node op w v [w0]" and w0: "w0 \<noteq> 0" "w0 \<le> 64" and k: "agrees g w0 r x"
    and g: "g \<longrightarrow> op \<noteq> O_Load"
  shows "agrees g w (eval_node op w v [w0] [r]) (den_node env ld op (unat w) v [unat w0] [x])"
proof -
  note D = wf_unaryD [OF wf]
  have w: "unat w \<le> 64" using D width_bounds by auto
  show ?thesis
  proof (cases r)
    case None
    then show ?thesis using k g D by (auto simp: agrees_None bind_value_def)
  next
    case (Some a)
    with k have a: "below a w0" "x = Some (uint a)" by (simp_all add: agrees_Some)
    have range: "below (MaskToBits b w) w" for b by simp
    have pos: "- 1 < uint a" using uint_nonnegative [of a] by linarith
    from D show ?thesis
      using a w mask_zext [of w0 w a] mask_not [OF w, of a] mask_neg [OF w, of a] mask_sext [OF w w0 a(1)]
        mask_extract [of "unat v" a w] range
      by (auto simp: Some agrees_Some agrees_None bind_value_def g pos simp del: uint_MaskToBits)
  qed
qed

lemma eval_concat_den:
  assumes wf: "wf_node O_Concat w v [w0, w1]" and w0: "w0 \<noteq> 0" and k: "agrees g w0 r0 x0" "agrees g w1 r1 x1"
  shows "agrees g w (eval_node O_Concat w v [w0, w1] [r0, r1]) (den_node env ld O_Concat (unat w) v [unat w0, unat w1] [x0, x1])"
proof (cases "r0 = None \<or> r1 = None")
  case True
  then show ?thesis using k by (cases r0) (auto simp: agrees_None agrees_Some bind_value_def split: option.splits)
next
  case False
  then obtain a b where r: "r0 = Some a" "r1 = Some b" by auto
  with k have ab: "below a w0" "below b w1" "x0 = Some (uint a)" "x1 = Some (uint b)" by (auto simp: agrees_Some)
  have w: "unat w0 + unat w1 \<le> 64" "unat w0 + unat w1 = unat w"
    using wf width_bounds by (auto simp: wf_node_def)
  moreover have "unat w0 \<noteq> 0" using w0 by (simp add: unat_eq_0)
  ultimately have "\<not> w1 \<ge> 64" by (simp add: word_le_nat_alt)
  then show ?thesis
    using mask_concat [OF w(1) ab(1,2) w(2)] by (simp add: r ab agrees_Some bind_value_def Let_def del: uint_MaskToBits)
qed

lemma eval_binary_den:
  assumes wf: "wf_node op w v [w0, w1]" and w0: "w0 \<noteq> 0" "w0 \<le> 64" and k: "agrees g w0 r0 x0" "agrees g w1 r1 x1"
  shows "agrees g w (eval_node op w v [w0, w1] [r0, r1]) (den_node env ld op (unat w) v [unat w0, unat w1] [x0, x1])"
proof (cases "op = O_Concat")
  case True
  with eval_concat_den wf w0 k show ?thesis by blast
next
  case False
  have "op \<notin> {O_Const, O_Var, O_Not, O_Neg, O_Extract, O_ZExt, O_SExt, O_Load, O_Ite, O_Concat}"
    using wf_widths [OF wf] False by auto
  then have op: "eval_node op w v [w0, w1] [r0, r1] = bind_value r0 (\<lambda>a. bind_value r1 (\<lambda>b. eval_bin op w w0 a b))"
    "den_node env ld op (unat w) v [unat w0, unat w1] [x0, x1] =
       bind_value x0 (\<lambda>a. bind_value x1 (\<lambda>b. den_bin op (unat w) (unat w0) a b))"
    by (cases op; simp del: eval_bin.simps den_bin.simps)+
  show ?thesis
  proof (cases "r0 = None \<or> r1 = None")
    case True
    then have "eval_node op w v [w0, w1] [r0, r1] = None" by (auto simp: op(1) bind_value_def split: option.splits)
    moreover have "g \<Longrightarrow> x0 = None \<or> x1 = None" using True k by (auto simp: agrees_None)
    then have "g \<Longrightarrow> den_node env ld op (unat w) v [unat w0, unat w1] [x0, x1] = None"
      by (auto simp: op(2) bind_value_def split: option.splits)
    ultimately show ?thesis by (simp add: agrees_None)
  next
    case both: False
    then obtain a b where r: "r0 = Some a" "r1 = Some b" by auto
    with k have b: "below a w0" "below b w1" "x0 = Some (uint a)" "x1 = Some (uint b)" by (auto simp: agrees_Some)
    show ?thesis
      using eval_bin_den [OF wf b(1,2) w0 False] eval_bin_below [OF wf False, of a b]
      unfolding op by (cases "eval_bin op w w0 a b") (auto simp: bind_value_def r b agrees_def)
  qed
qed

lemma eval_ite_den:
  assumes wf: "wf_node O_Ite w v [w0, w1, w2]" and k: "agrees g w0 r0 x0" "agrees g w1 r1 x1" "agrees g w2 r2 x2"
  shows "agrees g w (eval_node O_Ite w v [w0, w1, w2] [r0, r1, r2])
    (den_node env ld O_Ite (unat w) v [unat w0, unat w1, unat w2] [x0, x1, x2])"
  using assms by (cases r0) (auto simp: agrees_None agrees_Some bind_value_def wf_node_def uint_0_iff)

lemma below_unat: "below v w \<longleftrightarrow> unat v < 2 ^ unat w"
proof -
  have "below v w \<longleftrightarrow> int (unat v) < int (2 ^ unat w)" by simp
  then show ?thesis by (simp only: of_nat_less_iff)
qed

lemma wf_bits: "wf_expr e \<Longrightarrow> bits_of e \<noteq> 0 \<and> bits_of e \<le> 64"
  by (cases e) (simp_all add: wf_node_def)

lemma node_agrees:
  assumes wf: "wf_node op w v ws" and nz: "\<forall>w \<in> set ws. w \<noteq> 0 \<and> w \<le> 64"
    and len: "length rs = length ws" "length xs = length ws"
    and kids: "\<And>i. i < length ws \<Longrightarrow> agrees g (ws ! i) (rs ! i) (xs ! i)"
    and op: "g \<longrightarrow> op \<noteq> O_Load \<and> op \<noteq> O_Var"
  shows "agrees g w (eval_node op w v ws rs) (den_node env ld op (unat w) v (map unat ws) xs)"
proof -
  from wf_widths [OF wf]
  consider (leaf) "ws = []" "op = O_Const \<or> op = O_Var" | (unary) w0 where "ws = [w0]"
    | (binary) w0 w1 where "ws = [w0, w1]" | (ite) w0 w1 w2 where "ws = [w0, w1, w2]" "op = O_Ite" by auto
  then show ?thesis
  proof cases
    case leaf
    then show ?thesis using wf op
      by (auto simp: agrees_Some agrees_None wf_node_def below_unat)
  next
    case unary
    with len obtain r x where rx: "rs = [r]" "xs = [x]" by (auto simp: length_Suc_conv)
    with eval_unary_den [of op w v w0 g r x] wf kids [of 0] nz op unary show ?thesis by simp
  next
    case binary
    with len obtain r x q y where rx: "rs = [r, q]" "xs = [x, y]" by (auto simp: length_Suc_conv)
    with eval_binary_den [of op w v w0 w1 g r x q y] wf kids [of 0] kids [of 1] nz binary show ?thesis by simp
  next
    case ite
    with len obtain r x q y t z where rx: "rs = [r, q, t]" "xs = [x, y, z]"
      by (auto simp: length_Suc_conv)
    with eval_ite_den [of w v w0 w1 w2 g r x q y t z] wf kids [of 0] kids [of 1] kids [of 2] ite
    show ?thesis by simp
  qed
qed

lemma wf_kids: "wf_expr (Node op w v ks) \<Longrightarrow> \<forall>w \<in> set (map bits_of ks). w \<noteq> 0 \<and> w \<le> 64"
  using wf_bits by auto

lemma EvalConst_agrees: "wf_expr e \<Longrightarrow> (g \<Longrightarrow> ground e) \<Longrightarrow> agrees g (bits_of e) (EvalConst e) (den env ld e)"
proof (induction e)
  case (Node op w v ks)
  have kids: "agrees g (bits_of (ks ! i)) (EvalConst (ks ! i)) (den env ld (ks ! i))" if "i < length ks" for i
    using Node.prems Node.IH [OF nth_mem [OF that]] nth_mem [OF that] by simp
  have ops: "g \<longrightarrow> op \<noteq> O_Load \<and> op \<noteq> O_Var" using Node.prems(2) by auto
  have "agrees g w (eval_node op w v (map bits_of ks) (map EvalConst ks))
      (den_node env ld op (unat w) v (map unat (map bits_of ks)) (map (den env ld) ks))"
    using Node.prems(1) kids by (intro node_agrees wf_kids [OF Node.prems(1)] ops) simp_all
  then show ?case by (simp add: comp_def)
qed simp

lemma den_range: "wf_expr e \<Longrightarrow> den env ld e = Some x \<Longrightarrow> 0 \<le> x \<and> x < 2 ^ unat (bits_of e)"
proof (induction e arbitrary: x)
  case (Node op w v ks)
  show ?case
  proof (cases "op = O_Load \<or> op = O_Var")
    case True
    then show ?thesis using Node.prems(2) by (auto simp: bind_value_def split: option.splits)
  next
    case False
    have kids: "agrees True (bits_of (ks ! i)) (map_option of_int (den env ld (ks ! i))) (den env ld (ks ! i))"
      if i: "i < length ks" for i
    proof (cases "den env ld (ks ! i)")
      case (Some y)
      have "wf_expr (ks ! i)" using Node.prems(1) i by simp
      then have y: "0 \<le> y" "y < 2 ^ unat (bits_of (ks ! i))" "unat (bits_of (ks ! i)) \<le> 64"
        using Node.IH [of "ks ! i"] i Some wf_bits [of "ks ! i"] width_bounds by auto
      have "(2 :: int) ^ unat (bits_of (ks ! i)) \<le> 2 ^ 64" using y(3) by (intro power_increasing) auto
      with y have "uint (of_int y :: u64) = y" by (simp add: uint_word_of_int)
      with y Some show ?thesis by (simp add: agrees_Some)
    qed (simp add: agrees_None)
    have "agrees True w (eval_node op w v (map bits_of ks) (map (map_option of_int) (map (den env ld) ks)))
        (den_node env ld op (unat w) v (map unat (map bits_of ks)) (map (den env ld) ks))"
      using Node.prems(1) kids False by (intro node_agrees wf_kids [OF Node.prems(1)]) simp_all
    moreover have "den_node env ld op (unat w) v (map unat (map bits_of ks)) (map (den env ld) ks) = Some x"
      using Node.prems(2) by (simp add: comp_def)
    ultimately show ?thesis by (auto simp: agrees_def split: option.splits)
  qed
qed simp

text \<open>What evaluation promises: a value it returns is the expression's value whatever the variables and
  the memory hold, and on an expression without either it fails exactly on a division by zero the value
  depends on.\<close>

lemma EvalConst_value: "wf_expr e \<Longrightarrow> EvalConst e = Some v \<Longrightarrow> den env ld e = Some (uint v)"
  using EvalConst_agrees [of e False env ld] by (simp add: agrees_Some)

lemma EvalConst_below: "wf_expr e \<Longrightarrow> EvalConst e = Some v \<Longrightarrow> below v (bits_of e)"
  using EvalConst_agrees [of e False] by (simp add: agrees_Some)

lemma EvalConst_ground: "wf_expr e \<Longrightarrow> ground e \<Longrightarrow> map_option uint (EvalConst e) = den env ld e"
  using EvalConst_agrees [of e True env ld] by (auto simp: agrees_def split: option.splits)

section \<open>The evaluator against the reference semantics\<close>

text \<open>C6: constant evaluation is exact. On a well-formed expression a returned value is the reference value
  under every choice of variables and memory and fits the expression's width; and if the expression has
  neither variable nor load, evaluation fails only where the reference value is undefined, that is on a
  division by zero.\<close>

theorem EvalConst_exact:
  assumes "wf_expr e"
  shows "(\<forall>v. EvalConst e = Some v \<longrightarrow> den env ld e = Some (uint v) \<and> uint v < 2 ^ unat (bits_of e)) \<and>
    (ground e \<longrightarrow> EvalConst e = None \<longrightarrow> den env ld e = None)"
  using EvalConst_value [OF assms] EvalConst_below [OF assms] EvalConst_ground [OF assms, of env ld] by auto

text \<open>\<open>sext(0x80:8, 16) >>s 4\<close>.\<close>

definition demo_expr :: ExprRef where
  "demo_expr = Bin O_AShr (Ext O_SExt (C 0x80 8) 16) (C 4 16) 0"

theorem EvalConst_exact_witness: "den (\<lambda>i. 0) (\<lambda>a n. 0) demo_expr = Some 0xFFF8"
proof -
  have "wf_expr demo_expr"
    by (simp add: demo_expr_def Bin_def Ext_def C_def wf_node_def MaskToBits_def word_le_nat_alt)
  moreover have "EvalConst demo_expr = Some 0xFFF8"
    by (simp add: demo_expr_def Bin_def Ext_def C_def bind_value_def MaskToBits_def SignExtendTo64_def
        word_le_nat_alt Let_def)
  ultimately show ?thesis using EvalConst_exact [of demo_expr "\<lambda>i. 0" "\<lambda>a n. 0"] by auto
qed

end
