(* ===== verification/Simplify.thy ===== *)
theory Simplify
  imports Expr_Ast
begin

unbundle bit_operations_syntax

text \<open>
  \<open>src/src/Core/Simplify.{h,cpp}\<close>: the rewriting simplifier. One bottom-up pass folds constant subtrees
  and applies the algebraic identities; passes are repeated until nothing changes, 32 times at most.
  The theorem is the header's promise: every rewrite preserves the value of the expression, for any
  values of the variables and any memory.
\<close>

section \<open>The pass\<close>

fun isConstVal :: "ExprRef \<Rightarrow> u64 \<Rightarrow> bool" where
  "isConstVal Null v \<longleftrightarrow> False"
| "isConstVal (Node op w x ks) v \<longleftrightarrow> op = O_Const \<and> x = MaskToBits v w"

definition isZero :: "ExprRef \<Rightarrow> bool" where "isZero e \<longleftrightarrow> isConstVal e 0"
definition isOne :: "ExprRef \<Rightarrow> bool" where "isOne e \<longleftrightarrow> isConstVal e 1"
definition isAllOnes :: "ExprRef \<Rightarrow> bool" where "isAllOnes e \<longleftrightarrow> isConstVal e (NOT 0)"

fun inner_of :: "ExprOp \<Rightarrow> ExprRef \<Rightarrow> ExprRef option" where
  \<comment> \<open>\<open>a && a->op == op\<close>, and then \<open>a->kids[0]\<close>\<close>
  "inner_of op Null = None"
| "inner_of op (Node op1 w v ks) = (if op1 = op then Some (kid Null ks 0) else None)"

text \<open>The switch on the operation: \<open>cur\<close> is the node rebuilt on the simplified children \<open>a\<close>, \<open>b\<close>, \<open>c\<close>.\<close>

fun identities :: "ExprOp \<Rightarrow> u32 \<Rightarrow> ExprRef \<Rightarrow> ExprRef \<Rightarrow> ExprRef \<Rightarrow> ExprRef \<Rightarrow> ExprRef" where
  "identities O_Add w cur a b c = (if isZero a then b else if isZero b then a else cur)"
| "identities O_Sub w cur a b c = (if isZero b then a else if ExprEqual a b then C 0 w else cur)"
| "identities O_Mul w cur a b c =
     (if isZero a \<or> isZero b then C 0 w else if isOne a then b else if isOne b then a else cur)"
| "identities O_And w cur a b c =
     (if isZero a \<or> isZero b then C 0 w else if isAllOnes a then b else if isAllOnes b then a
      else if ExprEqual a b then a else cur)"
| "identities O_Or w cur a b c =
     (if isZero a then b else if isZero b then a else if isAllOnes a \<or> isAllOnes b then C (NOT 0) w
      else if ExprEqual a b then a else cur)"
| "identities O_Xor w cur a b c =
     (if isZero a then b else if isZero b then a else if ExprEqual a b then C 0 w else cur)"
| "identities O_Shl w cur a b c = (if isZero b then a else if isZero a then C 0 w else cur)"
| "identities O_LShr w cur a b c = (if isZero b then a else if isZero a then C 0 w else cur)"
| "identities O_AShr w cur a b c = (if isZero b then a else if isZero a then C 0 w else cur)"
| "identities O_Not w cur a b c = (case inner_of O_Not a of Some x \<Rightarrow> x | None \<Rightarrow> cur)"
| "identities O_Neg w cur a b c = (case inner_of O_Neg a of Some x \<Rightarrow> x | None \<Rightarrow> cur)"
| "identities O_Eq w cur a b c = (if ExprEqual a b then C 1 1 else cur)"
| "identities O_Ne w cur a b c = (if ExprEqual a b then C 0 1 else cur)"
| "identities O_Ite w cur a b c =
     (case EvalConst a of
        Some cc \<Rightarrow> if cc \<noteq> 0 then b else c
      | None \<Rightarrow> if ExprEqual b c then b else cur)"
| "identities _ w cur a b c = cur"

definition simplify_node :: "ExprOp \<Rightarrow> u32 \<Rightarrow> u64 \<Rightarrow> ExprRef list \<Rightarrow> ExprRef" where
  "simplify_node op w v ks =
     (let cur = Node op w v ks
      in case EvalConst cur of
           Some cv \<Rightarrow> C cv w
         | None \<Rightarrow> identities op w cur (kid Null ks 0) (kid Null ks 1) (kid Null ks 2))"

fun simplifyOnce :: "ExprRef \<Rightarrow> ExprRef" where
  "simplifyOnce Null = Null"
| "simplifyOnce (Node op w v ks) =
     (if op = O_Const \<or> op = O_Var then Node op w v ks
      else simplify_node op w v (map simplifyOnce ks))"

fun simplify_passes :: "nat \<Rightarrow> ExprRef \<Rightarrow> ExprRef" where
  "simplify_passes 0 cur = cur"
| "simplify_passes (Suc n) cur =
     (let next_e = simplifyOnce cur in if ExprEqual next_e cur then next_e else simplify_passes n next_e)"

definition Simplify :: "ExprRef \<Rightarrow> ExprRef" where
  "Simplify e = simplify_passes 32 e"

section \<open>Refinement of expressions\<close>

text \<open>\<open>f\<close> may stand for \<open>e\<close>: well-formed, as wide, and of the same value wherever \<open>e\<close> has one (a rewrite
  may drop a division by zero whose result is not used).\<close>

definition refines :: "ExprRef \<Rightarrow> ExprRef \<Rightarrow> bool" where
  "refines e f \<longleftrightarrow> wf_expr f \<and> bits_of f = bits_of e \<and>
     (\<forall>env ld x. den env ld e = Some x \<longrightarrow> den env ld f = Some x)"

lemma refines_refl: "wf_expr e \<Longrightarrow> refines e e"
  by (simp add: refines_def)

lemma refines_trans: "refines e f \<Longrightarrow> refines f g \<Longrightarrow> refines e g"
  by (simp add: refines_def)

lemma refinesI:
  assumes "wf_expr f" "bits_of f = bits_of e" "\<And>env ld x. den env ld e = Some x \<Longrightarrow> den env ld f = Some x"
  shows "refines e f"
  using assms by (simp add: refines_def)

lemma wf_C: "w \<noteq> 0 \<Longrightarrow> w \<le> 64 \<Longrightarrow> wf_expr (C v w)"
  using below_unat [of "MaskToBits v w" w] by (simp add: C_def wf_node_def)

lemma bits_C [simp]: "bits_of (C v w) = w"
  by (simp add: C_def)

lemma den_C [simp]: "den env ld (C v w) = Some (uint v mod 2 ^ unat w)"
  by (simp add: C_def)

lemma kid_mono:
  assumes "length ys = length xs" "\<And>i x. i < length xs \<Longrightarrow> xs ! i = Some x \<Longrightarrow> ys ! i = Some x"
  shows "kid None xs i = Some x \<Longrightarrow> kid None ys i = Some x"
  using assms by (auto simp: kid_def split: if_splits)

lemma bind_value_Some: "bind_value r f = Some y \<longleftrightarrow> (\<exists>a. r = Some a \<and> f a = Some y)"
  by (auto simp: bind_value_def split: option.splits)

lemma den_node_mono:
  assumes k: "\<And>i x. kid None xs i = Some x \<Longrightarrow> kid None ys i = Some x"
  shows "den_node env ld op n v ns xs = Some x \<Longrightarrow> den_node env ld op n v ns ys = Some x"
proof -
  have b: "bind_value (kid None xs i) f = Some y \<Longrightarrow> (\<And>a. f a = Some y \<Longrightarrow> g a = Some y) \<Longrightarrow>
      bind_value (kid None ys i) g = Some y" for i f g and y :: int
    by (auto simp: bind_value_Some dest: k)
  show "den_node env ld op n v ns xs = Some x \<Longrightarrow> den_node env ld op n v ns ys = Some x"
    by (cases op; simp del: den_bin.simps) (fastforce simp: bind_value_Some dest: k split: if_splits)+
qed

lemma refines_node:
  assumes wf: "wf_expr (Node op w v ks)" and kids: "length js = length ks"
    "\<And>i. i < length ks \<Longrightarrow> refines (ks ! i) (js ! i)"
  shows "refines (Node op w v ks) (Node op w v js)"
proof (rule refinesI)
  have bits: "map bits_of js = map bits_of ks"
    using kids by (intro nth_equalityI) (auto simp: refines_def)
  then have ubits: "map (\<lambda>k. unat (bits_of k)) js = map (\<lambda>k. unat (bits_of k)) ks"
    by (metis (no_types, lifting) comp_def map_eq_conv map_map)
  show "wf_expr (Node op w v js)"
    using wf kids bits by (auto simp: in_set_conv_nth refines_def)
  fix env ld x
  assume "den env ld (Node op w v ks) = Some x"
  moreover have "kid None (map (den env ld) ks) i = Some y \<Longrightarrow> kid None (map (den env ld) js) i = Some y" for i y
    using kids by (auto simp: kid_def refines_def split: if_splits)
  ultimately show "den env ld (Node op w v js) = Some x"
    unfolding den.simps ubits by (rule den_node_mono [rotated])
qed simp

section \<open>The identities\<close>

lemma isZero_den: "isZero e \<Longrightarrow> wf_expr e \<Longrightarrow> den env ld e = Some 0"
  by (cases e) (auto simp: isZero_def MaskToBits_def wf_node_def)

lemma isOne_den: "isOne e \<Longrightarrow> wf_expr e \<Longrightarrow> den env ld e = Some 1"
proof (cases e)
  case (Node op w v ks)
  assume e: "isOne e" "wf_expr e"
  then have w: "w \<noteq> 0" and v: "uint v = 1 mod 2 ^ unat w" using Node by (auto simp: isOne_def wf_node_def)
  have "(1 :: int) mod 2 ^ unat w = 1" using w by (intro mod_pos_pos_trivial) (simp_all add: unat_gt_0)
  with e v Node show ?thesis by (simp add: isOne_def)
qed (simp add: isOne_def)

lemma isAllOnes_den: "isAllOnes e \<Longrightarrow> wf_expr e \<Longrightarrow> den env ld e = Some (2 ^ unat (bits_of e) - 1)"
proof (cases e)
  case (Node op w v ks)
  assume e: "isAllOnes e" "wf_expr e"
  then have w: "unat w \<le> 64" using Node width_bounds by (auto simp: wf_node_def)
  have "uint v = 2 ^ unat w - 1"
    using e Node mask_not [OF w, of 0] by (simp add: isAllOnes_def del: uint_MaskToBits)
  with e Node show ?thesis by (simp add: isAllOnes_def)
qed (simp add: isAllOnes_def)

lemma den_ones_C: "w \<noteq> 0 \<Longrightarrow> w \<le> 64 \<Longrightarrow> den env ld (C (NOT 0) w) = Some (2 ^ unat w - 1)"
  using mask_not [of w 0] width_bounds [of w] by simp

lemma ones_mod: "(w :: u32) \<noteq> 0 \<Longrightarrow> w \<le> 64 \<Longrightarrow> uint u64_max mod 2 ^ unat w = 2 ^ unat w - 1"
  using den_ones_C [of w] by simp

text \<open>The value of a binary node, when it has one.\<close>

lemma den_binary:
  assumes "den env ld (Node op w v [a, b]) = Some x" "wf_expr (Node op w v [a, b])" "op \<noteq> O_Concat"
  obtains p q where "den env ld a = Some p" "den env ld b = Some q"
    "den_bin op (unat w) (unat (bits_of a)) p q = Some x"
    "0 \<le> p" "p < 2 ^ unat (bits_of a)" "0 \<le> q" "q < 2 ^ unat (bits_of b)"
proof -
  have "op \<notin> {O_Const, O_Var, O_Not, O_Neg, O_Extract, O_ZExt, O_SExt, O_Load, O_Ite}"
    using wf_widths [of op w v "[bits_of a, bits_of b]"] assms(2) by auto
  then have "den env ld (Node op w v [a, b]) =
      bind_value (den env ld a) (\<lambda>p. bind_value (den env ld b) (\<lambda>q. den_bin op (unat w) (unat (bits_of a)) p q))"
    using assms(3) by (cases op; simp del: den_bin.simps)
  then obtain p q where pq: "den env ld a = Some p" "den env ld b = Some q"
      "den_bin op (unat w) (unat (bits_of a)) p q = Some x"
    using assms(1) by (auto simp: bind_value_Some)
  moreover have "0 \<le> p \<and> p < 2 ^ unat (bits_of a)" using den_range [OF _ pq(1)] assms(2) by simp
  moreover have "0 \<le> q \<and> q < 2 ^ unat (bits_of b)" using den_range [OF _ pq(2)] assms(2) by simp
  ultimately show ?thesis using that by blast
qed

lemma and_ones: "0 \<le> x \<Longrightarrow> x < 2 ^ n \<Longrightarrow> x AND (2 ^ n - 1) = (x :: int)"
  by (simp add: take_bit_int_eq_self flip: mask_eq_exp_minus_1 take_bit_eq_mask)

lemma or_ones: "0 \<le> x \<Longrightarrow> x < 2 ^ n \<Longrightarrow> x OR (2 ^ n - 1) = (2 ^ n - 1 :: int)"
proof -
  assume "0 \<le> x" "x < 2 ^ n"
  then have "x = take_bit n x" by (simp add: take_bit_int_eq_self)
  then have "x OR mask n = mask n" by (intro bit_eqI) (metis bit_or_iff bit_mask_iff bit_take_bit_iff)
  then show ?thesis by (simp add: mask_eq_exp_minus_1)
qed

lemma refines_binaryI:
  assumes "wf_expr (Node op w v [a, b])" "op \<noteq> O_Concat" "wf_expr f" "bits_of f = w"
    and "\<And>env ld p q x. den env ld a = Some p \<Longrightarrow> den env ld b = Some q \<Longrightarrow>
      den_bin op (unat w) (unat (bits_of a)) p q = Some x \<Longrightarrow>
      0 \<le> p \<Longrightarrow> p < 2 ^ unat (bits_of a) \<Longrightarrow> 0 \<le> q \<Longrightarrow> q < 2 ^ unat (bits_of b) \<Longrightarrow> den env ld f = Some x"
  shows "refines (Node op w v [a, b]) f"
proof (rule refinesI)
  show "bits_of f = bits_of (Node op w v [a, b])" using assms(4) by simp
  fix env ld x assume e: "den env ld (Node op w v [a, b]) = Some x"
  show "den env ld f = Some x" by (rule den_binary [OF e assms(1,2)]) (rule assms(5))
qed (rule assms(3))

lemma shift_zero: "0 < n \<Longrightarrow> twos n 0 = 0" "0 < n \<Longrightarrow> twos n p mod 2 ^ n = p mod 2 ^ n"
  by (auto simp: twos_def)

lemmas zero_ones = isZero_den isOne_den isAllOnes_den ones_mod unat_gt_0 and_ones or_ones mod_pos_pos_trivial

lemma identities_ring:
  assumes wf: "wf_expr (Node op w v [a, b])" and op: "op \<in> {O_Add, O_Sub, O_Mul, O_And, O_Or, O_Xor}"
  shows "refines (Node op w v [a, b]) (identities op w (Node op w v [a, b]) a b c)"
proof -
  have ab: "wf_expr a" "wf_expr b" "bits_of a = w" "bits_of b = w" and w: "w \<noteq> 0" "w \<le> 64"
    using wf op by (auto simp: wf_node_def)
  show ?thesis
    using wf op ab w refines_refl [OF wf]
    by (elim insertE emptyE)
      (auto intro!: refines_binaryI wf_C simp: zero_ones and.commute or.commute simp del: wf_expr.simps)
qed

lemma identities_shift:
  assumes wf: "wf_expr (Node op w v [a, b])" and op: "op \<in> {O_Shl, O_LShr, O_AShr}"
  shows "refines (Node op w v [a, b]) (identities op w (Node op w v [a, b]) a b c)"
proof -
  have ab: "wf_expr a" "wf_expr b" "bits_of a = w" and w: "w \<noteq> 0" "w \<le> 64"
    using wf op by (auto simp: wf_node_def)
  then have "0 < unat w" using width_bounds by auto
  then show ?thesis
    using wf op ab w refines_refl [OF wf]
    by (elim insertE emptyE)
      (auto intro!: refines_binaryI wf_C simp: zero_ones shift_zero simp del: wf_expr.simps)
qed

lemma identities_compare:
  assumes wf: "wf_expr (Node op w v [a, b])" and op: "op \<in> {O_Eq, O_Ne}"
  shows "refines (Node op w v [a, b]) (identities op w (Node op w v [a, b]) a b c)"
proof (cases "a = b")
  case True
  have w: "w = 1" using wf op by (auto simp: wf_node_def)
  have "refines (Node op w v [a, b]) (C (if op = O_Eq then 1 else 0) w)"
    using op True w by (intro refines_binaryI [OF wf] wf_C) auto
  then show ?thesis using op True w by auto
next
  case False
  then show ?thesis using op refines_refl [OF wf] by auto
qed

lemma identities_unary:
  assumes wf: "wf_expr (Node op w v [a])" and op: "op \<in> {O_Not, O_Neg}"
  shows "refines (Node op w v [a]) (identities op w (Node op w v [a]) a b c)"
proof (cases "inner_of op a")
  case None
  then show ?thesis using op refines_refl [OF wf] by auto
next
  case (Some x)
  with wf op obtain u where a: "a = Node op w u [x]" and x: "wf_expr x" "bits_of x = w"
    by (cases a) (auto simp: wf_node_def Cons_eq_map_conv split: if_splits)
  have "den env ld x = Some y" if "den env ld (Node op w v [a]) = Some y" for env ld y
  proof -
    from that op obtain z where z: "den env ld x = Some z" by (auto simp: a bind_value_Some)
    then have "0 \<le> z" "z < 2 ^ unat w" using den_range [OF x(1) z] x(2) by auto
    with z that op show ?thesis by (auto simp: a bind_value_def mod_minus_eq mod_pos_pos_trivial)
  qed
  then have "refines (Node op w v [a]) x" using x by (intro refinesI) auto
  then show ?thesis using op Some by auto
qed

lemma identities_ite:
  assumes wf: "wf_expr (Node O_Ite w v [a, b, c])"
  shows "refines (Node O_Ite w v [a, b, c]) (identities O_Ite w (Node O_Ite w v [a, b, c]) a b c)"
proof -
  have k: "wf_expr a" "wf_expr b" "wf_expr c" "bits_of b = w" "bits_of c = w" using wf by (auto simp: wf_node_def)
  have "refines (Node O_Ite w v [a, b, c]) b" if "EvalConst a = Some cc" "cc \<noteq> 0" for cc
    using k that EvalConst_value [OF k(1) that(1)] by (intro refinesI) (auto simp: bind_value_Some uint_0_iff)
  moreover have "refines (Node O_Ite w v [a, b, c]) c" if "EvalConst a = Some 0"
    using k that EvalConst_value [OF k(1) that(1)] by (intro refinesI) (auto simp: bind_value_Some)
  moreover have "refines (Node O_Ite w v [a, b, b]) b"
    using k by (intro refinesI) (auto simp: bind_value_Some split: if_splits)
  ultimately show ?thesis using refines_refl [OF wf] by (auto split: option.splits)
qed

lemma simplify_node_refines:
  assumes wf: "wf_expr (Node op w v ks)" and op: "op \<noteq> O_Var"
  shows "refines (Node op w v ks) (simplify_node op w v ks)"
proof (cases "EvalConst (Node op w v ks)")
  case (Some cv)
  have w: "w \<noteq> 0" "w \<le> 64" using wf_bits [OF wf] by auto
  have "uint cv mod 2 ^ unat w = uint cv" using EvalConst_below [OF wf Some] by (simp add: mod_pos_pos_trivial)
  then have "refines (Node op w v ks) (C cv w)"
    using EvalConst_value [OF wf Some] w by (intro refinesI wf_C) (simp_all del: den.simps)
  with Some show ?thesis by (simp add: simplify_node_def del: EvalConst.simps)
next
  case None
  then have eq: "simplify_node op w v ks =
      identities op w (Node op w v ks) (kid Null ks 0) (kid Null ks 1) (kid Null ks 2)"
    by (simp add: simplify_node_def)
  from wf_widths [of op w v "map bits_of ks"] wf
  consider (leaf) "ks = []" "op = O_Const" | (unary) a where "ks = [a]" | (binary) a b where "ks = [a, b]"
    | (ite) a b c where "ks = [a, b, c]" "op = O_Ite" using op by auto
  then show ?thesis
  proof cases
    case leaf
    with None show ?thesis by simp
  next
    case (unary a)
    then have "op \<in> {O_Not, O_Neg} \<or> op \<in> {O_Extract, O_ZExt, O_SExt, O_Load}"
      using wf wf_unaryD [of op w v "bits_of a"] by auto
    then show ?thesis unfolding eq unfolding unary
      using identities_unary [of op w v a] refines_refl [OF wf] wf unary by auto
  next
    case (binary a b)
    consider "op \<in> {O_Add, O_Sub, O_Mul, O_And, O_Or, O_Xor}" | "op \<in> {O_Shl, O_LShr, O_AShr}" | "op \<in> {O_Eq, O_Ne}"
      | "op \<in> {O_UDiv, O_URem, O_Ult, O_Ule, O_Slt, O_Sle, O_Concat}"
      using wf_widths [of op w v "map bits_of ks"] wf binary by (cases op) auto
    then show ?thesis unfolding eq unfolding binary
      using identities_ring [of op w v a b] identities_shift [of op w v a b] identities_compare [of op w v a b]
        refines_refl [OF wf] wf binary by cases (auto simp del: wf_expr.simps identities.simps, auto)
  next
    case (ite a b c)
    then show ?thesis unfolding eq using identities_ite wf by simp
  qed
qed

lemma simplifyOnce_refines: "wf_expr e \<Longrightarrow> refines e (simplifyOnce e)"
proof (induction e)
  case (Node op w v ks)
  show ?case
  proof (cases "op = O_Const \<or> op = O_Var")
    case True
    then show ?thesis using refines_refl [OF Node.prems] by auto
  next
    case False
    let ?js = "map simplifyOnce ks"
    have "refines (ks ! i) (?js ! i)" if "i < length ks" for i
      using Node.IH [OF nth_mem [OF that]] Node.prems that by simp
    then have js: "refines (Node op w v ks) (Node op w v ?js)" using Node.prems by (intro refines_node) simp_all
    then have "wf_expr (Node op w v ?js)" by (simp add: refines_def)
    from refines_trans [OF js simplify_node_refines [OF this]] False show ?thesis by simp
  qed
qed simp

lemma simplify_passes_refines: "wf_expr e \<Longrightarrow> refines e (simplify_passes n e)"
proof (induction n arbitrary: e)
  case (Suc n)
  have "refines e (simplifyOnce e)" by (rule simplifyOnce_refines [OF Suc.prems])
  moreover from this have "refines (simplifyOnce e) (simplify_passes n (simplifyOnce e))"
    by (intro Suc.IH) (simp add: refines_def)
  ultimately show ?case by (auto simp: Let_def intro: refines_trans)
qed (simp add: refines_refl)

lemma Simplify_refines: "wf_expr e \<Longrightarrow> refines e (Simplify e)"
  unfolding Simplify_def by (rule simplify_passes_refines)

section \<open>Soundness\<close>

text \<open>C5: the simplifier is sound. Its result is well-formed, of the same width, and has the value of the
  original for every choice of variables and memory for which the original has one.\<close>

theorem Simplify_sound:
  assumes "wf_expr e"
  shows "wf_expr (Simplify e) \<and> bits_of (Simplify e) = bits_of e \<and>
    (den env ld e = Some x \<longrightarrow> den env ld (Simplify e) = Some x)"
  using Simplify_refines [OF assms] by (simp add: refines_def)

text \<open>\<open>(v1 ^ v1) + ~~v2\<close> on 8 bits.\<close>

definition demo_mba :: ExprRef where
  "demo_mba = Bin O_Add (Bin O_Xor (Var 1 8) (Var 1 8) 0) (UnE O_Not (UnE O_Not (Var 2 8) 0) 0) 0"

lemma demo_mba_simplified: "Simplify demo_mba = Var 2 8"
  by (simp add: demo_mba_def Simplify_def numeral_eq_Suc Let_def simplify_node_def bind_value_def isZero_def
      Bin_def UnE_def Var_def C_def MaskToBits_def word_le_nat_alt)

theorem Simplify_sound_witness: "den (\<lambda>i. 0x1FF) (\<lambda>a n. 0) (Var 2 8) = Some 0xFF"
proof -
  have "wf_expr demo_mba" by (simp add: demo_mba_def Bin_def UnE_def Var_def wf_node_def word_le_nat_alt)
  moreover have "den (\<lambda>i. 0x1FF) (\<lambda>a n. 0) demo_mba = Some 0xFF"
    by (simp add: demo_mba_def Bin_def UnE_def Var_def bind_value_def)
  ultimately show ?thesis
    using Simplify_sound [where e = demo_mba and env = "\<lambda>i. 0x1FF" and ld = "\<lambda>a n. 0" and x = "0xFF"] by (simp add: demo_mba_simplified del: den.simps)
qed

end
