(* ===== verification/Sym_Solver.thy ===== *)
theory Sym_Solver
  imports Simplify
begin

text \<open>
  The solver part of \<open>src/src/Core/SymEngine.{h,cpp}\<close>: path constraints, the collection and
  substitution of variables, and \<open>DefaultSolver\<close> -- simplification, the constant satisfiability check
  and the bounded enumeration of inputs. (The engine interface of the same file is in \<open>Synthesis\<close>.) A
  \<open>std::map\<close> is an association list sorted by key.

  What the path explorer relies on is the locale \<open>path_solver\<close>: a model the solver returns satisfies the
  constraints, and without constraints it returns the empty model. The interpretation proves the
  contract for \<open>DefaultSolver\<close>.
\<close>

section \<open>Constraints and bindings\<close>

record PathConstraint =
  pred :: ExprRef
  taken :: bool
  fromVA :: u64
  toVA :: u64

record VarBinding =
  varId :: u64
  vb_value :: u64
  vb_bytes :: u32

section \<open>Variables of an expression\<close>

fun map_put :: "u64 \<Rightarrow> 'v \<Rightarrow> (u64 \<times> 'v) list \<Rightarrow> (u64 \<times> 'v) list" where
  "map_put k v [] = [(k, v)]"
| "map_put k v ((k1, v1) # m) =
     (if k = k1 then (k, v) # m else if k < k1 then (k, v) # (k1, v1) # m else (k1, v1) # map_put k v m)"

fun CollectVars :: "ExprRef \<Rightarrow> (u64 \<times> u32) list \<Rightarrow> (u64 \<times> u32) list" where
  "CollectVars Null out = out"
| "CollectVars (Node op w v ks) out = (if op = O_Var then map_put v w out else fold CollectVars ks out)"

fun Subst :: "(u64 \<times> u64) list \<Rightarrow> ExprRef \<Rightarrow> ExprRef" where
  "Subst m Null = Null"
| "Subst m (Node op w v ks) =
     (if op = O_Var then (case map_of m v of Some x \<Rightarrow> C x w | None \<Rightarrow> Node op w v ks)
      else if ks = [] then Node op w v ks
      else Node op w v (map (Subst m) ks))"

section \<open>\<open>DefaultSolver\<close>\<close>

definition solver_simplify :: "ExprRef \<Rightarrow> ExprRef" where
  "solver_simplify e = Simplify e"

definition isSat :: "ExprRef \<Rightarrow> int" where
  "isSat p = (case EvalConst (Simplify p) of Some v \<Rightarrow> if v \<noteq> 0 then 1 else 0 | None \<Rightarrow> - 1)"

text \<open>One constraint under an assignment: \<open>EvalConst(Subst(pc.pred, assign), r) && r == 1\<close>.\<close>

definition holds :: "(u64 \<times> u64) list \<Rightarrow> PathConstraint \<Rightarrow> bool" where
  "holds assign pc \<longleftrightarrow> EvalConst (Subst assign (pred pc)) = Some 1"

definition max_value :: "u32 \<Rightarrow> u64" where
  "max_value bits = (if bits \<ge> 20 then 2 ^ 20 - 1 else 2 ^ unat bits - 1)"

definition search_space :: "(u64 \<times> u32) list \<Rightarrow> nat" where
  \<comment> \<open>the \<open>long double\<close> product: a power of two, exact until it is far above the limit\<close>
  "search_space vs = prod_list (map (\<lambda>(i, bits). if bits \<ge> 20 then 2 ^ 20 else 2 ^ unat bits) vs)"

text \<open>The odometer: the first digit below its maximum is incremented, those before it are reset.\<close>

fun odometer :: "u64 list \<Rightarrow> u64 list \<Rightarrow> u64 list option" where
  "odometer (m # ms) (c # cs) = (if c < m then Some ((c + 1) # cs) else map_option ((#) 0) (odometer ms cs))"
| "odometer _ _ = None"

fun remaining :: "u64 list \<Rightarrow> u64 list \<Rightarrow> nat" where
  \<comment> \<open>how many digit vectors come after this one\<close>
  "remaining (m # ms) (c # cs) = (unat m - unat c) + (unat m + 1) * remaining ms cs"
| "remaining _ _ = 0"

lemma odometer_decreases: "odometer ms cs = Some ds \<Longrightarrow> Suc (remaining ms ds) = remaining ms cs"
proof (induction ms cs arbitrary: ds rule: odometer.induct)
  case (1 m ms c cs)
  show ?case
  proof (cases "c < m")
    case True
    then have "unat (c + 1) = unat c + 1" "unat c < unat m"
      using unat_u64_lt [of m] by (auto simp: word_less_nat_alt unat_add_no_wrap)
    with 1 True show ?thesis by auto
  next
    case False
    with 1 obtain es where es: "odometer ms cs = Some es" "ds = 0 # es" by auto
    from 1(1) [OF False es(1)] have r: "remaining ms cs = Suc (remaining ms es)" by simp
    from False have "unat m - unat c = 0" by (simp add: word_less_nat_alt)
    with r es show ?thesis by simp
  qed
qed simp_all

function search :: "PathConstraint list \<Rightarrow> u64 list \<Rightarrow> u64 list \<Rightarrow> u64 list \<Rightarrow> u64 list option" where
  "search pcs ids ms cur =
     (if list_all (holds (zip ids cur)) pcs then Some cur
      else case odometer ms cur of None \<Rightarrow> None | Some nxt \<Rightarrow> search pcs ids ms nxt)"
  by pat_completeness auto
termination
  by (relation "measure (\<lambda>(pcs, ids, ms, cur). remaining ms cur)") (auto dest: odometer_decreases)

declare search.simps [simp del]

definition solver_vars :: "PathConstraint list \<Rightarrow> (u64 \<times> u32) list" where
  "solver_vars pcs = fold (\<lambda>pc. CollectVars (pred pc)) pcs []"

definition solveForInput :: "PathConstraint list \<Rightarrow> VarBinding list option" where
  "solveForInput pcs =
     (let vs = solver_vars pcs
      in if vs = [] then (if list_all (\<lambda>pc. EvalConst (pred pc) = Some 1) pcs then Some [] else None)
         else if search_space vs > 1000000 then None
         else case search pcs (map fst vs) (map (\<lambda>(i, bits). max_value bits) vs) (replicate (length vs) 0) of
                None \<Rightarrow> None
              | Some cur \<Rightarrow> Some (map (\<lambda>((i, bits), v). \<lparr>varId = i, vb_value = v, vb_bytes = (bits + 7) div 8\<rparr>)
                                (zip vs cur)))"

section \<open>Substitution\<close>

definition under :: "(u64 \<times> u64) list \<Rightarrow> valuation \<Rightarrow> valuation" where
  "under m env i = (case map_of m i of Some x \<Rightarrow> uint x | None \<Rightarrow> env i)"

fun vars_of :: "ExprRef \<Rightarrow> (u64 \<times> u32) set" where
  "vars_of Null = {}"
| "vars_of (Node op w v ks) = (if op = O_Var then {(v, w)} else \<Union> (vars_of ` set ks))"

fun load_free :: "ExprRef \<Rightarrow> bool" where
  "load_free Null \<longleftrightarrow> True"
| "load_free (Node op w v ks) \<longleftrightarrow> op \<noteq> O_Load \<and> (\<forall>k \<in> set ks. load_free k)"

lemma Subst_bits [simp]: "bits_of (Subst m e) = bits_of e"
  by (cases e) (auto split: option.splits)

lemma Subst_wf: "wf_expr e \<Longrightarrow> wf_expr (Subst m e)"
proof (induction e)
  case (Node op w v ks)
  then have w: "w \<noteq> 0" "w \<le> 64" using wf_bits [OF Node.prems] by auto
  have "bits_of \<circ> Subst m = bits_of" by (simp add: fun_eq_iff)
  with Node w show ?case by (auto simp: wf_C split: option.splits)
qed simp

lemma Subst_inner: "op \<noteq> O_Var \<Longrightarrow> Subst m (Node op w v ks) = Node op w v (map (Subst m) ks)"
  by simp

lemma den_node_env: "op \<noteq> O_Var \<Longrightarrow> den_node env ld op n v ns xs = den_node env1 ld op n v ns xs"
  by (cases op; simp del: den_bin.simps)

lemma Subst_den: "den env ld (Subst m e) = den (under m env) ld e"
proof (induction e)
  case (Node op w v ks)
  show ?case
  proof (cases "op = O_Var")
    case True
    then show ?thesis by (cases "map_of m v") (simp_all add: under_def)
  next
    case False
    have "den env ld (Subst m (Node op w v ks)) =
        den_node env ld op (unat w) v (map (\<lambda>k. unat (bits_of k)) ks) (map (\<lambda>k. den env ld (Subst m k)) ks)"
      unfolding Subst_inner [OF False] by (simp add: comp_def)
    also have "map (\<lambda>k. den env ld (Subst m k)) ks = map (den (under m env) ld) ks" using Node.IH by simp
    finally show ?thesis by (simp add: den_node_env [OF False, of env ld _ _ _ _ "under m env"] del: Subst.simps)
  qed
qed simp

lemma Subst_ground: "load_free e \<Longrightarrow> fst ` vars_of e \<subseteq> set (keys m) \<Longrightarrow> ground (Subst m e)"
proof (induction e)
  case (Node op w v ks)
  show ?case
  proof (cases "op = O_Var")
    case True
    with Node.prems obtain x where "map_of m v = Some x" by (auto simp: map_of_eq_None_iff dest: weak_map_of_SomeI)
    with True show ?thesis by (simp add: C_def)
  next
    case False
    have "ground (Subst m k)" if "k \<in> set ks" for k
    proof (rule Node.IH [OF that])
      show "load_free k" using Node.prems that by simp
      show "fst ` vars_of k \<subseteq> set (keys m)" using Node.prems(2) that False by auto
    qed
    with False Node.prems show ?thesis by auto
  qed
qed simp

section \<open>Collecting the variables\<close>

abbreviation sorted_map :: "(u64 \<times> 'v) list \<Rightarrow> bool" where
  "sorted_map m \<equiv> sorted_wrt (<) (keys m)"

lemma map_put_in: "(a, b) \<in> set (map_put k v m) \<Longrightarrow> a = k \<or> (a, b) \<in> set m"
  by (induction m) (auto split: if_splits)

lemma map_put_new: "(k, v) \<in> set (map_put k v m)"
  by (induction m) auto

lemma map_put_kept: "(a, b) \<in> set m \<Longrightarrow> a \<noteq> k \<Longrightarrow> (a, b) \<in> set (map_put k v m)"
  by (induction m) (auto split: if_splits)

lemma map_put_keys: "fst ` set (map_put k v m) = insert k (fst ` set m)"
proof
  show "fst ` set (map_put k v m) \<subseteq> insert k (fst ` set m)" using map_put_in by fastforce
  show "insert k (fst ` set m) \<subseteq> fst ` set (map_put k v m)"
    using map_put_new [of k v m] map_put_kept [of _ _ m k v] by (auto intro: rev_image_eqI) (metis fst_conv image_eqI)
qed

lemma map_put_sorted: "sorted_map m \<Longrightarrow> sorted_map (map_put k v m)"
  by (induction m) (fastforce simp: not_less le_less dest: map_put_in)+

lemma map_put_lookup: "sorted_map m \<Longrightarrow> map_of (map_put k v m) = (map_of m)(k \<mapsto> v)"
  by (induction m) (auto simp: fun_eq_iff)

lemma CollectVars_sorted: "sorted_map out \<Longrightarrow> sorted_map (CollectVars e out)"
proof (induction e arbitrary: out)
  case (Node op w v ks)
  then have "(\<And>k out. k \<in> set ks \<Longrightarrow> sorted_map out \<Longrightarrow> sorted_map (CollectVars k out))" by blast
  then have "sorted_map (fold CollectVars ks out)"
    using Node.prems by (induction ks arbitrary: out) auto
  then show ?case using Node.prems by (simp add: map_put_sorted)
qed simp

lemma CollectVars_keys: "fst ` set (CollectVars e out) = fst ` vars_of e \<union> fst ` set out"
proof (induction e arbitrary: out)
  case (Node op w v ks)
  then have "(\<And>k out. k \<in> set ks \<Longrightarrow> fst ` set (CollectVars k out) = fst ` vars_of k \<union> fst ` set out)" by blast
  then have "fst ` set (fold CollectVars ks out) = fst ` \<Union> (vars_of ` set ks) \<union> fst ` set out"
    by (induction ks arbitrary: out) (auto simp: image_Un)
  then show ?case by (simp add: map_put_keys)
qed simp

lemma CollectVars_widths: "set (CollectVars e out) \<subseteq> vars_of e \<union> set out"
proof (induction e arbitrary: out)
  case (Node op w v ks)
  have put: "set (map_put v w out) \<subseteq> insert (v, w) (set out)" by (induction out) (auto split: if_splits)
  have "(\<And>k out. k \<in> set ks \<Longrightarrow> set (CollectVars k out) \<subseteq> vars_of k \<union> set out)" using Node by blast
  then have "set (fold CollectVars ks out) \<subseteq> \<Union> (vars_of ` set ks) \<union> set out"
    by (induction ks arbitrary: out) fastforce+
  then show ?case using put by auto
qed simp

lemma solver_vars_props:
  shows "sorted_map (solver_vars pcs)"
    and "set (keys (solver_vars pcs)) = (\<Union>pc \<in> set pcs. fst ` vars_of (pred pc))"
    and "set (solver_vars pcs) \<subseteq> (\<Union>pc \<in> set pcs. vars_of (pred pc))"
proof -
  have "sorted_map (fold (\<lambda>pc. CollectVars (pred pc)) pcs out)" if "sorted_map out" for out
    using that by (induction pcs arbitrary: out) (auto simp: CollectVars_sorted)
  then show "sorted_map (solver_vars pcs)" by (simp add: solver_vars_def)
  have "set (keys (fold (\<lambda>pc. CollectVars (pred pc)) pcs out)) =
      (\<Union>pc \<in> set pcs. fst ` vars_of (pred pc)) \<union> set (keys out)" for out
    by (induction pcs arbitrary: out) (simp_all add: CollectVars_keys Un_ac)
  from this [of "[]"] show "set (keys (solver_vars pcs)) = (\<Union>pc \<in> set pcs. fst ` vars_of (pred pc))"
    by (simp add: solver_vars_def)
  have "set (fold (\<lambda>pc. CollectVars (pred pc)) pcs out) \<subseteq> (\<Union>pc \<in> set pcs. vars_of (pred pc)) \<union> set out" for out
    by (induction pcs arbitrary: out) (use CollectVars_widths in fastforce)+
  from this [of "[]"] show "set (solver_vars pcs) \<subseteq> (\<Union>pc \<in> set pcs. vars_of (pred pc))"
    by (simp add: solver_vars_def)
qed

section \<open>The enumeration\<close>

abbreviation in_range :: "u64 list \<Rightarrow> u64 list \<Rightarrow> bool" where
  "in_range ms cs \<equiv> list_all2 (\<le>) cs ms"

lemma odometer_range: "odometer ms cs = Some ds \<Longrightarrow> in_range ms cs \<Longrightarrow> in_range ms ds"
  by (induction ms cs arbitrary: ds rule: odometer.induct)
    (auto split: if_splits dest: inc_le)

lemma odometer_last: "odometer ms cs = None \<Longrightarrow> in_range ms cs \<Longrightarrow> remaining ms cs = 0"
  by (induction ms cs rule: odometer.induct) (auto split: if_splits)

lemma remaining_inj: "in_range ms cs \<Longrightarrow> in_range ms ds \<Longrightarrow> remaining ms cs = remaining ms ds \<Longrightarrow> cs = ds"
proof (induction ms arbitrary: cs ds)
  case (Cons m ms)
  then obtain c cs' d ds' where eq: "cs = c # cs'" "ds = d # ds'" by (auto simp: list_all2_Cons2)
  with Cons.prems have le: "unat c \<le> unat m" "unat d \<le> unat m" by (auto simp: word_le_nat_alt)
  let ?r = "remaining ms cs'" and ?s = "remaining ms ds'" and ?n = "unat m + 1"
  have r: "(unat m - unat c) + ?n * ?r = (unat m - unat d) + ?n * ?s" using Cons.prems(3) eq by simp
  have "((unat m - unat c) + ?n * ?r) mod ?n = unat m - unat c" "((unat m - unat d) + ?n * ?s) mod ?n = unat m - unat d"
    by (simp_all only: mod_mult_self2) simp_all
  with r have same: "unat m - unat c = unat m - unat d" by metis
  with le have "unat c = unat d" by linarith
  moreover have "?n * ?r = ?n * ?s" using r same by linarith
  then have "?r = ?s" by (simp only: mult_cancel1) simp
  ultimately have "unat c = unat d" "?r = ?s" by blast+
  with Cons.IH [of cs' ds'] Cons.prems eq show ?case by (auto simp: word_unat_eq_iff)
qed simp

lemma remaining_zero: "in_range ms cs \<Longrightarrow> remaining ms cs \<le> remaining ms (replicate (length ms) 0)"
  by (induction ms arbitrary: cs) (fastforce simp: list_all2_Cons2 intro: add_le_mono mult_le_mono2)+

lemma zero_in_range: "in_range ms (replicate (length ms) 0)"
  by (induction ms) auto

lemma search_Some: "search pcs ids ms cur = Some c \<Longrightarrow> list_all (holds (zip ids c)) pcs"
  by (induction pcs ids ms cur rule: search.induct) (subst (asm) (2) search.simps, auto split: if_splits option.splits)

lemma search_range: "search pcs ids ms cur = Some c \<Longrightarrow> in_range ms cur \<Longrightarrow> in_range ms c"
  by (induction pcs ids ms cur rule: search.induct)
    (subst (asm) (2) search.simps, auto split: if_splits option.splits dest: odometer_range)

lemma search_None:
  "search pcs ids ms cur = None \<Longrightarrow> in_range ms cur \<Longrightarrow> in_range ms c \<Longrightarrow> remaining ms c \<le> remaining ms cur \<Longrightarrow>
     \<not> list_all (holds (zip ids c)) pcs"
proof (induction pcs ids ms cur rule: search.induct)
  case (1 pcs ids ms cur)
  then have no: "\<not> list_all (holds (zip ids cur)) pcs" by (subst (asm) (2) search.simps) (auto split: if_splits)
  show ?case
  proof (cases "remaining ms c = remaining ms cur")
    case True
    with 1 no remaining_inj show ?thesis by metis
  next
    case False
    with 1 have less: "remaining ms c < remaining ms cur" by simp
    show ?thesis
    proof (cases "odometer ms cur")
      case None
      then show ?thesis using odometer_last [OF None] less 1 by simp
    next
      case (Some nxt)
      have "search pcs ids ms nxt = None"
        using 1(2) no Some by (subst (asm) search.simps) simp
      then show ?thesis
        using 1(1) [OF no Some] odometer_range [OF Some] odometer_decreases [OF Some] less 1 by simp
    qed
  qed
qed

lemma search_exhaustive:
  "search pcs ids ms (replicate (length ms) 0) = None \<Longrightarrow> in_range ms c \<Longrightarrow> \<not> list_all (holds (zip ids c)) pcs"
  by (rule search_None [OF _ zero_in_range _ remaining_zero])

section \<open>The contract of a solver\<close>

text \<open>An input for the constraints: a value per variable under which every predicate is 1, whatever the
  memory (a predicate that reads memory has no value the solver could rely on).\<close>

definition model_env :: "VarBinding list \<Rightarrow> valuation" where
  "model_env model i = (case map_of (map (\<lambda>b. (varId b, vb_value b)) model) i of Some x \<Rightarrow> uint x | None \<Rightarrow> 0)"

definition satisfies :: "valuation \<Rightarrow> PathConstraint list \<Rightarrow> bool" where
  "satisfies env pcs \<longleftrightarrow> (\<forall>pc \<in> set pcs. \<forall>ld. den env ld (pred pc) = Some 1)"

definition constraints_wf :: "PathConstraint list \<Rightarrow> bool" where
  "constraints_wf pcs \<longleftrightarrow> (\<forall>pc \<in> set pcs. wf_expr (pred pc) \<and> bits_of (pred pc) = 1)"

text \<open>Every variable is read at one width, and nothing reads memory.\<close>

definition single_width :: "PathConstraint list \<Rightarrow> bool" where
  "single_width pcs \<longleftrightarrow> (\<forall>pc \<in> set pcs. \<forall>pd \<in> set pcs. \<forall>(i, w) \<in> vars_of (pred pc). \<forall>(j, u) \<in> vars_of (pred pd).
     i = j \<longrightarrow> w = u)"

lemma holds_den:
  assumes "wf_expr (pred pc)" "holds m pc"
  shows "den (under m env) ld (pred pc) = Some 1"
  using EvalConst_value [OF Subst_wf [OF assms(1)], of m 1 env ld] assms(2) by (simp add: holds_def Subst_den)

lemma holds_iff:
  assumes "wf_expr (pred pc)" "load_free (pred pc)" "fst ` vars_of (pred pc) \<subseteq> set (keys m)"
  shows "holds m pc \<longleftrightarrow> den (under m env) ld (pred pc) = Some 1"
proof -
  have "map_option uint (EvalConst (Subst m (pred pc))) = den (under m env) ld (pred pc)"
    using EvalConst_ground [OF Subst_wf Subst_ground] assms by (simp add: Subst_den)
  then show ?thesis by (cases "EvalConst (Subst m (pred pc))") (auto simp: holds_def word_uint_eq_iff)
qed

lemma den_vars_cong:
  "(\<And>i w. (i, w) \<in> vars_of e \<Longrightarrow> env i mod 2 ^ unat w = env1 i mod 2 ^ unat w) \<Longrightarrow> den env ld e = den env1 ld e"
proof (induction e)
  case (Node op w v ks)
  show ?case
  proof (cases "op = O_Var")
    case False
    have "den env ld k = den env1 ld k" if "k \<in> set ks" for k
      using False that by (intro Node.IH [OF that] Node.prems) auto
    then have kids: "map (den env ld) ks = map (den env1 ld) ks" by simp
    show ?thesis unfolding den.simps kids by (rule den_node_env [OF False])
  qed (use Node.prems in simp)
qed simp

locale path_solver =
  fixes solve :: "PathConstraint list \<Rightarrow> VarBinding list option"
  assumes sound: "constraints_wf pcs \<Longrightarrow> solve pcs = Some model \<Longrightarrow> satisfies (model_env model) pcs"
    and trivial: "solve [] = Some []"
begin

definition feasible :: "PathConstraint list \<Rightarrow> bool" where
  "feasible pcs \<longleftrightarrow> (\<exists>model. solve pcs = Some model)"

lemma feasible_satisfiable: "constraints_wf pcs \<Longrightarrow> feasible pcs \<Longrightarrow> \<exists>env. satisfies env pcs"
  using sound by (auto simp: feasible_def)

lemma not_contradictory:
  \<comment> \<open>no path both takes a branch and does not\<close>
  assumes "constraints_wf pcs" "feasible pcs" "pc \<in> set pcs" "pd \<in> set pcs" "pred pd = UnE O_Not (pred pc) 1"
  shows False
proof -
  from feasible_satisfiable [OF assms(1,2)] obtain env where env: "satisfies env pcs" by blast
  then have "den env (\<lambda>a n. 0) (pred pc) = Some 1" "den env (\<lambda>a n. 0) (pred pd) = Some 1"
    using assms(3,4) by (auto simp: satisfies_def)
  then show False by (simp add: assms(5) UnE_def bind_value_def)
qed

end

lemma model_env_binding:
  "length cur = length vs \<Longrightarrow>
   model_env (map (\<lambda>((i, bits), v). \<lparr>varId = i, vb_value = v, vb_bytes = f bits\<rparr>) (zip vs cur)) =
     under (zip (map fst vs) cur) (\<lambda>i. 0)"
proof -
  assume len: "length cur = length vs"
  then have "map (\<lambda>b. (varId b, vb_value b)) (map (\<lambda>((i, bits), v). \<lparr>varId = i, vb_value = v, vb_bytes = f bits\<rparr>) (zip vs cur))
      = zip (map fst vs) cur"
    by (induction cur vs rule: list_induct2) auto
  then show ?thesis by (simp add: model_env_def under_def fun_eq_iff)
qed

lemma search_model:
  assumes "solver_vars pcs \<noteq> []" "solveForInput pcs = Some model"
  obtains cur where "length cur = length (solver_vars pcs)"
    "list_all (holds (zip (map fst (solver_vars pcs)) cur)) pcs"
    "model_env model = under (zip (map fst (solver_vars pcs)) cur) (\<lambda>i. 0)"
    "search_space (solver_vars pcs) \<le> 1000000"
proof -
  let ?vs = "solver_vars pcs" and ?ms = "map (\<lambda>(i, bits). max_value bits) (solver_vars pcs)"
  from assms obtain cur where cur: "search pcs (map fst ?vs) ?ms (replicate (length ?vs) 0) = Some cur"
    and space: "search_space ?vs \<le> 1000000"
    and model: "model = map (\<lambda>((i, bits), v). \<lparr>varId = i, vb_value = v, vb_bytes = (bits + 7) div 8\<rparr>) (zip ?vs cur)"
    by (auto simp: solveForInput_def Let_def split: if_splits option.splits)
  have "in_range ?ms (replicate (length ?vs) 0)" using zero_in_range [of ?ms] by simp
  from search_range [OF cur this] have len: "length cur = length ?vs" by (auto dest: list_all2_lengthD)
  show ?thesis
    using that [OF len search_Some [OF cur] _ space] model_env_binding [OF len, of "\<lambda>bits. (bits + 7) div 8"]
    by (simp add: model)
qed

lemma solveForInput_sound:
  assumes "constraints_wf pcs" "solveForInput pcs = Some model"
  shows "satisfies (model_env model) pcs"
proof (cases "solver_vars pcs = []")
  case True
  then have "\<forall>pc \<in> set pcs. EvalConst (pred pc) = Some 1"
    using assms(2) by (auto simp: solveForInput_def list_all_iff split: if_splits)
  then show ?thesis
    using EvalConst_value [of _ 1] assms(1) by (simp add: satisfies_def constraints_wf_def)
next
  case False
  from search_model [OF False assms(2)] obtain cur where
    "list_all (holds (zip (map fst (solver_vars pcs)) cur)) pcs"
    "model_env model = under (zip (map fst (solver_vars pcs)) cur) (\<lambda>i. 0)" by blast
  then show ?thesis using holds_den assms(1) by (simp add: satisfies_def constraints_wf_def list_all_iff)
qed

lemma factor_le: "a * b \<le> n \<Longrightarrow> 1 \<le> b \<Longrightarrow> 1 \<le> a \<Longrightarrow> a \<le> n \<and> b \<le> (n :: nat)"
  using mult_le_mono2 [of 1 b a] mult_le_mono1 [of 1 a b] by linarith

lemma space_narrow: "search_space vs \<le> 1000000 \<Longrightarrow> (i, w) \<in> set vs \<Longrightarrow> w < 20"
proof (induction vs)
  case (Cons p vs)
  let ?f = "\<lambda>(i :: u64, bits :: u32). if bits \<ge> 20 then 2 ^ 20 else 2 ^ unat bits :: nat"
  have pos: "0 < prod_list (map ?f us)" for us by (induction us) auto
  have "?f p * search_space vs \<le> 1000000" using Cons.prems(1) by (simp add: search_space_def)
  moreover have "1 \<le> search_space vs" using pos [of vs] by (simp add: search_space_def)
  moreover have "1 \<le> ?f p" by (cases p) simp
  ultimately have "?f p \<le> 1000000" "search_space vs \<le> 1000000" using factor_le by blast+
  with Cons show ?case by (cases p) (auto simp: not_less split: if_splits)
qed simp

lemma below_max: "w < 20 \<Longrightarrow> uint (of_int (x mod 2 ^ unat w) :: u64) = x mod 2 ^ unat w \<and>
    (of_int (x mod 2 ^ unat w) :: u64) \<le> max_value w"
proof -
  assume w: "w < 20"
  then have n: "unat w < 20" by (simp add: word_less_nat_alt)
  then have p: "(2 :: int) ^ unat w \<le> 2 ^ 20" by (intro power_increasing) auto
  have x: "0 \<le> x mod 2 ^ unat w" "x mod 2 ^ unat w < 2 ^ unat w" by simp_all
  have "x mod 2 ^ unat w mod 2 ^ 64 = x mod 2 ^ unat w"
    using x(2) p by (intro mod_pos_pos_trivial x(1)) (rule less_trans [of _ "2 ^ 20"], linarith, simp)
  then have u: "uint (of_int (x mod 2 ^ unat w) :: u64) = x mod 2 ^ unat w" by (simp add: uint_word_of_int)
  have "uint (of_int (2 ^ unat w - 1) :: u64) = (2 ^ unat w - 1) mod 2 ^ 64"
    unfolding uint_word_of_int by simp
  also have "\<dots> = 2 ^ unat w - 1"
    using p by (intro mod_pos_pos_trivial) (simp, rule less_trans [of _ "2 ^ 20"], linarith, simp)
  moreover have "max_value w = of_int (2 ^ unat w - 1)" using w by (simp add: max_value_def not_le [symmetric])
  ultimately have "uint (max_value w) = 2 ^ unat w - 1" by simp
  with u x show ?thesis by (simp add: word_le_def)
qed

lemma vars_free_ground: "load_free e \<Longrightarrow> vars_of e = {} \<Longrightarrow> ground e"
  by (induction e) (auto split: if_splits)

lemma solveForInput_complete:
  assumes wf: "constraints_wf pcs" and lf: "\<forall>pc \<in> set pcs. load_free (pred pc)" and sw: "single_width pcs"
    and space: "search_space (solver_vars pcs) \<le> 1000000" and none: "solveForInput pcs = None"
  shows "\<not> satisfies env pcs"
proof
  assume sat: "satisfies env pcs"
  let ?vs = "solver_vars pcs"
  note props = solver_vars_props [of pcs]
  show False
  proof (cases "?vs = []")
    case True
    have "EvalConst (pred pc) = Some 1" if pc: "pc \<in> set pcs" for pc
    proof -
      have "vars_of (pred pc) = {}" using props(2) True pc by auto
      then have "map_option uint (EvalConst (pred pc)) = den env (\<lambda>a n. 0) (pred pc)"
        using EvalConst_ground vars_free_ground wf lf pc by (simp add: constraints_wf_def)
      then show ?thesis using sat pc by (auto simp: satisfies_def word_uint_eq_iff)
    qed
    with none True show False by (auto simp: solveForInput_def list_all_iff)
  next
    case False
    define c where "c = map (\<lambda>(i, w). of_int (env i mod 2 ^ unat w) :: u64) ?vs"
    let ?m = "zip (map fst ?vs) c"
    have m: "?m = map (\<lambda>(i, w). (i, of_int (env i mod 2 ^ unat w))) ?vs"
      by (simp add: c_def zip_map1 zip_map2 zip_same_conv_map case_prod_unfold)
    have "in_range (map (\<lambda>(i, bits). max_value bits) ?vs) c"
      using below_max space_narrow [OF space]
      by (auto simp: c_def list_all2_map1 list_all2_map2 list_all2_same split: prod.splits)
    then have "\<not> list_all (holds ?m) pcs"
      using search_exhaustive [of pcs "map fst ?vs" "map (\<lambda>(i, bits). max_value bits) ?vs" c] none False space
      by (simp add: solveForInput_def Let_def split: option.splits)
    moreover have "holds ?m pc" if pc: "pc \<in> set pcs" for pc
    proof -
      have "under ?m env i mod 2 ^ unat w = env i mod 2 ^ unat w" if iw: "(i, w) \<in> vars_of (pred pc)" for i w
      proof -
        from iw pc props(2) have "i \<in> set (keys ?vs)" by force
        then obtain u where u: "(i, u) \<in> set ?vs" by auto
        with props(3) sw iw pc have "u = w" by (fastforce simp: single_width_def)
        moreover have "map_of ?m i = Some (of_int (env i mod 2 ^ unat u))"
        proof (rule map_of_is_SomeI)
          show "distinct (map fst ?m)"
            using props(1) by (simp add: m case_prod_unfold comp_def strict_sorted_iff)
          show "(i, of_int (env i mod 2 ^ unat u)) \<in> set ?m" using u by (force simp: m)
        qed
        ultimately show ?thesis
          using below_max [OF space_narrow [OF space u]] by (simp add: under_def)
      qed
      then have "den (under ?m env) ld (pred pc) = Some 1" for ld
        using den_vars_cong [of "pred pc" "under ?m env" env ld] sat pc by (simp add: satisfies_def)
      moreover have "fst ` vars_of (pred pc) \<subseteq> set (keys ?m)"
        using props(2) pc by (simp add: c_def) blast
      ultimately show ?thesis using holds_iff wf lf pc by (simp add: constraints_wf_def)
    qed
    ultimately show False by (simp add: list_all_iff)
  qed
qed

interpretation default: path_solver solveForInput
proof
  show "solveForInput [] = Some []" by (simp add: solveForInput_def solver_vars_def)
qed (rule solveForInput_sound)

text \<open>What the satisfiability check says of a predicate.\<close>

lemma isSat_sound:
  assumes "wf_expr p"
  shows "isSat p = 0 \<Longrightarrow> den env ld p = Some x \<Longrightarrow> x = 0" "isSat p = 1 \<Longrightarrow> den env ld p = Some x \<Longrightarrow> x \<noteq> 0"
proof -
  have r: "refines p (Simplify p)" by (rule Simplify_refines [OF assms])
  have "x = uint v" if "EvalConst (Simplify p) = Some v" "den env ld p = Some x" for v
    using EvalConst_value [of "Simplify p" v env ld] r that by (auto simp: refines_def)
  then show "isSat p = 0 \<Longrightarrow> den env ld p = Some x \<Longrightarrow> x = 0" "isSat p = 1 \<Longrightarrow> den env ld p = Some x \<Longrightarrow> x \<noteq> 0"
    by (auto simp: isSat_def uint_0_iff split: option.splits if_splits)
qed

section \<open>What the default solver promises\<close>

text \<open>C21: the default solver is exact within its bound. A model it returns satisfies every constraint; and
  when the constraints read no memory, read each variable at one width and span at most a million
  inputs, it finds a model whenever any values of the variables satisfy them.\<close>

theorem solveForInput_exact:
  assumes "constraints_wf pcs"
  shows "(\<forall>model. solveForInput pcs = Some model \<longrightarrow> satisfies (model_env model) pcs) \<and>
    ((\<forall>pc \<in> set pcs. load_free (pred pc)) \<and> single_width pcs \<and> search_space (solver_vars pcs) \<le> 1000000 \<and>
       satisfies env pcs \<longrightarrow> solveForInput pcs \<noteq> None)"
  using solveForInput_sound [OF assms] solveForInput_complete [OF assms] by blast

text \<open>\<open>v3:8 == 200\<close>: the solver must find the value.\<close>

definition demo_eq :: PathConstraint where
  "demo_eq = \<lparr>pred = Bin O_Eq (Var 3 8) (C 200 8) 0, taken = True, fromVA = 0, toVA = 1\<rparr>"

theorem solveForInput_exact_witness: "solveForInput [demo_eq] \<noteq> None"
proof -
  have wf: "constraints_wf [demo_eq]"
    by (simp add: constraints_wf_def demo_eq_def Bin_def Var_def C_def wf_node_def MaskToBits_def word_le_nat_alt)
  have "satisfies (\<lambda>i. 200) [demo_eq]"
    by (simp add: satisfies_def demo_eq_def Bin_def Var_def bind_value_def C_def MaskToBits_def word_le_nat_alt)
  moreover have "single_width [demo_eq]" "\<forall>pc \<in> set [demo_eq]. load_free (pred pc)"
    by (simp_all add: single_width_def demo_eq_def Bin_def Var_def C_def)
  moreover have "search_space (solver_vars [demo_eq]) \<le> 1000000"
    by (simp add: search_space_def solver_vars_def demo_eq_def Bin_def Var_def C_def word_le_nat_alt)
  ultimately show ?thesis using solveForInput_exact [OF wf, of "\<lambda>i. 200"] by blast
qed

end
