(* ===== verification/Path_Explore.thy ===== *)
theory Path_Explore
  imports Sym_Solver
begin

text \<open>
  \<open>src/src/Core/PathExplore.{h,cpp}\<close>: the bounded tree of execution paths ahead of a paused state. The
  control-flow facade (\<open>ISymCfg\<close>) is the record \<open>SymCfg\<close> of its three queries, taken as functions; the
  solver is any \<open>solve\<close> with the contract \<open>path_solver\<close>. The node vector is a list, the work stack a list
  whose head is \<open>work.back()\<close>; node indices are natural numbers (fewer than \<open>2^31\<close> nodes).
\<close>

section \<open>The tree\<close>

datatype PathTag = Safe | IntOverflow | HiddenCode | Escaped

fun PathTagName :: "PathTag \<Rightarrow> string" where
  "PathTagName Safe = ''Safe''"
| "PathTagName IntOverflow = ''IntOverflow''"
| "PathTagName HiddenCode = ''HiddenCode''"
| "PathTagName Escaped = ''Escaped''"

datatype BranchKind = Fallthrough | Jump | CondBranch | Return | Escape

record BranchInfo =
  bi_kind :: BranchKind
  targetA :: u64
  targetB :: u64
  targetAValid :: bool
  targetBValid :: bool
  bi_pred :: ExprRef
  overflowFeasible :: bool

record SymCfg =
  blockTerminator :: "u64 \<Rightarrow> PathConstraint list \<Rightarrow> BranchInfo"
  isStaticallyReached :: "u64 \<Rightarrow> bool"
  inAnyFunction :: "u64 \<Rightarrow> bool"

record PathNode =
  blockVA :: u64
  edgePred :: ExprRef
  nd_taken :: bool
  depth :: u32
  tag :: PathTag
  pathConstraints :: "PathConstraint list"
  children :: "nat list"

record PathTree =
  nodes :: "PathNode list"
  truncated :: bool

record ExploreConfig =
  maxDepth :: u32
  maxNodes :: u32

fun DependsOnInput :: "ExprRef \<Rightarrow> bool" where
  "DependsOnInput Null \<longleftrightarrow> False"
| "DependsOnInput (Node op w v ks) \<longleftrightarrow> op = O_Var \<or> list_ex DependsOnInput ks"

definition NotPred :: "ExprRef \<Rightarrow> ExprRef" where
  "NotPred p = UnE O_Not p 1"

type_synonym solver = "PathConstraint list \<Rightarrow> VarBinding list option"

definition PathSat :: "PathConstraint list \<Rightarrow> solver \<Rightarrow> bool" where
  "PathSat pcs solve = (if pcs = [] then True else solve pcs \<noteq> None)"

definition Classify :: "u64 \<Rightarrow> BranchInfo \<Rightarrow> PathConstraint list \<Rightarrow> SymCfg \<Rightarrow> solver \<Rightarrow> PathTag" where
  "Classify va bi pcs cfg solve =
     (if bi_kind bi = Escape then Escaped
      else if \<not> isStaticallyReached cfg va \<or> \<not> inAnyFunction cfg va then HiddenCode
      else if overflowFeasible bi \<and> PathSat pcs solve then IntOverflow
      else Safe)"

section \<open>One iteration of the loop\<close>

type_synonym frontier = "PathTree \<times> nat list"

definition new_node :: "u64 \<Rightarrow> ExprRef \<Rightarrow> bool \<Rightarrow> u32 \<Rightarrow> PathConstraint list \<Rightarrow> PathNode" where
  "new_node va p t d pcs = \<lparr>blockVA = va, edgePred = p, nd_taken = t, depth = d, tag = Safe,
     pathConstraints = pcs, children = []\<rparr>"

definition set_tag :: "nat \<Rightarrow> PathTag \<Rightarrow> PathTree \<Rightarrow> PathTree" where
  "set_tag i g t = t\<lparr>nodes := (nodes t)[i := (nodes t ! i)\<lparr>tag := g\<rparr>]\<rparr>"

text \<open>The lambda \<open>addChild\<close>: append a node under \<open>idx\<close> and push it on the stack.\<close>

definition addChild :: "ExploreConfig \<Rightarrow> nat \<Rightarrow> u64 \<Rightarrow> ExprRef \<Rightarrow> bool \<Rightarrow> PathConstraint list \<Rightarrow> frontier \<Rightarrow> frontier" where
  "addChild cfg2 idx tgt p tk pcs s =
     (let (t, work) = s
      in if length (nodes t) \<ge> unat (maxNodes cfg2) then (t\<lparr>truncated := True\<rparr>, work)
         else
           let ci = length (nodes t);
               ns = nodes t @ [new_node tgt p tk (depth (nodes t ! idx) + 1) pcs]
           in (t\<lparr>nodes := ns[idx := (ns ! idx)\<lparr>children := children (ns ! idx) @ [ci]\<rparr>]\<rparr>, ci # work))"

definition fork :: "solver \<Rightarrow> ExploreConfig \<Rightarrow> nat \<Rightarrow> u64 \<Rightarrow> PathConstraint list \<Rightarrow> BranchInfo \<Rightarrow> frontier \<Rightarrow> frontier" where
  \<comment> \<open>the input-dependent branch: both feasible sides\<close>
  "fork solve cfg2 idx va path bi s =
     (let p = bi_pred bi; np = NotPred p;
          pcA = path @ [\<lparr>pred = p, taken = True, fromVA = va, toVA = targetA bi\<rparr>];
          pcB = path @ [\<lparr>pred = np, taken = False, fromVA = va, toVA = targetB bi\<rparr>];
          s1 = (if PathSat pcA solve then addChild cfg2 idx (targetA bi) p True pcA s else s)
      in if PathSat pcB solve then addChild cfg2 idx (targetB bi) np False pcB s1 else s1)"

definition expand :: "solver \<Rightarrow> ExploreConfig \<Rightarrow> nat \<Rightarrow> u64 \<Rightarrow> PathConstraint list \<Rightarrow> BranchInfo \<Rightarrow> frontier \<Rightarrow> frontier" where
  \<comment> \<open>the switch on the terminator\<close>
  "expand solve cfg2 idx va path bi s =
     (if bi_kind bi \<in> {Return, Escape} then s
      else if bi_kind bi \<in> {Fallthrough, Jump} then
        (if \<not> targetAValid bi then (set_tag idx Escaped (fst s), snd s)
         else addChild cfg2 idx (targetA bi) Null True path s)
      else if \<not> targetAValid bi \<or> \<not> targetBValid bi then (set_tag idx Escaped (fst s), snd s)
      else if DependsOnInput (bi_pred bi) then fork solve cfg2 idx va path bi s
      else
        let tk = (case EvalConst (bi_pred bi) of Some v \<Rightarrow> v \<noteq> 0 | None \<Rightarrow> True)
        in addChild cfg2 idx (if tk then targetA bi else targetB bi) Null tk path s)"

definition visit :: "SymCfg \<Rightarrow> solver \<Rightarrow> ExploreConfig \<Rightarrow> nat \<Rightarrow> frontier \<Rightarrow> frontier" where
  "visit cfg solve cfg2 idx s =
     (let (t, work) = s; nd = nodes t ! idx
      in if depth nd \<ge> maxDepth cfg2 then (t\<lparr>truncated := True\<rparr>, work)
         else
           let bi = blockTerminator cfg (blockVA nd) (pathConstraints nd)
           in expand solve cfg2 idx (blockVA nd) (pathConstraints nd) bi
                (set_tag idx (Classify (blockVA nd) bi (pathConstraints nd) cfg solve) t, work))"

partial_function (option) explore_loop :: "SymCfg \<Rightarrow> solver \<Rightarrow> ExploreConfig \<Rightarrow> frontier \<Rightarrow> PathTree option" where
  "explore_loop cfg solve cfg2 s =
     (case snd s of
        [] \<Rightarrow> Some (fst s)
      | idx # work \<Rightarrow> explore_loop cfg solve cfg2 (visit cfg solve cfg2 idx (fst s, work)))"

definition explore_start :: "u64 \<Rightarrow> frontier" where
  "explore_start rootVA = (\<lparr>nodes = [new_node rootVA Null True 0 []], truncated = False\<rparr>, [0])"

definition Explore :: "u64 \<Rightarrow> SymCfg \<Rightarrow> solver \<Rightarrow> ExploreConfig \<Rightarrow> PathTree option" where
  "Explore rootVA cfg solve cfg2 = explore_loop cfg solve cfg2 (explore_start rootVA)"

definition SolvePath :: "PathTree \<Rightarrow> int \<Rightarrow> solver \<Rightarrow> VarBinding list option" where
  "SolvePath tree nodeIndex solve =
     (if nodeIndex < 0 \<or> nodeIndex \<ge> int (length (nodes tree)) then None
      else solve (pathConstraints (nodes tree ! nat nodeIndex)))"

section \<open>Termination\<close>

definition work_left :: "ExploreConfig \<Rightarrow> frontier \<Rightarrow> nat" where
  "work_left cfg2 s = 2 * (unat (maxNodes cfg2) - length (nodes (fst s))) + length (snd s)"

lemma set_tag_size [simp]: "length (nodes (set_tag i g t)) = length (nodes t)"
  by (simp add: set_tag_def)

lemma addChild_left: "work_left cfg2 (addChild cfg2 idx tgt p tk pcs s) \<le> work_left cfg2 s"
  by (auto simp: work_left_def addChild_def Let_def split: prod.splits)

lemma untouched_left [simp]:
  "work_left cfg2 (set_tag i g t, work) = work_left cfg2 (t, work)"
  "work_left cfg2 (t\<lparr>truncated := True\<rparr>, work) = work_left cfg2 (t, work)"
  by (simp_all add: work_left_def)

lemma fork_left: "work_left cfg2 (fork solve cfg2 idx va path bi s) \<le> work_left cfg2 s"
  unfolding fork_def Let_def by (auto intro: order_trans [OF addChild_left] addChild_left)

lemma expand_left: "work_left cfg2 (expand solve cfg2 idx va path bi s) \<le> work_left cfg2 s"
  unfolding expand_def Let_def by (cases s) (auto intro: addChild_left fork_left)

lemma visit_left: "work_left cfg2 (visit cfg solve cfg2 idx (t, work)) \<le> work_left cfg2 (t, work)"
  unfolding visit_def Let_def by (auto intro: order_trans [OF expand_left])

lemma visit_decreases: "work_left cfg2 (visit cfg solve cfg2 idx (t, work)) < work_left cfg2 (t, idx # work)"
  using visit_left [of cfg2 cfg solve idx t work] by (simp add: work_left_def)

lemma explore_induct:
  \<comment> \<open>a property the iterations keep holds of the tree that is returned, and one is returned\<close>
  assumes "P s" "\<And>t work idx. P (t, idx # work) \<Longrightarrow> P (visit cfg solve cfg2 idx (t, work))"
  shows "\<exists>t. explore_loop cfg solve cfg2 s = Some t \<and> P (t, [])"
  using assms(1)
proof (induction s rule: measure_induct_rule [where f = "work_left cfg2"])
  case (less s)
  obtain t work where s: "s = (t, work)" by force
  show ?case
  proof (cases work)
    case Nil
    with less.prems s show ?thesis by (subst explore_loop.simps) simp
  next
    case (Cons idx rest)
    have "\<exists>u. explore_loop cfg solve cfg2 (visit cfg solve cfg2 idx (t, rest)) = Some u \<and> P (u, [])"
      using less.prems s Cons by (intro less.IH assms(2)) (simp_all add: visit_decreases)
    with s Cons show ?thesis by (subst explore_loop.simps) simp
  qed
qed

section \<open>The shape of the tree\<close>

definition cfg_wf :: "SymCfg \<Rightarrow> bool" where
  \<comment> \<open>the branch predicates the facade gives are well-formed and one bit wide\<close>
  "cfg_wf cfg \<longleftrightarrow> (\<forall>va path. bi_kind (blockTerminator cfg va path) = CondBranch \<longrightarrow>
     wf_expr (bi_pred (blockTerminator cfg va path)) \<and> bits_of (bi_pred (blockTerminator cfg va path)) = 1)"

definition good_path :: "SymCfg \<Rightarrow> solver \<Rightarrow> PathConstraint list \<Rightarrow> bool" where
  "good_path cfg solve pcs \<longleftrightarrow> PathSat pcs solve \<and> (cfg_wf cfg \<longrightarrow> constraints_wf pcs)"

text \<open>A condition selects a side of a branch: for every input and every memory it is the branch predicate, or
  its negation on the side that is not taken. An edge of the tree is an edge of the program: the child is
  where the parent's terminator goes, and the parent's constraints are continued by the condition of the
  side exactly when the branch depends on the input.\<close>

definition selects :: "ExprRef \<Rightarrow> bool \<Rightarrow> ExprRef \<Rightarrow> bool" where
  "selects p tk c \<longleftrightarrow> (wf_expr p \<and> bits_of p = 1 \<longrightarrow>
     wf_expr c \<and> bits_of c = 1 \<and>
     (\<forall>env ld. den env ld c = (if tk then den env ld p else map_option (\<lambda>b. 1 - b) (den env ld p))))"

definition side_constraint :: "u64 \<Rightarrow> BranchInfo \<Rightarrow> bool \<Rightarrow> PathConstraint \<Rightarrow> bool" where
  "side_constraint va bi tk c \<longleftrightarrow> selects (bi_pred bi) tk (pred c) \<and> taken c = tk \<and> fromVA c = va \<and>
     toVA c = (if tk then targetA bi else targetB bi)"

definition edge_of :: "u64 \<Rightarrow> PathConstraint list \<Rightarrow> BranchInfo \<Rightarrow> PathNode \<Rightarrow> bool" where
  "edge_of va path bi child \<longleftrightarrow> bi_kind bi \<noteq> Return \<and> bi_kind bi \<noteq> Escape \<and> targetAValid bi \<and>
     (if bi_kind bi = CondBranch
      then targetBValid bi \<and> blockVA child = (if nd_taken child then targetA bi else targetB bi) \<and>
        (if vars_of (bi_pred bi) = {}
         then pathConstraints child = path \<and> edgePred child = Null \<and>
           (case EvalConst (bi_pred bi) of Some v \<Rightarrow> nd_taken child = (v \<noteq> 0) | None \<Rightarrow> nd_taken child)
         else \<exists>c. side_constraint va bi (nd_taken child) c \<and> edgePred child = pred c \<and>
           pathConstraints child = path @ [c])
      else blockVA child = targetA bi \<and> nd_taken child \<and> pathConstraints child = path \<and> edgePred child = Null)"

definition edge_ok :: "SymCfg \<Rightarrow> PathNode \<Rightarrow> PathNode \<Rightarrow> bool" where
  "edge_ok cfg parent child \<longleftrightarrow> depth parent < depth child \<and> unat (depth child) = unat (depth parent) + 1 \<and>
     edge_of (blockVA parent) (pathConstraints parent)
       (blockTerminator cfg (blockVA parent) (pathConstraints parent)) child"

lemma edge_ok_cong:
  assumes "blockVA a = blockVA c" "depth a = depth c" "pathConstraints a = pathConstraints c"
    "blockVA b = blockVA d" "edgePred b = edgePred d" "nd_taken b = nd_taken d" "depth b = depth d"
    "pathConstraints b = pathConstraints d"
  shows "edge_ok cfg a b = edge_ok cfg c d"
  unfolding edge_ok_def edge_of_def assms by (rule refl)

definition tree_ok :: "SymCfg \<Rightarrow> solver \<Rightarrow> ExploreConfig \<Rightarrow> PathNode list \<Rightarrow> bool" where
  "tree_ok cfg solve cfg2 ns \<longleftrightarrow>
     ns \<noteq> [] \<and> length ns \<le> max 1 (unat (maxNodes cfg2)) \<and> pathConstraints (ns ! 0) = [] \<and> depth (ns ! 0) = 0 \<and>
     (\<forall>i < length ns. depth (ns ! i) \<le> maxDepth cfg2 \<and> good_path cfg solve (pathConstraints (ns ! i)) \<and>
        distinct (children (ns ! i)) \<and>
        (\<forall>j \<in> set (children (ns ! i)). i < j \<and> j < length ns \<and> edge_ok cfg (ns ! i) (ns ! j))) \<and>
     (\<forall>j. 0 < j \<and> j < length ns \<longrightarrow> (\<exists>!i. i < length ns \<and> j \<in> set (children (ns ! i))))"

definition retag :: "PathNode list \<Rightarrow> nat \<Rightarrow> PathTag \<Rightarrow> PathNode list" where
  "retag ns i g = ns[i := (ns ! i)\<lparr>tag := g\<rparr>]"

lemma retag_nth: "retag ns i g ! j = (if j = i \<and> i < length ns then (ns ! i)\<lparr>tag := g\<rparr> else ns ! j)"
  by (cases "i < length ns") (auto simp: retag_def nth_list_update list_update_beyond)

lemma retag_fields [simp]:
  "blockVA (retag ns i g ! j) = blockVA (ns ! j)" "edgePred (retag ns i g ! j) = edgePred (ns ! j)"
  "nd_taken (retag ns i g ! j) = nd_taken (ns ! j)" "depth (retag ns i g ! j) = depth (ns ! j)"
  "pathConstraints (retag ns i g ! j) = pathConstraints (ns ! j)" "children (retag ns i g ! j) = children (ns ! j)"
  by (simp_all add: retag_nth)

lemma retag_length [simp]: "length (retag ns i g) = length ns" "retag ns i g = [] \<longleftrightarrow> ns = []"
  by (simp_all add: retag_def)

lemma tree_ok_retag: "tree_ok cfg solve cfg2 (retag ns i g) \<longleftrightarrow> tree_ok cfg solve cfg2 ns"
  unfolding tree_ok_def edge_ok_def edge_of_def retag_fields retag_length by (rule refl)

definition attach :: "PathNode list \<Rightarrow> nat \<Rightarrow> PathNode \<Rightarrow> PathNode list" where
  "attach ns idx n = (ns @ [n])[idx := (ns ! idx)\<lparr>children := children (ns ! idx) @ [length ns]\<rparr>]"

lemma attach_nth:
  assumes "idx < length ns" "j < length ns"
  shows "attach ns idx n ! j = (if j = idx then (ns ! idx)\<lparr>children := children (ns ! idx) @ [length ns]\<rparr> else ns ! j)"
proof (cases "j = idx")
  case True
  with assms(1) show ?thesis unfolding attach_def by simp
next
  case False
  then have "attach ns idx n ! j = (ns @ [n]) ! j" unfolding attach_def by (rule nth_list_update_neq [OF not_sym])
  with False assms(2) show ?thesis by (simp only: nth_append if_True if_False)
qed

lemma attach_new: "idx < length ns \<Longrightarrow> attach ns idx n ! length ns = n"
proof -
  assume "idx < length ns"
  then have "attach ns idx n ! length ns = (ns @ [n]) ! length ns"
    unfolding attach_def by (intro nth_list_update_neq) (rule less_imp_neq)
  then show ?thesis by (simp only: nth_append_length)
qed

lemma attach_fields:
  assumes "idx < length ns" "j < length ns"
  shows "blockVA (attach ns idx n ! j) = blockVA (ns ! j)" "edgePred (attach ns idx n ! j) = edgePred (ns ! j)"
    "nd_taken (attach ns idx n ! j) = nd_taken (ns ! j)" "depth (attach ns idx n ! j) = depth (ns ! j)"
    "pathConstraints (attach ns idx n ! j) = pathConstraints (ns ! j)"
    "children (attach ns idx n ! j) = (if j = idx then children (ns ! idx) @ [length ns] else children (ns ! j))"
  by (simp_all add: attach_nth [OF assms])

lemma attach_length [simp]: "length (attach ns idx n) = Suc (length ns)"
  by (simp add: attach_def)

lemma tree_okD:
  assumes "tree_ok cfg solve cfg2 ns"
  shows "ns \<noteq> []" "length ns \<le> max 1 (unat (maxNodes cfg2))" "pathConstraints (ns ! 0) = []" "depth (ns ! 0) = 0"
    "\<And>i. i < length ns \<Longrightarrow> depth (ns ! i) \<le> maxDepth cfg2"
    "\<And>i. i < length ns \<Longrightarrow> good_path cfg solve (pathConstraints (ns ! i))"
    "\<And>i. i < length ns \<Longrightarrow> distinct (children (ns ! i))"
    "\<And>i j. i < length ns \<Longrightarrow> j \<in> set (children (ns ! i)) \<Longrightarrow> i < j \<and> j < length ns \<and> edge_ok cfg (ns ! i) (ns ! j)"
    "\<And>j. 0 < j \<Longrightarrow> j < length ns \<Longrightarrow> \<exists>!i. i < length ns \<and> j \<in> set (children (ns ! i))"
  using assms unfolding tree_ok_def by blast+

lemma tree_okI:
  assumes "ns \<noteq> []" "length ns \<le> max 1 (unat (maxNodes cfg2))" "pathConstraints (ns ! 0) = []" "depth (ns ! 0) = 0"
    "\<And>i. i < length ns \<Longrightarrow> depth (ns ! i) \<le> maxDepth cfg2"
    "\<And>i. i < length ns \<Longrightarrow> good_path cfg solve (pathConstraints (ns ! i))"
    "\<And>i. i < length ns \<Longrightarrow> distinct (children (ns ! i))"
    "\<And>i j. i < length ns \<Longrightarrow> j \<in> set (children (ns ! i)) \<Longrightarrow> i < j \<and> j < length ns \<and> edge_ok cfg (ns ! i) (ns ! j)"
    "\<And>j. 0 < j \<Longrightarrow> j < length ns \<Longrightarrow> \<exists>!i. i < length ns \<and> j \<in> set (children (ns ! i))"
  shows "tree_ok cfg solve cfg2 ns"
  unfolding tree_ok_def
proof (intro conjI allI impI ballI)
  show "\<exists>!i. i < length ns \<and> j \<in> set (children (ns ! i))" if "0 < j \<and> j < length ns" for j
    using that by (intro assms(9)) simp_all
qed (use assms(1-7) assms(8) in blast)+

lemma tree_ok_attach:
  assumes ok: "tree_ok cfg solve cfg2 ns" and idx: "idx < length ns" and room: "length ns < unat (maxNodes cfg2)"
    and deep: "depth (ns ! idx) < maxDepth cfg2" and fresh: "children n = []"
    and edge: "edge_ok cfg (ns ! idx) n" and good: "good_path cfg solve (pathConstraints n)"
  shows "tree_ok cfg solve cfg2 (attach ns idx n)"
proof -
  let ?us = "attach ns idx n" and ?k = "length ns"
  note F = attach_fields [OF idx] and D = tree_okD [OF ok]
  have "unat (depth (ns ! idx)) + 1 \<le> unat (maxDepth cfg2)" using deep by (simp add: word_less_nat_alt)
  then have n: "depth n \<le> maxDepth cfg2" using edge by (simp add: edge_ok_def word_le_nat_alt)
  have keep: "edge_ok cfg (?us ! i) (?us ! j) = edge_ok cfg (ns ! i) (ns ! j)" if "i < ?k" "j < ?k" for i j
    by (rule edge_ok_cong) (simp_all only: F [OF that(1)] F [OF that(2)])
  have new: "edge_ok cfg (?us ! idx) n" using edge by (simp add: edge_ok_def F [OF idx])
  have none: "children (?us ! ?k) = []" by (simp add: attach_new [OF idx] fresh)
  have kids: "j \<in> set (children (?us ! i)) \<longleftrightarrow> (if j = ?k then i = idx else j \<in> set (children (ns ! i)))"
    if "i < ?k" for i j
    using D(8) [OF that, of j] by (auto simp: F [OF that])
  have links: "i < j \<and> j < Suc ?k \<and> edge_ok cfg (?us ! i) (?us ! j)"
    if i: "i < Suc ?k" and j: "j \<in> set (children (?us ! i))" for i j
  proof -
    from i j none have i: "i < ?k" by (auto simp: less_Suc_eq)
    show ?thesis
    proof (cases "j = ?k")
      case True
      with kids [OF i] j new idx show ?thesis by (simp add: attach_new [OF idx])
    next
      case False
      with kids [OF i] j have "j \<in> set (children (ns ! i))" by simp
      from D(8) [OF i this] keep [OF i] show ?thesis by simp
    qed
  qed
  have dist: "distinct (children (?us ! i))" if i: "i < Suc ?k" for i
  proof (cases "i = ?k")
    case False
    with i have i: "i < ?k" by simp
    then show ?thesis using D(7) [OF i] D(8) [OF i, of ?k] by (auto simp: F [OF i])
  qed (simp add: none)
  have parent: "\<exists>!i. i < Suc ?k \<and> j \<in> set (children (?us ! i))" if j: "0 < j" "j < Suc ?k" for j
  proof (cases "j = ?k")
    case True
    show ?thesis
    proof (rule ex1I [of _ idx])
      show "idx < Suc ?k \<and> j \<in> set (children (?us ! idx))" using kids [OF idx] True idx by simp
      fix i assume "i < Suc ?k \<and> j \<in> set (children (?us ! i))"
      then show "i = idx" using kids [of i j] True none by (auto simp: less_Suc_eq)
    qed
  next
    case False
    with j have "\<exists>!i. i < ?k \<and> j \<in> set (children (ns ! i))" using D(9) by simp
    moreover have "i < Suc ?k \<and> j \<in> set (children (?us ! i)) \<longleftrightarrow> i < ?k \<and> j \<in> set (children (ns ! i))" for i
      using kids [of i j] False none by (auto simp: less_Suc_eq)
    ultimately show ?thesis by simp
  qed
  have fields: "depth (?us ! i) \<le> maxDepth cfg2" "good_path cfg solve (pathConstraints (?us ! i))" if "i < Suc ?k" for i
    using that n good D(5,6) [of i] by (cases "i = ?k"; simp add: attach_new [OF idx] F)+
  have root: "pathConstraints (?us ! 0) = []" "depth (?us ! 0) = 0"
    using D(1,3,4) by (simp_all add: F)
  have size: "?us \<noteq> []" "Suc ?k \<le> max 1 (unat (maxNodes cfg2))" using room by (simp_all add: attach_def)
  show ?thesis by (rule tree_okI; (unfold attach_length)?; rule size root fields dist links parent; assumption?)
qed

section \<open>The loop keeps the shape\<close>

definition state_ok :: "SymCfg \<Rightarrow> solver \<Rightarrow> ExploreConfig \<Rightarrow> frontier \<Rightarrow> bool" where
  "state_ok cfg solve cfg2 s \<longleftrightarrow> tree_ok cfg solve cfg2 (nodes (fst s)) \<and> (\<forall>i \<in> set (snd s). i < length (nodes (fst s)))"

text \<open>The node under expansion, whose address and constraints the loop body has read.\<close>

definition expanding :: "ExploreConfig \<Rightarrow> frontier \<Rightarrow> nat \<Rightarrow> u64 \<Rightarrow> PathConstraint list \<Rightarrow> bool" where
  "expanding cfg2 s idx va path \<longleftrightarrow> idx < length (nodes (fst s)) \<and> blockVA (nodes (fst s) ! idx) = va \<and>
     pathConstraints (nodes (fst s) ! idx) = path \<and> depth (nodes (fst s) ! idx) < maxDepth cfg2"

lemma set_tag_retag [simp]: "nodes (set_tag i g t) = retag (nodes t) i g"
  by (simp add: set_tag_def retag_def)

lemma state_ok_tag [simp]: "state_ok cfg solve cfg2 (set_tag i g t, work) \<longleftrightarrow> state_ok cfg solve cfg2 (t, work)"
  by (simp add: state_ok_def tree_ok_retag)

lemma expanding_tag [simp]: "expanding cfg2 (set_tag i g t, work) idx va path \<longleftrightarrow> expanding cfg2 (t, work) idx va path"
  by (simp add: expanding_def)

lemma addChild_cases:
  assumes "idx < length (nodes t)"
  shows "addChild cfg2 idx tgt p tk pcs (t, work) =
    (if length (nodes t) \<ge> unat (maxNodes cfg2) then (t\<lparr>truncated := True\<rparr>, work)
     else (t\<lparr>nodes := attach (nodes t) idx (new_node tgt p tk (depth (nodes t ! idx) + 1) pcs)\<rparr>,
           length (nodes t) # work))"
proof -
  have "(nodes t @ [n]) ! idx = nodes t ! idx" for n using assms by (simp add: nth_append)
  then show ?thesis by (simp add: addChild_def Let_def attach_def)
qed

lemma new_node_fields [simp]:
  "blockVA (new_node va p tk d pcs) = va" "edgePred (new_node va p tk d pcs) = p" "nd_taken (new_node va p tk d pcs) = tk"
  "depth (new_node va p tk d pcs) = d" "pathConstraints (new_node va p tk d pcs) = pcs"
  "children (new_node va p tk d pcs) = []"
  by (simp_all add: new_node_def)

lemma edge_of_depth: "edge_of va path bi (new_node tgt p tk d pcs) = edge_of va path bi (new_node tgt p tk d1 pcs)"
  by (simp only: edge_of_def new_node_fields)

lemma addChild_keeps:
  assumes ok: "state_ok cfg solve cfg2 s" and here: "expanding cfg2 s idx va path"
    and edge: "edge_of va path (blockTerminator cfg va path) (new_node tgt p tk d pcs)"
    and good: "good_path cfg solve pcs"
  shows "state_ok cfg solve cfg2 (addChild cfg2 idx tgt p tk pcs s)"
    and "expanding cfg2 (addChild cfg2 idx tgt p tk pcs s) idx va path"
proof -
  obtain t work where s: "s = (t, work)" by force
  let ?ns = "nodes t" and ?n = "new_node tgt p tk (depth (nodes t ! idx) + 1) pcs"
  from here have idx: "idx < length ?ns" and at: "blockVA (?ns ! idx) = va" "pathConstraints (?ns ! idx) = path"
    and deep: "depth (?ns ! idx) < maxDepth cfg2" by (simp_all add: expanding_def s)
  have "unat (depth (?ns ! idx) + 1) = unat (depth (?ns ! idx)) + 1"
    using deep unsigned_less [of "maxDepth cfg2", where ?'a = nat]
    by (simp add: unat_word_ariths word_less_nat_alt)
  then have edge: "edge_ok cfg (?ns ! idx) ?n"
    using edge_of_depth [THEN iffD1, OF edge, of "depth (?ns ! idx) + 1"] at
    by (simp add: edge_ok_def word_less_nat_alt)
  have tree: "tree_ok cfg solve cfg2 (attach ?ns idx ?n)" if "\<not> length ?ns \<ge> unat (maxNodes cfg2)"
    using ok that deep edge good idx
    by (intro tree_ok_attach) (auto simp: state_ok_def s)
  have work: "\<forall>i \<in> set work. i < length ?ns" using ok by (simp add: state_ok_def s)
  show "state_ok cfg solve cfg2 (addChild cfg2 idx tgt p tk pcs s)"
    using ok tree work by (auto simp: state_ok_def s addChild_cases [OF idx])
  show "expanding cfg2 (addChild cfg2 idx tgt p tk pcs s) idx va path"
    using here by (simp add: expanding_def s addChild_cases [OF idx] attach_fields [OF idx idx])
qed

lemma good_extend:
  assumes "good_path cfg solve path" "PathSat (path @ [c]) solve" "cfg_wf cfg \<Longrightarrow> wf_expr (pred c) \<and> bits_of (pred c) = 1"
  shows "good_path cfg solve (path @ [c])"
  using assms by (auto simp: good_path_def constraints_wf_def)

lemma DependsOnInput_vars: "DependsOnInput e \<longleftrightarrow> vars_of e \<noteq> {}"
  by (induction e) (auto simp: list_ex_iff)

lemma selects_taken: "selects p True p"
  by (simp add: selects_def)

lemma wf_NotPred: "wf_expr p \<Longrightarrow> bits_of p = 1 \<Longrightarrow> wf_expr (NotPred p) \<and> bits_of (NotPred p) = 1"
  by (simp add: NotPred_def UnE_def wf_node_def)

lemma den_NotPred: "den env ld (NotPred p) = map_option (\<lambda>b. 1 - b) (den env ld p)"
  by (cases "den env ld p") (simp_all add: NotPred_def UnE_def bind_value_def)

lemma selects_NotPred: "selects p False (NotPred p)"
  by (simp add: selects_def wf_NotPred den_NotPred)

definition try_side :: "solver \<Rightarrow> ExploreConfig \<Rightarrow> nat \<Rightarrow> PathConstraint list \<Rightarrow> PathConstraint \<Rightarrow> frontier \<Rightarrow> frontier" where
  "try_side solve cfg2 idx path c s =
     (if PathSat (path @ [c]) solve then addChild cfg2 idx (toVA c) (pred c) (taken c) (path @ [c]) s else s)"

lemma branch_keeps:
  assumes ok: "state_ok cfg solve cfg2 s" "expanding cfg2 s idx va path" "good_path cfg solve path"
    and bi: "bi = blockTerminator cfg va path" "bi_kind bi = CondBranch" "targetAValid bi" "targetBValid bi"
      "vars_of (bi_pred bi) \<noteq> {}"
    and c: "side_constraint va bi (taken c) c"
  shows "state_ok cfg solve cfg2 (try_side solve cfg2 idx path c s) \<and>
    expanding cfg2 (try_side solve cfg2 idx path c s) idx va path"
proof (cases "PathSat (path @ [c]) solve")
  case True
  have "wf_expr (pred c) \<and> bits_of (pred c) = 1" if "cfg_wf cfg"
    using that bi c by (auto simp: cfg_wf_def side_constraint_def selects_def)
  with True ok(3) have good: "good_path cfg solve (path @ [c])" by (intro good_extend) simp_all
  have "edge_of va path (blockTerminator cfg va path) (new_node (toVA c) (pred c) (taken c) 0 (path @ [c]))"
    using bi c unfolding edge_of_def by (auto simp: side_constraint_def)
  from addChild_keeps [OF ok(1,2) this good] True show ?thesis by (simp add: try_side_def)
qed (use ok in \<open>simp add: try_side_def\<close>)

definition taken_side :: "u64 \<Rightarrow> BranchInfo \<Rightarrow> PathConstraint" where
  "taken_side va bi = \<lparr>pred = bi_pred bi, taken = True, fromVA = va, toVA = targetA bi\<rparr>"

definition other_side :: "u64 \<Rightarrow> BranchInfo \<Rightarrow> PathConstraint" where
  "other_side va bi = \<lparr>pred = NotPred (bi_pred bi), taken = False, fromVA = va, toVA = targetB bi\<rparr>"

lemma sides:
  "side_constraint va bi (taken (taken_side va bi)) (taken_side va bi)"
  "side_constraint va bi (taken (other_side va bi)) (other_side va bi)"
  by (simp_all add: side_constraint_def taken_side_def other_side_def selects_taken selects_NotPred)

lemma fork_sides:
  "fork solve cfg2 idx va path bi s =
     try_side solve cfg2 idx path (other_side va bi) (try_side solve cfg2 idx path (taken_side va bi) s)"
  by (simp add: fork_def try_side_def taken_side_def other_side_def Let_def)

lemma fork_keeps:
  assumes "state_ok cfg solve cfg2 s" "expanding cfg2 s idx va path" "good_path cfg solve path"
    and bi: "bi = blockTerminator cfg va path" "bi_kind bi = CondBranch" "targetAValid bi" "targetBValid bi"
      "vars_of (bi_pred bi) \<noteq> {}"
  shows "state_ok cfg solve cfg2 (fork solve cfg2 idx va path bi s)"
proof -
  have "state_ok cfg solve cfg2 (try_side solve cfg2 idx path (taken_side va bi) s) \<and>
      expanding cfg2 (try_side solve cfg2 idx path (taken_side va bi) s) idx va path"
    by (rule branch_keeps [OF assms sides(1)])
  then show ?thesis
    unfolding fork_sides by (elim conjE) (drule (1) branch_keeps [OF _ _ assms(3) bi sides(2)], erule conjunct1)
qed

lemma expand_keeps:
  assumes s: "state_ok cfg solve cfg2 (t, work)" and here: "expanding cfg2 (t, work) idx va path"
    and good: "good_path cfg solve path" and bi: "bi = blockTerminator cfg va path"
  shows "state_ok cfg solve cfg2 (expand solve cfg2 idx va path bi (t, work))"
proof -
  note child = addChild_keeps(1) [OF s here _ good]
  consider (stop) "bi_kind bi \<in> {Return, Escape} \<or> \<not> targetAValid bi \<or> bi_kind bi = CondBranch \<and> \<not> targetBValid bi"
    | (jump) "bi_kind bi \<in> {Fallthrough, Jump}" "targetAValid bi"
    | (fork) "bi_kind bi = CondBranch" "targetAValid bi" "targetBValid bi" "DependsOnInput (bi_pred bi)"
    | (side) "bi_kind bi = CondBranch" "targetAValid bi" "targetBValid bi" "\<not> DependsOnInput (bi_pred bi)"
    by (cases "bi_kind bi") auto
  then show ?thesis
  proof cases
    case stop
    then show ?thesis using s by (auto simp: expand_def)
  next
    case jump
    then have "edge_of va path (blockTerminator cfg va path) (new_node (targetA bi) Null True 0 path)"
      using bi by (auto simp: edge_of_def)
    from child [OF this] jump show ?thesis by (auto simp: expand_def)
  next
    case fork
    then have "vars_of (bi_pred bi) \<noteq> {}" by (simp add: DependsOnInput_vars)
    from fork_keeps [OF s here good bi fork(1-3) this] fork show ?thesis by (simp add: expand_def)
  next
    case side
    define tk where "tk = (case EvalConst (bi_pred bi) of Some v \<Rightarrow> v \<noteq> 0 | None \<Rightarrow> True)"
    have "edge_of va path (blockTerminator cfg va path)
        (new_node (if tk then targetA bi else targetB bi) Null tk 0 path)"
      using side bi by (auto simp: edge_of_def DependsOnInput_vars tk_def split: option.splits)
    from child [OF this] side show ?thesis by (simp add: expand_def Let_def tk_def)
  qed
qed

lemma visit_keeps:
  assumes ok: "state_ok cfg solve cfg2 (t, idx # work)"
  shows "state_ok cfg solve cfg2 (visit cfg solve cfg2 idx (t, work))"
proof (cases "depth (nodes t ! idx) \<ge> maxDepth cfg2")
  case True
  then show ?thesis using ok by (simp add: visit_def state_ok_def)
next
  case False
  let ?va = "blockVA (nodes t ! idx)" and ?path = "pathConstraints (nodes t ! idx)"
  let ?bi = "blockTerminator cfg ?va ?path"
  let ?s = "(set_tag idx (Classify ?va ?bi ?path cfg solve) t, work)"
  have idx: "idx < length (nodes t)" and tree: "tree_ok cfg solve cfg2 (nodes t)" using ok by (simp_all add: state_ok_def)
  have s: "state_ok cfg solve cfg2 ?s" using ok by (simp add: state_ok_def tree_ok_retag)
  have here: "expanding cfg2 ?s idx ?va ?path" using idx False by (simp add: expanding_def)
  have good: "good_path cfg solve ?path" using tree_okD(6) [OF tree idx] .
  have "state_ok cfg solve cfg2 (expand solve cfg2 idx ?va ?path ?bi ?s)"
    by (rule expand_keeps [OF s here good refl])
  then show ?thesis using False by (simp add: visit_def Let_def)
qed

lemma start_ok: "state_ok cfg solve cfg2 (explore_start va)"
  by (simp add: state_ok_def explore_start_def tree_ok_def new_node_def good_path_def PathSat_def constraints_wf_def)

section \<open>No side is left out\<close>

text \<open>What the children of an explored node are: one where a jump goes or where a concrete condition goes, and one
  for each side of an input-dependent branch that the solver does not refute.\<close>

definition has_child :: "PathNode list \<Rightarrow> nat \<Rightarrow> PathConstraint list \<Rightarrow> bool" where
  "has_child ns i pcs \<longleftrightarrow> (\<exists>j \<in> set (children (ns ! i)). j < length ns \<and> pathConstraints (ns ! j) = pcs)"

definition explored :: "SymCfg \<Rightarrow> solver \<Rightarrow> PathNode list \<Rightarrow> nat \<Rightarrow> bool" where
  "explored cfg solve ns i \<longleftrightarrow>
     (let path = pathConstraints (ns ! i); va = blockVA (ns ! i); bi = blockTerminator cfg va path
      in if bi_kind bi \<in> {Return, Escape} \<or> \<not> targetAValid bi \<or> bi_kind bi = CondBranch \<and> \<not> targetBValid bi then True
         else if bi_kind bi = CondBranch \<and> vars_of (bi_pred bi) \<noteq> {} then
           \<forall>tk. \<exists>c. side_constraint va bi tk c \<and> (PathSat (path @ [c]) solve \<longrightarrow> has_child ns i (path @ [c]))
         else has_child ns i path)"

definition tree_complete :: "SymCfg \<Rightarrow> solver \<Rightarrow> PathTree \<Rightarrow> bool" where
  "tree_complete cfg solve t \<longleftrightarrow> truncated t \<or> (\<forall>i < length (nodes t). explored cfg solve (nodes t) i)"

text \<open>An iteration only adds: nodes and children stay, new nodes go on the stack, and the mark of a truncated tree
  is never taken back.\<close>

definition adds :: "frontier \<Rightarrow> frontier \<Rightarrow> bool" where
  "adds s s1 \<longleftrightarrow> (truncated (fst s) \<longrightarrow> truncated (fst s1)) \<and> set (snd s) \<subseteq> set (snd s1) \<and>
     length (nodes (fst s)) \<le> length (nodes (fst s1)) \<and>
     (\<forall>i < length (nodes (fst s1)). i < length (nodes (fst s)) \<or> i \<in> set (snd s1)) \<and>
     (\<forall>i < length (nodes (fst s)). blockVA (nodes (fst s1) ! i) = blockVA (nodes (fst s) ! i) \<and>
        pathConstraints (nodes (fst s1) ! i) = pathConstraints (nodes (fst s) ! i) \<and>
        set (children (nodes (fst s) ! i)) \<subseteq> set (children (nodes (fst s1) ! i)))"

lemma adds_refl [simp]: "adds s s"
  by (simp add: adds_def)

lemma adds_tag [simp]: "adds (t, work) (set_tag i g t, work)"
  by (simp add: adds_def) (simp add: set_tag_def)

lemma addsD:
  assumes "adds s s1"
  shows "truncated (fst s) \<Longrightarrow> truncated (fst s1)" and "set (snd s) \<subseteq> set (snd s1)"
    and "i < length (nodes (fst s)) \<Longrightarrow> i < length (nodes (fst s1))"
    and "i < length (nodes (fst s1)) \<Longrightarrow> i < length (nodes (fst s)) \<or> i \<in> set (snd s1)"
    and "i < length (nodes (fst s)) \<Longrightarrow> blockVA (nodes (fst s1) ! i) = blockVA (nodes (fst s) ! i)"
    and "i < length (nodes (fst s)) \<Longrightarrow> pathConstraints (nodes (fst s1) ! i) = pathConstraints (nodes (fst s) ! i)"
    and "i < length (nodes (fst s)) \<Longrightarrow> set (children (nodes (fst s) ! i)) \<subseteq> set (children (nodes (fst s1) ! i))"
  using assms by (simp_all add: adds_def)

lemma adds_trans:
  assumes "adds s s1" "adds s1 s2"
  shows "adds s s2"
proof -
  note D = addsD [OF assms(1)] and E = addsD [OF assms(2)]
  have "set (children (nodes (fst s) ! i)) \<subseteq> set (children (nodes (fst s2) ! i))" if "i < length (nodes (fst s))" for i
    using D(7) [OF that] E(7) [OF D(3) [OF that]] by (rule order_trans)
  moreover have "i < length (nodes (fst s)) \<or> i \<in> set (snd s2)" if "i < length (nodes (fst s2))" for i
    using E(4) [OF that] D(4) [of i] E(2) by blast
  moreover have "length (nodes (fst s)) \<le> length (nodes (fst s2))" using assms by (simp add: adds_def)
  moreover have "set (snd s) \<subseteq> set (snd s2)" using D(2) E(2) by (rule order_trans)
  ultimately show ?thesis unfolding adds_def using D(1,3,5,6) E(1,5,6) by simp
qed

lemma has_child_adds:
  assumes "adds s s1" "i < length (nodes (fst s))" "has_child (nodes (fst s)) i pcs"
  shows "has_child (nodes (fst s1)) i pcs"
proof -
  note D = addsD [OF assms(1)]
  obtain j where j: "j \<in> set (children (nodes (fst s) ! i))" "j < length (nodes (fst s))"
    "pathConstraints (nodes (fst s) ! j) = pcs" using assms(3) by (auto simp: has_child_def)
  with D(7) [OF assms(2)] D(3,6) [OF j(2)] show ?thesis by (auto simp: has_child_def)
qed

lemma explored_adds:
  assumes "adds s s1" "i < length (nodes (fst s))" "explored cfg solve (nodes (fst s)) i"
  shows "explored cfg solve (nodes (fst s1)) i"
proof -
  have same: "blockVA (nodes (fst s1) ! i) = blockVA (nodes (fst s) ! i)"
    "pathConstraints (nodes (fst s1) ! i) = pathConstraints (nodes (fst s) ! i)"
    using assms(1,2) by (simp_all add: adds_def)
  show ?thesis
    using assms(3) has_child_adds [OF assms(1,2)] unfolding explored_def Let_def same
    by (auto split: if_splits)
qed

lemma addChild_adds:
  assumes "idx < length (nodes (fst s))"
  shows "adds s (addChild cfg2 idx tgt p tk pcs s)"
    and "truncated (fst (addChild cfg2 idx tgt p tk pcs s)) \<or>
      has_child (nodes (fst (addChild cfg2 idx tgt p tk pcs s))) idx pcs"
proof -
  obtain t work where s: "s = (t, work)" by force
  with assms have idx: "idx < length (nodes t)" by simp
  show "adds s (addChild cfg2 idx tgt p tk pcs s)"
    by (auto simp: s addChild_cases [OF idx] adds_def attach_fields [OF idx] less_Suc_eq)
  show "truncated (fst (addChild cfg2 idx tgt p tk pcs s)) \<or>
      has_child (nodes (fst (addChild cfg2 idx tgt p tk pcs s))) idx pcs"
    by (auto simp: s addChild_cases [OF idx] has_child_def attach_fields [OF idx idx] attach_new [OF idx])
qed

lemma adds_index: "adds s s1 \<Longrightarrow> i < length (nodes (fst s)) \<Longrightarrow> i < length (nodes (fst s1))"
  by (simp add: adds_def)

lemma try_side_adds:
  assumes "idx < length (nodes (fst s))"
  shows "adds s (try_side solve cfg2 idx path c s)"
    and "PathSat (path @ [c]) solve \<Longrightarrow> truncated (fst (try_side solve cfg2 idx path c s)) \<or>
      has_child (nodes (fst (try_side solve cfg2 idx path c s))) idx (path @ [c])"
  using addChild_adds [OF assms] by (simp_all add: try_side_def)

lemma fork_adds:
  assumes idx: "idx < length (nodes (fst s))" and c: "c \<in> {taken_side va bi, other_side va bi}"
  shows "adds s (fork solve cfg2 idx va path bi s)"
    and "PathSat (path @ [c]) solve \<Longrightarrow> truncated (fst (fork solve cfg2 idx va path bi s)) \<or>
      has_child (nodes (fst (fork solve cfg2 idx va path bi s))) idx (path @ [c])"
proof -
  let ?s1 = "try_side solve cfg2 idx path (taken_side va bi) s"
  note first = try_side_adds [OF idx, where solve = solve and ?cfg2.0 = cfg2 and path = path and c = "taken_side va bi"]
  note idx1 = adds_index [OF first(1) idx]
  note second = try_side_adds [OF idx1, where solve = solve and ?cfg2.0 = cfg2 and path = path and c = "other_side va bi"]
  show "adds s (fork solve cfg2 idx va path bi s)"
    unfolding fork_sides by (rule adds_trans [OF first(1) second(1)])
  assume sat: "PathSat (path @ [c]) solve"
  have "truncated (fst ?s1) \<Longrightarrow> truncated (fst (fork solve cfg2 idx va path bi s))"
    using second(1) by (simp add: fork_sides adds_def)
  then show "truncated (fst (fork solve cfg2 idx va path bi s)) \<or>
      has_child (nodes (fst (fork solve cfg2 idx va path bi s))) idx (path @ [c])"
    using c sat first(2) second(2) has_child_adds [OF second(1) idx1] unfolding fork_sides by auto
qed

lemma expand_adds:
  assumes idx: "idx < length (nodes t)" and bi: "bi = blockTerminator cfg (blockVA (nodes t ! idx)) (pathConstraints (nodes t ! idx))"
    and s1: "s1 = expand solve cfg2 idx (blockVA (nodes t ! idx)) (pathConstraints (nodes t ! idx)) bi (t, work)"
  shows "adds (t, work) s1 \<and> (truncated (fst s1) \<or> explored cfg solve (nodes (fst s1)) idx)"
proof -
  let ?va = "blockVA (nodes t ! idx)" and ?path = "pathConstraints (nodes t ! idx)"
  have idx': "idx < length (nodes (fst (t, work)))" using idx by simp
  note child = addChild_adds [OF idx'] and both = fork_adds [OF idx', of _ ?va bi]
  have adds: "adds (t, work) s1"
    using child(1) both(1) [OF insertI1] by (simp add: s1 expand_def Let_def)
  then have same: "blockVA (nodes (fst s1) ! idx) = ?va" "pathConstraints (nodes (fst s1) ! idx) = ?path"
    using idx by (simp_all add: adds_def)
  have explored: "explored cfg solve (nodes (fst s1)) idx \<longleftrightarrow>
     (if bi_kind bi \<in> {Return, Escape} \<or> \<not> targetAValid bi \<or> bi_kind bi = CondBranch \<and> \<not> targetBValid bi then True
      else if bi_kind bi = CondBranch \<and> vars_of (bi_pred bi) \<noteq> {} then
        \<forall>tk. \<exists>c. side_constraint ?va bi tk c \<and>
          (PathSat (?path @ [c]) solve \<longrightarrow> has_child (nodes (fst s1)) idx (?path @ [c]))
      else has_child (nodes (fst s1)) idx ?path)"
    unfolding explored_def same Let_def bi ..
  have "truncated (fst s1) \<or> explored cfg solve (nodes (fst s1)) idx"
  proof (cases "bi_kind bi = CondBranch \<and> targetAValid bi \<and> targetBValid bi \<and> DependsOnInput (bi_pred bi)")
    case True
    then have fork: "s1 = fork solve cfg2 idx ?va ?path bi (t, work)" by (simp add: s1 expand_def)
    have "\<exists>c. side_constraint ?va bi tk c \<and> (PathSat (?path @ [c]) solve \<longrightarrow> has_child (nodes (fst s1)) idx (?path @ [c]))"
      if "\<not> truncated (fst s1)" for tk
    proof (cases tk)
      case True
      with sides(1) [of ?va bi] both(2) [of "taken_side ?va bi"] that show ?thesis
        unfolding fork by (intro exI [of _ "taken_side ?va bi"]) (auto simp: taken_side_def)
    next
      case False
      with sides(2) [of ?va bi] both(2) [of "other_side ?va bi"] that show ?thesis
        unfolding fork by (intro exI [of _ "other_side ?va bi"]) (auto simp: other_side_def)
    qed
    then show ?thesis using True unfolding explored by (simp add: DependsOnInput_vars) blast
  next
    case False
    then show ?thesis
      using child(2) unfolding explored unfolding s1 expand_def Let_def by (cases "bi_kind bi") (simp_all add: DependsOnInput_vars)
  qed
  with adds show ?thesis ..
qed

definition open_ok :: "SymCfg \<Rightarrow> solver \<Rightarrow> frontier \<Rightarrow> bool" where
  "open_ok cfg solve s \<longleftrightarrow>
     truncated (fst s) \<or> (\<forall>i < length (nodes (fst s)). i \<in> set (snd s) \<or> explored cfg solve (nodes (fst s)) i)"

lemma visit_open:
  assumes open_ok: "open_ok cfg solve (t, idx # work)" and idx: "idx < length (nodes t)"
  shows "open_ok cfg solve (visit cfg solve cfg2 idx (t, work))"
proof (cases "depth (nodes t ! idx) \<ge> maxDepth cfg2")
  case True
  then show ?thesis by (simp add: visit_def open_ok_def)
next
  case False
  let ?va = "blockVA (nodes t ! idx)" and ?path = "pathConstraints (nodes t ! idx)"
  let ?bi = "blockTerminator cfg ?va ?path" and ?s1 = "visit cfg solve cfg2 idx (t, work)"
  let ?t = "set_tag idx (Classify ?va ?bi ?path cfg solve) t"
  have s1: "?s1 = expand solve cfg2 idx (blockVA (nodes ?t ! idx)) (pathConstraints (nodes ?t ! idx)) ?bi (?t, work)"
    using False by (simp add: visit_def Let_def)
  have "adds (?t, work) ?s1 \<and> (truncated (fst ?s1) \<or> explored cfg solve (nodes (fst ?s1)) idx)"
    by (rule expand_adds [OF _ _ s1]) (simp_all add: idx)
  then have adds: "adds (t, work) ?s1" and here: "truncated (fst ?s1) \<or> explored cfg solve (nodes (fst ?s1)) idx"
    using adds_trans [OF adds_tag] by blast+
  have "i \<in> set (snd ?s1) \<or> explored cfg solve (nodes (fst ?s1)) i"
    if less: "i < length (nodes (fst ?s1))" and full: "\<not> truncated (fst ?s1)" for i
  proof -
    have "\<not> truncated t" using adds full by (auto simp: adds_def)
    then have "i < length (nodes t) \<Longrightarrow> i \<in> set (idx # work) \<or> explored cfg solve (nodes t) i"
      using open_ok by (auto simp: open_ok_def)
    moreover have "i < length (nodes t) \<or> i \<in> set (snd ?s1)" "set work \<subseteq> set (snd ?s1)"
      using adds less by (simp_all add: adds_def)
    ultimately show ?thesis
      using explored_adds [OF adds, of i cfg solve] here full by auto
  qed
  then show ?thesis by (auto simp: open_ok_def)
qed

lemma Explore_tree:
  "\<exists>t. Explore va cfg solve cfg2 = Some t \<and> tree_ok cfg solve cfg2 (nodes t) \<and> tree_complete cfg solve t"
proof -
  let ?P = "\<lambda>s. state_ok cfg solve cfg2 s \<and> open_ok cfg solve s"
  have "?P (explore_start va)" by (simp add: start_ok) (simp add: open_ok_def explore_start_def)
  then have "\<exists>t. explore_loop cfg solve cfg2 (explore_start va) = Some t \<and> ?P (t, [])"
      proof (rule explore_induct)
    show "?P (visit cfg solve cfg2 idx (u, work))" if "?P (u, idx # work)" for u work idx
      using that by (intro conjI visit_keeps visit_open) (auto simp: state_ok_def)
  qed
  then show ?thesis by (auto simp: Explore_def state_ok_def open_ok_def tree_complete_def)
qed

section \<open>What the tree promises\<close>

text \<open>The program the facade describes, run on an input: a jump goes to its target, a branch goes by the value of
  its predicate under the input, to the one side or to the other. A node is reached when the run goes from
  the root to it, block by block. The recorded constraints play no part in it.\<close>

definition goes_to :: "valuation \<Rightarrow> (int \<Rightarrow> nat \<Rightarrow> int) \<Rightarrow> BranchInfo \<Rightarrow> bool \<Rightarrow> u64 \<Rightarrow> bool" where
  "goes_to env ld bi tk va \<longleftrightarrow>
     (case bi_kind bi of
        Return \<Rightarrow> False
      | Escape \<Rightarrow> False
      | CondBranch \<Rightarrow> den env ld (bi_pred bi) = Some (if tk then 1 else 0) \<and> va = (if tk then targetA bi else targetB bi)
      | _ \<Rightarrow> tk \<and> va = targetA bi)"

inductive reaches :: "SymCfg \<Rightarrow> PathNode list \<Rightarrow> valuation \<Rightarrow> (int \<Rightarrow> nat \<Rightarrow> int) \<Rightarrow> nat \<Rightarrow> bool"
  for cfg ns env ld where
  at_root: "reaches cfg ns env ld 0"
| at_child: "reaches cfg ns env ld i \<Longrightarrow> j \<in> set (children (ns ! i)) \<Longrightarrow>
    goes_to env ld (blockTerminator cfg (blockVA (ns ! i)) (pathConstraints (ns ! i))) (nd_taken (ns ! j)) (blockVA (ns ! j)) \<Longrightarrow>
    reaches cfg ns env ld j"

text \<open>The facade decides the conditions that do not depend on the input: they read no memory and have a value.
  (The explorer takes the first side of one that \<open>EvalConst\<close> cannot decide, and records nothing.)\<close>

definition cfg_decided :: "SymCfg \<Rightarrow> bool" where
  "cfg_decided cfg \<longleftrightarrow> (\<forall>va path. let p = bi_pred (blockTerminator cfg va path) in
     bi_kind (blockTerminator cfg va path) = CondBranch \<and> vars_of p = {} \<longrightarrow>
     load_free p \<and> den (\<lambda>i. 0) (\<lambda>a n. 0) p \<noteq> None)"

lemma decided_value:
  assumes "wf_expr p" "bits_of p = 1" "vars_of p = {}" "load_free p" "den (\<lambda>i. 0) (\<lambda>a n. 0) p \<noteq> None"
  obtains v where "EvalConst p = Some v" "den env ld p = Some (if v \<noteq> 0 then 1 else 0)"
proof -
  have "map_option uint (EvalConst p) = den (\<lambda>i. 0) (\<lambda>a n. 0) p"
    using EvalConst_ground vars_free_ground assms by blast
  with assms(5) obtain v where v: "EvalConst p = Some v" by (cases "EvalConst p") auto
  have "uint v < 2" using EvalConst_below [OF assms(1) v] assms(2) by simp
  moreover have "0 < uint v" if "v \<noteq> 0" using that unfolding less_le by (simp add: unsigned_eq_0_iff eq_commute [of 0 "uint v"])
  ultimately have "uint v = (if v \<noteq> 0 then 1 else 0)" by auto
  with that [OF v] EvalConst_value [OF assms(1) v, of env ld] show ?thesis by simp
qed

lemma edge_goes:
  assumes "cfg_wf cfg" "cfg_decided cfg" and edge: "edge_of va path (blockTerminator cfg va path) child"
    and sat: "satisfies env (pathConstraints child)"
  shows "goes_to env ld (blockTerminator cfg va path) (nd_taken child) (blockVA child) \<and> satisfies env path"
proof -
  define bi where "bi = blockTerminator cfg va path"
  let ?p = "bi_pred bi"
  note edge = edge [folded bi_def]
  consider (jump) "bi_kind bi = Fallthrough \<or> bi_kind bi = Jump" | (branch) "bi_kind bi = CondBranch"
    using edge by (cases "bi_kind bi") (simp_all add: edge_of_def)
  then have "goes_to env ld bi (nd_taken child) (blockVA child) \<and> satisfies env path"
  proof cases
    case jump
    with edge sat show ?thesis by (auto simp: edge_of_def goes_to_def)
  next
    case branch
    then have wf: "wf_expr ?p" "bits_of ?p = 1" using assms(1) unfolding cfg_wf_def bi_def by simp_all
    have target: "blockVA child = (if nd_taken child then targetA bi else targetB bi)"
      using edge branch by (simp add: edge_of_def)
    show ?thesis
    proof (cases "vars_of ?p = {}")
      case True
      then have "load_free ?p" "den (\<lambda>i. 0) (\<lambda>a n. 0) ?p \<noteq> None"
        using assms(2) branch unfolding cfg_decided_def bi_def Let_def by simp_all
      from decided_value [OF wf True this, of env ld] obtain v
        where v: "EvalConst ?p = Some v" "den env ld ?p = Some (if v \<noteq> 0 then 1 else 0)" .
      have "nd_taken child = (v \<noteq> 0)" "pathConstraints child = path"
        using edge branch True v(1) by (simp_all add: edge_of_def)
      with v(2) target branch sat show ?thesis by (simp add: goes_to_def)
    next
      case False
      with edge branch obtain c where c: "side_constraint va bi (nd_taken child) c" "pathConstraints child = path @ [c]"
        by (auto simp: edge_of_def)
      have "den env ld (pred c) = Some 1" "satisfies env path" using sat by (simp_all add: c(2) satisfies_def)
      moreover have "den env ld (pred c) =
          (if nd_taken child then den env ld ?p else map_option (\<lambda>b. 1 - b) (den env ld ?p))"
        using c(1) wf by (simp add: side_constraint_def selects_def)
      ultimately show ?thesis using target branch by (auto simp: goes_to_def split: if_splits)
    qed
  qed
  then show ?thesis by (simp add: bi_def)
qed

lemma satisfied_reaches:
  assumes tree: "tree_ok cfg solve cfg2 ns" and cfg: "cfg_wf cfg" "cfg_decided cfg"
  shows "i < length ns \<Longrightarrow> satisfies env (pathConstraints (ns ! i)) \<Longrightarrow> reaches cfg ns env ld i"
proof (induction i rule: less_induct)
  case (less i)
  show ?case
  proof (cases "i = 0")
    case False
    then obtain h where h: "h < length ns" "i \<in> set (children (ns ! h))" using tree_okD(9) [OF tree, of i] less.prems by blast
    from tree_okD(8) [OF tree this]
    have "h < i" and edge: "edge_of (blockVA (ns ! h)) (pathConstraints (ns ! h))
        (blockTerminator cfg (blockVA (ns ! h)) (pathConstraints (ns ! h))) (ns ! i)"
      by (simp_all add: edge_ok_def)
    from edge_goes [OF cfg edge less.prems(2), of ld] less.IH [OF \<open>h < i\<close> h(1)] h(2)
    show ?thesis by (blast intro: at_child)
  qed (simp add: at_root)
qed

context path_solver
begin

lemma good_path_solved:
  assumes "cfg_wf cfg" "good_path cfg solve pcs"
  shows "\<exists>model. solve pcs = Some model \<and> satisfies (model_env model) pcs"
proof (cases "pcs = []")
  case True
  then show ?thesis using trivial by (simp add: satisfies_def)
next
  case False
  then obtain model where "solve pcs = Some model" using assms(2) by (auto simp: good_path_def PathSat_def)
  with sound assms show ?thesis by (auto simp: good_path_def)
qed

lemma node_solved:
  assumes "cfg_wf cfg" "cfg_decided cfg" "Explore va cfg solve cfg2 = Some t" "i < length (nodes t)"
  shows "\<exists>model. SolvePath t (int i) solve = Some model \<and>
    satisfies (model_env model) (pathConstraints (nodes t ! i)) \<and> (\<forall>ld. reaches cfg (nodes t) (model_env model) ld i)"
proof -
  have tree: "tree_ok cfg solve cfg2 (nodes t)" using Explore_tree [of va cfg solve cfg2] assms(3) by simp
  from good_path_solved [OF assms(1) tree_okD(6) [OF tree assms(4)]] satisfied_reaches [OF tree assms(1,2,4)]
  show ?thesis using assms(4) by (auto simp: SolvePath_def)
qed

end

text \<open>C19: the exploration always ends, whatever the program, the solver and the limits are (a zero node
  limit included, which still leaves the root), and the tree is the program's: at most the allowed number of
  nodes, none deeper than the limit, every node but the root the child of exactly one earlier node, one
  deeper than it and where that node's terminator goes -- to the target of a jump, to the side a concrete
  condition selects, or to one side of an input-dependent branch, and then its constraints are its parent's
  followed by a condition that holds exactly when the branch predicate is 1 (the side that is taken) or 0
  (the other). Unless the tree is marked truncated, no side the solver admits is missing.\<close>

theorem Explore_terminates:
  "\<exists>t. Explore va cfg solve cfg2 = Some t \<and> tree_ok cfg solve cfg2 (nodes t) \<and> tree_complete cfg solve t"
  by (rule Explore_tree)

text \<open>C20: every node of the tree is reached: with the default solver \<open>SolvePath\<close> returns an input for it, the input
  satisfies the accumulated conditions, and the program run on it takes, branch by branch, exactly the path
  from the root to the node, whatever the memory holds. Conditions that do not depend on the input are
  assumed to have a value; an undecided one is followed on one side without a condition.\<close>

theorem Explore_paths_feasible:
  assumes "cfg_wf cfg" "cfg_decided cfg" "Explore va cfg solveForInput cfg2 = Some t" "i < length (nodes t)"
  shows "\<exists>model. SolvePath t (int i) solveForInput = Some model \<and>
    satisfies (model_env model) (pathConstraints (nodes t ! i)) \<and> (\<forall>ld. reaches cfg (nodes t) (model_env model) ld i)"
  by (rule default.node_solved [OF assms])

text \<open>A branch on the low bit of an input.\<close>

definition demo_cfg :: SymCfg where
  "demo_cfg = \<lparr>blockTerminator = (\<lambda>va path.
       \<lparr>bi_kind = (if va = 0 then CondBranch else Return), targetA = 16, targetB = 32, targetAValid = True,
        targetBValid = True, bi_pred = Var 7 1, overflowFeasible = False\<rparr>),
     isStaticallyReached = (\<lambda>va. True), inAnyFunction = (\<lambda>va. True)\<rparr>"

lemma demo_solve:
  "solveForInput [\<lparr>pred = Var 7 1, taken = True, fromVA = 0, toVA = 16\<rparr>] \<noteq> None"
  "solveForInput [\<lparr>pred = NotPred (Var 7 1), taken = False, fromVA = 0, toVA = 32\<rparr>] \<noteq> None"
  by (simp_all add: solveForInput_def solver_vars_def search_space_def max_value_def Var_def NotPred_def UnE_def
      search.simps holds_def C_def MaskToBits_def bind_value_def word_le_nat_alt)

lemma demo_tree:
  "\<exists>t. Explore 0 demo_cfg solveForInput \<lparr>maxDepth = 4, maxNodes = 8\<rparr> = Some t \<and> 1 < length (nodes t)"
  using demo_solve
  by (simp add: Explore_def explore_start_def explore_loop.simps visit_def expand_def fork_def addChild_def
      demo_cfg_def new_node_def set_tag_def PathSat_def Let_def Var_def)

theorem Explore_paths_feasible_witness:
  "\<exists>t model. Explore 0 demo_cfg solveForInput \<lparr>maxDepth = 4, maxNodes = 8\<rparr> = Some t \<and>
     SolvePath t (int 1) solveForInput = Some model \<and> satisfies (model_env model) (pathConstraints (nodes t ! 1)) \<and>
     reaches demo_cfg (nodes t) (model_env model) (\<lambda>a n. 0) 1"
proof -
  obtain t where t: "Explore 0 demo_cfg solveForInput \<lparr>maxDepth = 4, maxNodes = 8\<rparr> = Some t" "1 < length (nodes t)"
    using demo_tree by blast
  have "cfg_wf demo_cfg" "cfg_decided demo_cfg"
    by (simp_all add: cfg_wf_def cfg_decided_def demo_cfg_def Var_def wf_node_def)
  from Explore_paths_feasible [OF this t] t show ?thesis by blast
qed

end
