(* ===== verification/Seed_State.thy ===== *)
theory Seed_State
  imports Sym_Solver Instruction_Model
begin

text \<open>
  The seed types of \<open>src/src/Core/SymEngine.h\<close> and the part of \<open>Synthesis.cpp\<close> that reads and writes a seed:
  registers by name, memory blocks, and the inputs of one sample. \<open>MemWrite\<close> is partial: where the C++ code would
  write outside a block or shift by 64 or more, which it does not exclude, the result is \<open>None\<close>.

  The second half is the specification: the state a sample starts from, in which every named register and every
  byte holds the value of the last input that covers it. It has its own table of register names, made from the
  naming rules of the architecture, and counts addresses in natural numbers.
\<close>

unbundle bit_operations_syntax

section \<open>Seeds\<close>

record MemBlock =
  mb_base :: u64
  mb_bytes :: bytes
  mb_perms :: u32

record RegFile =
  rax :: u64  rbx :: u64  rcx :: u64  rdx :: u64  rsi :: u64  rdi :: u64  rbp :: u64  rsp :: u64
  r8 :: u64  r9 :: u64  r10 :: u64  r11 :: u64  r12 :: u64  r13 :: u64  r14 :: u64  r15 :: u64
  rip :: u64  rflags :: u64

record SeedSource =
  sd_arch :: Arch
  sd_regs :: RegFile
  sd_mem :: "MemBlock list"

datatype InputKind = InReg | InMem

record SymbolicInput =
  si_kind :: InputKind
  regName :: string
  si_addr :: u64
  si_bytes :: u32
  si_varId :: u64

section \<open>Registers by name\<close>

definition reg_aliases :: "(string \<times> string) list" where
  "reg_aliases = [
     (''eax'',''rax''),(''ax'',''rax''),(''al'',''rax''),(''ebx'',''rbx''),(''bx'',''rbx''),(''bl'',''rbx''),
     (''ecx'',''rcx''),(''cx'',''rcx''),(''cl'',''rcx''),(''edx'',''rdx''),(''dx'',''rdx''),(''dl'',''rdx''),
     (''esi'',''rsi''),(''si'',''rsi''),(''sil'',''rsi''),(''edi'',''rdi''),(''di'',''rdi''),(''dil'',''rdi''),
     (''ebp'',''rbp''),(''bp'',''rbp''),(''bpl'',''rbp''),(''esp'',''rsp''),(''sp'',''rsp''),(''spl'',''rsp''),
     (''r8d'',''r8''),(''r8w'',''r8''),(''r8b'',''r8''),(''r9d'',''r9''),(''r9w'',''r9''),(''r9b'',''r9''),
     (''r10d'',''r10''),(''r10w'',''r10''),(''r10b'',''r10''),(''r11d'',''r11''),(''r11w'',''r11''),(''r11b'',''r11''),
     (''r12d'',''r12''),(''r12w'',''r12''),(''r12b'',''r12''),(''r13d'',''r13''),(''r13w'',''r13''),(''r13b'',''r13''),
     (''r14d'',''r14''),(''r14w'',''r14''),(''r14b'',''r14''),(''r15d'',''r15''),(''r15w'',''r15''),(''r15b'',''r15''),
     (''eip'',''rip''),(''eflags'',''rflags'')]"

type_synonym reg_slot = "(RegFile \<Rightarrow> u64) \<times> ((u64 \<Rightarrow> u64) \<Rightarrow> RegFile \<Rightarrow> RegFile)"

definition reg_slots :: "(string \<times> reg_slot) list" where
  "reg_slots = [
     (''rax'', rax, rax_update), (''rbx'', rbx, rbx_update), (''rcx'', rcx, rcx_update), (''rdx'', rdx, rdx_update),
     (''rsi'', rsi, rsi_update), (''rdi'', rdi, rdi_update), (''rbp'', rbp, rbp_update), (''rsp'', rsp, rsp_update),
     (''r8'', r8, r8_update), (''r9'', r9, r9_update), (''r10'', r10, r10_update), (''r11'', r11, r11_update),
     (''r12'', r12, r12_update), (''r13'', r13, r13_update), (''r14'', r14, r14_update), (''r15'', r15, r15_update),
     (''rip'', rip, rip_update), (''rflags'', rflags, rflags_update)]"

definition RegPtr :: "string \<Rightarrow> reg_slot option" where
  "RegPtr nameRaw =
     (let n = map c_tolower nameRaw;
          n1 = (case map_of reg_aliases n of Some p \<Rightarrow> p | None \<Rightarrow> n)
      in map_of reg_slots n1)"

definition RegGet :: "RegFile \<Rightarrow> string \<Rightarrow> u64" where
  "RegGet r name = (case RegPtr name of Some (get, put) \<Rightarrow> get r | None \<Rightarrow> 0)"

definition RegPut :: "string \<Rightarrow> u64 \<Rightarrow> RegFile \<Rightarrow> RegFile" where
  "RegPut name v r = (case RegPtr name of Some (get, put) \<Rightarrow> put (\<lambda>_. v) r | None \<Rightarrow> r)"

section \<open>Inputs of a sample\<close>

definition block_holds :: "MemBlock \<Rightarrow> u64 \<Rightarrow> u32 \<Rightarrow> bool" where
  "block_holds b addr n \<longleftrightarrow> addr \<ge> mb_base b \<and> addr + ucast n \<le> mb_base b + of_nat (length (mb_bytes b))"

fun write_le :: "nat \<Rightarrow> u64 \<Rightarrow> nat \<Rightarrow> bytes \<Rightarrow> bytes" where
  "write_le 0 val at d = d"
| "write_le (Suc n) val at d = (write_le n val at d)[at + n := ucast (drop_bit (8 * n) val)]"

text \<open>\<open>addr + bytes <= b.base + b.bytes.size()\<close> wraps, so the test can hold for a span that ends outside the block.\<close>

definition write_defined :: "MemBlock \<Rightarrow> u64 \<Rightarrow> u32 \<Rightarrow> bool" where
  "write_defined b addr n \<longleftrightarrow> n = 0 \<or> unat (addr - mb_base b) + unat n \<le> length (mb_bytes b) \<and> n \<le> 8"

fun MemWrite :: "MemBlock list \<Rightarrow> u64 \<Rightarrow> u32 \<Rightarrow> u64 \<Rightarrow> MemBlock list option" where
  "MemWrite [] addr n val = Some []"
| "MemWrite (b # bs) addr n val =
     (if block_holds b addr n
      then if write_defined b addr n
           then Some (b\<lparr>mb_bytes := write_le (unat n) val (unat (addr - mb_base b)) (mb_bytes b)\<rparr> # bs)
           else None
      else map_option ((#) b) (MemWrite bs addr n val))"

definition ApplyInput :: "(u64 \<times> u64) list \<Rightarrow> SymbolicInput \<Rightarrow> SeedSource \<Rightarrow> SeedSource option" where
  "ApplyInput assign i s =
     (case map_of assign (si_varId i) of
        None \<Rightarrow> Some s
      | Some v \<Rightarrow>
          if si_kind i = InReg then Some (s\<lparr>sd_regs := RegPut (regName i) v (sd_regs s)\<rparr>)
          else map_option (\<lambda>m. s\<lparr>sd_mem := m\<rparr>) (MemWrite (sd_mem s) (si_addr i) (si_bytes i) v))"

fun ApplyInputs :: "SeedSource \<Rightarrow> SymbolicInput list \<Rightarrow> (u64 \<times> u64) list \<Rightarrow> SeedSource option" where
  "ApplyInputs s [] assign = Some s"
| "ApplyInputs s (i # is) assign =
     (case ApplyInput assign i s of None \<Rightarrow> None | Some s1 \<Rightarrow> ApplyInputs s1 is assign)"

section \<open>The state a sample starts from\<close>

text \<open>The register a name belongs to, by the naming rules: \<open>rax eax ax al\<close>, \<open>rsi esi si sil\<close>, \<open>r8 r8d r8w r8b\<close>.\<close>

definition reg_families :: "(string \<times> string list) list" where
  "reg_families =
     map (\<lambda>x. (''r'' @ x @ ''x'', [''r'' @ x @ ''x'', ''e'' @ x @ ''x'', x @ ''x'', x @ ''l''])) [''a'', ''b'', ''c'', ''d''] @
     map (\<lambda>x. (''r'' @ x, [''r'' @ x, ''e'' @ x, x, x @ ''l''])) [''si'', ''di'', ''bp'', ''sp''] @
     map (\<lambda>x. (''r'' @ x, [''r'' @ x, ''r'' @ x @ ''d'', ''r'' @ x @ ''w'', ''r'' @ x @ ''b'']))
       [''8'', ''9'', ''10'', ''11'', ''12'', ''13'', ''14'', ''15''] @
     [(''rip'', [''rip'', ''eip'']), (''rflags'', [''rflags'', ''eflags''])]"

definition reg_named :: "string \<Rightarrow> string option" where
  "reg_named s = map_option fst (List.find (\<lambda>(p, names). map c_tolower s \<in> set names) reg_families)"

definition reg_read :: "RegFile \<Rightarrow> (string \<times> u64) list" where
  "reg_read r =
     [(''rax'', rax r), (''rbx'', rbx r), (''rcx'', rcx r), (''rdx'', rdx r), (''rsi'', rsi r), (''rdi'', rdi r),
      (''rbp'', rbp r), (''rsp'', rsp r), (''r8'', r8 r), (''r9'', r9 r), (''r10'', r10 r), (''r11'', r11 r),
      (''r12'', r12 r), (''r13'', r13 r), (''r14'', r14 r), (''r15'', r15 r), (''rip'', rip r), (''rflags'', rflags r)]"

definition reg_value :: "RegFile \<Rightarrow> string \<Rightarrow> u64 option" where
  "reg_value r s = Option.bind (reg_named s) (map_of (reg_read r))"

text \<open>The last input with a value that covers a place.\<close>

definition last_set :: "(SymbolicInput \<Rightarrow> bool) \<Rightarrow> (u64 \<times> u64) list \<Rightarrow> SymbolicInput list \<Rightarrow> (SymbolicInput \<times> u64) option" where
  "last_set P assign inputs =
     (case List.find (\<lambda>i. P i \<and> map_of assign (si_varId i) \<noteq> None) (rev inputs) of
        None \<Rightarrow> None
      | Some i \<Rightarrow> map_option (Pair i) (map_of assign (si_varId i)))"

definition start_reg :: "SymbolicInput list \<Rightarrow> (u64 \<times> u64) list \<Rightarrow> string \<Rightarrow> u64 \<Rightarrow> u64" where
  "start_reg inputs assign p old =
     (case last_set (\<lambda>i. si_kind i = InReg \<and> reg_named (regName i) = Some p) assign inputs of
        None \<Rightarrow> old
      | Some (i, v) \<Rightarrow> v)"

definition start_regs :: "SymbolicInput list \<Rightarrow> (u64 \<times> u64) list \<Rightarrow> RegFile \<Rightarrow> RegFile" where
  "start_regs inputs assign r = (let f = start_reg inputs assign in
     \<lparr>rax = f ''rax'' (rax r), rbx = f ''rbx'' (rbx r), rcx = f ''rcx'' (rcx r), rdx = f ''rdx'' (rdx r),
      rsi = f ''rsi'' (rsi r), rdi = f ''rdi'' (rdi r), rbp = f ''rbp'' (rbp r), rsp = f ''rsp'' (rsp r),
      r8 = f ''r8'' (r8 r), r9 = f ''r9'' (r9 r), r10 = f ''r10'' (r10 r), r11 = f ''r11'' (r11 r),
      r12 = f ''r12'' (r12 r), r13 = f ''r13'' (r13 r), r14 = f ''r14'' (r14 r), r15 = f ''r15'' (r15 r),
      rip = f ''rip'' (rip r), rflags = f ''rflags'' (rflags r)\<rparr>)"

text \<open>A memory input is at home in the first block that contains all its bytes.\<close>

definition inside :: "MemBlock \<Rightarrow> SymbolicInput \<Rightarrow> bool" where
  "inside b i \<longleftrightarrow> unat (mb_base b) \<le> unat (si_addr i) \<and>
     unat (si_addr i) + unat (si_bytes i) \<le> unat (mb_base b) + length (mb_bytes b)"

definition at_home :: "MemBlock list \<Rightarrow> SymbolicInput \<Rightarrow> nat \<Rightarrow> bool" where
  "at_home bs i k \<longleftrightarrow> k < length bs \<and> inside (bs ! k) i \<and> list_all (\<lambda>b. \<not> inside b i) (take k bs)"

definition sets_byte :: "MemBlock list \<Rightarrow> nat \<Rightarrow> nat \<Rightarrow> SymbolicInput \<Rightarrow> bool" where
  "sets_byte bs k j i \<longleftrightarrow> si_kind i = InMem \<and> at_home bs i k \<and> unat (si_addr i) \<le> unat (mb_base (bs ! k)) + j \<and>
     unat (mb_base (bs ! k)) + j < unat (si_addr i) + unat (si_bytes i)"

definition start_byte :: "MemBlock list \<Rightarrow> SymbolicInput list \<Rightarrow> (u64 \<times> u64) list \<Rightarrow> nat \<Rightarrow> nat \<Rightarrow> u8" where
  "start_byte bs inputs assign k j =
     (case last_set (sets_byte bs k j) assign inputs of
        None \<Rightarrow> mb_bytes (bs ! k) ! j
      | Some (i, v) \<Rightarrow> of_nat (unat v div 256 ^ (unat (mb_base (bs ! k)) + j - unat (si_addr i))))"

definition start_mem :: "SymbolicInput list \<Rightarrow> (u64 \<times> u64) list \<Rightarrow> MemBlock list \<Rightarrow> MemBlock list" where
  "start_mem inputs assign bs =
     map (\<lambda>k. (bs ! k)\<lparr>mb_bytes := map (start_byte bs inputs assign k) [0..<length (mb_bytes (bs ! k))]\<rparr>) [0..<length bs]"

definition start_state :: "SeedSource \<Rightarrow> SymbolicInput list \<Rightarrow> (u64 \<times> u64) list \<Rightarrow> SeedSource" where
  "start_state s inputs assign =
     s\<lparr>sd_regs := start_regs inputs assign (sd_regs s), sd_mem := start_mem inputs assign (sd_mem s)\<rparr>"

text \<open>The inputs are well-formed: memory inputs are 1 to 8 bytes wide, as documented, and neither they nor the
  blocks reach the end of the address space.\<close>

definition inputs_ok :: "SeedSource \<Rightarrow> SymbolicInput list \<Rightarrow> bool" where
  "inputs_ok s inputs \<longleftrightarrow>
     list_all (\<lambda>b. unat (mb_base b) + length (mb_bytes b) < 2 ^ 64) (sd_mem s) \<and>
     list_all (\<lambda>i. si_kind i = InMem \<longrightarrow> 1 \<le> unat (si_bytes i) \<and> unat (si_bytes i) \<le> 8 \<and>
       unat (si_addr i) + unat (si_bytes i) < 2 ^ 64) inputs"

section \<open>Registers\<close>

lemma last_set_snoc:
  "last_set P assign (is @ [i]) =
     (case map_of assign (si_varId i) of
        None \<Rightarrow> last_set P assign is
      | Some v \<Rightarrow> if P i then Some (i, v) else last_set P assign is)"
  by (simp add: last_set_def split: option.splits)

lemma last_set_Nil [simp]: "last_set P assign [] = None"
  by (simp add: last_set_def)

definition name_table :: "(string \<times> string) list" where
  "name_table = concat (map (\<lambda>(p, ns). map (\<lambda>n. (n, p)) ns) reg_families)"

lemma find_family: "map_option fst (List.find (\<lambda>(p, ns). n \<in> set ns) fs) =
    map_of (concat (map (\<lambda>(p, ns). map (\<lambda>n. (n, p)) ns) fs)) n"
proof (induction fs)
  case (Cons f fs)
  obtain p ns where f: "f = (p, ns)" by force
  have "map_of (map (\<lambda>n. (n, p)) ns @ r) n = (if n \<in> set ns then Some p else map_of r n)" for r
    by (induction ns) auto
  with Cons f show ?case by simp
qed simp

lemma reg_named_table: "reg_named s = map_of name_table (map c_tolower s)"
  by (simp add: reg_named_def name_table_def find_family)

lemma parent_table:
  "list_all (\<lambda>(n, p). (case map_of reg_aliases n of Some q \<Rightarrow> q | None \<Rightarrow> n) = p \<and> map_of reg_slots p \<noteq> None) name_table"
  "list_all (\<lambda>n. n \<in> set (keys name_table)) (keys reg_aliases @ keys reg_slots)"
  by code_simp+

lemma RegPtr_named: "RegPtr s = Option.bind (reg_named s) (map_of reg_slots)"
proof -
  let ?n = "map c_tolower s"
  show ?thesis
  proof (cases "map_of name_table ?n")
    case None
    then have "?n \<notin> set (keys name_table)" by (simp add: map_of_eq_None_iff)
    then have "?n \<notin> set (keys reg_aliases)" "?n \<notin> set (keys reg_slots)"
      using parent_table(2) by (auto simp: list_all_iff)
    then have "map_of reg_aliases ?n = None" "map_of reg_slots ?n = None" by (simp_all add: map_of_eq_None_iff)
    with None show ?thesis by (simp add: RegPtr_def reg_named_table Let_def)
  next
    case (Some p)
    then have "(?n, p) \<in> set name_table" by (rule map_of_SomeD)
    with parent_table(1) have "(case map_of reg_aliases ?n of Some q \<Rightarrow> q | None \<Rightarrow> ?n) = p"
      by (auto simp: list_all_iff)
    with Some show ?thesis by (simp add: RegPtr_def reg_named_table Let_def)
  qed
qed

lemma reg_named_slot: "reg_named s = Some p \<Longrightarrow> p \<in> set (keys reg_slots)"
proof -
  assume "reg_named s = Some p"
  then have "(map c_tolower s, p) \<in> set name_table" by (simp add: reg_named_table map_of_SomeD)
  then have "map_of reg_slots p \<noteq> None" using parent_table(1) by (auto simp: list_all_iff)
  then show ?thesis by (simp add: map_of_eq_None_iff)
qed

text \<open>\<open>offsetof\<close> finds the field that has the register's name.\<close>

lemma reg_slots_read: "map (\<lambda>(p, get, put). (p, get r)) reg_slots = reg_read r"
  by (simp add: reg_slots_def reg_read_def)

lemma map_of_read: "map_of (map (\<lambda>(p, get, put). (p, get r)) xs) q = map_option (\<lambda>(get, put). get r) (map_of xs q)"
  by (induction xs) (auto split: prod.splits)

lemma RegGet_value: "RegGet r s = (case reg_value r s of None \<Rightarrow> 0 | Some v \<Rightarrow> v)"
  unfolding RegGet_def reg_value_def RegPtr_named reg_slots_read [symmetric]
  by (cases "reg_named s") (auto simp: map_of_read split: option.splits prod.splits)

lemma reg_value_iff: "reg_value r s = None \<longleftrightarrow> reg_named s = None"
proof (cases "reg_named s")
  case (Some p)
  with reg_named_slot have "p \<in> set (keys reg_slots)" by blast
  then have "map_of (reg_read r) p \<noteq> None"
    unfolding map_of_eq_None_iff reg_slots_read [symmetric] by force
  with Some show ?thesis by (simp add: reg_value_def)
qed (simp add: reg_value_def)

lemma RegPut_named:
  "RegPut s v r = (case reg_named s of None \<Rightarrow> r | Some p \<Rightarrow>
     (case map_of reg_slots p of None \<Rightarrow> r | Some (get, put) \<Rightarrow> put (\<lambda>_. v) r))"
  by (simp add: RegPut_def RegPtr_named split: option.splits)

lemma start_reg_skip:
  "map_of assign (si_varId i) = None \<or> si_kind i = InMem \<or> reg_named (regName i) = None \<Longrightarrow>
   start_reg (is @ [i]) assign = start_reg is assign"
  by (rule ext)+ (auto simp: start_reg_def last_set_snoc split: option.splits)

lemma start_reg_put:
  "map_of assign (si_varId i) = Some v \<Longrightarrow> si_kind i = InReg \<Longrightarrow> reg_named (regName i) = Some p \<Longrightarrow>
   start_reg (is @ [i]) assign = (\<lambda>q old. if q = p then v else start_reg is assign q old)"
  by (rule ext)+ (simp add: start_reg_def last_set_snoc)

lemma start_regs_skip:
  "map_of assign (si_varId i) = None \<or> si_kind i = InMem \<or> reg_named (regName i) = None \<Longrightarrow>
   start_regs (is @ [i]) assign r = start_regs is assign r"
  by (simp only: start_regs_def start_reg_skip)

lemma start_regs_put:
  assumes "map_of assign (si_varId i) = Some v" "si_kind i = InReg"
  shows "start_regs (is @ [i]) assign r = RegPut (regName i) v (start_regs is assign r)"
proof (cases "reg_named (regName i)")
  case None
  then show ?thesis by (simp add: start_regs_skip RegPut_named)
next
  case (Some p)
  define f where "f = start_reg is assign"
  from reg_named_slot [OF Some] have "p \<in> set (keys reg_slots)" .
  then have "p \<in> {''rax'', ''rbx'', ''rcx'', ''rdx'', ''rsi'', ''rdi'', ''rbp'', ''rsp'', ''r8'', ''r9'', ''r10'', ''r11'',
      ''r12'', ''r13'', ''r14'', ''r15'', ''rip'', ''rflags''}"
    by (simp add: reg_slots_def)
  then have "start_regs (is @ [i]) assign r = (case map_of reg_slots p of Some (get, put) \<Rightarrow> put (\<lambda>_. v) (start_regs is assign r) | None \<Rightarrow> r)"
    unfolding start_regs_def start_reg_put [OF assms Some] f_def [symmetric] Let_def
    by (elim insertE emptyE; hypsubst) (simp_all add: reg_slots_def)
  moreover have "map_of reg_slots p \<noteq> None" using reg_named_slot [OF Some] by (simp add: map_of_eq_None_iff)
  ultimately show ?thesis by (auto simp: RegPut_named Some)
qed

section \<open>Memory\<close>

definition byte_of :: "u64 \<Rightarrow> nat \<Rightarrow> u8" where
  "byte_of v m = of_nat (unat v div 256 ^ m)"

lemma byte_of_drop: "ucast (drop_bit (8 * m) (v :: u64)) = byte_of v m"
proof -
  have "(256 :: nat) ^ m = 2 ^ (8 * m)" by (simp add: power_mult)
  then have "unat (drop_bit (8 * m) v) = unat v div 256 ^ m"
    unfolding unat_drop_bit_eq by (simp only: drop_bit_eq_div)
  then show ?thesis unfolding byte_of_def by (metis of_nat_unat)
qed

lemma write_le_nth:
  "at + n \<le> length d \<Longrightarrow> write_le n v at d =
     map (\<lambda>j. if at \<le> j \<and> j < at + n then byte_of v (j - at) else d ! j) [0..<length d]"
proof (induction n)
  case 0
  then show ?case by (intro nth_equalityI) auto
next
  case (Suc n)
  then show ?case by (intro nth_equalityI) (auto simp: byte_of_drop nth_list_update)
qed

definition in_span :: "MemBlock \<Rightarrow> SymbolicInput \<Rightarrow> nat \<Rightarrow> bool" where
  "in_span b i j \<longleftrightarrow> unat (si_addr i) \<le> unat (mb_base b) + j \<and>
     unat (mb_base b) + j < unat (si_addr i) + unat (si_bytes i)"

definition put_bytes :: "SymbolicInput \<Rightarrow> u64 \<Rightarrow> MemBlock \<Rightarrow> MemBlock" where
  "put_bytes i v b = b\<lparr>mb_bytes := map (\<lambda>j. if in_span b i j
     then byte_of v (unat (mb_base b) + j - unat (si_addr i)) else mb_bytes b ! j) [0..<length (mb_bytes b)]\<rparr>"

definition block_ok :: "MemBlock \<Rightarrow> bool" where
  "block_ok b \<longleftrightarrow> unat (mb_base b) + length (mb_bytes b) < 2 ^ 64"

definition input_ok :: "SymbolicInput \<Rightarrow> bool" where
  "input_ok i \<longleftrightarrow> 1 \<le> unat (si_bytes i) \<and> unat (si_bytes i) \<le> 8 \<and> unat (si_addr i) + unat (si_bytes i) < 2 ^ 64"

lemma block_holds_inside:
  assumes "block_ok b" "input_ok i"
  shows "block_holds b (si_addr i) (si_bytes i) \<longleftrightarrow> inside b i"
proof -
  have n: "unat (ucast (si_bytes i) :: u64) = unat (si_bytes i)" by simp
  have "unat (si_addr i + ucast (si_bytes i)) = unat (si_addr i) + unat (si_bytes i)"
    using assms(2) by (subst unat_add_no_wrap) (simp_all add: n input_ok_def)
  moreover have "unat (mb_base b + of_nat (length (mb_bytes b))) = unat (mb_base b) + length (mb_bytes b)"
    using assms(1) by (subst unat_add_no_wrap) (simp_all add: unat_of_nat_u64 block_ok_def)
  ultimately show ?thesis by (simp add: block_holds_def inside_def word_le_nat_alt)
qed

lemma block_write:
  assumes "block_ok b" "input_ok i" "inside b i"
  shows "write_defined b (si_addr i) (si_bytes i)"
    and "b\<lparr>mb_bytes := write_le (unat (si_bytes i)) v (unat (si_addr i - mb_base b)) (mb_bytes b)\<rparr> = put_bytes i v b"
proof -
  have le: "unat (mb_base b) \<le> unat (si_addr i)" using assms(3) by (simp add: inside_def)
  then have at: "unat (si_addr i - mb_base b) = unat (si_addr i) - unat (mb_base b)"
    by (simp add: unat_sub word_le_nat_alt)
  have fits: "unat (si_addr i - mb_base b) + unat (si_bytes i) \<le> length (mb_bytes b)"
    using assms(3) le unfolding at inside_def by linarith
  then show "write_defined b (si_addr i) (si_bytes i)"
    using assms(2) by (simp add: write_defined_def input_ok_def word_le_nat_alt)
  have "unat (si_addr i) - unat (mb_base b) \<le> j \<and> j < unat (si_addr i) - unat (mb_base b) + unat (si_bytes i) \<longleftrightarrow>
      in_span b i j" for j
    using le unfolding in_span_def by linarith
  moreover have "j - (unat (si_addr i) - unat (mb_base b)) = unat (mb_base b) + j - unat (si_addr i)" for j
    using le by linarith
  ultimately show "b\<lparr>mb_bytes := write_le (unat (si_bytes i)) v (unat (si_addr i - mb_base b)) (mb_bytes b)\<rparr> = put_bytes i v b"
    unfolding write_le_nth [OF fits] put_bytes_def unfolding at by simp
qed

lemma at_home_Cons:
  "at_home (b # bs) i 0 \<longleftrightarrow> inside b i"
  "at_home (b # bs) i (Suc k) \<longleftrightarrow> \<not> inside b i \<and> at_home bs i k"
  by (auto simp: at_home_def)

lemma upt_Suc_map: "[0..<Suc n] = 0 # map Suc [0..<n]"
  by (simp add: upt_conv_Cons map_Suc_upt del: upt_Suc)

lemma MemWrite_put:
  "list_all block_ok bs \<Longrightarrow> input_ok i \<Longrightarrow>
   MemWrite bs (si_addr i) (si_bytes i) v =
     Some (map (\<lambda>k. if at_home bs i k then put_bytes i v (bs ! k) else bs ! k) [0..<length bs])"
proof (induction bs)
  case (Cons b bs)
  then have b: "block_ok b" by simp
  show ?case
  proof (cases "inside b i")
    case True
    have "map ((!) bs) [0..<length bs] = bs" by (rule map_nth)
    with True block_holds_inside [OF b Cons.prems(2)] block_write(1) [OF b Cons.prems(2) True]
      block_write(2) [OF b Cons.prems(2) True, of v] show ?thesis
      by (simp add: upt_Suc_map at_home_Cons comp_def del: upt_Suc)
  next
    case False
    with Cons block_holds_inside [OF b Cons.prems(2)] show ?thesis
      by (simp add: upt_Suc_map at_home_Cons comp_def del: upt_Suc)
  qed
qed simp

lemma start_mem_length [simp]: "length (start_mem is assign bs) = length bs"
  by (simp add: start_mem_def)

lemma start_mem_nth:
  "k < length bs \<Longrightarrow> start_mem is assign bs ! k =
     (bs ! k)\<lparr>mb_bytes := map (start_byte bs is assign k) [0..<length (mb_bytes (bs ! k))]\<rparr>"
  by (simp add: start_mem_def)

lemma inside_start: "k < length bs \<Longrightarrow> inside (start_mem is assign bs ! k) i \<longleftrightarrow> inside (bs ! k) i"
  by (simp add: start_mem_nth inside_def)

lemma at_home_start: "at_home (start_mem is assign bs) i k \<longleftrightarrow> at_home bs i k"
  by (auto simp: at_home_def list_all_length inside_start)

lemma block_ok_start: "list_all block_ok bs \<Longrightarrow> list_all block_ok (start_mem is assign bs)"
  by (simp add: list_all_length start_mem_nth block_ok_def)

lemma start_mem_skip:
  "map_of assign (si_varId i) = None \<or> si_kind i = InReg \<Longrightarrow> start_mem (is @ [i]) assign bs = start_mem is assign bs"
  by (rule nth_equalityI)
    (auto simp: start_mem_nth start_byte_def last_set_snoc sets_byte_def split: option.splits intro!: map_cong)

lemma start_mem_put:
  assumes "map_of assign (si_varId i) = Some v" "si_kind i = InMem" "list_all block_ok bs" "input_ok i"
  shows "MemWrite (start_mem is assign bs) (si_addr i) (si_bytes i) v = Some (start_mem (is @ [i]) assign bs)"
proof -
  let ?us = "start_mem is assign bs"
  have byte: "start_byte bs (is @ [i]) assign k j =
      (if at_home bs i k \<and> in_span (bs ! k) i j then byte_of v (unat (mb_base (bs ! k)) + j - unat (si_addr i))
       else start_byte bs is assign k j)" for k j
    using assms(1,2) by (simp add: start_byte_def last_set_snoc sets_byte_def in_span_def byte_of_def)
  have "start_mem (is @ [i]) assign bs ! k = (if at_home ?us i k then put_bytes i v (?us ! k) else ?us ! k)"
    if k: "k < length bs" for k
    using k by (simp add: start_mem_nth at_home_start byte put_bytes_def in_span_def cong: if_cong)
  then have "map (\<lambda>k. if at_home ?us i k then put_bytes i v (?us ! k) else ?us ! k) [0..<length ?us] =
      start_mem (is @ [i]) assign bs"
    by (intro nth_equalityI) simp_all
  with MemWrite_put [OF block_ok_start [OF assms(3)] assms(4)] show ?thesis by simp
qed

section \<open>The inputs are applied\<close>

lemma ApplyInputs_snoc:
  "ApplyInputs s (is @ [i]) assign = Option.bind (ApplyInputs s is assign) (ApplyInput assign i)"
  by (induction "is" arbitrary: s) (auto split: option.splits)

lemma start_state_Nil: "start_state s [] assign = s"
proof -
  have "start_byte bs [] assign k = (!) (mb_bytes (bs ! k))" for bs k by (simp add: start_byte_def fun_eq_iff)
  then have "map (start_byte bs [] assign k) [0..<length (mb_bytes (bs ! k))] = mb_bytes (bs ! k)" for bs k
    by (simp only: map_nth)
  then have "start_mem [] assign bs = bs" for bs
    by (intro nth_equalityI) (simp_all add: start_mem_nth)
  then show ?thesis by (simp add: start_state_def start_regs_def start_reg_def Let_def)
qed

lemma ApplyInput_start:
  assumes "list_all block_ok (sd_mem s)" "si_kind i = InMem \<Longrightarrow> input_ok i"
  shows "ApplyInput assign i (start_state s is assign) = Some (start_state s (is @ [i]) assign)"
proof (cases "map_of assign (si_varId i)")
  case None
  then show ?thesis by (simp add: ApplyInput_def start_state_def start_regs_skip start_mem_skip)
next
  case (Some v)
  show ?thesis
  proof (cases "si_kind i")
    case InReg
    with Some show ?thesis
      by (simp add: ApplyInput_def start_state_def start_regs_put [OF Some InReg] start_mem_skip)
  next
    case InMem
    with start_mem_put [OF Some InMem assms(1) assms(2) [OF InMem]] Some show ?thesis
      by (simp add: ApplyInput_def start_state_def start_regs_skip)
  qed
qed

lemma ApplyInputs_start:
  "inputs_ok s inputs \<Longrightarrow> ApplyInputs s inputs assign = Some (start_state s inputs assign)"
proof (induction inputs rule: rev_induct)
  case (snoc i "is")
  then have "inputs_ok s is" and ok: "list_all block_ok (sd_mem s)" "si_kind i = InMem \<Longrightarrow> input_ok i"
    by (auto simp: inputs_ok_def list_all_iff block_ok_def input_ok_def)
  with snoc.IH ApplyInput_start [OF ok] show ?case by (simp add: ApplyInputs_snoc)
qed (simp add: start_state_Nil)

end
