(* ===== verification/Synthesis.thy ===== *)
theory Synthesis
  imports Seed_State
begin

unbundle bit_operations_syntax

text \<open>
  \<open>src/src/Core/Synthesis.{h,cpp}\<close>: the envelope check of a region and the synthesis pipeline. The interface
  \<open>ISymEngine\<close> is the record \<open>SymEngine\<close> of its two calls, taken as functions. \<open>SymEngine.cpp\<close> has two
  implementations of it: \<open>StubSymEngine\<close>, modelled, and \<open>TritonSymEngine\<close>, which hands the work to the Triton
  library and is an argument here, like the two calls of the solver that are used. The random generator
  (\<open>std::mt19937_64\<close>) is the sequence of its draws for the seed. The texts for the user
  (\<open>cleanedPseudoC\<close>, \<open>reasoning\<close>) and the quotient \<open>confidence\<close> are not part of the result; the counts they
  are made of are. A pipeline that runs into undefined behaviour of \<open>MemWrite\<close> has the result \<open>None\<close>.
\<close>

section \<open>The engine\<close>

datatype SymStatus = Ok | Unavailable | DecodeError | StepLimit | Unsupported | EscapedRegion

record SymValue =
  loc :: string
  expr :: ExprRef

record SymEngine =
  symbolizeRegion :: "SeedSource \<Rightarrow> u64 \<Rightarrow> u64 \<Rightarrow> SymbolicInput list \<Rightarrow> SymStatus \<times> SymValue list"
  runConcrete :: "SeedSource \<Rightarrow> u64 \<Rightarrow> u64 \<Rightarrow> SymStatus \<times> RegFile"

definition RegFile0 :: RegFile where
  \<comment> \<open>a default-constructed register file\<close>
  "RegFile0 = \<lparr>rax = 0, rbx = 0, rcx = 0, rdx = 0, rsi = 0, rdi = 0, rbp = 0, rsp = 0, r8 = 0, r9 = 0, r10 = 0, r11 = 0,
     r12 = 0, r13 = 0, r14 = 0, r15 = 0, rip = 0, rflags = 0\<rparr>"

definition StubSymEngine :: SymEngine where
  "StubSymEngine = \<lparr>symbolizeRegion = (\<lambda>seed startVA endVA inputs. (Unavailable, [])),
     runConcrete = (\<lambda>seed startVA endVA. (Unavailable, RegFile0))\<rparr>"

text \<open>\<open>SubstVars\<close> is \<open>Subst\<close> over a hash map.\<close>

definition SubstVars :: "(u64 \<times> u64) list \<Rightarrow> ExprRef \<Rightarrow> ExprRef" where
  "SubstVars assign e = Subst assign e"

section \<open>The envelope\<close>

record EnvelopeReport =
  inEnvelope :: bool
  reason :: string

definition envelope_fault :: "u64 \<Rightarrow> u64 \<Rightarrow> Instruction \<Rightarrow> string option" where
  \<comment> \<open>the body of the loop: the reason to refuse at this instruction\<close>
  "envelope_fault lo hi i =
     (if in_address i < lo \<or> in_address i \<ge> hi then None
      else if isCall i then Some ''region contains a CALL (out of envelope)''
      else if isRepString i then Some ''region contains a REP-string loop''
      else
        let m = map c_tolower (mnemonic i)
        in if m = ''syscall'' \<or> m = ''sysenter'' \<or> (length m \<ge> 3 \<and> take 3 m = ''int'')
           then Some ''region contains a syscall/int (out of envelope)''
           else if isBranch i \<and> HasBranchTarget i then
             (if branchTarget i \<le> in_address i \<and> branchTarget i \<ge> lo
              then Some ''region contains a loop (back-edge)''
              else if branchTarget i < lo \<or> branchTarget i \<ge> hi then Some ''branch leaves the region''
              else None)
           else None)"

fun CheckEnvelope :: "Instruction list \<Rightarrow> u64 \<Rightarrow> u64 \<Rightarrow> EnvelopeReport" where
  "CheckEnvelope [] lo hi = \<lparr>inEnvelope = True, reason = ''''\<rparr>"
| "CheckEnvelope (i # is) lo hi =
     (case envelope_fault lo hi i of
        Some r \<Rightarrow> \<lparr>inEnvelope = False, reason = r\<rparr>
      | None \<Rightarrow> CheckEnvelope is lo hi)"

section \<open>The pipeline\<close>

record SynthesisOptions =
  samples :: u32
  useZ3 :: bool

record SynthResult =
  res_inEnvelope :: bool
  rejectedReason :: string
  regionStart :: u64
  regionSize :: u32
  outputs :: "SymValue list"
  samplesPassed :: u32
  samplesTotal :: u32
  z3Equivalent :: bool

definition draw_width :: "SymbolicInput \<Rightarrow> u32" where
  "draw_width i = (if si_bytes i = 0 \<or> si_bytes i \<ge> 8 then 64 else si_bytes i * 8)"

text \<open>The assignment of one sample: \<open>assign[in.varId] = MaskToBits(rng(), bits)\<close> for every input in
  turn, the draws being numbered from \<open>k\<close>.\<close>

fun draw_inputs :: "(nat \<Rightarrow> u64) \<Rightarrow> nat \<Rightarrow> SymbolicInput list \<Rightarrow> (u64 \<times> u64) list \<Rightarrow> (u64 \<times> u64) list" where
  "draw_inputs rng k [] assign = assign"
| "draw_inputs rng k (i # is) assign =
     draw_inputs rng (k + 1) is (AList.update (si_varId i) (MaskToBits (rng k) (draw_width i)) assign)"

definition sample_passes :: "SymEngine \<Rightarrow> SeedSource \<Rightarrow> u64 \<Rightarrow> u64 \<Rightarrow> SymbolicInput list \<Rightarrow> SymValue \<Rightarrow>
    (u64 \<times> u64) list \<Rightarrow> bool option" where
  "sample_passes eng seed lo hi inputs prim assign =
     (case ApplyInputs seed inputs assign of
        None \<Rightarrow> None
      | Some sd \<Rightarrow>
          let (st, regs) = runConcrete eng sd lo hi
          in Some (case EvalConst (SubstVars assign (expr prim)) of
               None \<Rightarrow> False
             | Some p \<Rightarrow> st = Ok \<and>
                 (let w = (if expr prim \<noteq> Null then bits_of (expr prim) else 64)
                  in MaskToBits p w = MaskToBits (RegGet regs (loc prim)) w)))"

fun sample_loop :: "SymEngine \<Rightarrow> SeedSource \<Rightarrow> u64 \<Rightarrow> u64 \<Rightarrow> SymbolicInput list \<Rightarrow> SymValue \<Rightarrow> (nat \<Rightarrow> u64) \<Rightarrow>
    nat \<Rightarrow> nat \<Rightarrow> u32 \<Rightarrow> u32 option" where
  "sample_loop eng seed lo hi inputs prim rng k 0 passed = Some passed"
| "sample_loop eng seed lo hi inputs prim rng k (Suc left) passed =
     (case sample_passes eng seed lo hi inputs prim (draw_inputs rng k inputs []) of
        None \<Rightarrow> None
      | Some ok \<Rightarrow> sample_loop eng seed lo hi inputs prim rng (k + length inputs) left
          (if ok then passed + 1 else passed))"

definition Synthesize :: "Instruction list \<Rightarrow> u64 \<Rightarrow> u64 \<Rightarrow> SymbolicInput list \<Rightarrow> SeedSource \<Rightarrow> SymEngine \<Rightarrow>
    (ExprRef \<Rightarrow> ExprRef) \<Rightarrow> (ExprRef \<Rightarrow> int) \<Rightarrow> (nat \<Rightarrow> u64) \<Rightarrow> SynthesisOptions \<Rightarrow> SynthResult option" where
  "Synthesize insns lo hi inputs seed eng simp_solver sat_solver rng opt =
     (let res = \<lparr>res_inEnvelope = False, rejectedReason = '''', regionStart = lo, regionSize = ucast (hi - lo),
          outputs = [], samplesPassed = 0, samplesTotal = 0, z3Equivalent = False\<rparr>;
          env = CheckEnvelope insns lo hi
      in if \<not> inEnvelope env then Some (res\<lparr>rejectedReason := reason env\<rparr>)
         else
           let res1 = res\<lparr>res_inEnvelope := True\<rparr>;
               (st, outs) = symbolizeRegion eng seed lo hi inputs
           in if st \<noteq> Ok \<or> outs = []
              then Some (res1\<lparr>rejectedReason := ''symbolic execution produced no usable output''\<rparr>)
              else
                let simplified = map (\<lambda>v. v\<lparr>expr := simp_solver (expr v)\<rparr>) outs;
                    prim = hd simplified
                in case sample_loop eng seed lo hi inputs prim rng 0 (unat (samples opt)) 0 of
                     None \<Rightarrow> None
                   | Some passed \<Rightarrow> Some (res1\<lparr>outputs := simplified,
                       samplesPassed := passed,
                       samplesTotal := samples opt,
                       z3Equivalent := (useZ3 opt \<and> expr prim \<noteq> Null \<and>
                          sat_solver (Bin O_Ne (expr (hd outs)) (expr prim) 1) = 0)\<rparr>))"

section \<open>The envelope excludes loops\<close>

definition straight :: "u64 \<Rightarrow> u64 \<Rightarrow> Instruction \<Rightarrow> bool" where
  "straight lo hi i \<longleftrightarrow> \<not> isCall i \<and> \<not> isRepString i \<and>
     map c_tolower (mnemonic i) \<notin> {''syscall'', ''sysenter''} \<and> take 3 (map c_tolower (mnemonic i)) \<noteq> ''int'' \<and>
     (isBranch i \<and> HasBranchTarget i \<longrightarrow> in_address i < branchTarget i \<and> branchTarget i < hi)"

lemma envelope_fault_None:
  assumes "lo \<le> in_address i" "in_address i < hi"
  shows "envelope_fault lo hi i = None \<longleftrightarrow> straight lo hi i"
proof -
  have "length m < 3 \<Longrightarrow> take 3 m \<noteq> ''int''" for m :: string by (auto dest: arg_cong [where f = length])
  then show ?thesis
    using assms by (auto simp: envelope_fault_def straight_def Let_def not_le not_less)
qed

lemma CheckEnvelope_iff:
  "inEnvelope (CheckEnvelope insns lo hi) \<longleftrightarrow> (\<forall>i \<in> set insns. envelope_fault lo hi i = None)"
  by (induction insns) (auto split: option.splits)

text \<open>One step of an execution inside the region. An instruction is followed by the next one, a branch with a known
  target by that target, and a string instruction with a repeat prefix by itself. After a call, a system call
  or interrupt, a return, or a branch whose target is computed, execution may be anywhere.\<close>

definition system_insn :: "Instruction \<Rightarrow> bool" where
  "system_insn i \<longleftrightarrow> (let m = map c_tolower (mnemonic i) in
     m = ''syscall'' \<or> m = ''sysenter'' \<or> (\<exists>r. m = ''int'' @ r))"

definition computed_transfer :: "Instruction \<Rightarrow> bool" where
  "computed_transfer i \<longleftrightarrow> isRet i \<or> isBranch i \<and> \<not> HasBranchTarget i"

inductive region_step :: "Instruction list \<Rightarrow> u64 \<Rightarrow> u64 \<Rightarrow> u64 \<Rightarrow> u64 \<Rightarrow> bool" for insns lo hi where
  fall: "i \<in> set insns \<Longrightarrow> lo \<le> in_address i \<Longrightarrow> in_address i < hi \<Longrightarrow>
     region_step insns lo hi (in_address i) (in_address i + ucast (in_length i))"
| jump: "i \<in> set insns \<Longrightarrow> lo \<le> in_address i \<Longrightarrow> in_address i < hi \<Longrightarrow> isBranch i \<Longrightarrow> HasBranchTarget i \<Longrightarrow>
     region_step insns lo hi (in_address i) (branchTarget i)"
| again: "i \<in> set insns \<Longrightarrow> lo \<le> in_address i \<Longrightarrow> in_address i < hi \<Longrightarrow> isRepString i \<Longrightarrow>
     region_step insns lo hi (in_address i) (in_address i)"
| away: "i \<in> set insns \<Longrightarrow> lo \<le> in_address i \<Longrightarrow> in_address i < hi \<Longrightarrow>
     isCall i \<or> system_insn i \<or> computed_transfer i \<Longrightarrow> region_step insns lo hi (in_address i) a"

inductive_cases region_stepE: "region_step insns lo hi a b"

lemma straight_plain: "straight lo hi i \<Longrightarrow> \<not> isCall i \<and> \<not> isRepString i \<and> \<not> system_insn i"
  by (auto simp: straight_def system_insn_def Let_def)

lemma region_step_forward:
  assumes "inEnvelope (CheckEnvelope insns lo hi)" "region_step insns lo hi a b"
    "\<forall>i \<in> set insns. in_address i < in_address i + ucast (in_length i)"
    "\<forall>i \<in> set insns. \<not> computed_transfer i"
  shows "a < b"
proof -
  have ok: "straight lo hi i" if "i \<in> set insns" "lo \<le> in_address i" "in_address i < hi" for i
  proof -
    from assms(1) that(1) have "envelope_fault lo hi i = None" by (simp add: CheckEnvelope_iff)
    with envelope_fault_None [OF that(2,3)] show ?thesis by simp
  qed
  show ?thesis
    using assms(2)
  proof (rule region_stepE)
    fix i assume i: "i \<in> set insns" "lo \<le> in_address i" "in_address i < hi"
    note plain = straight_plain [OF ok [OF i]]
    show "a < b" if "a = in_address i" "b = in_address i + ucast (in_length i)" using assms(3) i that by simp
    show "a < b" if "a = in_address i" "b = branchTarget i" "isBranch i" "HasBranchTarget i"
      using ok [OF i] that by (simp add: straight_def)
    show "a < b" if "isRepString i" using plain that by simp
    show "a < b" if "isCall i \<or> system_insn i \<or> computed_transfer i" using plain assms(4) i that by blast
  qed
qed

section \<open>Counting the samples\<close>

text \<open>What a sample shows: started from the seed with the drawn inputs in their places, the concrete run succeeds and
  the named register ends up with the value of the expression under those inputs.\<close>

definition sample_true :: "SymEngine \<Rightarrow> SeedSource \<Rightarrow> u64 \<Rightarrow> u64 \<Rightarrow> SymbolicInput list \<Rightarrow> SymValue \<Rightarrow>
    (u64 \<times> u64) list \<Rightarrow> bool" where
  "sample_true eng seed lo hi inputs out assign \<longleftrightarrow>
     (\<exists>regs x. runConcrete eng (start_state seed inputs assign) lo hi = (Ok, regs) \<and> reg_value regs (loc out) = Some x \<and>
        (\<forall>env ld. den (under assign env) ld (expr out) = Some (uint x mod 2 ^ unat (bits_of (expr out)))))"

lemma sample_loop_count:
  assumes "inputs_ok seed inputs"
  shows "unat passed + left < 2 ^ 32 \<Longrightarrow>
   \<exists>n. sample_loop eng seed lo hi inputs prim rng k left passed = Some n \<and>
     unat n = unat passed + length (filter (\<lambda>s. sample_passes eng seed lo hi inputs prim
        (draw_inputs rng (k + s * length inputs) inputs []) = Some True) [0..<left])"
proof (induction left arbitrary: k passed)
  case (Suc left)
  let ?P = "\<lambda>k s. sample_passes eng seed lo hi inputs prim (draw_inputs rng (k + s * length inputs) inputs []) = Some True"
  have "[0..<Suc left] = 0 # map Suc [0..<left]" by (simp add: upt_conv_Cons map_Suc_upt del: upt_Suc)
  then have split: "length (filter (?P k) [0..<Suc left]) =
      of_bool (?P k 0) + length (filter (?P (k + length inputs)) [0..<left])"
    by (simp add: filter_map comp_def ac_simps)
  obtain ok where ok: "sample_passes eng seed lo hi inputs prim (draw_inputs rng k inputs []) = Some ok"
    by (cases "runConcrete eng (start_state seed inputs (draw_inputs rng k inputs [])) lo hi")
      (simp add: sample_passes_def ApplyInputs_start [OF assms])
  have "unat (passed + 1) = unat passed + 1"
    using Suc.prems by (simp add: unat_word_ariths)
  then show ?case using Suc.IH [of "passed + 1"] Suc.IH [of passed] Suc.prems split ok by simp
qed simp

lemma passes_true:
  assumes ok: "inputs_ok seed inputs" and wf: "wf_expr (expr out)" and named: "reg_named (loc out) \<noteq> None"
    and pass: "sample_passes eng seed lo hi inputs out assign = Some True"
  shows "sample_true eng seed lo hi inputs out assign"
proof -
  let ?w = "bits_of (expr out)"
  obtain st regs where run: "runConcrete eng (start_state seed inputs assign) lo hi = (st, regs)" by force
  obtain x where x: "reg_value regs (loc out) = Some x" using named reg_value_iff by (cases "reg_value regs (loc out)") auto
  have "expr out \<noteq> Null" using wf by (cases "expr out") auto
  with pass run x obtain p where p: "EvalConst (Subst assign (expr out)) = Some p" "st = Ok"
      "MaskToBits p ?w = MaskToBits x ?w"
    by (auto simp: sample_passes_def ApplyInputs_start [OF ok] SubstVars_def RegGet_value Let_def split: option.splits)
  from EvalConst_below [OF Subst_wf [OF wf] p(1)] p(3) have "uint p = uint x mod 2 ^ unat ?w"
    by (simp add: word_uint_eq_iff)
  with EvalConst_value [OF Subst_wf [OF wf] p(1)] have
    "den (under assign env) ld (expr out) = Some (uint x mod 2 ^ unat ?w)" for env ld
    by (simp add: Subst_den)
  with run x p(2) show ?thesis by (auto simp: sample_true_def)
qed

lemma true_passes:
  assumes ok: "inputs_ok seed inputs" and wf: "wf_expr (expr out)" "load_free (expr out)"
    and vars: "fst ` vars_of (expr out) \<subseteq> set (keys assign)"
    and true: "sample_true eng seed lo hi inputs out assign"
  shows "sample_passes eng seed lo hi inputs out assign = Some True"
proof -
  let ?w = "bits_of (expr out)"
  from true obtain regs x where run: "runConcrete eng (start_state seed inputs assign) lo hi = (Ok, regs)"
    and x: "reg_value regs (loc out) = Some x"
    and val: "\<And>env ld. den (under assign env) ld (expr out) = Some (uint x mod 2 ^ unat ?w)"
    by (auto simp: sample_true_def)
  have "map_option uint (EvalConst (Subst assign (expr out))) = den (under assign (\<lambda>i. 0)) (\<lambda>a n. 0) (expr out)"
    using EvalConst_ground [OF Subst_wf [OF wf(1)] Subst_ground [OF wf(2) vars]] by (simp add: Subst_den)
  with val obtain p where p: "EvalConst (Subst assign (expr out)) = Some p" "uint p = uint x mod 2 ^ unat ?w" by auto
  then have "MaskToBits p ?w = MaskToBits x ?w" by (simp add: word_uint_eq_iff)
  moreover have "expr out \<noteq> Null" using wf(1) by (cases "expr out") auto
  ultimately show ?thesis
    using run p(1) x by (simp add: sample_passes_def ApplyInputs_start [OF ok] SubstVars_def RegGet_value)
qed

section \<open>Simplification adds no variable and no load\<close>

definition within :: "ExprRef \<Rightarrow> ExprRef \<Rightarrow> bool" where
  "within f e \<longleftrightarrow> vars_of f \<subseteq> vars_of e \<and> (load_free e \<longrightarrow> load_free f)"

lemma within_refl [simp]: "within e e" and within_C [simp]: "within (C v w) e"
  by (simp_all add: within_def C_def)

lemma within_trans: "within f e \<Longrightarrow> within g f \<Longrightarrow> within g e"
  by (auto simp: within_def)

lemma within_kid: "op \<noteq> O_Var \<Longrightarrow> k \<in> set ks \<Longrightarrow> within k (Node op w v ks)"
  by (auto simp: within_def)

lemma inner_of_kid: "inner_of op a = Some x \<Longrightarrow> op \<noteq> O_Var \<Longrightarrow> wf_expr a \<Longrightarrow> op \<in> {O_Not, O_Neg} \<Longrightarrow> within x a"
  by (cases a) (auto simp: wf_node_def Cons_eq_map_conv within_def split: if_splits)

lemma within_node:
  assumes "op \<noteq> O_Var" "length js = length ks" "\<And>i. i < length ks \<Longrightarrow> within (js ! i) (ks ! i)"
  shows "within (Node op w v js) (Node op w v ks)"
proof -
  have "vars_of j \<subseteq> \<Union> (vars_of ` set ks)" if "j \<in> set js" for j
    using that assms(2,3) by (fastforce simp: in_set_conv_nth within_def)
  moreover have "load_free j" if "j \<in> set js" "\<forall>k \<in> set ks. load_free k" for j
    using that assms(2,3) by (force simp: in_set_conv_nth within_def)
  ultimately show ?thesis using assms(1) by (auto simp: within_def)
qed

lemma identities_within:
  assumes "op \<noteq> O_Var" "wf_expr (Node op w v ks)"
  shows "within (identities op w (Node op w v ks) (kid Null ks 0) (kid Null ks 1) (kid Null ks 2)) (Node op w v ks)"
proof -
  let ?e = "Node op w v ks"
  have k: "within (kid Null ks i) ?e" for i
    using within_kid [OF assms(1)] by (auto simp: kid_def) (simp add: within_def)
  have inner: "within x ?e" if x: "inner_of op (kid Null ks 0) = Some x" and op: "op \<in> {O_Not, O_Neg}" for x
  proof -
    from op assms(2) obtain a where a: "ks = [a]" "wf_expr a"
      by (auto simp: wf_node_def Cons_eq_map_conv)
    then have "within x a" using inner_of_kid x op by auto
    with k [of 0] a within_trans show ?thesis by fastforce
  qed
  show ?thesis
    using k inner by (cases op) (auto split: option.splits simp del: vars_of.simps)
qed

lemma simplifyOnce_within: "wf_expr e \<Longrightarrow> within (simplifyOnce e) e"
proof (induction e)
  case (Node op w v ks)
  show ?case
  proof (cases "op = O_Const \<or> op = O_Var")
    case False
    let ?js = "map simplifyOnce ks"
    have node: "within (Node op w v ?js) (Node op w v ks)"
      using Node False by (intro within_node) auto
    have "refines (Node op w v ks) (Node op w v ?js)"
      using Node.prems simplifyOnce_refines by (intro refines_node) simp_all
    then have "wf_expr (Node op w v ?js)" by (simp add: refines_def)
    from identities_within [OF _ this] False
    have "within (simplify_node op w v ?js) (Node op w v ?js)" by (auto simp: simplify_node_def Let_def split: option.splits)
    from within_trans [OF node this] False show ?thesis by simp
  qed auto
qed simp

lemma Simplify_within: "wf_expr e \<Longrightarrow> within (Simplify e) e"
proof -
  have "wf_expr e \<Longrightarrow> within (simplify_passes n e) e" for n
  proof (induction n arbitrary: e)
    case (Suc n)
    have "wf_expr (simplifyOnce e)" using simplifyOnce_refines [OF Suc.prems] by (simp add: refines_def)
    with Suc.IH within_trans [OF simplifyOnce_within [OF Suc.prems]] simplifyOnce_within [OF Suc.prems]
    show ?case by (simp add: Let_def)
  qed simp
  then show "wf_expr e \<Longrightarrow> ?thesis" by (simp add: Simplify_def)
qed

section \<open>The draws\<close>

text \<open>Sample by sample every variable gets the next word of the generator, cut to the width of its input.\<close>

definition draw_bits :: "SymbolicInput \<Rightarrow> nat" where
  "draw_bits i = (if si_bytes i = 0 then 64 else min 64 (8 * unat (si_bytes i)))"

definition is_draw :: "(nat \<Rightarrow> u64) \<Rightarrow> nat \<Rightarrow> SymbolicInput list \<Rightarrow> (u64 \<times> u64) list \<Rightarrow> bool" where
  "is_draw rng k inputs assign \<longleftrightarrow> map_of assign =
     (\<lambda>x. case List.find (\<lambda>q. si_varId (inputs ! q) = x) (rev [0..<length inputs]) of
        None \<Rightarrow> None
      | Some q \<Rightarrow> Some (of_int (uint (rng (k + q)) mod 2 ^ draw_bits (inputs ! q))))"

lemma draw_width_bits: "MaskToBits v (draw_width i) = of_int (uint v mod 2 ^ draw_bits i)"
proof (cases "si_bytes i = 0 \<or> si_bytes i \<ge> 8")
  case True
  then have "draw_bits i = 64" by (auto simp: draw_bits_def word_le_nat_alt)
  moreover have "uint v mod 2 ^ 64 = uint v" using uint_lt2p [of v] by (intro mod_pos_pos_trivial) simp_all
  ultimately show ?thesis using True by (simp add: draw_width_def MaskToBits_def)
next
  case False
  then have b: "unat (si_bytes i) < 8" by (simp add: word_less_nat_alt not_le)
  then have w: "unat (si_bytes i * 8) = 8 * unat (si_bytes i)" by (simp add: unat_word_ariths)
  have "draw_bits i = 8 * unat (si_bytes i)" using False b by (simp add: draw_bits_def)
  moreover have "uint (MaskToBits v (draw_width i)) = uint v mod 2 ^ (8 * unat (si_bytes i))"
    using False b by (simp add: draw_width_def w word_le_nat_alt)
  ultimately show ?thesis by (metis word_of_int_uint)
qed

lemma draw_inputs_snoc:
  "draw_inputs rng k (is @ [i]) assign =
     AList.update (si_varId i) (MaskToBits (rng (k + length is)) (draw_width i)) (draw_inputs rng k is assign)"
  by (induction "is" arbitrary: k assign) (simp_all add: ac_simps)

lemma find_Some_in: "List.find P xs = Some x \<Longrightarrow> x \<in> set xs"
  by (induction xs) (auto split: if_splits)

lemma draw_inputs_draw: "is_draw rng k inputs (draw_inputs rng k inputs [])"
proof (induction inputs rule: rev_induct)
  case (snoc i "is")
  let ?f = "\<lambda>is x. List.find (\<lambda>q. si_varId (is ! q) = x) (rev [0..<length is])"
  have prefix: "List.find (\<lambda>q. si_varId ((is @ [i]) ! q) = x) (rev [0..<length is]) = ?f is x" for x
    by (rule find_cong) (auto simp: nth_append)
  have last: "?f (is @ [i]) x = (if si_varId i = x then Some (length is) else ?f is x)" for x
    by (simp add: prefix)
  have below: "q < length is" if "?f is x = Some q" for q x
    using that find_Some_in [of _ "rev [0..<length is]" q] by simp
  have "map_of (draw_inputs rng k (is @ [i]) []) x =
      (case ?f (is @ [i]) x of None \<Rightarrow> None
       | Some q \<Rightarrow> Some (of_int (uint (rng (k + q)) mod 2 ^ draw_bits ((is @ [i]) ! q))))" for x
  proof (cases "si_varId i = x")
    case True
    then show ?thesis by (simp add: last draw_inputs_snoc draw_width_bits)
  next
    case False
    with snoc below show ?thesis
      unfolding last by (cases "?f is x") (simp_all add: draw_inputs_snoc is_draw_def nth_append)
  qed
  then show ?case by (simp only: is_draw_def fun_eq_iff) blast
qed (simp add: is_draw_def)

lemma draw_inputs_keys: "fst ` set (draw_inputs rng k inputs assign) = si_varId ` set inputs \<union> fst ` set assign"
proof -
  have "fst ` set (AList.update i v m) = insert i (fst ` set m)" for i :: u64 and v :: u64 and m
    by (simp add: update_conv' flip: dom_map_of_conv_image_fst)
  then show ?thesis by (induction inputs arbitrary: k assign) auto
qed

lemma start_state_cong: "map_of a = map_of b \<Longrightarrow> start_state seed inputs a = start_state seed inputs b"
proof -
  assume eq: "map_of a = map_of b"
  then have last: "last_set P a inputs = last_set P b inputs" for P by (simp only: last_set_def)
  then have "start_reg inputs a = start_reg inputs b" by (intro ext) (simp add: start_reg_def)
  moreover have "start_byte bs inputs a = start_byte bs inputs b" for bs by (intro ext) (simp add: start_byte_def last)
  ultimately show ?thesis by (simp add: start_state_def start_regs_def start_mem_def)
qed

lemma sample_true_cong:
  assumes "map_of a = map_of b"
  shows "sample_true eng seed lo hi inputs out a = sample_true eng seed lo hi inputs out b"
proof -
  have "under a = under b" using assms by (intro ext) (simp add: under_def)
  then show ?thesis by (simp add: sample_true_def start_state_cong [OF assms])
qed

section \<open>What the result promises\<close>

text \<open>C24: an accepted region cannot loop. If no instruction wraps around the address space, and the region has no
  return and no branch whose target is computed (which the check lets through), every step of an execution
  in it goes to a higher address, so no instruction is ever reached again.\<close>

theorem CheckEnvelope_no_loop:
  assumes "inEnvelope (CheckEnvelope insns lo hi)"
    "\<forall>i \<in> set insns. in_address i < in_address i + ucast (in_length i)"
    "\<forall>i \<in> set insns. \<not> computed_transfer i"
  shows "\<not> (region_step insns lo hi)\<^sup>+\<^sup>+ a a"
proof
  assume "(region_step insns lo hi)\<^sup>+\<^sup>+ a a"
  moreover have "(region_step insns lo hi)\<^sup>+\<^sup>+ x y \<Longrightarrow> x < y" for x y
    by (induction rule: tranclp_induct) (auto dest: region_step_forward [OF assms(1) _ assms(2,3)])
  ultimately show False by blast
qed

lemma Synthesize_ok:
  assumes "inEnvelope (CheckEnvelope insns lo hi)" "symbolizeRegion eng seed lo hi inputs = (Ok, v # vs)"
    "sample_loop eng seed lo hi inputs (v\<lparr>expr := sm (expr v)\<rparr>) rng 0 (unat (samples opt)) 0 = Some n"
  shows "Synthesize insns lo hi inputs seed eng sm sat rng opt =
    Some \<lparr>res_inEnvelope = True, rejectedReason = '''', regionStart = lo, regionSize = ucast (hi - lo),
     outputs = map (\<lambda>v. v\<lparr>expr := sm (expr v)\<rparr>) (v # vs), samplesPassed = n, samplesTotal = samples opt,
     z3Equivalent = (useZ3 opt \<and> sm (expr v) \<noteq> Null \<and> sat (Bin O_Ne (expr v) (sm (expr v)) 1) = 0)\<rparr>"
  using assms by (simp add: Synthesize_def Let_def)

lemma passed_samples:
  assumes "inputs_ok seed inputs"
  obtains n where "sample_loop eng seed lo hi inputs prim rng 0 (unat (samples opt)) 0 = Some n"
    "unat n = card {s. s < unat (samples opt) \<and>
       sample_passes eng seed lo hi inputs prim (draw_inputs rng (s * length inputs) inputs []) = Some True}"
proof -
  let ?P = "\<lambda>s. sample_passes eng seed lo hi inputs prim (draw_inputs rng (s * length inputs) inputs []) = Some True"
  obtain n where "sample_loop eng seed lo hi inputs prim rng 0 (unat (samples opt)) 0 = Some n"
    "unat n = length (filter ?P [0..<unat (samples opt)])"
    using sample_loop_count [OF assms, of 0 "unat (samples opt)" eng lo hi prim rng 0]
      unsigned_less [of "samples opt", where ?'a = nat] by auto
  moreover have "length (filter ?P [0..<unat (samples opt)]) = card {s. s < unat (samples opt) \<and> ?P s}"
    using distinct_card [of "filter ?P [0..<unat (samples opt)]"] by simp
  ultimately show ?thesis using that by simp
qed

lemma wf_differ:
  "wf_expr a \<Longrightarrow> wf_expr b \<Longrightarrow> bits_of a = bits_of b \<Longrightarrow> wf_expr (Bin O_Ne a b 1)"
  by (simp add: Bin_def wf_node_def)

text \<open>The samples that are true: one for each draw under which the run and the expression agree.\<close>

definition true_samples :: "SymEngine \<Rightarrow> SeedSource \<Rightarrow> u64 \<Rightarrow> u64 \<Rightarrow> SymbolicInput list \<Rightarrow> (nat \<Rightarrow> u64) \<Rightarrow> nat \<Rightarrow>
    SymValue \<Rightarrow> nat set" where
  "true_samples eng seed lo hi inputs rng n out = {s. s < n \<and>
     (\<exists>assign. is_draw rng (s * length inputs) inputs assign \<and> sample_true eng seed lo hi inputs out assign)}"

lemma true_samples_draw:
  "true_samples eng seed lo hi inputs rng n out = {s. s < n \<and>
     sample_true eng seed lo hi inputs out (draw_inputs rng (s * length inputs) inputs [])}"
proof -
  have "(\<exists>assign. is_draw rng k inputs assign \<and> sample_true eng seed lo hi inputs out assign) \<longleftrightarrow>
      sample_true eng seed lo hi inputs out (draw_inputs rng k inputs [])" for k
    using draw_inputs_draw [of rng k inputs] sample_true_cong unfolding is_draw_def by metis
  then show ?thesis by (simp add: true_samples_def)
qed

text \<open>C23: the two badges of a result are truthful, for any symbolic engine and any simplifier. Every sample counted
  as passed is true: the concrete run, from the seed with the drawn values in the named registers and in
  memory, succeeded and left in the output's register exactly the value of the shown expression. When that
  expression reads no memory and only the inputs, every true sample is counted. And \<open>z3Equivalent\<close>, decided
  by the default solver, is only set when the simplified output equals the original for every choice of
  variables and memory. The output has to be a register: of any other place the count says nothing.\<close>

theorem Synthesize_badges:
  assumes "inEnvelope (CheckEnvelope insns lo hi)" "symbolizeRegion eng seed lo hi inputs = (Ok, v # vs)"
    and ok: "inputs_ok seed inputs" "reg_named (loc v) \<noteq> None"
    and wf: "wf_expr (expr v)" "wf_expr (sm (expr v))" "bits_of (sm (expr v)) = bits_of (expr v)"
  shows "\<exists>r. Synthesize insns lo hi inputs seed eng sm isSat rng opt = Some r \<and>
    hd (outputs r) = v\<lparr>expr := sm (expr v)\<rparr> \<and>
    (let true = true_samples eng seed lo hi inputs rng (unat (samples opt)) (hd (outputs r))
     in unat (samplesPassed r) \<le> card true \<and>
        (load_free (sm (expr v)) \<and> fst ` vars_of (sm (expr v)) \<subseteq> si_varId ` set inputs \<longrightarrow>
          unat (samplesPassed r) = card true)) \<and>
    (z3Equivalent r \<longrightarrow> den env ld (expr v) = Some x \<longrightarrow> den env ld (expr (hd (outputs r))) = Some y \<longrightarrow> x = y)"
proof -
  let ?p = "v\<lparr>expr := sm (expr v)\<rparr>" and ?n = "unat (samples opt)"
  let ?A = "\<lambda>s. draw_inputs rng (s * length inputs) inputs []"
  let ?C = "{s. s < ?n \<and> sample_passes eng seed lo hi inputs ?p (?A s) = Some True}"
  let ?T = "true_samples eng seed lo hi inputs rng ?n ?p"
  obtain k where k: "sample_loop eng seed lo hi inputs ?p rng 0 ?n 0 = Some k" "unat k = card ?C"
    using passed_samples [OF ok(1)] .
  have sub: "?C \<subseteq> ?T" using passes_true [OF ok(1), of ?p] wf(2) ok(2) by (auto simp: true_samples_draw)
  have "finite ?T" by (simp add: true_samples_def)
  then have le: "card ?C \<le> card ?T" using sub by (rule card_mono)
  have eq: "card ?C = card ?T" if "load_free (sm (expr v))" "fst ` vars_of (sm (expr v)) \<subseteq> si_varId ` set inputs"
  proof -
    have "set (keys (?A s)) = si_varId ` set inputs" for s by (simp add: draw_inputs_keys [where assign = "[]", simplified])
    then have "?T \<subseteq> ?C" using true_passes [OF ok(1), of ?p] wf(2) that by (auto simp: true_samples_draw)
    with sub show ?thesis by (simp add: subset_antisym)
  qed
  have "x = y" if "isSat (Bin O_Ne (expr v) (sm (expr v)) 1) = 0" "den env ld (expr v) = Some x"
    "den env ld (sm (expr v)) = Some y"
    using isSat_sound(1) [OF wf_differ [OF wf(1,2) wf(3) [symmetric]] that(1), of env ld "of_bool (x \<noteq> y)"] that(2,3)
    by (simp add: Bin_def bind_value_def)
  with k le eq show ?thesis by (simp add: Synthesize_ok [where sm = sm, OF assms(1,2) k(1)] Let_def)
qed

text \<open>The engine is right about a region: whatever values the inputs take, its concrete run from the state that holds
  them succeeds and leaves in each output's register the value of the output's expression.\<close>

definition engine_right :: "SymEngine \<Rightarrow> SeedSource \<Rightarrow> u64 \<Rightarrow> u64 \<Rightarrow> SymbolicInput list \<Rightarrow> SymValue list \<Rightarrow> bool" where
  "engine_right eng seed lo hi inputs outs \<longleftrightarrow>
     symbolizeRegion eng seed lo hi inputs = (Ok, outs) \<and>
     (\<forall>assign. set (keys assign) = si_varId ` set inputs \<longrightarrow>
        (\<forall>v \<in> set outs. sample_true eng seed lo hi inputs v assign))"

lemma right_engine_passes:
  assumes ok: "inputs_ok seed inputs" and right: "engine_right eng seed lo hi inputs (v # vs)"
    and wf: "wf_expr (expr v)" "load_free (expr v)" and vars: "fst ` vars_of (expr v) \<subseteq> si_varId ` set inputs"
  shows "sample_passes eng seed lo hi inputs (v\<lparr>expr := Simplify (expr v)\<rparr>) (draw_inputs rng k inputs []) = Some True"
proof -
  let ?e = "Simplify (expr v)" and ?m = "draw_inputs rng k inputs []"
  have ids: "set (keys ?m) = si_varId ` set inputs" by (simp add: draw_inputs_keys [of rng k inputs "[]", simplified])
  then have true: "sample_true eng seed lo hi inputs v ?m" using right by (simp add: engine_right_def)
  have e: "wf_expr ?e" "load_free ?e" "vars_of ?e \<subseteq> vars_of (expr v)" "bits_of ?e = bits_of (expr v)"
    using Simplify_refines [OF wf(1)] Simplify_within [OF wf(1)] wf(2) by (auto simp: refines_def within_def)
  then have vars: "fst ` vars_of ?e \<subseteq> set (keys ?m)" using vars ids by (metis (no_types, lifting) image_mono order_trans)
  have "sample_true eng seed lo hi inputs (v\<lparr>expr := ?e\<rparr>) ?m"
    using true Simplify_refines [OF wf(1)] e(4) by (auto simp: sample_true_def refines_def)
  with true_passes [OF ok, of "v\<lparr>expr := ?e\<rparr>"] e(1,2) vars show ?thesis by simp
qed

text \<open>C22: the pipeline rejects nothing that is right. With the default solver, a region inside the envelope
  whose symbolic output is free of memory reads and agrees with its concrete execution, whatever values the
  named registers and the memory bytes of the inputs hold, passes every sample, and the simplified outputs
  that are shown keep the value of the engine's.\<close>

theorem Synthesize_accepts:
  assumes "inEnvelope (CheckEnvelope insns lo hi)" "inputs_ok seed inputs" "engine_right eng seed lo hi inputs (v # vs)"
    "\<forall>u \<in> set (v # vs). wf_expr (expr u)" "load_free (expr v)" "fst ` vars_of (expr v) \<subseteq> si_varId ` set inputs"
  shows "\<exists>r. Synthesize insns lo hi inputs seed eng solver_simplify isSat rng opt = Some r \<and>
    res_inEnvelope r \<and> samplesPassed r = samples opt \<and> samplesTotal r = samples opt \<and>
    list_all2 (\<lambda>u u1. loc u1 = loc u \<and> refines (expr u) (expr u1)) (v # vs) (outputs r)"
proof -
  have sym_ok: "symbolizeRegion eng seed lo hi inputs = (Ok, v # vs)" using assms(3) by (simp add: engine_right_def)
  let ?p = "v\<lparr>expr := solver_simplify (expr v)\<rparr>"
  have "sample_passes eng seed lo hi inputs ?p (draw_inputs rng k inputs []) = Some True" for k
    using right_engine_passes [OF assms(2,3) _ assms(5,6)] assms(4) by (simp add: solver_simplify_def)
  then obtain n where n: "sample_loop eng seed lo hi inputs ?p rng 0 (unat (samples opt)) 0 = Some n"
    "unat n = unat (samples opt)"
    using passed_samples [OF assms(2), of eng lo hi ?p rng opt] by auto
  then have "n = samples opt" by (simp add: word_unat_eq_iff)
  moreover have "list_all2 (\<lambda>u u1. loc u1 = loc u \<and> refines (expr u) (expr u1)) us (map (\<lambda>v. v\<lparr>expr := Simplify (expr v)\<rparr>) us)"
    if "\<forall>u \<in> set us. wf_expr (expr u)" for us
    using that by (induction us) (auto simp: Simplify_refines)
  from this [OF assms(4)] show ?thesis
    using calculation by (simp add: Synthesize_ok [where sm = solver_simplify, OF assms(1) sym_ok n(1)]) (simp add: solver_simplify_def)
qed

section \<open>A region and an engine\<close>

definition blank_insn :: Instruction where
  "blank_insn = \<lparr>in_address = 0, in_length = 1, in_bytes = '''', mnemonic = '''', operands = '''', prefixes = [],
     isBranch = False, isCall = False, isRet = False, isRepString = False, branchTarget = 0, branchTargetValid = False,
     flow = \<lparr>fl_kind = FK_None, directTargetValid = False, directTarget = 0, delaySlots = 0\<rparr>, typedOperands = [],
     registersRead = [], registersWritten = [], flagsRead = 0, flagsWritten = 0, comment = '''', extraTargets = [],
     switchInfo = \<lparr>defaultTarget = 0, defaultTargetValid = False, sw_cases = []\<rparr>,
     farTarget = \<lparr>segment = 0, offset = 0, offsetBits = 0, far_valid = False, linearAddress = 0, linearAddressValid = False\<rparr>\<rparr>"

text \<open>\<open>mov rax, rcx; add rax, 1\<close>.\<close>

definition demo_insns :: "Instruction list" where
  "demo_insns = [blank_insn\<lparr>in_address := 0x1000, in_length := 3, mnemonic := ''mov''\<rparr>,
     blank_insn\<lparr>in_address := 0x1003, in_length := 4, mnemonic := ''add''\<rparr>]"

lemma demo_envelope: "inEnvelope (CheckEnvelope demo_insns 0x1000 0x1007)"
  by (simp add: demo_insns_def blank_insn_def envelope_fault_def Let_def c_tolower_def)

theorem CheckEnvelope_no_loop_witness: "\<not> (region_step demo_insns 0x1000 0x1007)\<^sup>+\<^sup>+ 0x1000 0x1000"
proof -
  have "\<forall>i \<in> set demo_insns. in_address i < in_address i + ucast (in_length i)"
    "\<forall>i \<in> set demo_insns. \<not> computed_transfer i"
    by (simp_all add: demo_insns_def blank_insn_def computed_transfer_def)
  with demo_envelope show ?thesis by (rule CheckEnvelope_no_loop)
qed

text \<open>The inputs are the register \<open>ecx\<close> and a byte of memory; the output is \<open>rax\<close>.\<close>

definition demo_seed :: SeedSource where
  "demo_seed = \<lparr>sd_arch = X64, sd_regs = RegFile0, sd_mem = [\<lparr>mb_base = 0x2000, mb_bytes = [0, 0], mb_perms = 3\<rparr>]\<rparr>"

definition demo_input :: SymbolicInput where
  "demo_input = \<lparr>si_kind = InReg, regName = ''ecx'', si_addr = 0, si_bytes = 8, si_varId = 5\<rparr>"

definition demo_byte :: SymbolicInput where
  "demo_byte = \<lparr>si_kind = InMem, regName = '''', si_addr = 0x2001, si_bytes = 1, si_varId = 6\<rparr>"

definition demo_output :: SymValue where
  "demo_output = \<lparr>loc = ''rax'', expr = Bin O_Add (Bin O_Add (Var 5 64) (C 0 64) 0) (C 1 64) 0\<rparr>"

definition demo_engine :: SymEngine where
  "demo_engine = \<lparr>symbolizeRegion = (\<lambda>seed lo hi inputs. (Ok, [demo_output])),
     runConcrete = (\<lambda>seed lo hi. (Ok, (sd_regs seed)\<lparr>rax := rcx (sd_regs seed) + 1\<rparr>))\<rparr>"

lemma demo_den: "map_of assign 5 = Some v \<Longrightarrow> den (under assign env) ld (expr demo_output) = Some (uint (v + 1))"
  by (simp add: demo_output_def Bin_def Var_def C_def MaskToBits_def under_def bind_value_def uint_word_ariths
      word_le_nat_alt mod_simps)

lemma demo_names: "reg_named ''ecx'' = Some ''rcx''" "reg_named ''rax'' = Some ''rax''"
  by (simp_all add: reg_named_def reg_families_def c_tolower_def)

lemma demo_start: "map_of assign 5 = Some v \<Longrightarrow> rcx (sd_regs (start_state demo_seed [demo_input, demo_byte] assign)) = v"
  by (simp add: start_state_def start_regs_def start_reg_def last_set_def demo_input_def demo_byte_def demo_names Let_def
      split: option.splits)

lemma demo_loc: "loc demo_output = ''rax''" "bits_of (expr demo_output) = 64"
  by (simp_all add: demo_output_def Bin_def Var_def)

lemma demo_inputs: "inputs_ok demo_seed [demo_input, demo_byte]"
  by (simp add: inputs_ok_def demo_seed_def demo_input_def demo_byte_def)

lemma demo_right: "engine_right demo_engine demo_seed lo hi [demo_input, demo_byte] [demo_output]"
  unfolding engine_right_def
proof (intro conjI allI impI ballI)
  show "symbolizeRegion demo_engine demo_seed lo hi [demo_input, demo_byte] = (Ok, [demo_output])" by (simp add: demo_engine_def)
  fix assign :: "(u64 \<times> u64) list" and u
  assume "set (keys assign) = si_varId ` set [demo_input, demo_byte]" and u: "u \<in> set [demo_output]"
  then have "map_of assign 5 \<noteq> None" by (simp add: demo_input_def demo_byte_def map_of_eq_None_iff)
  then obtain v where v: "map_of assign 5 = Some v" by blast
  define r where "r = sd_regs (start_state demo_seed [demo_input, demo_byte] assign)"
  have "reg_value (r\<lparr>rax := v + 1\<rparr>) ''rax'' = Some (v + 1)" by (simp add: reg_value_def demo_names reg_read_def)
  moreover have "runConcrete demo_engine (start_state demo_seed [demo_input, demo_byte] assign) lo hi = (Ok, r\<lparr>rax := v + 1\<rparr>)"
    using demo_start [OF v] by (simp add: demo_engine_def r_def)
  moreover have "uint (v + 1) mod 2 ^ 64 = uint (v + 1)" using uint_lt2p [of "v + 1"] by (intro mod_pos_pos_trivial) simp_all
  ultimately show "sample_true demo_engine demo_seed lo hi [demo_input, demo_byte] u assign"
    using u demo_den [OF v] by (auto simp: sample_true_def demo_loc)
qed

lemma demo_output_wf: "wf_expr (expr demo_output)"
  by (simp add: demo_output_def Bin_def Var_def C_def MaskToBits_def wf_node_def word_le_nat_alt)

lemma demo_sym: "symbolizeRegion demo_engine demo_seed lo hi inputs = (Ok, [demo_output])"
  by (simp add: demo_engine_def)

lemma demo_within: "load_free (expr demo_output)" "fst ` vars_of (expr demo_output) \<subseteq> si_varId ` set [demo_input, demo_byte]"
  by (simp_all add: demo_output_def demo_input_def Bin_def Var_def C_def)

theorem Synthesize_badges_witness:
  "\<exists>r. Synthesize demo_insns 0x1000 0x1007 [demo_input, demo_byte] demo_seed demo_engine Simplify isSat (\<lambda>k. of_nat k)
       \<lparr>samples = 3, useZ3 = True\<rparr> = Some r \<and>
     unat (samplesPassed r) = card (true_samples demo_engine demo_seed 0x1000 0x1007 [demo_input, demo_byte]
       (\<lambda>k. of_nat k) 3 (hd (outputs r)))"
proof -
  let ?e = "Simplify (expr demo_output)"
  have e: "wf_expr ?e" "bits_of ?e = bits_of (expr demo_output)"
    using Simplify_refines [OF demo_output_wf] by (simp_all add: refines_def)
  have "load_free ?e \<and> fst ` vars_of ?e \<subseteq> si_varId ` set [demo_input, demo_byte]"
    using Simplify_within [OF demo_output_wf] demo_within unfolding within_def
    by (meson image_mono order_trans)
  moreover have "reg_named (loc demo_output) \<noteq> None" by (simp add: demo_loc demo_names)
  note Synthesize_badges [where sm = Simplify and rng = "\<lambda>k. of_nat k" and opt = "\<lparr>samples = 3, useZ3 = True\<rparr>",
      OF demo_envelope demo_sym demo_inputs this demo_output_wf e, of "\<lambda>i. 0" "\<lambda>a n. 0" 0 0]
  ultimately show ?thesis unfolding Let_def by (elim exE conjE) (rule exI, rule conjI, assumption, simp)
qed

theorem Synthesize_accepts_witness:
  "\<exists>r. Synthesize demo_insns 0x1000 0x1007 [demo_input, demo_byte] demo_seed demo_engine solver_simplify isSat
     (\<lambda>k. of_nat k) \<lparr>samples = 3, useZ3 = True\<rparr> = Some r \<and> samplesPassed r = 3"
proof -
  show ?thesis
    using Synthesize_accepts [OF demo_envelope demo_inputs demo_right _ demo_within,
      of "\<lambda>k. of_nat k" "\<lparr>samples = 3, useZ3 = True\<rparr>"] demo_output_wf by auto
qed

end
