(* ===== verification/Scan_Value.thy ===== *)
theory Scan_Value
  imports C_Lib Complex_Main
begin

unbundle bit_operations_syntax

text \<open>
  \<open>src/src/Core/MemoryScan.{h,cpp}\<close>, first half: the value types of the memory scanner, their parser and
  formatter. A result is \<open>Inl\<close> the error text or \<open>Inr\<close> the value. Conversions between decimal text
  and binary floating point are those of the standard library: \<open>float_lib\<close> holds them by the bit
  pattern, with the law \<open>float_text\<close> the standard states of them. Allocation failure is outside the model.
\<close>

section \<open>Values\<close>

datatype MemoryValueType =
    UInt8 | Int8 | UInt16 | Int16 | UInt32 | Int32 | UInt64 | Int64 | Float32 | Float64 | ByteArray | Utf8 | Utf16Le

record MemoryScanValue =
  v_type :: MemoryValueType
  v_bytes :: bytes
  v_mask :: bytes
  nullTerminated :: bool

record MemoryValueParseOptions =
  hexadecimal :: bool
  nullTerminateText :: bool

fun MemoryValueTypeFixedSize :: "MemoryValueType \<Rightarrow> nat" where
  "MemoryValueTypeFixedSize UInt8 = 1"
| "MemoryValueTypeFixedSize Int8 = 1"
| "MemoryValueTypeFixedSize UInt16 = 2"
| "MemoryValueTypeFixedSize Int16 = 2"
| "MemoryValueTypeFixedSize UInt32 = 4"
| "MemoryValueTypeFixedSize Int32 = 4"
| "MemoryValueTypeFixedSize Float32 = 4"
| "MemoryValueTypeFixedSize UInt64 = 8"
| "MemoryValueTypeFixedSize Int64 = 8"
| "MemoryValueTypeFixedSize Float64 = 8"
| "MemoryValueTypeFixedSize _ = 0"

definition MemoryValueTypeIsNumeric :: "MemoryValueType \<Rightarrow> bool" where
  "MemoryValueTypeIsNumeric t \<longleftrightarrow> t \<notin> {ByteArray, Utf8, Utf16Le}"

definition MemoryValueTypeIsFloat :: "MemoryValueType \<Rightarrow> bool" where
  "MemoryValueTypeIsFloat t \<longleftrightarrow> t = Float32 \<or> t = Float64"

text \<open>Width and signedness of the integer types.\<close>

fun integerType :: "MemoryValueType \<Rightarrow> (nat \<times> bool) option" where
  "integerType UInt8 = Some (1, False)"
| "integerType Int8 = Some (1, True)"
| "integerType UInt16 = Some (2, False)"
| "integerType Int16 = Some (2, True)"
| "integerType UInt32 = Some (4, False)"
| "integerType Int32 = Some (4, True)"
| "integerType UInt64 = Some (8, False)"
| "integerType Int64 = Some (8, True)"
| "integerType _ = None"

definition value_valid :: "MemoryScanValue \<Rightarrow> bool" where
  "value_valid v =
     (if v_bytes v = [] then False
      else if MemoryValueTypeFixedSize (v_type v) \<noteq> 0 \<and> length (v_bytes v) \<noteq> MemoryValueTypeFixedSize (v_type v) then False
      else if v_mask v \<noteq> [] \<and> (v_type v \<noteq> ByteArray \<or> length (v_mask v) \<noteq> length (v_bytes v) \<or>
                \<not> list_all (\<lambda>b. b = 0x00 \<or> b = 0xFF) (v_mask v)) then False
      else if nullTerminated v then
        (if v_type v = Utf8 then last (v_bytes v) = 0
         else if v_type v = Utf16Le then
           length (v_bytes v) \<ge> 2 \<and> v_bytes v ! (length (v_bytes v) - 2) = 0 \<and> last (v_bytes v) = 0
         else False)
      else True)"

section \<open>Integers\<close>

definition widthMask :: "nat \<Rightarrow> u64" where
  "widthMask width = (if width \<ge> 8 then u64_max else push_bit (width * 8) 1 - 1)"

fun readLe_from :: "nat \<Rightarrow> bytes \<Rightarrow> nat \<Rightarrow> u64" where
  "readLe_from i bs 0 = 0"
| "readLe_from i bs (Suc n) = push_bit (i * 8) (ucast (bs ! i)) OR readLe_from (i + 1) bs n"

definition readLe :: "bytes \<Rightarrow> nat \<Rightarrow> u64" where
  "readLe bs width = readLe_from 0 bs width"

definition writeLe :: "u64 \<Rightarrow> nat \<Rightarrow> bytes" where
  "writeLe bits width = map (\<lambda>i. ucast (drop_bit (i * 8) bits)) [0..<width]"

text \<open>An \<open>int64_t\<close> is the integer it stands for; the code only computes values in its range.\<close>

definition signedFromBits :: "u64 \<Rightarrow> nat \<Rightarrow> int" where
  "signedFromBits raw0 width =
     (let raw = raw0 AND widthMask width;
          sign = push_bit (width * 8 - 1) 1
      in if raw AND sign = 0 then uint raw else - uint ((NOT raw AND widthMask width) + 1))"

definition signedMinimum :: "nat \<Rightarrow> int" where
  "signedMinimum width = (if width \<ge> 8 then - (2 ^ 63) else - (2 ^ (width * 8 - 1)))"

definition signedMaximum :: "nat \<Rightarrow> int" where
  "signedMaximum width = (if width \<ge> 8 then 2 ^ 63 - 1 else 2 ^ (width * 8 - 1) - 1)"

text \<open>\<open>std::from_chars\<close> for \<open>uint64_t\<close> and \<open>int64_t\<close>: the longest run of digits, a minus sign only for
  the signed type; \<open>None\<close> when there is no digit or the value does not fit.\<close>

definition from_chars_u64 :: "nat \<Rightarrow> string \<Rightarrow> (u64 \<times> string) option" where
  "from_chars_u64 base s =
     (let ds = takeWhile (is_digit_in base) s
      in if ds = [] \<or> digits_value base ds \<ge> 2 ^ 64 then None
         else Some (of_nat (digits_value base ds), drop (length ds) s))"

definition from_chars_i64 :: "string \<Rightarrow> (int \<times> string) option" where
  "from_chars_i64 s =
     (let neg = (s \<noteq> [] \<and> hd s = CHR ''-'');
          s1 = (if neg then tl s else s);
          ds = takeWhile (is_digit_in 10) s1;
          v = (if neg then - int (digits_value 10 ds) else int (digits_value 10 ds))
      in if ds = [] \<or> v < - (2 ^ 63) \<or> v \<ge> 2 ^ 63 then None else Some (v, drop (length ds) s1))"

definition drop_plus :: "string \<Rightarrow> string" where
  "drop_plus s = (if s \<noteq> [] \<and> hd s = CHR ''+'' then tl s else s)"

definition drop_0x :: "nat \<Rightarrow> string \<Rightarrow> string" where
  "drop_0x base s =
     (if base = 16 \<and> length s \<ge> 2 \<and> s ! 0 = CHR ''0'' \<and> (s ! 1 = CHR ''x'' \<or> s ! 1 = CHR ''X'') then drop 2 s else s)"

definition parseUnsigned :: "string \<Rightarrow> nat \<Rightarrow> u64 \<Rightarrow> u64 option" where
  "parseUnsigned text0 base maximum =
     (let text1 = trim text0
      in if text1 = [] \<or> hd text1 = CHR ''-'' then None
         else
           let text2 = drop_0x base (drop_plus text1)
           in if text2 = [] then None
              else case from_chars_u64 base text2 of
                None \<Rightarrow> None
              | Some (candidate, rest) \<Rightarrow> if rest \<noteq> [] \<or> candidate > maximum then None else Some candidate)"

definition parseSignedDecimal :: "string \<Rightarrow> nat \<Rightarrow> int option" where
  "parseSignedDecimal text0 width =
     (let text1 = drop_plus (trim text0)
      in if trim text0 = [] \<or> text1 = [] then None
         else case from_chars_i64 text1 of
           None \<Rightarrow> None
         | Some (candidate, rest) \<Rightarrow>
             if rest \<noteq> [] \<or> candidate < signedMinimum width \<or> candidate > signedMaximum width then None
             else Some candidate)"

definition hex_upper :: "nat \<Rightarrow> char" where
  "hex_upper d = ''0123456789ABCDEF'' ! d"

definition fixedHex :: "u64 \<Rightarrow> nat \<Rightarrow> string" where
  "fixedHex bits width =
     ''0x'' @ map (\<lambda>i. hex_upper (unat (drop_bit ((width * 2 - i - 1) * 4) bits AND 0xF))) [0..<width * 2]"

definition dec_int64 :: "int \<Rightarrow> string" where
  \<comment> \<open>\<open>std::to_chars\<close> in base 10\<close>
  "dec_int64 i = (if i < 0 then CHR ''-'' # dec (nat (- i)) else dec (nat i))"

section \<open>Text\<close>

abbreviation byte_of :: "char \<Rightarrow> nat" where
  "byte_of c \<equiv> of_char c"

definition utf8_lead :: "nat \<Rightarrow> (nat \<times> nat) option" where
  \<comment> \<open>the bits of a first byte and the number of continuation bytes\<close>
  "utf8_lead first =
     (if first \<le> 0x7F then Some (first, 0)
      else if first \<ge> 0xC2 \<and> first \<le> 0xDF then Some (first AND 0x1F, 1)
      else if first \<ge> 0xE0 \<and> first \<le> 0xEF then Some (first AND 0x0F, 2)
      else if first \<ge> 0xF0 \<and> first \<le> 0xF4 then Some (first AND 0x07, 3)
      else None)"

fun utf8_tail :: "nat \<Rightarrow> nat \<Rightarrow> string \<Rightarrow> (nat \<times> string) option" where
  "utf8_tail cp 0 s = Some (cp, s)"
| "utf8_tail cp (Suc n) [] = None"
| "utf8_tail cp (Suc n) (c # cs) =
     (if byte_of c AND 0xC0 \<noteq> 0x80 then None
      else utf8_tail (push_bit 6 cp OR (byte_of c AND 0x3F)) n cs)"

lemma utf8_tail_length: "utf8_tail cp n s = Some (cp1, r) \<Longrightarrow> length r + n = length s"
  by (induction cp n s rule: utf8_tail.induct) (auto split: if_splits)

definition utf8_refused :: "nat \<Rightarrow> nat \<Rightarrow> bool" where
  "utf8_refused continuation cp \<longleftrightarrow>
     (continuation = 2 \<and> cp < 0x800) \<or> (continuation = 3 \<and> cp < 0x10000) \<or>
     cp > 0x10FFFF \<or> (cp \<ge> 0xD800 \<and> cp \<le> 0xDFFF)"

function decodeUtf8 :: "string \<Rightarrow> nat list option" where
  "decodeUtf8 [] = Some []"
| "decodeUtf8 (c # cs) =
     (case utf8_lead (byte_of c) of
        None \<Rightarrow> None
      | Some (cp0, continuation) \<Rightarrow>
          if continuation > length cs then None
          else case utf8_tail cp0 continuation cs of
            None \<Rightarrow> None
          | Some (cp, rest) \<Rightarrow>
              if utf8_refused continuation cp then None
              else map_option ((#) cp) (decodeUtf8 rest))"
  by pat_completeness auto
termination
  by (relation "measure length") (auto dest!: utf8_tail_length)

definition appendUtf8 :: "nat \<Rightarrow> string \<Rightarrow> string" where
  "appendUtf8 cp out = out @
     (if cp \<le> 0x7F then [char_of cp]
      else if cp \<le> 0x7FF then [char_of (0xC0 OR drop_bit 6 cp), char_of (0x80 OR (cp AND 0x3F))]
      else if cp \<le> 0xFFFF then
        [char_of (0xE0 OR drop_bit 12 cp), char_of (0x80 OR (drop_bit 6 cp AND 0x3F)), char_of (0x80 OR (cp AND 0x3F))]
      else
        [char_of (0xF0 OR drop_bit 18 cp), char_of (0x80 OR (drop_bit 12 cp AND 0x3F)),
         char_of (0x80 OR (drop_bit 6 cp AND 0x3F)), char_of (0x80 OR (cp AND 0x3F))])"

definition utf16_unit :: "nat \<Rightarrow> bytes" where
  "utf16_unit n = [of_nat (n mod 256), of_nat (n div 256 mod 256)]"

definition utf16_encode :: "nat \<Rightarrow> bytes" where
  "utf16_encode cp =
     (if cp \<le> 0xFFFF then utf16_unit cp
      else utf16_unit (0xD800 + drop_bit 10 (cp - 0x10000)) @ utf16_unit (0xDC00 + ((cp - 0x10000) AND 0x3FF)))"

text \<open>The loop of the formatter over the units; \<open>None\<close> is the empty result of an unpaired surrogate.\<close>

fun utf16_format :: "bytes \<Rightarrow> string \<Rightarrow> string option" where
  "utf16_format (a # b # bs) out =
     (let first = unat a OR push_bit 8 (unat b)
      in if first \<ge> 0xD800 \<and> first \<le> 0xDBFF then
           (case bs of
              c # d # rest \<Rightarrow>
                let second = unat c OR push_bit 8 (unat d)
                in if second < 0xDC00 \<or> second > 0xDFFF then None
                   else utf16_format rest
                          (appendUtf8 (0x10000 + (push_bit 10 (first - 0xD800) OR (second - 0xDC00))) out)
            | _ \<Rightarrow> None)
         else if first \<ge> 0xDC00 \<and> first \<le> 0xDFFF then None
         else utf16_format bs (appendUtf8 first out))"
| "utf16_format _ out = Some out"

section \<open>Byte arrays\<close>

definition byte_sep :: "char \<Rightarrow> bool" where
  "byte_sep c \<longleftrightarrow> byte_of c \<in> {0x20, 0x09, 0x0D, 0x0A, 0x2C}"

text \<open>The bytes and masks read so far; \<open>Inl\<close> is the error text.\<close>

function parse_byte_array :: "string \<Rightarrow> bytes \<Rightarrow> bytes \<Rightarrow> string + bytes \<times> bytes" where
  "parse_byte_array text bs ms =
     (let t = dropWhile byte_sep text
      in if t = [] then Inr (bs, ms)
         else if hd t = CHR ''?'' then
           parse_byte_array (if tl t \<noteq> [] \<and> hd (tl t) = CHR ''?'' then tl (tl t) else tl t) (bs @ [0]) (ms @ [0])
         else
           let u = (if length t \<ge> 2 \<and> t ! 0 = CHR ''0'' \<and> (t ! 1 = CHR ''x'' \<or> t ! 1 = CHR ''X'') then drop 2 t else t)
           in if length u < 2 then Inl ''byte array has an incomplete trailing byte''
              else case (hex_digit (u ! 0), hex_digit (u ! 1)) of
                (Some high, Some low) \<Rightarrow>
                  parse_byte_array (drop 2 u) (bs @ [of_nat (push_bit 4 high OR low)]) (ms @ [0xFF])
              | _ \<Rightarrow> Inl ''byte array must contain hexadecimal byte pairs or ??'')"
  by pat_completeness auto
termination
proof ((relation "measure (length \<circ> fst)"), goal_cases)
  case (2 s bs ms t)
  then have "0 < length t" "length t \<le> length s" using length_dropWhile_le [of byte_sep s] by simp_all
  then show ?case by (cases "length t") auto
next
  case (3 s bs ms t u p high low)
  then have "length u \<le> length s" using length_dropWhile_le [of byte_sep s] by auto
  moreover have "2 \<le> length u" using 3 by simp
  ultimately show ?case by simp
qed simp

section \<open>Parsing and formatting\<close>

record float_lib =
  f_from_chars :: "nat \<Rightarrow> string \<Rightarrow> (u64 \<times> string) option"  \<comment> \<open>bits and rest, by the width in bytes\<close>
  f_to_chars :: "nat \<Rightarrow> u64 \<Rightarrow> string"                     \<comment> \<open>general format with \<open>max_digits10\<close> digits\<close>

definition float_finite :: "nat \<Rightarrow> u64 \<Rightarrow> bool" where
  "float_finite width bits =
     (if width = 4 then drop_bit 23 bits AND 0xFF \<noteq> 0xFF else drop_bit 52 bits AND 0x7FF \<noteq> 0x7FF)"

definition starts_bits :: "string \<Rightarrow> bool" where
  "starts_bits s \<longleftrightarrow> take 5 s = ''bits:''"

definition encode_integer :: "nat \<Rightarrow> bool \<Rightarrow> string \<Rightarrow> bool \<Rightarrow> string + bytes" where
  "encode_integer width isSigned text hex =
     (if hex then
        (case parseUnsigned text 16 (widthMask width) of
           None \<Rightarrow> Inl ''invalid or out-of-range hexadecimal integer''
         | Some bits \<Rightarrow> Inr (writeLe bits width))
      else if isSigned then
        (case parseSignedDecimal text width of
           None \<Rightarrow> Inl ''invalid or out-of-range signed integer''
         | Some i \<Rightarrow> Inr (writeLe (of_int i AND widthMask width) width))
      else
        (case parseUnsigned text 10 (widthMask width) of
           None \<Rightarrow> Inl ''invalid or out-of-range unsigned integer''
         | Some bits \<Rightarrow> Inr (writeLe bits width)))"

definition encode_float :: "float_lib \<Rightarrow> nat \<Rightarrow> string \<Rightarrow> bool \<Rightarrow> string + bytes" where
  "encode_float fl width text hex =
     (let numeric = trim text;
          (rawBits, numeric1) = (if starts_bits numeric then (True, drop 5 numeric) else (hex, numeric))
      in if rawBits then
           (case parseUnsigned numeric1 16 (widthMask width) of
              None \<Rightarrow> Inl ''invalid or out-of-range floating-point bit pattern''
            | Some bits \<Rightarrow> Inr (writeLe bits width))
         else
           let bad = (if width = 4 then ''invalid, non-finite, or out-of-range float''
                      else ''invalid, non-finite, or out-of-range double'');
               numeric2 = drop_plus numeric1
           in case f_from_chars fl width numeric2 of
                None \<Rightarrow> Inl bad
              | Some (bits, rest) \<Rightarrow>
                  if numeric2 = [] \<or> rest \<noteq> [] \<or> \<not> float_finite width bits then Inl bad
                  else Inr (writeLe bits width))"

definition encode_bytes :: "string \<Rightarrow> string + bytes \<times> bytes" where
  "encode_bytes text =
     (case parse_byte_array (trim text) [] [] of
        Inl e \<Rightarrow> Inl e
      | Inr (bs, ms) \<Rightarrow>
          if bs = [] then Inl ''byte array is empty''
          else Inr (bs, if list_all (\<lambda>m. m = 0xFF) ms then [] else ms))"

definition encode_text :: "MemoryValueType \<Rightarrow> string \<Rightarrow> bool \<Rightarrow> string + bytes" where
  "encode_text type text nul =
     (case decodeUtf8 text of
        None \<Rightarrow> Inl ''text is not well-formed UTF-8''
      | Some cps \<Rightarrow>
          let bs = (if type = Utf8 then map (\<lambda>c. of_nat (byte_of c)) text @ (if nul then [0] else [])
                    else concat (map utf16_encode cps) @ (if nul then utf16_unit 0 else []))
          in if bs = [] then Inl ''text value is empty'' else Inr bs)"

definition ParseMemoryScanValue :: "float_lib \<Rightarrow> MemoryValueType \<Rightarrow> string \<Rightarrow> MemoryValueParseOptions \<Rightarrow>
    string + MemoryScanValue" where
  "ParseMemoryScanValue fl type text opt =
     (let parsed = \<lparr>v_type = type, v_bytes = [], v_mask = [], nullTerminated = False\<rparr>;
          encoded =
            (case integerType type of
               Some (width, isSigned) \<Rightarrow>
                 map_sum id (\<lambda>bs. parsed\<lparr>v_bytes := bs\<rparr>) (encode_integer width isSigned text (hexadecimal opt))
             | None \<Rightarrow>
                 if MemoryValueTypeIsFloat type then
                   map_sum id (\<lambda>bs. parsed\<lparr>v_bytes := bs\<rparr>)
                     (encode_float fl (MemoryValueTypeFixedSize type) text (hexadecimal opt))
                 else if type = ByteArray then
                   map_sum id (\<lambda>(bs, ms). parsed\<lparr>v_bytes := bs, v_mask := ms\<rparr>) (encode_bytes text)
                 else
                   map_sum id (\<lambda>bs. parsed\<lparr>v_bytes := bs, nullTerminated := nullTerminateText opt\<rparr>)
                     (encode_text type text (nullTerminateText opt)))
      in case encoded of
           Inl e \<Rightarrow> Inl e
         | Inr v \<Rightarrow> if \<not> value_valid v then Inl ''encoded value is structurally invalid'' else Inr v)"

definition format_byte :: "bytes \<Rightarrow> bytes \<Rightarrow> nat \<Rightarrow> string" where
  "format_byte bs ms i =
     (if i = 0 then [] else '' '') @
     (if (if ms = [] then 0xFF else ms ! i) = 0 then ''??''
      else [hex_upper (unat (drop_bit 4 (bs ! i))), hex_upper (unat (bs ! i AND 0xF))])"

definition FormatMemoryScanValue :: "float_lib \<Rightarrow> MemoryScanValue \<Rightarrow> bool \<Rightarrow> string" where
  "FormatMemoryScanValue fl v hex =
     (if \<not> value_valid v then []
      else if v_type v = ByteArray then
        concat (map (format_byte (v_bytes v) (v_mask v)) [0..<length (v_bytes v)])
      else if v_type v = Utf8 then
        map (\<lambda>b. char_of (unat b)) (if nullTerminated v then butlast (v_bytes v) else v_bytes v)
      else if v_type v = Utf16Le then
        (let n = length (v_bytes v);
             size1 = (if nullTerminated v \<and> n \<ge> 2 then n - 2 else n)
         in if odd size1 then []
            else case utf16_format (take size1 (v_bytes v)) [] of Some s \<Rightarrow> s | None \<Rightarrow> [])
      else
        let width = MemoryValueTypeFixedSize (v_type v);
            raw = readLe (v_bytes v) width
        in if hex then fixedHex raw width
           else case integerType (v_type v) of
             Some (w, isSigned) \<Rightarrow> if isSigned then dec_int64 (signedFromBits raw width) else dec (unat raw)
           | None \<Rightarrow>
               if \<not> float_finite width raw then ''bits:'' @ fixedHex raw width
               else f_to_chars fl width raw)"

section \<open>Bytes of an integer\<close>

lemma bit_readLe_from:
  "i + w \<le> 8 \<Longrightarrow> bit (readLe_from i bs w) n \<longleftrightarrow> n < 64 \<and> i \<le> n div 8 \<and> n div 8 < i + w \<and> bit (bs ! (n div 8)) (n mod 8)"
proof (induction w arbitrary: i)
  case (Suc w)
  have split: "n - 8 * i = n mod 8" "n div 8 = i" if "8 * i \<le> n" "n < 8 * i + 8"
  proof -
    have "n = 8 * i + (n - 8 * i)" "n - 8 * i < 8" using that by auto
    then obtain k where "n = 8 * i + k" "k < 8" by blast
    then show "n - 8 * i = n mod 8" "n div 8 = i" by simp_all
  qed
  have less8: "bit (bs ! i) k \<Longrightarrow> k < 8" for k using bit_imp_le_length [of "bs ! i" k] by simp
  have "bit (push_bit (i * 8) (ucast (bs ! i)) :: u64) n \<longleftrightarrow> n < 64 \<and> n div 8 = i \<and> bit (bs ! (n div 8)) (n mod 8)"
  proof
    assume "bit (push_bit (i * 8) (ucast (bs ! i)) :: u64) n"
    then have n: "8 * i \<le> n" "n < 64" "bit (bs ! i) (n - 8 * i)" by (simp_all add: bit_push_bit_iff bit_ucast_iff mult.commute)
    with less8 [OF n(3)] have "n < 8 * i + 8" by simp
    with split n show "n < 64 \<and> n div 8 = i \<and> bit (bs ! (n div 8)) (n mod 8)" by simp
  next
    assume "n < 64 \<and> n div 8 = i \<and> bit (bs ! (n div 8)) (n mod 8)"
    moreover from this have "8 * i \<le> n" "n < 8 * i + 8" by auto
    ultimately show "bit (push_bit (i * 8) (ucast (bs ! i)) :: u64) n"
      using split by (simp add: bit_push_bit_iff bit_ucast_iff mult.commute)
  qed
  then show ?case using Suc by (auto simp: bit_or_iff)
qed simp

lemma bit_readLe: "w \<le> 8 \<Longrightarrow> bit (readLe bs w) n \<longleftrightarrow> n < 64 \<and> n div 8 < w \<and> bit (bs ! (n div 8)) (n mod 8)"
  by (simp add: readLe_def bit_readLe_from)

lemma bit_widthMask: "bit (widthMask w) n \<longleftrightarrow> n < 64 \<and> n div 8 < w"
proof -
  have "n div 8 < w \<longleftrightarrow> n < w * 8" by (auto simp: less_mult_imp_div_less mult.commute dest: div_less_dividend)
  then show ?thesis
    by (auto simp: widthMask_def bit_minus_1_iff mask_eq_exp_minus_1 [symmetric] push_bit_of_1 bit_mask_iff)
qed

lemma writeLe_readLe: "length bs = w \<Longrightarrow> w \<le> 8 \<Longrightarrow> writeLe (readLe bs w) w = bs"
  by (intro nth_equalityI bit_word_eqI)
    (auto simp: writeLe_def bit_ucast_iff bit_drop_bit_eq bit_readLe dest: bit_imp_le_length)

lemma readLe_writeLe: "w \<le> 8 \<Longrightarrow> readLe (writeLe b w) w = b AND widthMask w"
proof (rule bit_word_eqI)
  fix n :: nat
  assume w: "w \<le> 8"
  have "n div 8 * 8 + n mod 8 = n" by (rule div_mult_mod_eq)
  then show "bit (readLe (writeLe b w) w) n \<longleftrightarrow> bit (b AND widthMask w) n"
    using w by (auto simp: bit_readLe bit_and_iff bit_widthMask writeLe_def bit_ucast_iff bit_drop_bit_eq
        dest: bit_imp_le_length)
qed

lemma readLe_width: "w \<le> 8 \<Longrightarrow> readLe bs w AND widthMask w = readLe bs w"
  by (rule bit_word_eqI) (auto simp: bit_and_iff bit_readLe bit_widthMask)

lemma bit_u64_less: "bit (b :: u64) n \<Longrightarrow> n < 64"
  using bit_imp_le_length [of b n] by simp

lemma writeLe_mask: "writeLe (b AND widthMask w) w = writeLe b w"
  by (rule nth_equalityI) (auto simp: writeLe_def bit_ucast_iff bit_drop_bit_eq bit_and_iff bit_widthMask
      intro!: bit_word_eqI bit_u64_less)

lemma length_writeLe [simp]: "length (writeLe b w) = w"
  by (simp add: writeLe_def)

section \<open>Integers as text\<close>

lemma dropWhile_same: "xs \<noteq> [] \<Longrightarrow> \<not> P (hd xs) \<Longrightarrow> dropWhile P xs = xs"
  by (cases xs) simp_all

lemma trim_same: "s \<noteq> [] \<Longrightarrow> \<not> c_isspace (hd s) \<Longrightarrow> \<not> c_isspace (last s) \<Longrightarrow> trim s = s"
  by (simp add: trim_def dropWhile_same hd_rev)

lemma trim_digits: "s \<noteq> [] \<Longrightarrow> \<forall>c \<in> set s. \<not> c_isspace c \<Longrightarrow> trim s = s"
  by (simp add: trim_same)

lemma from_chars_digits:
  assumes "s \<noteq> []" "\<forall>c \<in> set s. is_digit_in base c" "digits_value base s < 2 ^ 64"
  shows "from_chars_u64 base s = Some (of_nat (digits_value base s), [])"
proof -
  have all: "takeWhile (is_digit_in base) s = s" using assms(2) by (simp add: takeWhile_eq_all_conv)
  show ?thesis unfolding from_chars_u64_def Let_def all using assms by simp
qed

lemma dec_head: "\<exists>c cs. dec n = c # cs \<and> c_isdigit c \<and> c \<noteq> CHR ''-'' \<and> c \<noteq> CHR ''+''"
proof -
  obtain c cs where d: "dec n = c # cs" by (cases "dec n") auto
  with dec_digits [of n] have "c_isdigit c" by simp
  with d digit_not_sign show ?thesis by blast
qed

lemma trim_dec: "trim (dec n) = dec n"
  using dec_digits [of n] by (intro trim_digits) (auto simp: digit_not_space)

lemma parseUnsigned_dec:
  assumes "n \<le> unat maximum"
  shows "parseUnsigned (dec n) 10 maximum = Some (of_nat n)"
proof -
  obtain c cs where d: "dec n = c # cs" "c \<noteq> CHR ''-''" "c \<noteq> CHR ''+''" using dec_head by blast
  have n: "n < 2 ^ 64" using assms unsigned_less [of maximum, where ?'a = nat] by simp
  have "from_chars_u64 10 (dec n) = Some (of_nat n, [])"
    using from_chars_digits [of "dec n" 10] dec_digits [of n] n by (simp add: dec_value isdigit_in_10)
  moreover have "\<not> of_nat n > maximum"
    using assms n by (simp add: word_less_nat_alt unat_of_nat_u64)
  ultimately show ?thesis
    using trim_dec [of n] d by (simp add: parseUnsigned_def drop_plus_def drop_0x_def)
qed

definition nibble :: "u64 \<Rightarrow> nat \<Rightarrow> nat" where
  "nibble b k = unat (drop_bit (k * 4) b AND 0xF)"

lemma nibble_eq: "nibble b k = unat b div 16 ^ k mod 16"
proof -
  have "(0xF :: u64) = mask 4" by (simp add: mask_eq_exp_minus_1)
  then have "nibble b k = unat (take_bit 4 (drop_bit (k * 4) b))" by (simp only: nibble_def take_bit_eq_mask)
  also have "\<dots> = take_bit 4 (drop_bit (k * 4) (unat b))"
    by (simp only: unsigned_take_bit_eq unat_drop_bit_eq)
  also have "\<dots> = unat b div 2 ^ (k * 4) mod 2 ^ 4"
    by (simp only: take_bit_eq_mod drop_bit_eq_div)
  finally show ?thesis by (simp add: power_mult mult.commute [of k])
qed

lemma nibbles_value: "foldl (\<lambda>a d. a * 16 + d) acc (rev (map (nibble b) [0..<n])) = acc * 16 ^ n + unat b mod 16 ^ n"
proof (induction n arbitrary: acc)
  case (Suc n)
  have "unat b mod 16 ^ Suc n = 16 ^ n * (unat b div 16 ^ n mod 16) + unat b mod 16 ^ n"
    by (simp only: power_Suc2 mod_mult2_eq)
  then show ?case by (simp add: Suc nibble_eq [symmetric]) (simp add: distrib_right mult.assoc)
qed simp

lemma hex_upper_digit: "d < 16 \<Longrightarrow> digit_val (hex_upper d) = Some d"
proof -
  assume "d < 16"
  then have "d \<in> set [0..<16]" by simp
  then show ?thesis by (auto simp: upt_rec hex_upper_def digit_val_def)
qed

lemma digits_value_hex: "\<forall>d \<in> set ds. d < 16 \<Longrightarrow> digits_value 16 (map hex_upper ds) = foldl (\<lambda>a d. a * 16 + d) 0 ds"
proof -
  have "\<forall>d \<in> set ds. d < 16 \<Longrightarrow> foldl (\<lambda>acc c. acc * 16 + the (digit_val c)) a (map hex_upper ds) = foldl (\<lambda>a d. a * 16 + d) a ds" for a
    by (induction ds arbitrary: a) (simp_all add: hex_upper_digit)
  then show "\<forall>d \<in> set ds. d < 16 \<Longrightarrow> ?thesis" by (simp add: digits_value_def)
qed

lemma fixedHex_eq: "fixedHex b w = CHR ''0'' # CHR ''x'' # map hex_upper (rev (map (nibble b) [0..<w * 2]))"
  by (simp add: fixedHex_def) (auto intro!: nth_equalityI simp: rev_nth nibble_def)

lemma hex_not_space: "d < 16 \<Longrightarrow> \<not> c_isspace (hex_upper d)"
proof -
  assume "d < 16"
  then have "d \<in> set [0..<16]" by simp
  then show ?thesis by (auto simp: upt_rec hex_upper_def c_isspace_def)
qed

lemma widthMask_mask: "w \<le> 8 \<Longrightarrow> widthMask w = mask (w * 8)"
  by (auto simp: widthMask_def mask_eq_exp_minus_1 push_bit_of_1)

lemma unat_widthMask: "w \<le> 8 \<Longrightarrow> unat (widthMask w) = 2 ^ (w * 8) - 1"
proof -
  assume w: "w \<le> 8"
  have "widthMask w = take_bit (w * 8) (- 1)" using w by (simp add: widthMask_mask flip: take_bit_minus_one_eq_mask)
  then have "unat (widthMask w) = take_bit (w * 8) (mask 64)"
    by (simp only: unsigned_take_bit_eq unsigned_minus_1_eq_mask) simp
  also have "\<dots> = mask (w * 8)" using w by (simp add: take_bit_of_mask min_def)
  finally show ?thesis by (simp add: mask_eq_exp_minus_1)
qed

lemma power_mult_16: "(16 :: nat) ^ (w * 2) = 2 ^ (w * 8)"
proof -
  have "(16 :: nat) ^ (w * 2) = (2 ^ 4) ^ (w * 2)" by simp
  also have "\<dots> = 2 ^ (4 * (w * 2))" by (rule power_mult [symmetric])
  finally show ?thesis by (simp add: mult.commute mult.left_commute)
qed

lemma parseUnsigned_fixedHex:
  assumes w: "0 < w" "w \<le> 8" and b: "b AND widthMask w = b"
  shows "parseUnsigned (fixedHex b w) 16 (widthMask w) = Some b"
proof -
  let ?ds = "rev (map (nibble b) [0..<w * 2])"
  have ds: "\<forall>d \<in> set ?ds. d < 16" by (auto simp: nibble_eq)
  have "b = take_bit (w * 8) b" using b w by (simp add: widthMask_mask take_bit_eq_mask)
  then have small: "unat b < 2 ^ (w * 8)" by (metis take_bit_nat_less_exp unsigned_take_bit_eq)
  have pow: "(16 :: nat) ^ (w * 2) = 2 ^ (w * 8)" by (simp only: power_mult_16)
  have val: "digits_value 16 (map hex_upper ?ds) = unat b"
    using digits_value_hex [OF ds] nibbles_value [of 0 b "w * 2"] small pow by simp
  have fc: "from_chars_u64 16 (map hex_upper ?ds) = Some (b, [])"
  proof -
    have "\<forall>c \<in> set (map hex_upper ?ds). is_digit_in 16 c" using ds by (auto simp: is_digit_in_def hex_upper_digit)
    moreover have "digits_value 16 (map hex_upper ?ds) < 2 ^ 64" using val unsigned_less [of b, where ?'a = nat] by simp
    ultimately show ?thesis using from_chars_digits [of "map hex_upper ?ds" 16] w val by simp
  qed
  have "\<forall>c \<in> set (fixedHex b w). \<not> c_isspace c"
    using ds hex_not_space by (auto simp: fixedHex_eq c_isspace_def)
  then have "trim (fixedHex b w) = fixedHex b w" by (intro trim_digits) (simp_all add: fixedHex_eq)
  moreover have "\<not> b > widthMask w"
    using small w by (simp add: word_less_nat_alt unat_widthMask)
  ultimately show ?thesis
    using fc w by (simp add: parseUnsigned_def fixedHex_eq drop_plus_def drop_0x_def)
qed

lemma signedFromBits_eq:
  fixes raw :: u64
  assumes w: "0 < w" "w \<le> 8"
  defines "x \<equiv> raw AND widthMask w"
  shows "signedFromBits raw w = (if uint x < 2 ^ (w * 8 - 1) then uint x else uint x - 2 ^ (w * 8))"
    and "uint x < 2 ^ (w * 8)"
proof -
  have x: "x = take_bit (w * 8) raw" using w by (simp add: x_def widthMask_mask take_bit_eq_mask)
  then have "uint x = take_bit (w * 8) (uint raw)" by (simp add: unsigned_take_bit_eq)
  then show lt: "uint x < 2 ^ (w * 8)" by simp
  have "x AND push_bit (w * 8 - 1) 1 = 0 \<longleftrightarrow> \<not> bit x (w * 8 - 1)"
    using w by (auto simp: push_bit_of_1 and_exp_eq_0_iff_not_bit)
  also have "\<dots> \<longleftrightarrow> uint x < 2 ^ (w * 8 - 1)"
  proof -
    have "take_bit (Suc (w * 8 - 1)) (uint x) = uint x" using lt w by (simp add: take_bit_int_eq_self)
    then have "uint x = take_bit (w * 8 - 1) (uint x) + 2 ^ (w * 8 - 1) * of_bool (bit (uint x) (w * 8 - 1))"
      by (metis add.commute take_bit_Suc_from_most)
    moreover have "0 \<le> take_bit (w * 8 - 1) (uint x)" "take_bit (w * 8 - 1) (uint x) < 2 ^ (w * 8 - 1)" by simp_all
    moreover have "bit (uint x) (w * 8 - 1) = bit x (w * 8 - 1)" using bit_u64_less by (auto simp: bit_uint_iff)
    moreover have "u = t + P * of_bool b \<Longrightarrow> 0 \<le> t \<Longrightarrow> t < P \<Longrightarrow> c = b \<Longrightarrow> \<not> b \<longleftrightarrow> u < P" for u t P :: int and b c
      by (cases b) auto
    ultimately show ?thesis by metis
  qed
  finally have sgn: "x AND push_bit (w * 8 - 1) 1 = 0 \<longleftrightarrow> uint x < 2 ^ (w * 8 - 1)" .
  have neg: "uint ((NOT x AND widthMask w) + 1) = 2 ^ (w * 8) - uint x" if "\<not> uint x < 2 ^ (w * 8 - 1)"
  proof -
    have xm: "x AND widthMask w = x" by (simp add: x_def ac_simps)
    have "(NOT x AND widthMask w) + x = widthMask w"
    proof -
      have "(NOT x AND widthMask w) AND x = 0" by (rule bit_word_eqI) (auto simp: bit_and_iff bit_not_iff)
      then have "(NOT x AND widthMask w) + x = (NOT x AND widthMask w) OR x" by (rule disjunctive_add_eq_or)
      also have "\<dots> = widthMask w"
      proof (rule bit_word_eqI)
        fix n :: nat
        have "bit x n \<Longrightarrow> bit (widthMask w) n" using xm by (metis bit_and_iff)
        then show "bit ((NOT x AND widthMask w) OR x) n \<longleftrightarrow> bit (widthMask w) n"
          by (auto simp: bit_or_iff bit_and_iff bit_not_iff dest: bit_u64_less)
      qed
      finally show ?thesis .
    qed
    then have e: "(NOT x AND widthMask w) + 1 = widthMask w - x + 1" by (simp add: eq_diff_eq)
    have um: "uint (widthMask w) = 2 ^ (w * 8) - 1"
      using unat_widthMask [OF w(2)] by (simp add: uint_nat of_nat_diff)
    have "x \<le> widthMask w" using lt um by (simp add: word_le_def)
    then have d: "uint (widthMask w - x) = 2 ^ (w * 8) - 1 - uint x" by (simp add: um word_le_def uint_sub_lem [THEN iffD1])
    have "(2 :: int) ^ (w * 8 - 1) \<ge> 1" by simp
    moreover have "(2 :: int) ^ (w * 8) \<le> 2 ^ 64" using w by (intro power_increasing) auto
    ultimately have "uint (widthMask w - x) + 1 < 2 ^ 64" using that d by linarith
    then have "uint (widthMask w - x + 1) = uint (widthMask w - x) + 1"
      by (subst uint_add_lem [THEN iffD1]) simp_all
    with e d show ?thesis by simp
  qed
  show "signedFromBits raw w = (if uint x < 2 ^ (w * 8 - 1) then uint x else uint x - 2 ^ (w * 8))"
    using sgn neg by (simp add: signedFromBits_def Let_def flip: x_def)
qed

lemma signed_limits: "0 < w \<Longrightarrow> w \<le> 8 \<Longrightarrow> signedMinimum w = - (2 ^ (w * 8 - 1)) \<and> signedMaximum w = 2 ^ (w * 8 - 1) - 1"
  by (cases "w = 8") (simp_all add: signedMinimum_def signedMaximum_def)

lemma signedFromBits_range:
  assumes "0 < w" "w \<le> 8"
  shows "signedMinimum w \<le> signedFromBits raw w \<and> signedFromBits raw w \<le> signedMaximum w"
proof -
  have "(2 :: int) ^ (w * 8) = 2 * 2 ^ (w * 8 - 1)" using assms by (simp flip: power_Suc)
  then have "- (2 ^ (w * 8 - 1)) \<le> (if u < 2 ^ (w * 8 - 1) then u else u - 2 ^ (w * 8)) \<and>
      (if u < 2 ^ (w * 8 - 1) then u else u - 2 ^ (w * 8)) \<le> 2 ^ (w * 8 - 1) - 1"
    if "0 \<le> u" "u < 2 ^ (w * 8)" for u :: int using that by auto
  from this [OF uint_ge_0 signedFromBits_eq(2) [OF assms]] show ?thesis
    unfolding signedFromBits_eq(1) [OF assms] signed_limits [OF assms, THEN conjunct1]
      signed_limits [OF assms, THEN conjunct2] .
qed

lemma signedFromBits_inverse:
  assumes "0 < w" "w \<le> 8"
  shows "of_int (signedFromBits raw w) AND widthMask w = raw AND widthMask w"
proof -
  let ?x = "raw AND widthMask w"
  have "take_bit (w * 8) (signedFromBits raw w) = take_bit (w * 8) (uint ?x)"
    using signedFromBits_eq(1) [OF assms, of raw] by (simp add: take_bit_eq_mod)
  then have "of_int (take_bit (w * 8) (signedFromBits raw w)) = (of_int (take_bit (w * 8) (uint ?x)) :: u64)"
    by (rule arg_cong)
  then have "take_bit (w * 8) (of_int (signedFromBits raw w)) = take_bit (w * 8) ?x"
    by (simp add: take_bit_of_int [symmetric])
  then show ?thesis using assms by (simp add: widthMask_mask take_bit_eq_mask)
qed

lemma dec_int64_head: "\<exists>c cs. dec_int64 i = c # cs \<and> \<not> c_isspace c \<and> c \<noteq> CHR ''+''"
proof (cases "i < 0")
  case True
  then show ?thesis by (simp add: dec_int64_def c_isspace_def)
next
  case False
  obtain c cs where "dec (nat i) = c # cs" "c_isdigit c" "c \<noteq> CHR ''+''" using dec_head by blast
  with False show ?thesis by (simp add: dec_int64_def digit_not_space)
qed

lemma parseSignedDecimal_dec:
  assumes "0 < w" "w \<le> 8" "signedMinimum w \<le> i" "i \<le> signedMaximum w"
  shows "parseSignedDecimal (dec_int64 i) w = Some i"
proof -
  obtain c cs where h: "dec_int64 i = c # cs" "\<not> c_isspace c" "c \<noteq> CHR ''+''" using dec_int64_head by blast
  have "\<forall>c \<in> set (dec_int64 i). \<not> c_isspace c"
    using dec_digits digit_not_space by (auto simp: dec_int64_def c_isspace_def)
  then have trim: "trim (dec_int64 i) = dec_int64 i" using h by (intro trim_digits) auto
  have "(2 :: int) ^ (w * 8 - 1) \<le> 2 ^ 63" using assms by (intro power_increasing) auto
  then have i: "- (2 ^ 63) \<le> i" "i < 2 ^ 63" using assms signed_limits [OF assms(1,2)] by linarith+
  obtain d ds where d: "dec (nat i) = d # ds" "c_isdigit d" "d \<noteq> CHR ''-''" using dec_head by blast
  have all: "takeWhile (is_digit_in 10) (dec n) = dec n" for n
    using dec_digits [of n] isdigit_in_10 by (simp add: takeWhile_eq_all_conv)
  note chars = from_chars_i64_def dec_int64_def dec_value Let_def all
  have "from_chars_i64 (dec_int64 i) = Some (i, [])"
  proof (cases "i < 0")
    case True
    then show ?thesis using i by (simp add: chars)
  next
    case False
    have "hd (dec (nat i)) \<noteq> CHR ''-''" using d by simp
    with False show ?thesis using i by (simp add: chars)
  qed
  then show ?thesis using assms trim h by (simp add: parseSignedDecimal_def drop_plus_def)
qed

text \<open>The number a value of an integer type stands for.\<close>

definition int_value :: "MemoryValueType \<Rightarrow> bytes \<Rightarrow> int" where
  "int_value t bs =
     (case integerType t of
        Some (w, True) \<Rightarrow> signedFromBits (readLe bs w) w
      | Some (w, False) \<Rightarrow> uint (readLe bs w)
      | None \<Rightarrow> 0)"

section \<open>Unicode text\<close>

lemma or_add_nat: "b < 2 ^ n \<Longrightarrow> push_bit n a OR b = a * 2 ^ n + b" for a b :: nat
proof -
  assume "b < 2 ^ n"
  then have b: "b = take_bit n b" by (simp add: take_bit_nat_eq_self)
  have "push_bit n a AND take_bit n b = 0"
    by (rule bit_eqI) (auto simp: bit_and_iff bit_push_bit_iff bit_take_bit_iff)
  then have "push_bit n a + b = push_bit n a OR b" using b by (metis disjunctive_add_eq_or)
  then show ?thesis by (simp add: push_bit_eq_mult)
qed

lemma and_3F: "x AND 0x3F = x mod 64" for x :: nat
proof -
  have "(0x3F :: nat) = mask 6" by (simp add: mask_eq_exp_minus_1)
  then show ?thesis by (simp only: take_bit_eq_mask [symmetric] take_bit_eq_mod) simp
qed

lemma and_low:
  "x AND 0x1F = x mod 32" "x AND 0x0F = x mod 16" "x AND 0x07 = x mod 8" "x AND 0x3FF = x mod 1024" for x :: nat
proof -
  have "(0x1F :: nat) = mask 5" "(0x0F :: nat) = mask 4" "(0x07 :: nat) = mask 3" "(0x3FF :: nat) = mask 10"
    by (simp_all add: mask_eq_exp_minus_1)
  then show "x AND 0x1F = x mod 32" "x AND 0x0F = x mod 16" "x AND 0x07 = x mod 8" "x AND 0x3FF = x mod 1024"
    by (simp_all only: take_bit_eq_mask [symmetric] take_bit_eq_mod) simp_all
qed

lemma continuation_byte: "b < 256 \<Longrightarrow> b AND 0xC0 = 0x80 \<longleftrightarrow> b div 64 = 2" for b :: nat
proof -
  assume "b < 256"
  then have q: "b div 64 < 4" by simp
  have "b AND push_bit 6 m = push_bit 6 (drop_bit 6 b AND m)" for m
    by (rule bit_eqI) (auto simp: bit_and_iff bit_push_bit_iff bit_drop_bit_eq)
  from this [of 3] have "b AND 0xC0 = push_bit 6 (drop_bit 6 b AND 3)" by (simp add: push_bit_eq_mult)
  also have "\<dots> = push_bit 6 (take_bit 2 (drop_bit 6 b))" by (simp add: take_bit_eq_mask mask_eq_exp_minus_1)
  also have "\<dots> = 64 * (b div 64)" using q by (simp add: take_bit_eq_mod drop_bit_eq_div push_bit_eq_mult)
  finally show ?thesis by simp
qed

lemma lead_or:
  "x < 64 \<Longrightarrow> 0x80 OR x = 128 + x" "x < 32 \<Longrightarrow> 0xC0 OR x = 192 + x" "x < 16 \<Longrightarrow> 0xE0 OR x = 224 + x"
  "x < 8 \<Longrightarrow> 0xF0 OR x = 240 + x" for x :: nat
  using or_add_nat [of x 6 2] or_add_nat [of x 5 6] or_add_nat [of x 4 14] or_add_nat [of x 3 30]
  by (simp_all add: push_bit_eq_mult)

lemma byte_of_less: "byte_of c < 256"
  by (simp add: of_char_def)

declare utf8_tail.simps(3) [simp del]

text \<open>One character, with its arithmetic written out.\<close>

definition utf8_enc :: "nat \<Rightarrow> nat list" where
  "utf8_enc cp =
     (if cp < 0x80 then [cp]
      else if cp < 0x800 then [192 + cp div 64, 128 + cp mod 64]
      else if cp < 0x10000 then [224 + cp div 4096, 128 + cp div 64 mod 64, 128 + cp mod 64]
      else [240 + cp div 262144, 128 + cp div 4096 mod 64, 128 + cp div 64 mod 64, 128 + cp mod 64])"

definition scalar :: "nat \<Rightarrow> bool" where
  "scalar cp \<longleftrightarrow> cp \<le> 0x10FFFF \<and> \<not> (0xD800 \<le> cp \<and> cp \<le> 0xDFFF)"

lemma appendUtf8_eq:
  assumes "scalar cp"
  shows "appendUtf8 cp out = out @ map char_of (utf8_enc cp)"
proof -
  have "cp < 0x110000" using assms by (simp add: scalar_def)
  then show ?thesis
    by (auto simp: appendUtf8_def utf8_enc_def and_3F drop_bit_eq_div lead_or not_le not_less)
qed

lemma utf8_enc_bytes: "scalar cp \<Longrightarrow> b \<in> set (utf8_enc cp) \<Longrightarrow> b < 256"
  by (auto simp: utf8_enc_def scalar_def split: if_splits)

lemma utf8_tail_Cons [simp]:
  "utf8_tail cp (Suc n) (c # cs) = (if byte_of c div 64 \<noteq> 2 then None else utf8_tail (cp * 64 + byte_of c mod 64) n cs)"
  using continuation_byte [OF byte_of_less, of c] or_add_nat [of "byte_of c mod 64" 6 cp]
  by (simp add: and_3F utf8_tail.simps(3))

lemma low6: "x < 64 \<Longrightarrow> (128 + x) mod 64 = x" "x < 64 \<Longrightarrow> (128 + x) div 64 = 2"
  "x < 32 \<Longrightarrow> (192 + x) mod 32 = x" "x < 16 \<Longrightarrow> (224 + x) mod 16 = x" "x < 8 \<Longrightarrow> (240 + x) mod 8 = x" for x :: nat
  using mod_mult_self1 [of x 2 64] div_mult_self1 [of 64 x 2] mod_mult_self1 [of x 6 32] mod_mult_self1 [of x 14 16]
    mod_mult_self1 [of x 30 8]
  by (simp_all only: mod_less div_less add.commute [of x] mult_numeral_1 semiring_norm numeral_times_numeral add_0_right arith_simps)

lemma lead_low: "192 \<le> b \<Longrightarrow> b < 224 \<Longrightarrow> 192 + b mod 32 = b" "224 \<le> b \<Longrightarrow> b < 240 \<Longrightarrow> 224 + b mod 16 = b"
  "240 \<le> b \<Longrightarrow> b < 248 \<Longrightarrow> 240 + b mod 8 = b" for b :: nat
  using low6(3) [of "b - 192"] low6(4) [of "b - 224"] low6(5) [of "b - 240"] by simp_all

lemma decodeUtf8_enc:
  assumes "scalar cp"
  shows "decodeUtf8 (map char_of (utf8_enc cp) @ rest) = map_option ((#) cp) (decodeUtf8 rest)"
proof -
  have cp: "cp \<le> 0x10FFFF" "\<not> (0xD800 \<le> cp \<and> cp \<le> 0xDFFF)" using assms by (simp_all add: scalar_def)
  consider "cp < 0x80" | "0x80 \<le> cp" "cp < 0x800" | "0x800 \<le> cp" "cp < 0x10000" | "0x10000 \<le> cp" by linarith
  then show ?thesis
  proof cases
    case 1
    with cp show ?thesis by (simp add: utf8_enc_def utf8_lead_def utf8_refused_def)
  next
    case 2
    define q r where "q = cp div 64" and "r = cp mod 64"
    with 2 have "cp = q * 64 + r" "r < 64" "2 \<le> q" "q < 32" by auto
    then show ?thesis using 2 cp by (simp add: utf8_enc_def utf8_lead_def utf8_refused_def and_low low6)
  next
    case 3
    define q r s where d: "q = cp div 64 div 64" "r = cp div 64 mod 64" "s = cp mod 64"
    have e: "cp = (q * 64 + r) * 64 + s" unfolding d by simp
    have b: "s < 64" "r < 64" "q < 16" using 3 unfolding d by simp_all
    have enc: "utf8_enc cp = [224 + q, 128 + r, 128 + s]" using 3 unfolding d utf8_enc_def by (simp flip: div_mult2_eq)
    have "utf8_tail q 2 (char_of (128 + r) # char_of (128 + s) # rest) = Some (cp, rest)"
      using b by (simp add: numeral_2_eq_2 low6 e)
    then show ?thesis unfolding enc using b 3 cp
      by (auto simp: utf8_lead_def utf8_refused_def and_low low6)
  next
    case 4
    define q r s t where d: "q = cp div 64 div 64 div 64" "r = cp div 64 div 64 mod 64" "s = cp div 64 mod 64" "t = cp mod 64"
    have e: "cp = ((q * 64 + r) * 64 + s) * 64 + t" unfolding d by simp
    have b: "t < 64" "s < 64" "r < 64" unfolding d by simp_all
    have enc: "utf8_enc cp = [240 + q, 128 + r, 128 + s, 128 + t]" using 4 unfolding d utf8_enc_def by (simp flip: div_mult2_eq)
    have "cp div 64 div 64 div 64 = cp div 262144" by (simp flip: div_mult2_eq)
    then have q: "q < 5" using cp unfolding d by simp
    have "utf8_tail q 3 (char_of (128 + r) # char_of (128 + s) # char_of (128 + t) # rest) = Some (cp, rest)"
      using b by (simp add: numeral_3_eq_3 low6 e)
    then show ?thesis unfolding enc using b q 4 cp
      by (auto simp: utf8_lead_def utf8_refused_def and_low low6)
  qed
qed

lemma utf8_tail_SucD:
  assumes "utf8_tail cp (Suc n) s = Some (cp1, rest)"
  obtains m s1 where "s = char_of (128 + m) # s1" "m < 64" "utf8_tail (cp * 64 + m) n s1 = Some (cp1, rest)"
proof -
  obtain c s1 where s: "s = c # s1" using assms by (cases s) auto
  have q: "byte_of c div 64 = 2" "utf8_tail (cp * 64 + byte_of c mod 64) n s1 = Some (cp1, rest)"
    using assms s by (auto split: if_splits)
  then have "byte_of c = 128 + byte_of c mod 64" by (metis div_mult_mod_eq mult_2 numeral_Bit0)
  then have "c = char_of (128 + byte_of c mod 64)" by (metis char_of_char)
  then show ?thesis using that [of "byte_of c mod 64" s1] s q(2) by simp
qed

lemma split64: "m < 64 \<Longrightarrow> (a * 64 + m) div 64 = a" "m < 64 \<Longrightarrow> (a * 64 + m) mod 64 = m" for a m :: nat
  by simp_all

lemma utf8_step_encodes:
  assumes lead: "utf8_lead (byte_of c) = Some (cp0, k)" and tail: "utf8_tail cp0 k cs = Some (cp, rest)"
    and ok: "\<not> utf8_refused k cp"
  shows "scalar cp \<and> c # cs = map char_of (utf8_enc cp) @ rest"
proof
  show "scalar cp" using ok by (auto simp: utf8_refused_def scalar_def)
  have c: "c = char_of (byte_of c)" by simp
  note bounds = lead [unfolded utf8_lead_def and_low]
  consider "k = 0" | "k = Suc 0" | "k = Suc (Suc 0)" | "k = Suc (Suc (Suc 0))"
    using bounds by (auto split: if_splits)
  then show "c # cs = map char_of (utf8_enc cp) @ rest"
  proof cases
    case 1
    with bounds tail c show ?thesis by (auto simp: utf8_enc_def split: if_splits)
  next
    case 2
    then obtain m where m: "cs = char_of (128 + m) # rest" "m < 64" "cp = cp0 * 64 + m"
      using tail by (auto elim!: utf8_tail_SucD)
    have "byte_of c = 192 + cp0" "2 \<le> cp0" "cp0 < 32" 
      using bounds 2 lead_low(1) [of "byte_of c"] by (auto split: if_splits)
    with m c show ?thesis by (auto simp: utf8_enc_def)
  next
    case 3
    then obtain m1 m2 where m: "cs = char_of (128 + m1) # char_of (128 + m2) # rest" "m1 < 64" "m2 < 64"
      "cp = (cp0 * 64 + m1) * 64 + m2"
      using tail by (auto elim!: utf8_tail_SucD)
    have b: "byte_of c = 224 + cp0" "cp0 < 16" 
      using bounds 3 lead_low(2) [of "byte_of c"] by (auto split: if_splits)
    have lo: "0x800 \<le> cp" using ok 3 by (simp add: utf8_refused_def)
    have "cp div 64 = cp0 * 64 + m1" "cp mod 64 = m2" unfolding m(4) using m(3) by (rule split64)+
    moreover have "cp < 0x10000" using m b by simp
    moreover from calculation have "cp div 4096 = cp0" using m div_mult2_eq [of cp 64 64] by simp
    ultimately show ?thesis using m b c lo by (simp add: utf8_enc_def)
  next
    case 4
    then obtain m1 m2 m3 where m: "cs = char_of (128 + m1) # char_of (128 + m2) # char_of (128 + m3) # rest"
      "m1 < 64" "m2 < 64" "m3 < 64" "cp = ((cp0 * 64 + m1) * 64 + m2) * 64 + m3"
      using tail by (auto elim!: utf8_tail_SucD)
    have b: "byte_of c = 240 + cp0" 
      using bounds 4 lead_low(3) [of "byte_of c"] by (auto split: if_splits)
    have lo: "0x10000 \<le> cp" using ok 4 by (simp add: utf8_refused_def)
    have "cp div 64 = (cp0 * 64 + m1) * 64 + m2" "cp mod 64 = m3" unfolding m(5) using m(4) by (rule split64)+
    moreover from calculation have "cp div 4096 = cp0 * 64 + m1"
      using split64(1) [OF m(3)] div_mult2_eq [of cp 64 64] by simp
    moreover from calculation have "cp div 262144 = cp0" using m div_mult2_eq [of cp 4096 64] by simp
    moreover from calculation have "cp div 64 mod 64 = m2" "cp div 4096 mod 64 = m1"
      by (simp_all only: split64(2) [OF m(3)] split64(2) [OF m(2)])
    ultimately have "utf8_enc cp = [240 + cp0, 128 + m1, 128 + m2, 128 + m3]" using lo by (simp add: utf8_enc_def)
    with m(1) b c show ?thesis by simp
  qed
qed

lemma decodeUtf8_concat: "\<forall>cp \<in> set cps. scalar cp \<Longrightarrow> decodeUtf8 (concat (map (\<lambda>cp. map char_of (utf8_enc cp)) cps)) = Some cps"
  by (induction cps) (simp_all add: decodeUtf8_enc)

lemma decodeUtf8_scalar:
  "decodeUtf8 s = Some cps \<Longrightarrow> (\<forall>cp \<in> set cps. scalar cp) \<and> s = concat (map (\<lambda>cp. map char_of (utf8_enc cp)) cps)"
proof (induction s arbitrary: cps rule: decodeUtf8.induct)
  case (2 c cs)
  from "2.prems" obtain cp0 k cp rest cps1 where d: "utf8_lead (byte_of c) = Some (cp0, k)" "\<not> k > length cs"
    "utf8_tail cp0 k cs = Some (cp, rest)" "\<not> utf8_refused k cp" "decodeUtf8 rest = Some cps1" "cps = cp # cps1"
    by (auto split: option.splits if_splits prod.splits)
  from "2.IH" [OF d(1) refl d(2,3) refl d(4,5)] utf8_step_encodes [OF d(1,3,4)] d(6) show ?case by auto
qed simp

lemma fold_appendUtf8:
  "\<forall>cp \<in> set cps. scalar cp \<Longrightarrow> fold appendUtf8 cps out = out @ concat (map (\<lambda>cp. map char_of (utf8_enc cp)) cps)"
  by (induction cps arbitrary: out) (simp_all add: appendUtf8_eq)

text \<open>C34: the UTF-8 check of the scanner's text values accepts exactly the well-formed encodings of sequences
  of Unicode scalar values (shortest forms, no surrogates, nothing above U+10FFFF), and decodes them.\<close>

theorem decodeUtf8_exact:
  "decodeUtf8 s = Some cps \<longleftrightarrow>
   (\<forall>cp \<in> set cps. scalar cp) \<and> s = fold appendUtf8 cps []"
proof
  assume "decodeUtf8 s = Some cps"
  from decodeUtf8_scalar [OF this] show "(\<forall>cp \<in> set cps. scalar cp) \<and> s = fold appendUtf8 cps []"
    using fold_appendUtf8 [of cps "[]"] by simp
next
  assume "(\<forall>cp \<in> set cps. scalar cp) \<and> s = fold appendUtf8 cps []"
  then show "decodeUtf8 s = Some cps" using fold_appendUtf8 [of cps "[]"] by (simp add: decodeUtf8_concat)
qed

theorem decodeUtf8_exact_witness: "decodeUtf8 (fold appendUtf8 [0x41, 0x20AC, 0x1F600] []) = Some [0x41, 0x20AC, 0x1F600]"
  using decodeUtf8_exact [of "fold appendUtf8 [0x41, 0x20AC, 0x1F600] []" "[0x41, 0x20AC, 0x1F600]"] by (simp add: scalar_def)

lemma utf16_unit_read:
  assumes "n < 0x10000"
  shows "utf16_unit n = [a, b] \<Longrightarrow> unat a OR push_bit 8 (unat b) = n"
proof -
  assume u: "utf16_unit n = [a, b]"
  have "unat a = n mod 256" "unat b = n div 256" using u assms by (auto simp: utf16_unit_def unat_of_nat)
  then show ?thesis using or_add_nat [of "n mod 256" 8 "n div 256"] by (simp add: or.commute)
qed

lemma utf16_format_encode:
  assumes "scalar cp"
  shows "utf16_format (utf16_encode cp @ rest) out = utf16_format rest (appendUtf8 cp out)"
proof (cases "cp \<le> 0xFFFF")
  case True
  obtain a b where u: "utf16_unit cp = [a, b]" by (simp add: utf16_unit_def)
  have "unat a OR push_bit 8 (unat b) = cp" using utf16_unit_read [OF _ u] True by simp
  with True assms u show ?thesis by (auto simp: utf16_encode_def scalar_def)
next
  case False
  define x where "x = cp - 0x10000"
  have cp: "cp = 0x10000 + x" "x < 0x100000" using False assms by (simp_all add: x_def scalar_def)
  define hi lo where "hi = drop_bit 10 x" and "lo = x AND 0x3FF"
  have hl: "hi < 1024" "lo < 1024" "hi * 1024 + lo = x"
    using cp by (simp_all add: hi_def lo_def and_low drop_bit_eq_div)
  obtain a b where u: "utf16_unit (0xD800 + hi) = [a, b]" by (simp add: utf16_unit_def)
  obtain c d where v: "utf16_unit (0xDC00 + lo) = [c, d]" by (simp add: utf16_unit_def)
  have "unat a OR push_bit 8 (unat b) = 0xD800 + hi" "unat c OR push_bit 8 (unat d) = 0xDC00 + lo"
    using utf16_unit_read [OF _ u] utf16_unit_read [OF _ v] hl by simp_all
  moreover have "push_bit 10 hi OR lo = x" using or_add_nat [of lo 10 hi] hl by simp
  moreover have "utf16_encode cp = [a, b, c, d]" using False u v by (simp add: utf16_encode_def hi_def lo_def x_def)
  ultimately show ?thesis using hl cp by (simp add: Let_def)
qed

lemma utf16_format_concat:
  "\<forall>cp \<in> set cps. scalar cp \<Longrightarrow> utf16_format (concat (map utf16_encode cps)) out = Some (fold appendUtf8 cps out)"
  by (induction cps arbitrary: out) (simp_all add: utf16_format_encode)

lemma utf16_encode_even: "even (length (utf16_encode cp))"
  by (simp add: utf16_encode_def utf16_unit_def)

lemma utf16_concat_even: "even (length (concat (map utf16_encode cps)))"
  by (induction cps) (simp_all add: utf16_encode_even)

section \<open>Byte arrays as text\<close>

declare parse_byte_array.simps [simp del]

lemma sep_chars [simp]: "byte_sep CHR '' ''" "\<not> byte_sep CHR ''?''"
  by (simp_all add: byte_sep_def)

lemma parse_byte_array_space: "parse_byte_array (CHR '' '' # s) bs ms = parse_byte_array s bs ms"
  by (subst (1 2) parse_byte_array.simps) simp

lemma parse_byte_array_wild: "parse_byte_array (CHR ''?'' # CHR ''?'' # s) bs ms = parse_byte_array s (bs @ [0]) (ms @ [0])"
  by (subst parse_byte_array.simps) simp

lemma hex_upper_facts: "d < 16 \<Longrightarrow> hex_digit (hex_upper d) = Some d \<and> \<not> byte_sep (hex_upper d) \<and>
    hex_upper d \<noteq> CHR ''?'' \<and> hex_upper d \<noteq> CHR ''x'' \<and> hex_upper d \<noteq> CHR ''X'' \<and> \<not> c_isspace (hex_upper d)"
proof -
  assume "d < 16"
  then have "d \<in> set [0..<16]" by simp
  then show ?thesis by (auto simp: upt_rec hex_upper_def hex_digit_def byte_sep_def c_isspace_def)
qed

lemma parse_byte_array_pair:
  assumes "h < 16" "l < 16"
  shows "parse_byte_array (hex_upper h # hex_upper l # s) bs ms = parse_byte_array s (bs @ [of_nat (push_bit 4 h OR l)]) (ms @ [0xFF])"
  using hex_upper_facts [OF assms(1)] hex_upper_facts [OF assms(2)]
  by (subst parse_byte_array.simps) (simp add: Let_def)

lemma byte_nibbles:
  fixes b :: u8
  shows "unat (drop_bit 4 b) < 16" "unat (b AND 0xF) < 16" "of_nat (push_bit 4 (unat (drop_bit 4 b)) OR unat (b AND 0xF)) = b"
proof -
  have b: "unat b < 256" using unsigned_less [of b, where ?'a = nat] by simp
  have hi: "unat (drop_bit 4 b) = unat b div 16" by (subst unat_drop_bit_eq) (simp add: drop_bit_eq_div)
  have "(0xF :: u8) = mask 4" by (simp add: mask_eq_exp_minus_1)
  then have "b AND 0xF = take_bit 4 b" by (simp only: take_bit_eq_mask)
  then have lo: "unat (b AND 0xF) = unat b mod 16" by (simp only: unsigned_take_bit_eq) (simp add: take_bit_eq_mod)
  show "unat (drop_bit 4 b) < 16" "unat (b AND 0xF) < 16" using b hi lo by simp_all
  show "of_nat (push_bit 4 (unat (drop_bit 4 b)) OR unat (b AND 0xF)) = b"
    using or_add_nat [of "unat b mod 16" 4 "unat b div 16"] by (simp add: hi lo)
qed

definition masks_of :: "MemoryScanValue \<Rightarrow> bytes" where
  "masks_of v = (if v_mask v = [] then replicate (length (v_bytes v)) 0xFF else v_mask v)"

lemma parse_format_bytes:
  assumes len: "ms = [] \<or> length ms = length bs" and mask: "\<forall>i < length bs. ms \<noteq> [] \<longrightarrow> ms ! i = 0 \<or> ms ! i = 0xFF"
    and zero: "\<forall>i < length bs. ms \<noteq> [] \<longrightarrow> ms ! i = 0 \<longrightarrow> bs ! i = 0" and i: "i \<le> length bs"
  shows "parse_byte_array (concat (map (format_byte bs ms) [i..<length bs])) accB accM =
    Inr (accB @ drop i bs, accM @ drop i (if ms = [] then replicate (length bs) 0xFF else ms))"
  using i
proof (induction "length bs - i" arbitrary: i accB accM)
  case 0
  then have "i = length bs" by simp
  with len show ?case by (auto simp: parse_byte_array.simps)
next
  case (Suc n)
  then have i: "i < length bs" "n = length bs - Suc i" by simp_all
  let ?M = "if ms = [] then replicate (length bs) 0xFF else ms"
  have drops: "drop i bs = bs ! i # drop (Suc i) bs" "drop i ?M = ?M ! i # drop (Suc i) ?M"
    using i len Cons_nth_drop_Suc [of i bs] Cons_nth_drop_Suc [of i ?M] by auto
  have step: "parse_byte_array (format_byte bs ms i @ s) accB accM = parse_byte_array s (accB @ [bs ! i]) (accM @ [?M ! i])" for s
    using i mask zero parse_byte_array_pair [OF byte_nibbles(1,2) [of "bs ! i"], of s accB accM]
    by (auto simp: format_byte_def parse_byte_array_space parse_byte_array_wild byte_nibbles(3))
  show ?case
    using Suc.hyps(1) [of "Suc i"] i step drops by (simp add: upt_conv_Cons)
qed

definition bytes_ok :: "bytes \<Rightarrow> bytes \<Rightarrow> bool" where
  "bytes_ok bs ms \<longleftrightarrow> list_all2 (\<lambda>b m. m = 0xFF \<or> m = 0 \<and> b = 0) bs ms"

lemma parse_byte_array_ok:
  "parse_byte_array t bs ms = Inr (bs1, ms1) \<Longrightarrow> bytes_ok bs ms \<Longrightarrow> bytes_ok bs1 ms1"
proof (induction t bs ms rule: parse_byte_array.induct)
  case (1 t bs ms)
  note IH = 1(1) [OF refl] 1(2) [OF refl _ _ refl]
  have ext: "bytes_ok (bs @ [b]) (ms @ [m])" if "m = 0xFF \<or> m = 0 \<and> b = 0" for b m
    using 1(4) that by (simp add: bytes_ok_def list_all2_appendI)
  show ?case
    using 1(3,4) IH ext
    by (subst (asm) parse_byte_array.simps) (auto simp: Let_def split: if_splits option.splits)
qed

lemma trim_format_bytes:
  assumes "bs \<noteq> []"
  shows "trim (concat (map (format_byte bs ms) [0..<length bs])) = concat (map (format_byte bs ms) [0..<length bs])"
proof -
  let ?f = "format_byte bs ms"
  have q: "\<not> c_isspace CHR ''?''" by (simp add: c_isspace_def)
  have last: "?f i \<noteq> [] \<and> \<not> c_isspace (last (?f i))" for i
    using hex_upper_facts [OF byte_nibbles(2) [of "bs ! i"]] q by (cases "i = 0") (simp_all add: format_byte_def)
  have first: "\<not> c_isspace (hd (?f 0))"
    using hex_upper_facts [OF byte_nibbles(1) [of "bs ! 0"]] q by (simp add: format_byte_def)
  obtain n where n: "length bs = Suc n" using assms by (cases bs) auto
  have "concat (map ?f [0..<Suc n]) = ?f 0 @ concat (map ?f [1..<Suc n])" by (simp add: upt_conv_Cons del: upt_Suc)
  moreover have "concat (map ?f [0..<Suc n]) = concat (map ?f [0..<n]) @ ?f n" by simp
  ultimately show ?thesis unfolding n using first last [of 0] last [of n] by (intro trim_same) (metis append_is_Nil_conv hd_append2 last_appendR)+
qed

section \<open>Parsing what was formatted\<close>

text \<open>What the standard promises of \<open>std::to_chars\<close> and \<open>std::from_chars\<close>: a finite value written with
  \<open>max_digits10\<close> digits is a plain number that reads wr as the same bits.\<close>

definition float_text :: "float_lib \<Rightarrow> bool" where
  "float_text fl \<longleftrightarrow>
     (\<forall>w \<in> {4, 8}. \<forall>bits. bits AND widthMask w = bits \<longrightarrow> float_finite w bits \<longrightarrow>
        f_to_chars fl w bits \<noteq> [] \<and> hd (f_to_chars fl w bits) \<noteq> CHR ''+'' \<and>
        set (f_to_chars fl w bits) \<subseteq> set ''0123456789+-.e'' \<and>
        f_from_chars fl w (f_to_chars fl w bits) = Some (bits, []))"

lemma encode_integer_format:
  assumes t: "integerType t = Some (w, sg)" and v: "value_valid v" "v_type v = t"
  shows "encode_integer w sg (FormatMemoryScanValue fl v hex) hex = Inr (v_bytes v)"
proof -
  have w: "0 < w" "w \<le> 8" "MemoryValueTypeFixedSize t = w" and ty: "t \<notin> {ByteArray, Utf8, Utf16Le}"
    using t by (cases t; simp)+
  have len: "length (v_bytes v) = w" using v w by (auto simp: value_valid_def split: if_splits)
  let ?raw = "readLe (v_bytes v) w"
  have raw: "?raw AND widthMask w = ?raw" using w by (simp add: readLe_width)
  have wr: "writeLe ?raw w = v_bytes v" using len w(2) by (rule writeLe_readLe)
  have "unat ?raw \<le> unat (widthMask w)"
    by (metis raw word_and_le1 word_le_nat_alt)
  then have u: "parseUnsigned (dec (unat ?raw)) 10 (widthMask w) = Some ?raw"
    by (simp add: parseUnsigned_dec)
  have s: "parseSignedDecimal (dec_int64 (signedFromBits ?raw w)) w = Some (signedFromBits ?raw w)"
    using parseSignedDecimal_dec [OF w(1,2)] signedFromBits_range [OF w(1,2)] by blast
  have f: "FormatMemoryScanValue fl v hex =
      (if hex then fixedHex ?raw w else if sg then dec_int64 (signedFromBits ?raw w) else dec (unat ?raw))"
    using v w ty t by (simp add: FormatMemoryScanValue_def Let_def)
  show ?thesis
    unfolding f using u s wr parseUnsigned_fixedHex [OF w(1,2) raw] signedFromBits_inverse [OF w(1,2), of ?raw] raw
    by (simp add: encode_integer_def writeLe_mask)
qed

lemma starts_bits_fixedHex: "\<not> starts_bits (fixedHex b w)"
  by (simp add: starts_bits_def fixedHex_eq)

lemma encode_float_format:
  assumes fl: "float_text fl" and t: "MemoryValueTypeIsFloat t" and v: "value_valid v" "v_type v = t"
  shows "encode_float fl (MemoryValueTypeFixedSize t) (FormatMemoryScanValue fl v hex) hex = Inr (v_bytes v)"
proof -
  define w where "w = MemoryValueTypeFixedSize t"
  have w: "w \<in> {4, 8}" "0 < w" "w \<le> 8" and ty: "t \<notin> {ByteArray, Utf8, Utf16Le}" "integerType t = None"
    using t by (auto simp: w_def MemoryValueTypeIsFloat_def)
  have len: "length (v_bytes v) = w" using v w by (auto simp: value_valid_def w_def split: if_splits)
  let ?raw = "readLe (v_bytes v) w"
  have raw: "?raw AND widthMask w = ?raw" using w by (simp add: readLe_width)
  have wr: "writeLe ?raw w = v_bytes v" using len w(3) by (rule writeLe_readLe)
  have f: "FormatMemoryScanValue fl v hex =
      (if hex then fixedHex ?raw w else if \<not> float_finite w ?raw then ''bits:'' @ fixedHex ?raw w
       else f_to_chars fl w ?raw)"
    using v ty by (simp add: FormatMemoryScanValue_def Let_def w_def)
  have hex: "parseUnsigned (fixedHex ?raw w) 16 (widthMask w) = Some ?raw" by (rule parseUnsigned_fixedHex [OF w(2,3) raw])
  have sp: "\<forall>c \<in> set (fixedHex ?raw w). \<not> c_isspace c"
    using hex_upper_facts by (auto simp: fixedHex_eq c_isspace_def nibble_eq)
  then have trims: "trim (fixedHex ?raw w) = fixedHex ?raw w" "trim (''bits:'' @ fixedHex ?raw w) = ''bits:'' @ fixedHex ?raw w"
    by (auto intro!: trim_digits simp: fixedHex_eq c_isspace_def)
  show ?thesis
  proof (cases "hex \<or> \<not> float_finite w ?raw")
    case True
    then show ?thesis
      using hex trims wr starts_bits_fixedHex unfolding f w_def [symmetric]
      by (auto simp: encode_float_def Let_def starts_bits_def)
  next
    case False
    let ?t = "f_to_chars fl w ?raw"
    have law: "?t \<noteq> []" "hd ?t \<noteq> CHR ''+''" "set ?t \<subseteq> set ''0123456789+-.e''" "f_from_chars fl w ?t = Some (?raw, [])"
      using fl [unfolded float_text_def, rule_format, OF w(1) raw] False by auto
    have "\<forall>c \<in> set ?t. \<not> c_isspace c" using law(3) by (auto simp: c_isspace_def)
    then have trim: "trim ?t = ?t" using law(1) by (intro trim_digits)
    have "\<not> starts_bits ?t"
    proof
      assume "starts_bits ?t"
      then have "take 5 ?t = ''bits:''" by (simp add: starts_bits_def)
      then have "CHR ''b'' \<in> set (take 5 ?t)" by simp
      then have "CHR ''b'' \<in> set ?t" by (rule in_set_takeD)
      with law(3) show False by auto
    qed
    then show ?thesis
      using False law trim wr unfolding f w_def [symmetric]
      by (simp add: encode_float_def Let_def drop_plus_def)
  qed
qed

lemma map_sum_Inr: "map_sum id f x = Inr y \<Longrightarrow> \<exists>z. x = Inr z \<and> y = f z"
  by (cases x) auto

lemma encode_bytes_format:
  assumes "encode_bytes s = Inr (bs, ms)"
  shows "encode_bytes (concat (map (format_byte bs ms) [0..<length bs])) = Inr (bs, ms)"
proof -
  obtain ms0 where p: "parse_byte_array (trim s) [] [] = Inr (bs, ms0)" "bs \<noteq> []"
    and ms: "ms = (if list_all (\<lambda>m. m = 0xFF) ms0 then [] else ms0)"
    using assms by (auto simp: encode_bytes_def split: sum.splits if_splits)
  have ok: "bytes_ok bs ms0" using parse_byte_array_ok [OF p(1)] by (simp add: bytes_ok_def)
  then have len: "length ms0 = length bs" by (simp add: bytes_ok_def list_all2_lengthD)
  have masks: "ms0 ! i = 0xFF \<or> ms0 ! i = 0 \<and> bs ! i = 0" if "i < length bs" for i
    using ok that by (auto simp: bytes_ok_def dest: list_all2_nthD)
  have "parse_byte_array (concat (map (format_byte bs ms) [0..<length bs])) [] [] =
      Inr (bs, if ms = [] then replicate (length bs) 0xFF else ms)"
  proof -
    have "\<forall>i < length bs. ms \<noteq> [] \<longrightarrow> ms ! i = 0 \<or> ms ! i = 0xFF" "\<forall>i < length bs. ms \<noteq> [] \<longrightarrow> ms ! i = 0 \<longrightarrow> bs ! i = 0"
      using masks ms by (force split: if_splits)+
    moreover have "ms = [] \<or> length ms = length bs" using len ms by auto
    ultimately show ?thesis using parse_format_bytes [of ms bs 0 "[]" "[]"] by simp
  qed
  then have "encode_bytes (concat (map (format_byte bs ms) [0..<length bs])) =
      Inr (bs, if list_all (\<lambda>m. m = 0xFF) (if ms = [] then replicate (length bs) 0xFF else ms) then []
               else if ms = [] then replicate (length bs) 0xFF else ms)"
    using p(2) by (simp only: encode_bytes_def trim_format_bytes [OF p(2)]) simp
  then show ?thesis using ms by (cases "list_all (\<lambda>m. m = 0xFF) ms0") (auto simp: list_all_iff)
qed

lemma utf16_format_text:
  assumes "\<forall>cp \<in> set cps. scalar cp" "v_type v = Utf16Le" "value_valid v"
    "v_bytes v = concat (map utf16_encode cps) @ (if nullTerminated v then utf16_unit 0 else [])"
  shows "FormatMemoryScanValue fl v hex = fold appendUtf8 cps []"
  using assms utf16_concat_even [of cps] utf16_format_concat [OF assms(1), of "[]"]
  by (simp add: FormatMemoryScanValue_def utf16_unit_def Let_def)

lemma encode_text_format:
  assumes t: "v_type v = t" "t = Utf8 \<or> t = Utf16Le" and v: "value_valid v"
    and e: "encode_text t s (nullTerminated v) = Inr (v_bytes v)"
  shows "encode_text t (FormatMemoryScanValue fl v hex) (nullTerminated v) = Inr (v_bytes v)"
proof -
  obtain cps where cps: "decodeUtf8 s = Some cps" using e by (auto simp: encode_text_def split: option.splits)
  have sc: "\<forall>cp \<in> set cps. scalar cp" using decodeUtf8_scalar [OF cps] by blast
  show ?thesis
  proof (cases "t = Utf8")
    case True
    have "map (\<lambda>b. char_of (unat b)) (map (\<lambda>c. of_nat (byte_of c) :: u8) s) = s"
      using byte_of_less by (simp add: comp_def unat_of_nat)
    moreover have "v_bytes v = map (\<lambda>c. of_nat (byte_of c)) s @ (if nullTerminated v then [0] else [])"
      using e cps True by (auto simp: encode_text_def Let_def split: if_splits)
    ultimately have "FormatMemoryScanValue fl v hex = s"
      using v t(1) True by (simp add: FormatMemoryScanValue_def)
    with e show ?thesis by simp
  next
    case False
    then have b: "v_bytes v = concat (map utf16_encode cps) @ (if nullTerminated v then utf16_unit 0 else [])"
      using e cps by (auto simp: encode_text_def Let_def split: if_splits)
    have f: "FormatMemoryScanValue fl v hex = concat (map (\<lambda>cp. map char_of (utf8_enc cp)) cps)"
      using utf16_format_text [OF sc _ v b] t False fold_appendUtf8 [OF sc] by simp
    show ?thesis using e cps decodeUtf8_concat [OF sc] False t(2) unfolding f by (simp add: encode_text_def)
  qed
qed

text \<open>C10: whatever the value parser accepts, in any type and notation, is written back by the formatter, in decimal
  or in hexadecimal, as text that parses to the same bytes, mask and terminator: integers of every width
  and sign, wildcard byte arrays, UTF-8 and UTF-16 text, and floating point down to the bit pattern
  (infinities and NaNs included).\<close>

theorem Parse_Format_MemoryScanValue:
  assumes "float_text fl" "ParseMemoryScanValue fl t s opt = Inr v"
  shows "v_type v = t \<and> value_valid v \<and>
    ParseMemoryScanValue fl t (FormatMemoryScanValue fl v hex)
      \<lparr>hexadecimal = hex, nullTerminateText = nullTerminateText opt\<rparr> = Inr v"
proof -
  have vv: "value_valid v" using assms(2)
    by (auto simp: ParseMemoryScanValue_def Let_def split: sum.splits if_splits)
  consider (int) w sg where "integerType t = Some (w, sg)" | (float) "integerType t = None" "MemoryValueTypeIsFloat t"
    | (bytes) "t = ByteArray" | (str) "t = Utf8 \<or> t = Utf16Le"
    by (cases t) (auto simp: MemoryValueTypeIsFloat_def)
  then show ?thesis
  proof cases
    case int
    then obtain bs where v: "v = \<lparr>v_type = t, v_bytes = bs, v_mask = [], nullTerminated = False\<rparr>"
      using assms(2) by (auto simp: ParseMemoryScanValue_def Let_def split: sum.splits if_splits dest!: map_sum_Inr)
    show ?thesis
      using encode_integer_format [OF int vv, of fl hex] vv int unfolding v by (simp add: ParseMemoryScanValue_def)
  next
    case float
    then obtain bs where v: "v = \<lparr>v_type = t, v_bytes = bs, v_mask = [], nullTerminated = False\<rparr>"
      using assms(2) by (auto simp: ParseMemoryScanValue_def Let_def split: sum.splits if_splits dest!: map_sum_Inr)
    show ?thesis
      using encode_float_format [OF assms(1) float(2) vv, of hex] vv float unfolding v by (simp add: ParseMemoryScanValue_def)
  next
    case bytes
    then obtain bs ms where v: "v = \<lparr>v_type = t, v_bytes = bs, v_mask = ms, nullTerminated = False\<rparr>" "encode_bytes s = Inr (bs, ms)"
      using assms(2) by (auto simp: ParseMemoryScanValue_def Let_def MemoryValueTypeIsFloat_def split: sum.splits if_splits dest!: map_sum_Inr)
    show ?thesis
      using encode_bytes_format [OF v(2)] vv bytes unfolding v(1)
      by (simp add: ParseMemoryScanValue_def FormatMemoryScanValue_def MemoryValueTypeIsFloat_def)
  next
    case str
    then obtain bs where v: "v = \<lparr>v_type = t, v_bytes = bs, v_mask = [], nullTerminated = nullTerminateText opt\<rparr>"
      "encode_text t s (nullTerminateText opt) = Inr bs"
      using assms(2) by (auto simp: ParseMemoryScanValue_def Let_def MemoryValueTypeIsFloat_def split: sum.splits if_splits dest!: map_sum_Inr)
    show ?thesis
      using encode_text_format [of v t s fl hex] vv str v(2) unfolding v(1)
      by (auto simp: ParseMemoryScanValue_def MemoryValueTypeIsFloat_def)
  qed
qed

definition demo_floats :: float_lib where
  "demo_floats = \<lparr>f_from_chars = \<lambda>w s. from_chars_u64 10 s, f_to_chars = \<lambda>w b. dec (unat b)\<rparr>"

lemma demo_floats_text: "float_text demo_floats"
proof -
  have "from_chars_u64 10 (dec (unat b)) = Some (b, [])" for b
    using from_chars_digits [of "dec (unat b)" 10] dec_digits [of "unat b"] unsigned_less [of b, where ?'a = nat]
    by (simp add: dec_value isdigit_in_10)
  moreover have "set (dec n) \<subseteq> set ''0123456789+-.e''" for n
  proof
    fix c assume "c \<in> set (dec n)"
    with dec_digits have "c_isdigit c" by blast
    then have "byte_of c \<in> set [48..<58]" by (simp only: c_isdigit_def Let_def set_upt atLeastLessThan_iff) auto
    then have "c \<in> char_of ` set [48..<58 :: nat]" by (metis char_of_char image_eqI)
    moreover have "char_of ` set [48..<58 :: nat] \<subseteq> set ''0123456789+-.e''" by code_simp
    ultimately show "c \<in> set ''0123456789+-.e''" by blast
  qed
  moreover have "hd (dec n) \<noteq> CHR ''+''" for n using dec_head [of n] by auto
  ultimately show ?thesis by (simp add: float_text_def demo_floats_def)
qed

theorem Parse_Format_MemoryScanValue_witness:
  "ParseMemoryScanValue demo_floats ByteArray
     (FormatMemoryScanValue demo_floats \<lparr>v_type = ByteArray, v_bytes = [0x4D, 0, 0x0A], v_mask = [0xFF, 0, 0xFF], nullTerminated = False\<rparr> False)
     \<lparr>hexadecimal = False, nullTerminateText = False\<rparr> =
   Inr \<lparr>v_type = ByteArray, v_bytes = [0x4D, 0, 0x0A], v_mask = [0xFF, 0, 0xFF], nullTerminated = False\<rparr>"
proof -
  have "ParseMemoryScanValue demo_floats ByteArray '' 4d ?,0x0A'' \<lparr>hexadecimal = False, nullTerminateText = False\<rparr> =
     Inr \<lparr>v_type = ByteArray, v_bytes = [0x4D, 0, 0x0A], v_mask = [0xFF, 0, 0xFF], nullTerminated = False\<rparr>"
    by code_simp
  from Parse_Format_MemoryScanValue [OF demo_floats_text this, of False] show ?thesis by simp
qed

text \<open>A plus sign before a negative number is let through by the parser for signed decimals.\<close>

lemma parseSignedDecimal_plus_minus: "parseSignedDecimal '' +-5'' 4 = Some (- 5)"
  by code_simp

end
