(* ===== verification/Memory_Scan.thy ===== *)
theory Memory_Scan
  imports Scan_Value Machine
begin

unbundle bit_operations_syntax

text \<open>
  \<open>src/src/Core/MemoryScan.{h,cpp}\<close>, second half: the comparison of one candidate and the incremental
  scan state. A binary floating-point value is the rational it stands for, an infinity or a NaN; the
  values of \<open>float\<close> and \<open>double\<close> widen to \<open>long double\<close> exactly, and the rounding of \<open>long double\<close> sums and
  products, which is left to the implementation, is the parameter \<open>rnd\<close>. A null pointer is \<open>None\<close>.
\<close>

section \<open>Floating point\<close>

datatype FloatVal = Fin rat | Infinite bool | NotANumber

definition float_value :: "nat \<Rightarrow> u64 \<Rightarrow> FloatVal" where
  "float_value width bits =
     (let mb = (if width = 4 then 23 else 52); eb = (if width = 4 then 8 else 11);
          frac = unat (take_bit mb bits); ex = unat (take_bit eb (drop_bit mb bits)); neg = bit bits (mb + eb)
      in if ex = 2 ^ eb - 1 then (if frac = 0 then Infinite neg else NotANumber)
         else Fin ((if neg then - 1 else 1) *
                of_nat ((if ex = 0 then frac else 2 ^ mb + frac) * 2 ^ (max ex 1 - 1)) /
                2 ^ (2 ^ (eb - 1) + mb - 2)))"

fun fl_finite :: "FloatVal \<Rightarrow> bool" where
  "fl_finite (Fin r) = True"
| "fl_finite _ = False"

fun fl_eq :: "FloatVal \<Rightarrow> FloatVal \<Rightarrow> bool" where
  "fl_eq (Fin a) (Fin b) = (a = b)"
| "fl_eq (Infinite a) (Infinite b) = (a = b)"
| "fl_eq _ _ = False"

fun fl_less :: "FloatVal \<Rightarrow> FloatVal \<Rightarrow> bool" where
  "fl_less (Fin a) (Fin b) = (a < b)"
| "fl_less (Infinite a) (Fin b) = a"
| "fl_less (Fin a) (Infinite b) = (\<not> b)"
| "fl_less (Infinite a) (Infinite b) = (a \<and> \<not> b)"
| "fl_less _ _ = False"

definition fl_le :: "FloatVal \<Rightarrow> FloatVal \<Rightarrow> bool" where
  "fl_le a b \<longleftrightarrow> fl_less a b \<or> fl_eq a b"

definition fl_max :: "FloatVal \<Rightarrow> FloatVal \<Rightarrow> FloatVal" where
  "fl_max a b = (if fl_less a b then b else a)"

fun fl_abs :: "FloatVal \<Rightarrow> FloatVal" where
  "fl_abs (Fin a) = Fin \<bar>a\<bar>"
| "fl_abs (Infinite a) = Infinite False"
| "fl_abs NotANumber = NotANumber"

fun fl_add :: "(rat \<Rightarrow> FloatVal) \<Rightarrow> FloatVal \<Rightarrow> FloatVal \<Rightarrow> FloatVal" where
  "fl_add rnd (Fin a) (Fin b) = rnd (a + b)"
| "fl_add rnd (Infinite a) (Fin b) = Infinite a"
| "fl_add rnd (Fin a) (Infinite b) = Infinite b"
| "fl_add rnd (Infinite a) (Infinite b) = (if a = b then Infinite a else NotANumber)"
| "fl_add rnd _ _ = NotANumber"

fun fl_neg :: "FloatVal \<Rightarrow> FloatVal" where
  "fl_neg (Fin a) = Fin (- a)"
| "fl_neg (Infinite a) = Infinite (\<not> a)"
| "fl_neg NotANumber = NotANumber"

fun fl_mul :: "(rat \<Rightarrow> FloatVal) \<Rightarrow> FloatVal \<Rightarrow> FloatVal \<Rightarrow> FloatVal" where
  "fl_mul rnd (Fin a) (Fin b) = rnd (a * b)"
| "fl_mul rnd (Infinite a) (Fin b) = (if b = 0 then NotANumber else Infinite (a \<noteq> (b < 0)))"
| "fl_mul rnd (Fin a) (Infinite b) = (if a = 0 then NotANumber else Infinite ((a < 0) \<noteq> b))"
| "fl_mul rnd (Infinite a) (Infinite b) = Infinite (a \<noteq> b)"
| "fl_mul rnd _ _ = NotANumber"

section \<open>Comparing numbers\<close>

datatype MemoryScanMode =
    Exact | NotEqual | GreaterThanValue | LessThanValue | Between | Changed | Unchanged | Increased | Decreased
  | IncreasedBy | DecreasedBy | UnknownInitial

record MemoryFloatTolerance =
  t_enabled :: bool
  t_absolute :: FloatVal
  t_relative :: FloatVal

record MemoryScanConfig =
  c_type :: MemoryValueType
  c_mode :: MemoryScanMode
  c_value :: MemoryScanValue
  secondValue :: MemoryScanValue
  tolerance :: MemoryFloatTolerance
  alignment :: u32
  elementSize :: nat

definition modeNeedsValue :: "MemoryScanMode \<Rightarrow> bool" where
  "modeNeedsValue m \<longleftrightarrow> m \<in> {Exact, NotEqual, GreaterThanValue, LessThanValue, Between, IncreasedBy, DecreasedBy}"

definition modeNeedsPrevious :: "MemoryScanMode \<Rightarrow> bool" where
  "modeNeedsPrevious m \<longleftrightarrow> m \<in> {Changed, Unchanged, Increased, Decreased, IncreasedBy, DecreasedBy}"

definition initialModeUsesBaseline :: "MemoryScanMode \<Rightarrow> bool" where
  "initialModeUsesBaseline m \<longleftrightarrow> modeNeedsPrevious m \<or> m = UnknownInitial"

definition modeNeedsNumeric :: "MemoryScanMode \<Rightarrow> bool" where
  "modeNeedsNumeric m \<longleftrightarrow> m \<in> {GreaterThanValue, LessThanValue, Between, Increased, Decreased, IncreasedBy, DecreasedBy}"

definition sameValue :: "MemoryScanValue \<Rightarrow> MemoryScanValue \<Rightarrow> bool" where
  "sameValue a b \<longleftrightarrow> v_type a = v_type b \<and> v_bytes a = v_bytes b \<and> v_mask a = v_mask b \<and> nullTerminated a = nullTerminated b"

definition sameConfig :: "MemoryScanConfig \<Rightarrow> MemoryScanConfig \<Rightarrow> bool" where
  "sameConfig a b \<longleftrightarrow> c_type a = c_type b \<and> c_mode a = c_mode b \<and> alignment a = alignment b \<and> elementSize a = elementSize b \<and>
     t_enabled (tolerance a) = t_enabled (tolerance b) \<and> fl_eq (t_absolute (tolerance a)) (t_absolute (tolerance b)) \<and>
     fl_eq (t_relative (tolerance a)) (t_relative (tolerance b)) \<and>
     sameValue (c_value a) (c_value b) \<and> sameValue (secondValue a) (secondValue b)"

text \<open>The decoded number and its width in bytes.\<close>

datatype Numeric = Unsigned u64 nat | Signed int nat | Floating FloatVal nat

definition decodeNumeric :: "MemoryValueType \<Rightarrow> bytes \<Rightarrow> nat \<Rightarrow> Numeric option" where
  "decodeNumeric type bs n =
     (let width = MemoryValueTypeFixedSize type
      in if width = 0 \<or> n < width \<or> \<not> MemoryValueTypeIsNumeric type then None
         else if type = Float32 then Some (Floating (float_value 4 (readLe bs 4)) width)
         else if type = Float64 then Some (Floating (float_value 8 (readLe bs 8)) width)
         else case integerType type of
           None \<Rightarrow> None
         | Some (w, isSigned) \<Rightarrow>
             if isSigned then Some (Signed (signedFromBits (readLe bs w) w) width)
             else Some (Unsigned (readLe bs w AND widthMask w) width))"

definition almostEqual :: "(rat \<Rightarrow> FloatVal) \<Rightarrow> FloatVal \<Rightarrow> FloatVal \<Rightarrow> MemoryFloatTolerance \<Rightarrow> bool" where
  "almostEqual rnd a b tol =
     (if fl_eq a b then True
      else if \<not> fl_finite a \<or> \<not> fl_finite b then False
      else
        let difference = fl_abs (fl_add rnd a (fl_neg b));
            scale = fl_max (fl_abs a) (fl_abs b);
            allowed = fl_max (t_absolute tol) (fl_mul rnd (t_relative tol) scale)
        in fl_le difference allowed)"

fun equalNumeric :: "(rat \<Rightarrow> FloatVal) \<Rightarrow> Numeric \<Rightarrow> Numeric \<Rightarrow> MemoryFloatTolerance \<Rightarrow> bool" where
  "equalNumeric rnd (Unsigned a _) (Unsigned b _) tol = (a = b)"
| "equalNumeric rnd (Signed a _) (Signed b _) tol = (a = b)"
| "equalNumeric rnd (Floating a _) (Floating b _) tol = (if t_enabled tol then almostEqual rnd a b tol else fl_eq a b)"
| "equalNumeric rnd _ _ tol = False"

fun lessNumeric :: "(rat \<Rightarrow> FloatVal) \<Rightarrow> Numeric \<Rightarrow> Numeric \<Rightarrow> MemoryFloatTolerance \<Rightarrow> bool" where
  "lessNumeric rnd (Unsigned a _) (Unsigned b _) tol = (a < b)"
| "lessNumeric rnd (Signed a _) (Signed b _) tol = (a < b)"
| "lessNumeric rnd (Floating a _) (Floating b _) tol = (fl_less a b \<and> (\<not> t_enabled tol \<or> \<not> almostEqual rnd a b tol))"
| "lessNumeric rnd _ _ tol = False"

definition greaterNumeric :: "(rat \<Rightarrow> FloatVal) \<Rightarrow> Numeric \<Rightarrow> Numeric \<Rightarrow> MemoryFloatTolerance \<Rightarrow> bool" where
  "greaterNumeric rnd a b tol = lessNumeric rnd b a tol"

definition maskedEqual :: "bytes \<Rightarrow> MemoryScanValue \<Rightarrow> nat \<Rightarrow> bool" where
  "maskedEqual current v width \<longleftrightarrow>
     list_all (\<lambda>i. current ! i AND (if v_mask v = [] then 0xFF else v_mask v ! i) =
                   v_bytes v ! i AND (if v_mask v = [] then 0xFF else v_mask v ! i)) [0..<width]"

definition rawEqual :: "bytes \<Rightarrow> bytes \<Rightarrow> nat \<Rightarrow> bool" where
  "rawEqual a b width \<longleftrightarrow> take width a = take width b"

section \<open>The predicate\<close>

definition delta_matches :: "(rat \<Rightarrow> FloatVal) \<Rightarrow> MemoryFloatTolerance \<Rightarrow> bool \<Rightarrow> Numeric \<Rightarrow> Numeric \<Rightarrow> Numeric \<Rightarrow> bool" where
  \<comment> \<open>the closing switch: current, reference, delta\<close>
  "delta_matches rnd tol increase cur reference delta =
     (case (cur, reference, delta) of
        (Unsigned c w, Unsigned r _, Unsigned d _) \<Rightarrow>
          if increase then (if r > widthMask w - d then False else c = r + d)
          else (if r < d then False else c = r - d)
      | (Signed c w, Signed r _, Signed d _) \<Rightarrow>
          if d < 0 then False
          else if increase then (if r > signedMaximum w - d then False else c = r + d)
          else (if r < signedMinimum w + d then False else c = r - d)
      | (Floating c _, Floating r _, Floating d _) \<Rightarrow>
          if \<not> fl_finite c \<or> \<not> fl_finite r \<or> \<not> fl_finite d \<or> fl_less d (Fin 0) then False
          else
            let expected = (if increase then fl_add rnd r d else fl_add rnd r (fl_neg d))
            in fl_finite expected \<and> (if t_enabled tol then almostEqual rnd c expected tol else fl_eq c expected)
      | _ \<Rightarrow> False)"

definition decode_value :: "MemoryScanConfig \<Rightarrow> MemoryScanValue \<Rightarrow> Numeric option" where
  "decode_value config v = decodeNumeric (c_type config) (v_bytes v) (length (v_bytes v))"

definition both :: "('a \<Rightarrow> 'a \<Rightarrow> bool) \<Rightarrow> 'a option \<Rightarrow> 'a option \<Rightarrow> bool" where
  "both P a b = (case (a, b) of (Some x, Some y) \<Rightarrow> P x y | _ \<Rightarrow> False)"

definition predicateUnchecked :: "(rat \<Rightarrow> FloatVal) \<Rightarrow> MemoryScanConfig \<Rightarrow> bytes \<Rightarrow> bytes option \<Rightarrow> nat \<Rightarrow> bool" where
  "predicateUnchecked rnd config current previous width =
     (let mode = c_mode config; type = c_type config; tol = tolerance config;
          fuzzy = (MemoryValueTypeIsFloat type \<and> t_enabled tol);
          cur = decodeNumeric type current width
      in if mode = UnknownInitial then True
         else if mode = Exact \<or> mode = NotEqual then
           (let equal = (if fuzzy then both (\<lambda>x y. equalNumeric rnd x y tol) cur (decode_value config (c_value config))
                         else maskedEqual current (c_value config) width)
            in if mode = Exact then equal else \<not> equal)
         else if mode = Changed \<or> mode = Unchanged then
           (case previous of
              None \<Rightarrow> False
            | Some prev \<Rightarrow>
                let equal = (if fuzzy then both (\<lambda>x y. equalNumeric rnd x y tol) cur (decodeNumeric type prev width)
                             else rawEqual current prev width)
                in if mode = Unchanged then equal else \<not> equal)
         else
           case cur of
             None \<Rightarrow> False
           | Some c \<Rightarrow>
               if mode = GreaterThanValue \<or> mode = LessThanValue \<or> mode = Between then
                 (case decode_value config (c_value config) of
                    None \<Rightarrow> False
                  | Some reference \<Rightarrow>
                      if mode = GreaterThanValue then greaterNumeric rnd c reference tol
                      else if mode = LessThanValue then lessNumeric rnd c reference tol
                      else case decode_value config (secondValue config) of
                        None \<Rightarrow> False
                      | Some upper \<Rightarrow>
                          (greaterNumeric rnd c reference tol \<or> equalNumeric rnd c reference tol) \<and>
                          (lessNumeric rnd c upper tol \<or> equalNumeric rnd c upper tol))
               else
                 case previous of
                   None \<Rightarrow> False
                 | Some prev \<Rightarrow>
                     (case decodeNumeric type prev width of
                        None \<Rightarrow> False
                      | Some reference \<Rightarrow>
                          if mode = Increased then greaterNumeric rnd c reference tol
                          else if mode = Decreased then lessNumeric rnd c reference tol
                          else case decode_value config (c_value config) of
                            None \<Rightarrow> False
                          | Some delta \<Rightarrow> delta_matches rnd tol (mode = IncreasedBy) c reference delta))"

definition MemoryScanElementSize :: "MemoryScanConfig \<Rightarrow> nat" where
  "MemoryScanElementSize config =
     (if MemoryValueTypeFixedSize (c_type config) \<noteq> 0 then MemoryValueTypeFixedSize (c_type config)
      else if elementSize config \<noteq> 0 then elementSize config
      else length (v_bytes (c_value config)))"

definition value_fits :: "MemoryScanConfig \<Rightarrow> MemoryScanValue \<Rightarrow> bool" where
  "value_fits config v \<longleftrightarrow> value_valid v \<and> v_type v = c_type config \<and> length (v_bytes v) = MemoryScanElementSize config"

definition MemoryScanPredicate :: "(rat \<Rightarrow> FloatVal) \<Rightarrow> MemoryScanConfig \<Rightarrow> bytes option \<Rightarrow> bytes option \<Rightarrow> bool" where
  "MemoryScanPredicate rnd config current previous =
     (let width = MemoryScanElementSize config
      in case current of
           None \<Rightarrow> False
         | Some cur \<Rightarrow>
             if width = 0 \<or> length cur < width then False
             else if modeNeedsPrevious (c_mode config) \<and>
               (case previous of None \<Rightarrow> True | Some p \<Rightarrow> length p < width) then False
             else if modeNeedsValue (c_mode config) \<and> \<not> value_fits config (c_value config) then False
             else if c_mode config = Between \<and> \<not> value_fits config (secondValue config) then False
             else predicateUnchecked rnd config cur previous width)"

definition numeric_of :: "MemoryScanValue \<Rightarrow> Numeric option" where
  "numeric_of v = decodeNumeric (v_type v) (v_bytes v) (length (v_bytes v))"

definition finiteNeedle :: "MemoryScanValue \<Rightarrow> bool" where
  "finiteNeedle v = (case numeric_of v of None \<Rightarrow> False | Some (Floating f _) \<Rightarrow> fl_finite f | Some _ \<Rightarrow> True)"

definition nonNegativeNeedle :: "MemoryScanValue \<Rightarrow> bool" where
  "nonNegativeNeedle v =
     (case numeric_of v of
        None \<Rightarrow> False
      | Some (Unsigned _ _) \<Rightarrow> True
      | Some (Signed s _) \<Rightarrow> s \<ge> 0
      | Some (Floating f _) \<Rightarrow> fl_finite f \<and> fl_le (Fin 0) f)"

definition no_tolerance :: MemoryFloatTolerance where
  "no_tolerance = \<lparr>t_enabled = False, t_absolute = Fin 0, t_relative = Fin 0\<rparr>"

text \<open>\<open>None\<close> is a valid configuration, \<open>Some\<close> the error text.\<close>

definition between_bad :: "(rat \<Rightarrow> FloatVal) \<Rightarrow> MemoryScanConfig \<Rightarrow> bool" where
  "between_bad rnd config =
     (case (decodeNumeric (c_type config) (v_bytes (c_value config)) (MemoryScanElementSize config),
            decodeNumeric (c_type config) (v_bytes (secondValue config)) (MemoryScanElementSize config)) of
        (Some lower, Some upper) \<Rightarrow>
          \<not> finiteNeedle (c_value config) \<or> \<not> finiteNeedle (secondValue config) \<or> greaterNumeric rnd lower upper no_tolerance
      | _ \<Rightarrow> True)"

definition tolerance_error :: "MemoryScanConfig \<Rightarrow> string option" where
  "tolerance_error config =
     (let tol = tolerance config
      in if t_enabled tol then
           (if \<not> MemoryValueTypeIsFloat (c_type config) then Some ''floating-point tolerance requires a float or double scan''
            else if \<not> fl_finite (t_absolute tol) \<or> \<not> fl_finite (t_relative tol) \<or>
                    fl_less (t_absolute tol) (Fin 0) \<or> fl_less (t_relative tol) (Fin 0)
            then Some ''floating-point tolerances must be finite and non-negative'' else None)
         else None)"

definition bounds_error :: "(rat \<Rightarrow> FloatVal) \<Rightarrow> MemoryScanConfig \<Rightarrow> string option" where
  "bounds_error rnd config =
     (if c_mode config = Between then
        (if \<not> value_fits config (secondValue config) then Some ''between scan requires a matching upper bound''
         else if between_bad rnd config then Some ''between bounds must be finite and ordered low to high'' else None)
      else if (c_mode config = GreaterThanValue \<or> c_mode config = LessThanValue) \<and> \<not> finiteNeedle (c_value config)
      then Some ''ordered scan value must be finite'' else None)"

definition ValidateMemoryScanConfig :: "(rat \<Rightarrow> FloatVal) \<Rightarrow> MemoryScanConfig \<Rightarrow> string option" where
  "ValidateMemoryScanConfig rnd config =
     (let fixed = MemoryValueTypeFixedSize (c_type config)
      in if alignment config = 0 then Some ''scan alignment must be at least one byte''
         else if MemoryScanElementSize config = 0 then Some ''scan element size is zero''
         else if fixed \<noteq> 0 \<and> elementSize config \<noteq> 0 \<and> elementSize config \<noteq> fixed
         then Some ''numeric element size does not match its value type''
         else case tolerance_error config of
           Some e \<Rightarrow> Some e
         | None \<Rightarrow>
             if modeNeedsNumeric (c_mode config) \<and> \<not> MemoryValueTypeIsNumeric (c_type config)
             then Some ''ordered and relative-delta scans require a numeric type''
             else if modeNeedsValue (c_mode config) \<and> \<not> value_fits config (c_value config)
             then Some ''scan value does not match the selected type and width''
             else case bounds_error rnd config of
               Some e \<Rightarrow> Some e
             | None \<Rightarrow>
                 if (c_mode config = IncreasedBy \<or> c_mode config = DecreasedBy) \<and> \<not> nonNegativeNeedle (c_value config)
                 then Some ''relative scan delta must be finite and non-negative'' else None)"

section \<open>Candidate bitmaps\<close>

definition set_candidate :: "u64 list \<Rightarrow> nat \<Rightarrow> u64 list" where
  "set_candidate bm off = bm[off div 64 := bm ! (off div 64) OR push_bit (off mod 64) 1]"

definition countr_zero :: "u64 \<Rightarrow> nat" where
  "countr_zero w = (case List.find (bit w) [0..<64] of Some n \<Rightarrow> n | None \<Rightarrow> 64)"

definition popcount :: "u64 \<Rightarrow> nat" where
  "popcount w = length (filter (bit w) [0..<64])"

text \<open>The loop \<open>while (word) { bit = countr_zero(word); word &= word - 1; ... }\<close> visits these bits.\<close>

lemma and_minus_one_less: "w \<noteq> 0 \<Longrightarrow> unat (w AND (w - 1)) < unat (w :: u64)"
proof -
  assume w: "w \<noteq> 0"
  have "w AND (w - 1) \<le> w - 1" by (rule word_and_le1)
  moreover have "w - 1 < w" using w by (simp add: word_less_nat_alt unat_minus_one unat_gt_0)
  ultimately show ?thesis by (simp add: word_less_nat_alt word_le_nat_alt)
qed

function word_bits :: "u64 \<Rightarrow> nat list" where
  "word_bits w = (if w = 0 then [] else countr_zero w # word_bits (w AND (w - 1)))"
  by pat_completeness auto
termination
  by (relation "measure unat") (simp_all add: and_minus_one_less)

declare word_bits.simps [simp del]

section \<open>Scan state\<close>

record MemoryScanChunk =
  ch_base :: u64
  candidateSpan :: nat
  ch_bytes :: bytes
  candidateBitmap :: "u64 list"
  ch_count :: nat

definition candidateAtOffset :: "MemoryScanChunk \<Rightarrow> nat \<Rightarrow> bool" where
  "candidateAtOffset c off =
     (if off \<ge> candidateSpan c then False
      else off div 64 < length (candidateBitmap c) \<and> bit (candidateBitmap c ! (off div 64)) (off mod 64))"

record MemoryScanSnapshot =
  shapeSet :: bool
  s_type :: MemoryValueType
  s_elementSize :: nat
  s_alignment :: u32
  initialConfig :: MemoryScanConfig
  chunks :: "MemoryScanChunk list"
  candidateCount :: nat
  hasLastOwnedRange :: bool
  lastOwnedEnd :: u64

definition empty_value :: MemoryScanValue where
  "empty_value = \<lparr>v_type = UInt32, v_bytes = [], v_mask = [], nullTerminated = False\<rparr>"

definition default_config :: MemoryScanConfig where
  "default_config = \<lparr>c_type = UInt32, c_mode = Exact, c_value = empty_value, secondValue = empty_value,
     tolerance = no_tolerance, alignment = 1, elementSize = 0\<rparr>"

definition scan_clear :: MemoryScanSnapshot where
  "scan_clear = \<lparr>shapeSet = False, s_type = UInt32, s_elementSize = 0, s_alignment = 1, initialConfig = default_config,
     chunks = [], candidateCount = 0, hasLastOwnedRange = False, lastOwnedEnd = 0\<rparr>"

text \<open>The loop over the candidate starts of a new chunk: \<open>stop\<close> is its \<open>break\<close>, \<open>keep\<close> the negation of its
  two \<open>continue\<close>s.\<close>

fun initial_scan :: "(nat \<Rightarrow> bool) \<Rightarrow> (nat \<Rightarrow> bool) \<Rightarrow> nat \<Rightarrow> nat \<Rightarrow> u64 list \<times> nat \<Rightarrow> u64 list \<times> nat" where
  "initial_scan stop keep off 0 acc = acc"
| "initial_scan stop keep off (Suc left) acc =
     (if stop off then acc
      else initial_scan stop keep (off + 1) left
             (if keep off then (set_candidate (fst acc) off, snd acc + 1) else acc))"

definition kWholeSample :: nat where "kWholeSample = 2 ^ 64 - 1"

definition keeps_initially :: "(rat \<Rightarrow> FloatVal) \<Rightarrow> MemoryScanConfig \<Rightarrow> u64 \<Rightarrow> bytes \<Rightarrow> nat \<Rightarrow> bool" where
  "keeps_initially rnd config base sample off \<longleftrightarrow>
     (base + of_nat off) mod ucast (alignment config) = 0 \<and>
     (initialModeUsesBaseline (c_mode config) \<or>
      predicateUnchecked rnd config (drop off sample) None (MemoryScanElementSize config))"

definition initial_chunk :: "(rat \<Rightarrow> FloatVal) \<Rightarrow> MemoryScanConfig \<Rightarrow> u64 \<Rightarrow> bytes \<Rightarrow> nat \<Rightarrow> MemoryScanChunk" where
  "initial_chunk rnd config base sample spn =
     (let width = MemoryScanElementSize config;
          lastComplete = (if length sample \<ge> width then length sample - width else 0);
          anyComplete = (length sample \<ge> width);
          (bm, count) = initial_scan (\<lambda>off. \<not> anyComplete \<or> off > lastComplete) (keeps_initially rnd config base sample)
             0 spn (replicate ((spn + 63) div 64) 0, 0)
      in \<lparr>ch_base = base, candidateSpan = spn, ch_bytes = sample, candidateBitmap = bm, ch_count = count\<rparr>)"

definition set_shape :: "MemoryScanConfig \<Rightarrow> MemoryScanSnapshot \<Rightarrow> MemoryScanSnapshot" where
  "set_shape config s =
     (if shapeSet s then s
      else s\<lparr>shapeSet := True, s_type := c_type config, s_elementSize := MemoryScanElementSize config,
             s_alignment := alignment config, initialConfig := config\<rparr>)"

text \<open>\<open>Inl\<close> is the error text, with the state unchanged; \<open>Inr\<close> the new state.\<close>

definition appendInitialChunk :: "(rat \<Rightarrow> FloatVal) \<Rightarrow> MemoryScanConfig \<Rightarrow> u64 \<Rightarrow> bytes \<Rightarrow> nat \<Rightarrow> MemoryScanSnapshot \<Rightarrow>
    string + MemoryScanSnapshot" where
  "appendInitialChunk rnd config base sample spn0 s =
     (case ValidateMemoryScanConfig rnd config of
        Some e \<Rightarrow> Inl e
      | None \<Rightarrow>
          let sampleSize = length sample;
              spn = (if spn0 = kWholeSample then sampleSize else spn0)
          in if sampleSize = 0 \<or> spn = 0 \<or> spn > sampleSize
             then Inl ''initial scan chunk has no valid owned byte span''
             else if sampleSize > 2 ^ 64 - 1 - unat base \<or> spn > 2 ^ 64 - 1 - unat base
             then Inl ''initial scan chunk address range overflows''
             else if shapeSet s \<and> (s_type s \<noteq> c_type config \<or> s_elementSize s \<noteq> MemoryScanElementSize config \<or>
                       s_alignment s \<noteq> alignment config \<or> \<not> sameConfig (initialConfig s) config)
             then Inl ''initial chunks must use one consistent scan configuration''
             else if hasLastOwnedRange s \<and> base < lastOwnedEnd s
             then Inl ''initial scan chunk ownership ranges overlap or are unsorted''
             else if spn > 2 ^ 64 - 1 - 63 then Inl ''candidate bitmap is too large''
             else
               let chunk = initial_chunk rnd config base sample spn
               in if ch_count chunk > 2 ^ 64 - 1 - candidateCount s then Inl ''scan candidate count overflows''
                  else if ch_count chunk = 0 then
                    Inr ((set_shape config s)\<lparr>hasLastOwnedRange := True, lastOwnedEnd := base + of_nat spn\<rparr>)
                  else
                    Inr ((set_shape config s)\<lparr>chunks := chunks s @ [chunk],
                      candidateCount := candidateCount s + ch_count chunk,
                      hasLastOwnedRange := True, lastOwnedEnd := base + of_nat spn\<rparr>))"

definition refine_bit :: "(rat \<Rightarrow> FloatVal) \<Rightarrow> MemoryScanConfig \<Rightarrow> MemoryScanChunk \<Rightarrow> bytes \<Rightarrow> nat \<Rightarrow> nat \<Rightarrow>
    u64 list \<times> nat \<Rightarrow> u64 list \<times> nat" where
  "refine_bit rnd config prior current wi b acc =
     (let width = MemoryScanElementSize config; offset = wi * 64 + b
      in if offset \<ge> candidateSpan prior \<or> offset > length current \<or> width > length current - offset \<or>
            offset > length (ch_bytes prior) \<or> width > length (ch_bytes prior) - offset then acc
         else if \<not> predicateUnchecked rnd config (drop offset current) (Some (drop offset (ch_bytes prior))) width then acc
         else ((fst acc)[wi := fst acc ! wi OR push_bit b 1], snd acc + 1))"

definition refine_bits :: "(rat \<Rightarrow> FloatVal) \<Rightarrow> MemoryScanConfig \<Rightarrow> MemoryScanChunk \<Rightarrow> bytes \<Rightarrow> u64 list \<times> nat" where
  "refine_bits rnd config prior current =
     fold (\<lambda>wi acc. fold (refine_bit rnd config prior current wi) (word_bits (candidateBitmap prior ! wi)) acc)
       [0..<length (candidateBitmap prior)] (replicate (length (candidateBitmap prior)) 0, 0)"

definition refineChunk :: "(rat \<Rightarrow> FloatVal) \<Rightarrow> nat \<Rightarrow> MemoryScanConfig \<Rightarrow> bytes \<Rightarrow> MemoryScanSnapshot \<Rightarrow>
    string + MemoryScanSnapshot" where
  "refineChunk rnd index config current s =
     (if \<not> shapeSet s \<or> index \<ge> length (chunks s) then Inl ''scan chunk index is out of range''
      else case ValidateMemoryScanConfig rnd config of
        Some e \<Rightarrow> Inl e
      | None \<Rightarrow>
          if c_type config \<noteq> s_type s \<or> MemoryScanElementSize config \<noteq> s_elementSize s \<or> alignment config \<noteq> s_alignment s
          then Inl ''refinement cannot change value type, width, or alignment''
          else
            let prior = chunks s ! index;
                (bm, count) = refine_bits rnd config prior current;
                refined = \<lparr>ch_base = ch_base prior, candidateSpan = candidateSpan prior, ch_bytes = current,
                           candidateBitmap = bm, ch_count = count\<rparr>
            in Inr (s\<lparr>candidateCount := candidateCount s - ch_count prior + count, chunks := (chunks s)[index := refined]\<rparr>))"

section \<open>Pages of results\<close>

record MemoryScanMatch =
  m_address :: u64
  m_bytes :: bytes

record MemoryScanPage =
  p_first :: nat
  p_next :: nat
  p_total :: nat
  hasMore :: bool
  p_matches :: "MemoryScanMatch list"

text \<open>The state of the three nested loops is the number of candidates still to skip and the matches so far;
  \<open>True\<close> is the \<open>return\<close> from within.\<close>

fun page_bits :: "MemoryScanChunk \<Rightarrow> nat \<Rightarrow> nat \<Rightarrow> nat \<Rightarrow> nat list \<Rightarrow> nat \<Rightarrow> MemoryScanMatch list \<Rightarrow>
    nat \<times> MemoryScanMatch list \<times> bool" where
  "page_bits chunk es limit wi [] skip ms = (skip, ms, False)"
| "page_bits chunk es limit wi (b # bs) skip ms =
     (if skip > 0 then page_bits chunk es limit wi bs (skip - 1) ms
      else
        let offset = wi * 64 + b
        in if offset \<ge> candidateSpan chunk \<or> offset > length (ch_bytes chunk) \<or> es > length (ch_bytes chunk) - offset
           then page_bits chunk es limit wi bs skip ms
           else
             let ms1 = ms @ [\<lparr>m_address = ch_base chunk + of_nat offset, m_bytes = take es (drop offset (ch_bytes chunk))\<rparr>]
             in if length ms1 \<ge> limit then (skip, ms1, True) else page_bits chunk es limit wi bs skip ms1)"

fun page_words :: "MemoryScanChunk \<Rightarrow> nat \<Rightarrow> nat \<Rightarrow> nat \<Rightarrow> u64 list \<Rightarrow> nat \<Rightarrow> MemoryScanMatch list \<Rightarrow>
    nat \<times> MemoryScanMatch list \<times> bool" where
  "page_words chunk es limit wi [] skip ms = (skip, ms, False)"
| "page_words chunk es limit wi (w # ws) skip ms =
     (if skip \<ge> popcount w then page_words chunk es limit (wi + 1) ws (skip - popcount w) ms
      else case page_bits chunk es limit wi (word_bits w) skip ms of
        (skip1, ms1, True) \<Rightarrow> (skip1, ms1, True)
      | (skip1, ms1, False) \<Rightarrow> page_words chunk es limit (wi + 1) ws skip1 ms1)"

fun page_chunks :: "nat \<Rightarrow> nat \<Rightarrow> MemoryScanChunk list \<Rightarrow> nat \<Rightarrow> MemoryScanMatch list \<Rightarrow> MemoryScanMatch list" where
  "page_chunks es limit [] skip ms = ms"
| "page_chunks es limit (c # cs) skip ms =
     (if skip \<ge> ch_count c then page_chunks es limit cs (skip - ch_count c) ms
      else case page_words c es limit 0 (candidateBitmap c) skip ms of
        (skip1, ms1, True) \<Rightarrow> ms1
      | (skip1, ms1, False) \<Rightarrow> page_chunks es limit cs skip1 ms1)"

definition page :: "MemoryScanSnapshot \<Rightarrow> nat \<Rightarrow> nat \<Rightarrow> MemoryScanPage" where
  "page s first limit =
     (let total = candidateCount s; start = min first total;
          nothing = \<lparr>p_first = start, p_next = start, p_total = total, hasMore = False, p_matches = []\<rparr>
      in if limit = 0 \<or> start \<ge> total then nothing
         else
           let ms = page_chunks (s_elementSize s) limit (chunks s) start [];
               nx = start + length ms
           in nothing\<lparr>p_next := nx, hasMore := nx < total, p_matches := ms\<rparr>)"

section \<open>Bitmaps as sorted lists of offsets\<close>

lemma countr_zero_bit:
  assumes "w \<noteq> 0"
  shows "bit w (countr_zero w)" "countr_zero w < 64" "\<And>m. m < countr_zero w \<Longrightarrow> \<not> bit w m"
proof -
  obtain k where "bit w k" using assms by (auto simp: bit_eq_iff)
  then have "k < 64" "bit w k" using bit_u64_less by blast+
  then have "List.find (bit w) [0..<64] \<noteq> None" by (auto simp: find_None_iff simp del: upt_Suc)
  then obtain n where n: "List.find (bit w) [0..<64] = Some n" by blast
  then have "countr_zero w = n" by (simp add: countr_zero_def)
  moreover from n have "bit w n \<and> n < 64 \<and> (\<forall>m < n. \<not> bit w m)" by (auto simp: find_Some_iff simp del: upt_Suc)
  ultimately show "bit w (countr_zero w)" "countr_zero w < 64" "\<And>m. m < countr_zero w \<Longrightarrow> \<not> bit w m" by auto
qed

lemma bit_and_minus_one:
  assumes "w \<noteq> 0"
  shows "bit (w AND (w - 1)) k \<longleftrightarrow> bit (w :: u64) k \<and> k \<noteq> countr_zero w"
proof -
  let ?n = "countr_zero w"
  note n = countr_zero_bit [OF assms]
  define a where "a = w AND NOT (2 ^ ?n)"
  have bit_a: "bit a m \<longleftrightarrow> bit w m \<and> m \<noteq> ?n" for m
    by (auto simp: a_def bit_and_iff bit_not_iff bit_exp_iff dest: bit_u64_less)
  have "a AND 2 ^ ?n = 0" by (rule bit_word_eqI) (auto simp: bit_and_iff bit_a bit_exp_iff)
  then have "a + 2 ^ ?n = a OR 2 ^ ?n" by (rule disjunctive_add_eq_or)
  also have "a OR 2 ^ ?n = w" using n by (intro bit_word_eqI) (auto simp: bit_or_iff bit_a bit_exp_iff)
  finally have "w - 1 = a + mask ?n" by (simp add: mask_eq_exp_minus_1 algebra_simps)
  also have "a AND mask ?n = 0" using n(3) by (intro bit_word_eqI) (auto simp: bit_and_iff bit_a bit_mask_iff)
  then have "a + mask ?n = a OR mask ?n" by (rule disjunctive_add_eq_or)
  finally have "w - 1 = a OR mask ?n" .
  then show ?thesis using n by (auto simp: bit_and_iff bit_or_iff bit_a bit_mask_iff)
qed

lemma word_bits_eq: "word_bits w = filter (bit w) [0..<64]"
proof (induction w rule: word_bits.induct)
  case (1 w)
  show ?case
  proof (cases "w = 0")
    case True
    then show ?thesis by (simp add: word_bits.simps)
  next
    case False
    let ?n = "countr_zero w"
    note n = countr_zero_bit [OF False]
    have split: "[0..<64] = [0..<?n] @ ?n # [Suc ?n..<64]"
      using n(2) upt_add_eq_append [of 0 ?n "64 - ?n"] by (simp add: upt_conv_Cons del: upt_Suc)
    have lo: "filter (bit w) [0..<?n] = []" "filter (bit (w AND (w - 1))) [0..<?n] = []"
      using n(3) by (auto simp: filter_empty_conv bit_and_minus_one [OF False])
    have hi: "filter (bit (w AND (w - 1))) [Suc ?n..<64] = filter (bit w) [Suc ?n..<64]"
      by (rule filter_cong) (auto simp: bit_and_minus_one [OF False])
    have "filter (bit w) [0..<64] = ?n # filter (bit w) [Suc ?n..<64]"
      unfolding split using lo n(1) by simp
    moreover have "filter (bit (w AND (w - 1))) [0..<64] = filter (bit w) [Suc ?n..<64]"
      unfolding split using lo hi bit_and_minus_one [OF False] by simp
    ultimately show ?thesis using 1 [OF False] False by (subst word_bits.simps) simp
  qed
qed

lemma popcount_length: "popcount w = length (word_bits w)"
  by (simp add: popcount_def word_bits_eq)

definition cand :: "u64 list \<Rightarrow> nat \<Rightarrow> bool" where
  "cand bm k \<longleftrightarrow> k div 64 < length bm \<and> bit (bm ! (k div 64)) (k mod 64)"

definition cands :: "u64 list \<Rightarrow> nat list" where
  "cands bm = filter (cand bm) [0..<64 * length bm]"

lemma set_cands [simp]: "k \<in> set (cands bm) \<longleftrightarrow> cand bm k"
  by (auto simp: cands_def cand_def less_mult_imp_div_less mult.commute)

lemma cands_sorted: "sorted_wrt (<) (cands bm)"
  by (simp add: cands_def sorted_wrt_filter)

lemma cands_eqI:
  assumes "\<And>k. cand bm k \<longleftrightarrow> k \<in> set xs" "sorted_wrt (<) xs"
  shows "cands bm = xs"
proof -
  have "set (cands bm) = set xs" using assms(1) by (simp add: set_eq_iff)
  moreover have "sorted (cands bm) \<and> distinct (cands bm)" "sorted xs \<and> distinct xs"
    using cands_sorted [of bm] assms(2) by (simp_all only: strict_sorted_iff)
  ultimately show ?thesis by (intro sorted_distinct_set_unique) blast+
qed

definition word_offsets :: "nat \<Rightarrow> u64 \<Rightarrow> nat list" where
  "word_offsets wi w = map (\<lambda>b. wi * 64 + b) (word_bits w)"

lemma cands_words: "cands bm = concat (map (\<lambda>wi. word_offsets wi (bm ! wi)) [0..<length bm])"
proof -
  have "filter (cand bm) [0..<64 * n] = concat (map (\<lambda>wi. word_offsets wi (bm ! wi)) [0..<n])" if "n \<le> length bm" for n
    using that
  proof (induction n)
    case (Suc n)
    have "[0..<64 * Suc n] = [0..<64 * n] @ map (\<lambda>b. n * 64 + b) [0..<64]"
      using upt_add_eq_append [of 0 "64 * n" 64] map_add_upt [of "64 * n" 64]
      by (simp add: add.commute mult.commute del: upt_Suc)
    moreover have "filter (cand bm) (map (\<lambda>b. n * 64 + b) [0..<64]) = word_offsets n (bm ! n)"
      using Suc.prems by (auto simp: word_offsets_def word_bits_eq filter_map comp_def cand_def intro!: filter_cong arg_cong [where f = "map _"] simp del: upt_Suc)
    ultimately show ?case using Suc by simp
  qed simp
  then show ?thesis by (simp add: cands_def)
qed

section \<open>What the loops collect\<close>

definition collect :: "(nat \<Rightarrow> bool) \<Rightarrow> nat \<Rightarrow> u64 list \<times> nat \<Rightarrow> u64 list \<times> nat" where
  "collect P off acc = (if P off then (set_candidate (fst acc) off, snd acc + 1) else acc)"

lemma collect_True [simp]: "P off \<Longrightarrow> collect P off acc = (set_candidate (fst acc) off, snd acc + 1)"
  and collect_False [simp]: "\<not> P off \<Longrightarrow> collect P off acc = acc"
  by (simp_all add: collect_def)

lemma cand_set_candidate:
  "off div 64 < length bm \<Longrightarrow> cand (set_candidate bm off) k \<longleftrightarrow> cand bm k \<or> k = off"
proof -
  assume off: "off div 64 < length bm"
  have "k = off \<longleftrightarrow> k div 64 = off div 64 \<and> k mod 64 = off mod 64" by (metis div_mult_mod_eq)
  moreover have "bit (push_bit (off mod 64) 1 :: u64) (k mod 64) \<longleftrightarrow> k mod 64 = off mod 64"
    by (auto simp: push_bit_of_1 bit_exp_iff)
  ultimately show ?thesis
    using off by (auto simp: cand_def set_candidate_def nth_list_update bit_or_iff)
qed

lemma length_set_candidate [simp]: "length (set_candidate bm off) = length bm"
  by (simp add: set_candidate_def)

lemma collect_fold:
  assumes "\<forall>x \<in> set xs. x div 64 < length bm"
  shows "fold (collect P) xs (bm, n) = (bm1, m) \<Longrightarrow>
    length bm1 = length bm \<and> m = n + length (filter P xs) \<and> (\<forall>k. cand bm1 k \<longleftrightarrow> cand bm k \<or> k \<in> set xs \<and> P k)"
  using assms
proof (induction xs arbitrary: bm n)
  case (Cons x xs)
  show ?case
  proof (cases "P x")
    case True
    with Cons.prems have "fold (collect P) xs (set_candidate bm x, n + 1) = (bm1, m)" by simp
    from Cons.IH [OF this] Cons.prems(2) True show ?thesis by (auto simp: cand_set_candidate)
  next
    case False
    with Cons.prems have "fold (collect P) xs (bm, n) = (bm1, m)" by simp
    from Cons.IH [OF this] Cons.prems(2) False show ?thesis by auto
  qed
qed simp

lemma cand_zeros [simp]: "\<not> cand (replicate n 0) k"
  by (simp add: cand_def)

lemma collect_cands:
  assumes "\<forall>x \<in> set xs. x div 64 < n" "sorted_wrt (<) xs" "fold (collect P) xs (replicate n 0, 0) = (bm, m)"
  shows "length bm = n \<and> cands bm = filter P xs \<and> m = length (cands bm)"
proof -
  have l: "length bm = n \<and> m = length (filter P xs) \<and> (\<forall>k. cand bm k \<longleftrightarrow> k \<in> set xs \<and> P k)"
    using collect_fold [OF _ assms(3)] assms(1) by simp
  moreover have "cands bm = filter P xs"
    using l assms(2) by (intro cands_eqI) (auto simp: sorted_wrt_filter)
  ultimately show ?thesis by simp
qed

lemma initial_scan_fold:
  "(\<And>o1 o2. stop o1 \<Longrightarrow> o1 \<le> o2 \<Longrightarrow> stop o2) \<Longrightarrow>
   initial_scan stop keep off left acc = fold (collect (\<lambda>x. \<not> stop x \<and> keep x)) [off..<off + left] acc"
proof (induction stop keep off left acc rule: initial_scan.induct)
  case (2 stop keep off left acc)
  have none: "fold (collect (\<lambda>x. \<not> stop x \<and> keep x)) xs acc = acc" if "\<forall>x \<in> set xs. stop x" for xs
    using that by (induction xs) simp_all
  show ?case
  proof (cases "stop off")
    case True
    then have "\<forall>x \<in> set [off..<off + Suc left]. stop x" using "2.prems" by simp
    with True none [of "[off..<off + Suc left]"] show ?thesis by (simp del: upt_Suc)
  next
    case False
    then have "initial_scan stop keep off (Suc left) acc =
        initial_scan stop keep (off + 1) left (collect (\<lambda>x. \<not> stop x \<and> keep x) off acc)" by (cases "keep off") simp_all
    also have "\<dots> = fold (collect (\<lambda>x. \<not> stop x \<and> keep x)) [off + 1..<off + 1 + left] (collect (\<lambda>x. \<not> stop x \<and> keep x) off acc)"
      using "2.IH" [OF False "2.prems"] False by (cases "keep off") (simp_all del: upt_Suc)
    finally show ?thesis by (simp add: upt_conv_Cons del: upt_Suc)
  qed
qed simp

definition fits :: "nat \<Rightarrow> bytes \<Rightarrow> nat \<Rightarrow> bool" where
  "fits width sample off \<longleftrightarrow> off + width \<le> length sample"

lemma initial_chunk_cands:
  fixes rnd :: "rat \<Rightarrow> FloatVal" and base :: u64 and sample :: bytes and spn :: nat
  assumes "MemoryScanElementSize config \<noteq> 0"
  defines "c \<equiv> initial_chunk rnd config base sample spn"
  shows "cands (candidateBitmap c) =
      filter (\<lambda>off. fits (MemoryScanElementSize config) sample off \<and> keeps_initially rnd config base sample off) [0..<spn]"
    "ch_count c = length (cands (candidateBitmap c))" "length (candidateBitmap c) = (spn + 63) div 64"
    "ch_base c = base" "candidateSpan c = spn" "ch_bytes c = sample"
proof -
  let ?w = "MemoryScanElementSize config"
  let ?stop = "\<lambda>off. \<not> length sample \<ge> ?w \<or> off > (if length sample \<ge> ?w then length sample - ?w else 0)"
  let ?n = "(spn + 63) div 64"
  obtain bm m where r: "initial_scan ?stop (keeps_initially rnd config base sample) 0 spn (replicate ?n 0, 0) = (bm, m)" by force
  have c: "c = \<lparr>ch_base = base, candidateSpan = spn, ch_bytes = sample, candidateBitmap = bm, ch_count = m\<rparr>"
    using r by (simp add: c_def initial_chunk_def Let_def)
  have eq: "(\<lambda>x. \<not> ?stop x \<and> keeps_initially rnd config base sample x) =
      (\<lambda>x. fits ?w sample x \<and> keeps_initially rnd config base sample x)" by (auto simp: fits_def fun_eq_iff)
  have "fold (collect (\<lambda>x. \<not> ?stop x \<and> keeps_initially rnd config base sample x)) [0..<spn] (replicate ?n 0, 0) = (bm, m)"
    using r by (subst (asm) initial_scan_fold) auto
  moreover have "\<forall>x \<in> set [0..<spn]. x div 64 < ?n" by auto
  ultimately have "length bm = ?n \<and>
      cands bm = filter (\<lambda>x. fits ?w sample x \<and> keeps_initially rnd config base sample x) [0..<spn] \<and> m = length (cands bm)"
    unfolding eq by (intro collect_cands) simp_all
  then show "cands (candidateBitmap c) =
      filter (\<lambda>off. fits (MemoryScanElementSize config) sample off \<and> keeps_initially rnd config base sample off) [0..<spn]"
    "ch_count c = length (cands (candidateBitmap c))" "length (candidateBitmap c) = (spn + 63) div 64"
    "ch_base c = base" "candidateSpan c = spn" "ch_bytes c = sample"
    by (simp_all add: c)
qed

definition refine_keeps :: "(rat \<Rightarrow> FloatVal) \<Rightarrow> MemoryScanConfig \<Rightarrow> bytes \<Rightarrow> bytes \<Rightarrow> nat \<Rightarrow> bool" where
  "refine_keeps rnd config prior current off \<longleftrightarrow>
     predicateUnchecked rnd config (drop off current) (Some (drop off prior)) (MemoryScanElementSize config)"

lemma refine_bits_cands:
  assumes "\<forall>k \<in> set (cands (candidateBitmap c)). k < candidateSpan c \<and> fits (MemoryScanElementSize config) (ch_bytes c) k"
    and r: "refine_bits rnd config c current = (bm, m)"
  shows "length bm = length (candidateBitmap c)"
    "cands bm = filter (\<lambda>k. fits (MemoryScanElementSize config) current k \<and> refine_keeps rnd config (ch_bytes c) current k)
       (cands (candidateBitmap c))"
    "m = length (cands bm)"
proof -
  let ?w = "MemoryScanElementSize config" and ?B = "candidateBitmap c"
  let ?P = "\<lambda>k. fits ?w current k \<and> refine_keeps rnd config (ch_bytes c) current k"
  have bit: "refine_bit rnd config c current wi b acc = collect ?P (wi * 64 + b) acc"
    if "wi < length ?B" "b \<in> set (word_bits (?B ! wi))" for wi b acc
  proof -
    have b: "b < 64" using that by (simp add: word_bits_eq del: upt_Suc)
    then have "cand ?B (wi * 64 + b)" using that by (simp add: cand_def word_bits_eq del: upt_Suc)
    then have "wi * 64 + b < candidateSpan c \<and> fits ?w (ch_bytes c) (wi * 64 + b)" using assms(1) by simp
    then show ?thesis
      using b by (auto simp: refine_bit_def collect_def fits_def refine_keeps_def set_candidate_def Let_def)
  qed
  have word: "fold (refine_bit rnd config c current wi) (word_bits (?B ! wi)) acc = fold (collect ?P) (word_offsets wi (?B ! wi)) acc"
    if "wi < length ?B" for wi acc
  proof -
    have "fold (refine_bit rnd config c current wi) bs acc = fold (collect ?P) (map (\<lambda>b. wi * 64 + b) bs) acc"
      if "set bs \<subseteq> set (word_bits (?B ! wi))" for bs
      using that bit [OF \<open>wi < length ?B\<close>] by (induction bs arbitrary: acc) simp_all
    then show ?thesis by (simp add: word_offsets_def)
  qed
  have "fold (\<lambda>wi acc. fold (refine_bit rnd config c current wi) (word_bits (?B ! wi)) acc) js acc =
      fold (collect ?P) (concat (map (\<lambda>wi. word_offsets wi (?B ! wi)) js)) acc" if "\<forall>wi \<in> set js. wi < length ?B" for js acc
    using that word by (induction js arbitrary: acc) simp_all
  then have "refine_bits rnd config c current = fold (collect ?P) (cands ?B) (replicate (length ?B) 0, 0)"
    by (simp add: refine_bits_def cands_words)
  with r have "fold (collect ?P) (cands ?B) (replicate (length ?B) 0, 0) = (bm, m)" by simp
  from collect_cands [OF _ cands_sorted this]
  show "length bm = length ?B" "cands bm = filter ?P (cands ?B)" "m = length (cands bm)"
    by (auto simp: cand_def)
qed

section \<open>Histories of a scan\<close>

text \<open>A region is its base, its owned span and the configurations and samples it was scanned with, the
  latest first. An offset survives when its whole value was in every sample, the first configuration
  kept it, and every later one held between the sample and the one before it.\<close>

type_synonym region = "u64 \<times> nat \<times> (MemoryScanConfig \<times> bytes) list"

fun survives :: "(rat \<Rightarrow> FloatVal) \<Rightarrow> u64 \<Rightarrow> (MemoryScanConfig \<times> bytes) list \<Rightarrow> nat \<Rightarrow> bool" where
  "survives rnd base [] off = False"
| "survives rnd base [(c, s)] off \<longleftrightarrow> fits (MemoryScanElementSize c) s off \<and> keeps_initially rnd c base s off"
| "survives rnd base ((c, s) # (c1, s1) # h) off \<longleftrightarrow>
     survives rnd base ((c1, s1) # h) off \<and> fits (MemoryScanElementSize c) s off \<and> refine_keeps rnd c s1 s off"

definition owned_span :: "bytes \<Rightarrow> nat \<Rightarrow> nat" where
  "owned_span sample spn0 = (if spn0 = kWholeSample then length sample else spn0)"

inductive scanned :: "(rat \<Rightarrow> FloatVal) \<Rightarrow> MemoryScanSnapshot \<Rightarrow> region list \<Rightarrow> region list \<Rightarrow> bool" for rnd where
  start: "scanned rnd scan_clear [] []"
| append: "scanned rnd s rs ds \<Longrightarrow> appendInitialChunk rnd c base sample spn0 s = Inr t \<Longrightarrow> chunks t \<noteq> chunks s \<Longrightarrow>
     scanned rnd t (rs @ [(base, owned_span sample spn0, [(c, sample)])]) ds"
| append_nothing: "scanned rnd s rs ds \<Longrightarrow> appendInitialChunk rnd c base sample spn0 s = Inr t \<Longrightarrow> chunks t = chunks s \<Longrightarrow>
     scanned rnd t rs ((base, owned_span sample spn0, [(c, sample)]) # ds)"
| refine: "scanned rnd s rs ds \<Longrightarrow> refineChunk rnd i c current s = Inr t \<Longrightarrow> rs ! i = (base, spn, h) \<Longrightarrow>
     scanned rnd t (rs[i := (base, spn, (c, current) # h)]) ds"

definition region_ok :: "(rat \<Rightarrow> FloatVal) \<Rightarrow> nat \<Rightarrow> MemoryScanChunk \<Rightarrow> region \<Rightarrow> bool" where
  "region_ok rnd es c r \<longleftrightarrow>
     (case r of (b, spn, h) \<Rightarrow>
        ch_base c = b \<and> candidateSpan c = spn \<and> unat b + spn < 2 ^ 64 \<and> h \<noteq> [] \<and> ch_bytes c = snd (hd h) \<and>
        (\<forall>(cf, smp) \<in> set h. MemoryScanElementSize cf = es) \<and>
        cands (candidateBitmap c) = filter (survives rnd b h) [0..<spn] \<and>
        ch_count c = length (cands (candidateBitmap c)))"

definition owns_before :: "MemoryScanChunk \<Rightarrow> MemoryScanChunk \<Rightarrow> bool" where
  "owns_before c d \<longleftrightarrow> unat (ch_base c) + candidateSpan c \<le> unat (ch_base d)"

definition scan_inv :: "(rat \<Rightarrow> FloatVal) \<Rightarrow> MemoryScanSnapshot \<Rightarrow> region list \<Rightarrow> region list \<Rightarrow> bool" where
  "scan_inv rnd s rs ds \<longleftrightarrow>
     list_all2 (region_ok rnd (s_elementSize s)) (chunks s) rs \<and>
     candidateCount s = sum_list (map ch_count (chunks s)) \<and> candidateCount s < 2 ^ 64 \<and>
     sorted_wrt owns_before (chunks s) \<and>
     (\<forall>c \<in> set (chunks s). shapeSet s \<and> hasLastOwnedRange s \<and> unat (ch_base c) + candidateSpan c \<le> unat (lastOwnedEnd s)) \<and>
     (\<forall>(b, spn, h) \<in> set ds. \<forall>off < spn. \<not> survives rnd b h off)"

lemma survives_fits:
  "survives rnd b h off \<Longrightarrow> fits (MemoryScanElementSize (fst (hd h))) (snd (hd h)) off"
  by (cases "(rnd, b, h, off)" rule: survives.cases) auto

lemma region_ok_fits:
  assumes "region_ok rnd es c r" "k \<in> set (cands (candidateBitmap c))"
  shows "k < candidateSpan c \<and> fits es (ch_bytes c) k"
proof -
  obtain b spn h where r: "r = (b, spn, h)" by (cases r)
  then have h: "h \<noteq> []" "ch_bytes c = snd (hd h)" "MemoryScanElementSize (fst (hd h)) = es" "candidateSpan c = spn"
    "cands (candidateBitmap c) = filter (survives rnd b h) [0..<spn]"
    using assms(1) by (cases h; auto simp: region_ok_def)+
  then show ?thesis using assms(2) survives_fits [of rnd b h k] by auto
qed

lemma Validate_size: "ValidateMemoryScanConfig rnd c = None \<Longrightarrow> MemoryScanElementSize c \<noteq> 0"
  by (auto simp: ValidateMemoryScanConfig_def Let_def split: if_splits)

lemma appendInitialChunkD:
  assumes "appendInitialChunk rnd c base sample spn0 s = Inr t"
  defines "spn \<equiv> owned_span sample spn0" and "chunk \<equiv> initial_chunk rnd c base sample (owned_span sample spn0)"
  shows "MemoryScanElementSize c \<noteq> 0" "unat base + spn < 2 ^ 64"
    "shapeSet s \<Longrightarrow> s_elementSize s = MemoryScanElementSize c"
    "hasLastOwnedRange s \<Longrightarrow> lastOwnedEnd s \<le> base"
    "candidateCount s < 2 ^ 64 \<Longrightarrow> candidateCount s + ch_count chunk < 2 ^ 64"
    "shapeSet t" "s_elementSize t = MemoryScanElementSize c" "hasLastOwnedRange t" "unat (lastOwnedEnd t) = unat base + spn"
    "chunks t = (if ch_count chunk = 0 then chunks s else chunks s @ [chunk])"
    "candidateCount t = candidateCount s + ch_count chunk"
proof -
  have v: "ValidateMemoryScanConfig rnd c = None"
    using assms(1) by (auto simp: appendInitialChunk_def split: option.splits)
  then show "MemoryScanElementSize c \<noteq> 0" by (rule Validate_size)
  have "(spn0 = kWholeSample \<longrightarrow> spn = length sample) \<and> (spn0 \<noteq> kWholeSample \<longrightarrow> spn = spn0)"
    by (simp add: spn_def owned_span_def)
  then have eff: "(if spn0 = kWholeSample then length sample else spn0) = spn" by simp
  note A = assms(1) [unfolded appendInitialChunk_def v option.case Let_def eff]
  have chunk: "initial_chunk rnd c base sample spn = chunk" by (simp add: chunk_def spn_def)
  have room: "\<not> spn > 2 ^ 64 - 1 - unat base" using A by (auto split: if_splits)
  then show lt: "unat base + spn < 2 ^ 64" using unsigned_less [of base, where ?'a = nat] by simp
  have shape: "shapeSet s \<Longrightarrow> s_elementSize s = MemoryScanElementSize c" using A by (auto split: if_splits)
  then show "shapeSet s \<Longrightarrow> s_elementSize s = MemoryScanElementSize c" .
  show "hasLastOwnedRange s \<Longrightarrow> lastOwnedEnd s \<le> base" using A by (auto split: if_splits)
  have count: "\<not> ch_count chunk > 2 ^ 64 - 1 - candidateCount s" using A chunk by (auto split: if_splits)
  then show "candidateCount s < 2 ^ 64 \<Longrightarrow> candidateCount s + ch_count chunk < 2 ^ 64" by arith
  have t: "t = (if ch_count chunk = 0 then (set_shape c s)\<lparr>hasLastOwnedRange := True, lastOwnedEnd := base + of_nat spn\<rparr>
     else (set_shape c s)\<lparr>chunks := chunks s @ [chunk], candidateCount := candidateCount s + ch_count chunk,
       hasLastOwnedRange := True, lastOwnedEnd := base + of_nat spn\<rparr>)"
    using A chunk by (auto split: if_splits)
  have "unat (base + of_nat spn) = unat base + spn"
    using lt by (subst unat_add_no_wrap) (simp_all add: unat_of_nat_u64)
  then show "shapeSet t" "s_elementSize t = MemoryScanElementSize c" "hasLastOwnedRange t" "unat (lastOwnedEnd t) = unat base + spn"
    "chunks t = (if ch_count chunk = 0 then chunks s else chunks s @ [chunk])"
    "candidateCount t = candidateCount s + ch_count chunk"
    using shape by (simp_all add: t set_shape_def)
qed

lemma refineChunkD:
  assumes "refineChunk rnd i c current s = Inr t"
  obtains bm count where "i < length (chunks s)" "MemoryScanElementSize c = s_elementSize s"
    "refine_bits rnd c (chunks s ! i) current = (bm, count)"
    "t = s\<lparr>candidateCount := candidateCount s - ch_count (chunks s ! i) + count,
       chunks := (chunks s)[i := \<lparr>ch_base = ch_base (chunks s ! i), candidateSpan = candidateSpan (chunks s ! i),
         ch_bytes = current, candidateBitmap = bm, ch_count = count\<rparr>]\<rparr>"
proof -
  obtain bm count where r: "refine_bits rnd c (chunks s ! i) current = (bm, count)" by force
  have v: "ValidateMemoryScanConfig rnd c = None"
    using assms by (auto simp: refineChunk_def split: option.splits if_splits)
  have A: "\<not> (\<not> shapeSet s \<or> i \<ge> length (chunks s))" using assms by (auto simp: refineChunk_def split: if_splits)
  note B = assms [unfolded refineChunk_def v option.case if_not_P [OF A] Let_def r prod.case]
  show ?thesis
    by (rule that [OF _ _ r]) (use A B in \<open>auto split: if_splits\<close>)
qed

lemma region_ok_initial:
  assumes "MemoryScanElementSize c \<noteq> 0" "unat base + owned_span sample spn0 < 2 ^ 64"
  shows "region_ok rnd (MemoryScanElementSize c) (initial_chunk rnd c base sample (owned_span sample spn0))
    (base, owned_span sample spn0, [(c, sample)])"
proof -
  note I = initial_chunk_cands [OF assms(1), of rnd base sample "owned_span sample spn0"]
  have "survives rnd base [(c, sample)] = (\<lambda>off. fits (MemoryScanElementSize c) sample off \<and> keeps_initially rnd c base sample off)"
    by (rule ext) simp
  then show ?thesis using assms I by (simp add: region_ok_def)
qed

lemma sum_list_member: "i < length xs \<Longrightarrow> f (xs ! i) \<le> (sum_list (map f xs) :: nat)"
  using elem_le_sum_list [of i "map f xs"] by simp

lemma sum_list_update_nat: "i < length xs \<Longrightarrow> sum_list (map f (xs[i := x])) = (sum_list (map f xs) - f (xs ! i)) + (f x :: nat)"
  using sum_list_member [of i xs f] by (simp add: map_update sum_list_update)

lemma scanned_inv: "scanned rnd s rs ds \<Longrightarrow> scan_inv rnd s rs ds"
proof (induction rule: scanned.induct)
  case start
  then show ?case by (simp add: scan_inv_def scan_clear_def)
next
  case (append s rs ds c base sample spn0 t)
  let ?spn = "owned_span sample spn0" and ?c = "initial_chunk rnd c base sample (owned_span sample spn0)"
  note D = appendInitialChunkD [OF append(2)]
  have inv: "scan_inv rnd s rs ds" by fact
  have ne: "ch_count ?c \<noteq> 0" using D(10) append(3) by (auto split: if_splits)
  have chunks: "chunks t = chunks s @ [?c]" using D(10) ne by simp
  have new: "region_ok rnd (MemoryScanElementSize c) ?c (base, ?spn, [(c, sample)])" by (rule region_ok_initial [OF D(1,2)])
  have es: "chunks s \<noteq> [] \<Longrightarrow> s_elementSize s = MemoryScanElementSize c"
    using inv D(3) by (cases "chunks s") (auto simp: scan_inv_def)
  have old: "list_all2 (region_ok rnd (MemoryScanElementSize c)) (chunks s) rs"
    using inv es by (cases "chunks s") (auto simp: scan_inv_def)
  have ends: "unat (ch_base d) + candidateSpan d \<le> unat base" if "d \<in> set (chunks s)" for d
    using inv D(4) that by (force simp: scan_inv_def word_le_nat_alt)
  have base: "ch_base ?c = base" "candidateSpan ?c = ?spn" using new by (simp_all add: region_ok_def)
  show ?case
    unfolding scan_inv_def
  proof (intro conjI)
    show "list_all2 (region_ok rnd (s_elementSize t)) (chunks t) (rs @ [(base, ?spn, [(c, sample)])])"
      using old new by (simp add: chunks D(7) list_all2_appendI)
    show "sorted_wrt owns_before (chunks t)"
      using inv ends by (simp add: chunks scan_inv_def sorted_wrt_append owns_before_def base)
    show "\<forall>d \<in> set (chunks t). shapeSet t \<and> hasLastOwnedRange t \<and> unat (ch_base d) + candidateSpan d \<le> unat (lastOwnedEnd t)"
      using ends D(6,8,9) base by (fastforce simp: chunks)
    show "candidateCount t = sum_list (map ch_count (chunks t))" using inv D(11) by (simp add: chunks scan_inv_def)
    show "candidateCount t < 2 ^ 64" using inv D(5,11) by (simp add: scan_inv_def)
    show "\<forall>(b, spn, h) \<in> set ds. \<forall>off < spn. \<not> survives rnd b h off" using inv by (simp add: scan_inv_def)
  qed
next
  case (append_nothing s rs ds c base sample spn0 t)
  let ?spn = "owned_span sample spn0" and ?c = "initial_chunk rnd c base sample (owned_span sample spn0)"
  note D = appendInitialChunkD [OF append_nothing(2)]
  have inv: "scan_inv rnd s rs ds" by fact
  have zero: "ch_count ?c = 0" using D(10) append_nothing(3) by (auto split: if_splits)
  have new: "region_ok rnd (MemoryScanElementSize c) ?c (base, ?spn, [(c, sample)])" by (rule region_ok_initial [OF D(1,2)])
  then have "filter (survives rnd base [(c, sample)]) [0..<?spn] = []"
    using zero unfolding region_ok_def prod.case by (metis length_0_conv)
  then have none: "\<forall>off < ?spn. \<not> survives rnd base [(c, sample)] off" by (simp only: filter_empty_conv set_upt) auto
  have es: "chunks s \<noteq> [] \<Longrightarrow> s_elementSize s = MemoryScanElementSize c"
    using inv D(3) by (cases "chunks s") (auto simp: scan_inv_def)
  have old: "list_all2 (region_ok rnd (MemoryScanElementSize c)) (chunks s) rs"
    using inv es by (cases "chunks s") (auto simp: scan_inv_def)
  have ends: "unat (ch_base d) + candidateSpan d \<le> unat base" if "d \<in> set (chunks s)" for d
    using inv D(4) that by (force simp: scan_inv_def word_le_nat_alt)
  show ?case
    using inv old none ends D(6-9,11) zero append_nothing(3) by (fastforce simp: scan_inv_def)
next
  case (refine s rs ds i c current t base spn h)
  from refine(2) obtain bm count where D: "i < length (chunks s)" "MemoryScanElementSize c = s_elementSize s"
    "refine_bits rnd c (chunks s ! i) current = (bm, count)"
    "t = s\<lparr>candidateCount := candidateCount s - ch_count (chunks s ! i) + count,
       chunks := (chunks s)[i := \<lparr>ch_base = ch_base (chunks s ! i), candidateSpan = candidateSpan (chunks s ! i),
         ch_bytes = current, candidateBitmap = bm, ch_count = count\<rparr>]\<rparr>" by (rule refineChunkD)
  let ?p = "chunks s ! i"
  let ?r = "\<lparr>ch_base = ch_base ?p, candidateSpan = candidateSpan ?p, ch_bytes = current, candidateBitmap = bm, ch_count = count\<rparr>"
  have inv: "scan_inv rnd s rs ds" by fact
  then have prior: "region_ok rnd (s_elementSize s) ?p (base, spn, h)"
    using D(1) refine(3) by (auto simp: scan_inv_def dest: list_all2_nthD)
  have bits: "cands bm = filter (\<lambda>k. fits (MemoryScanElementSize c) current k \<and> refine_keeps rnd c (ch_bytes ?p) current k)
      (cands (candidateBitmap ?p))" "count = length (cands bm)"
    using refine_bits_cands(2,3) [OF _ D(3)] region_ok_fits [OF prior] D(2) by simp_all
  obtain c1 s1 h1 where h: "h = (c1, s1) # h1" "ch_bytes ?p = s1" using prior by (cases h) (auto simp: region_ok_def)
  have "survives rnd base ((c, current) # h) =
      (\<lambda>x. survives rnd base h x \<and> fits (MemoryScanElementSize c) current x \<and> refine_keeps rnd c (ch_bytes ?p) current x)"
    by (rule ext) (simp add: h)
  then have new: "region_ok rnd (s_elementSize s) ?r (base, spn, (c, current) # h)"
    using prior D(2) bits by (simp add: region_ok_def conj_commute)
  have "count \<le> length (cands (candidateBitmap ?p))" unfolding bits by (rule length_filter_le)
  then have less: "count \<le> ch_count ?p" using prior by (simp add: region_ok_def)
  have mem: "ch_count ?p \<le> candidateCount s" using inv D(1) by (simp add: scan_inv_def sum_list_member)
  show ?case
    unfolding scan_inv_def
  proof (intro conjI)
    show "list_all2 (region_ok rnd (s_elementSize t)) (chunks t) (rs[i := (base, spn, (c, current) # h)])"
      using inv new by (simp add: D(4) scan_inv_def list_all2_update_cong)
    show "candidateCount t = sum_list (map ch_count (chunks t))"
      using inv sum_list_update_nat [OF D(1), of ch_count] by (simp add: D(4) scan_inv_def)
    show "candidateCount t < 2 ^ 64" 
    proof -
      have "candidateCount t \<le> candidateCount s" using less mem by (simp add: D(4))
      also have "\<dots> < 2 ^ 64" using inv by (simp add: scan_inv_def)
      finally show ?thesis .
    qed
    have "sorted_wrt owns_before (xs[j := y])" if "sorted_wrt owns_before xs" "j < length xs"
      "ch_base y = ch_base (xs ! j)" "candidateSpan y = candidateSpan (xs ! j)" for xs j y
      using that by (auto simp: sorted_wrt_iff_nth_less nth_list_update owns_before_def)
    then show "sorted_wrt owns_before (chunks t)" using inv D(1) by (simp add: D(4) scan_inv_def)
    show "\<forall>d \<in> set (chunks t). shapeSet t \<and> hasLastOwnedRange t \<and> unat (ch_base d) + candidateSpan d \<le> unat (lastOwnedEnd t)"
    proof -
      have "?p \<in> set (chunks s)" using D(1) by simp
      moreover from this have "shapeSet s \<and> hasLastOwnedRange s" using inv unfolding scan_inv_def by blast
      ultimately show ?thesis
        using inv by (auto simp: D(4) scan_inv_def dest!: subsetD [OF set_update_subset_insert])
    qed
    show "\<forall>(b, spn, h) \<in> set ds. \<forall>off < spn. \<not> survives rnd b h off" using inv by (simp add: scan_inv_def)
  qed
qed

section \<open>Pages\<close>

definition match_at :: "nat \<Rightarrow> MemoryScanChunk \<Rightarrow> nat \<Rightarrow> MemoryScanMatch" where
  "match_at es c off = \<lparr>m_address = ch_base c + of_nat off, m_bytes = take es (drop off (ch_bytes c))\<rparr>"

definition all_matches :: "MemoryScanSnapshot \<Rightarrow> MemoryScanMatch list" where
  "all_matches s = concat (map (\<lambda>c. map (match_at (s_elementSize s) c) (cands (candidateBitmap c))) (chunks s))"

text \<open>What the loops over a list of matches leave of the skip count and the page.\<close>

definition paged :: "nat \<Rightarrow> 'm list \<Rightarrow> nat \<Rightarrow> 'm list \<Rightarrow> nat \<times> 'm list \<times> bool" where
  "paged limit xs skip ms =
     (let out = take (limit - length ms) (drop skip xs) in (skip - length xs, ms @ out, length (ms @ out) \<ge> limit))"

lemma paged_append:
  assumes "length ms < limit"
  shows "paged limit (xs @ ys) skip ms =
    (case paged limit xs skip ms of (skip1, ms1, True) \<Rightarrow> (skip1, ms1, True) | (skip1, ms1, False) \<Rightarrow> paged limit ys skip1 ms1)"
proof (cases "limit \<le> length ms + (length xs - skip)")
  case True
  then have n: "limit - length ms \<le> length (drop skip xs)" by simp
  then have "take (limit - length ms) (drop skip (xs @ ys)) = take (limit - length ms) (drop skip xs)" by simp
  moreover have "skip - length (xs @ ys) = 0" "skip - length xs = 0" using assms True by simp_all
  moreover have "length (ms @ take (limit - length ms) (drop skip xs)) = limit" using assms n by simp
  ultimately show ?thesis by (simp add: paged_def)
next
  case False
  then have n: "take (limit - length ms) (drop skip xs) = drop skip xs" by simp
  have "take (limit - length ms) (drop skip (xs @ ys)) =
      drop skip xs @ take (limit - length (ms @ drop skip xs)) (drop (skip - length xs) ys)"
    using False by simp
  with False n show ?thesis by (simp add: paged_def add.assoc)
qed

lemma paged_False: "length ms < limit \<Longrightarrow> paged limit xs skip ms = (skip1, ms1, False) \<Longrightarrow> length ms1 < limit"
  by (auto simp: paged_def Let_def)

lemma page_bits_paged:
  assumes "length ms < limit" "\<forall>b \<in> set bs. wi * 64 + b < candidateSpan c \<and> fits es (ch_bytes c) (wi * 64 + b)"
  shows "page_bits c es limit wi bs skip ms = paged limit (map (\<lambda>b. match_at es c (wi * 64 + b)) bs) skip ms"
  using assms
proof (induction bs arbitrary: skip ms)
  case Nil
  then show ?case by (simp add: paged_def)
next
  case (Cons b bs)
  have hd: "paged limit [match_at es c (wi * 64 + b)] skip ms =
      (if skip > 0 then (skip - 1, ms, False) else (0, ms @ [match_at es c (wi * 64 + b)], length ms + 1 \<ge> limit))"
    using Cons.prems(1) by (simp add: paged_def Let_def)
  have app: "paged limit (map (\<lambda>b. match_at es c (wi * 64 + b)) (b # bs)) skip ms =
      (case paged limit [match_at es c (wi * 64 + b)] skip ms of (skip1, ms1, True) \<Rightarrow> (skip1, ms1, True)
       | (skip1, ms1, False) \<Rightarrow> paged limit (map (\<lambda>b. match_at es c (wi * 64 + b)) bs) skip1 ms1)"
    using paged_append [OF Cons.prems(1), of "[match_at es c (wi * 64 + b)]" "map (\<lambda>b. match_at es c (wi * 64 + b)) bs" skip]
    by (simp only: list.map append.simps)
  have ok: "\<not> (wi * 64 + b \<ge> candidateSpan c \<or> wi * 64 + b > length (ch_bytes c) \<or> es > length (ch_bytes c) - (wi * 64 + b))"
    using Cons.prems(2) by (auto simp: fits_def)
  show ?case
  proof (cases "skip > 0")
    case True
    then show ?thesis using Cons.IH [of ms "skip - 1"] Cons.prems hd app by simp
  next
    case False
    let ?ms = "ms @ [match_at es c (wi * 64 + b)]"
    have step: "page_bits c es limit wi (b # bs) skip ms =
        (if limit \<le> length ms + 1 then (0, ?ms, True) else page_bits c es limit wi bs 0 ?ms)"
      using False ok by (simp add: Let_def match_at_def)
    show ?thesis
    proof (cases "limit \<le> length ms + 1")
      case True
      then show ?thesis unfolding step app hd using False by simp
    next
      case less: False
      then have "page_bits c es limit wi bs 0 ?ms = paged limit (map (\<lambda>b. match_at es c (wi * 64 + b)) bs) 0 ?ms"
        using Cons.IH [of ?ms 0] Cons.prems(2) by simp
      then show ?thesis unfolding step app hd using False less by simp
    qed
  qed
qed

lemma paged_skip: "length xs \<le> skip \<Longrightarrow> length ms < limit \<Longrightarrow> paged limit xs skip ms = (skip - length xs, ms, False)"
  by (simp add: paged_def)

lemma page_words_paged:
  assumes "length ms < limit"
    "\<forall>i < length ws. \<forall>b \<in> set (word_bits (ws ! i)). (wi + i) * 64 + b < candidateSpan c \<and> fits es (ch_bytes c) ((wi + i) * 64 + b)"
  shows "page_words c es limit wi ws skip ms =
    paged limit (map (match_at es c) (concat (map (\<lambda>i. word_offsets (wi + i) (ws ! i)) [0..<length ws]))) skip ms"
  using assms
proof (induction ws arbitrary: wi skip ms)
  case Nil
  then show ?case by (simp add: paged_def)
next
  case (Cons w ws)
  let ?A = "map (match_at es c) (word_offsets wi w)"
  let ?B = "map (match_at es c) (concat (map (\<lambda>i. word_offsets (wi + 1 + i) (ws ! i)) [0..<length ws]))"
  have all: "map (match_at es c) (concat (map (\<lambda>i. word_offsets (wi + i) ((w # ws) ! i)) [0..<length (w # ws)])) = ?A @ ?B"
    by (simp add: upt_conv_Cons map_Suc_upt [symmetric] comp_def del: upt_Suc)
  have tl: "\<forall>i < length ws. \<forall>b \<in> set (word_bits (ws ! i)).
      (wi + 1 + i) * 64 + b < candidateSpan c \<and> fits es (ch_bytes c) ((wi + 1 + i) * 64 + b)"
  proof clarify
    fix i b
    assume "i < length ws" "b \<in> set (word_bits (ws ! i))"
    with Cons.prems(2) [rule_format, of "Suc i" b]
    show "(wi + 1 + i) * 64 + b < candidateSpan c \<and> fits es (ch_bytes c) ((wi + 1 + i) * 64 + b)" by simp
  qed
  have hd: "\<forall>b \<in> set (word_bits w). wi * 64 + b < candidateSpan c \<and> fits es (ch_bytes c) (wi * 64 + b)"
    using Cons.prems(2) by (auto dest: spec [where x = 0])
  have bits: "page_bits c es limit wi (word_bits w) skip ms = paged limit ?A skip ms"
    using page_bits_paged [OF Cons.prems(1) hd] by (simp add: word_offsets_def comp_def)
  have len: "length ?A = popcount w" by (simp add: word_offsets_def popcount_length)
  show ?case
    unfolding all paged_append [OF Cons.prems(1)]
    using Cons.IH [OF _ tl] Cons.prems(1) bits paged_skip [of ?A skip ms limit] len
      paged_False [OF Cons.prems(1), of ?A skip]
    by (auto split: prod.splits bool.splits)
qed

lemma page_chunks_paged:
  assumes "length ms < limit" "\<forall>c \<in> set cs. ch_count c = length (cands (candidateBitmap c)) \<and>
      (\<forall>k \<in> set (cands (candidateBitmap c)). k < candidateSpan c \<and> fits es (ch_bytes c) k)"
  shows "page_chunks es limit cs skip ms =
    fst (snd (paged limit (concat (map (\<lambda>c. map (match_at es c) (cands (candidateBitmap c))) cs)) skip ms))"
  using assms
proof (induction cs arbitrary: skip ms)
  case Nil
  then show ?case by (simp add: paged_def Let_def)
next
  case (Cons c cs)
  let ?A = "map (match_at es c) (cands (candidateBitmap c))"
  have "cand (candidateBitmap c) (i * 64 + b)" if "i < length (candidateBitmap c)" "b \<in> set (word_bits (candidateBitmap c ! i))" for i b
    using that by (simp add: cand_def word_bits_eq del: upt_Suc)
  then have fit: "\<forall>i < length (candidateBitmap c). \<forall>b \<in> set (word_bits (candidateBitmap c ! i)).
      (0 + i) * 64 + b < candidateSpan c \<and> fits es (ch_bytes c) ((0 + i) * 64 + b)"
    using Cons.prems(2) by simp
  have "page_words c es limit 0 (candidateBitmap c) skip ms = paged limit ?A skip ms"
    unfolding page_words_paged [OF Cons.prems(1) fit] cands_words by simp
  then show ?case
    using Cons.IH Cons.prems paged_skip [of ?A skip ms limit] paged_False [OF Cons.prems(1), of ?A skip]
    by (auto simp: paged_append [OF Cons.prems(1)] split: prod.splits bool.splits)
qed

section \<open>The scan's results\<close>

lemma region_candidates:
  "region_ok rnd es c (b, spn, h) \<Longrightarrow> candidateAtOffset c off \<longleftrightarrow> off < spn \<and> survives rnd b h off"
proof -
  assume r: "region_ok rnd es c (b, spn, h)"
  then have "cand (candidateBitmap c) off \<longleftrightarrow> off < spn \<and> survives rnd b h off"
    unfolding set_cands [symmetric] by (auto simp: region_ok_def)
  with r show ?thesis by (auto simp: candidateAtOffset_def cand_def region_ok_def)
qed

text \<open>C8: after any sequence of first and next scans, the candidates are exactly the addresses whose value was
  complete in every sample, was kept by the first comparison and passed every later comparison between
  the new sample and the one before it; nothing is lost at the boundaries of chunks or bitmap words,
  regions without a survivor are all that was discarded, and the count is exact.\<close>

theorem scan_history_exact:
  "scanned rnd s rs ds \<Longrightarrow>
   list_all2 (\<lambda>c (b, spn, h). ch_base c = b \<and> ch_bytes c = snd (hd h) \<and>
     (\<forall>off. candidateAtOffset c off \<longleftrightarrow> off < spn \<and> survives rnd b h off)) (chunks s) rs \<and>
   (\<forall>(b, spn, h) \<in> set ds. \<forall>off < spn. \<not> survives rnd b h off) \<and>
   candidateCount s = (\<Sum>(b, spn, h) \<leftarrow> rs. card {off. off < spn \<and> survives rnd b h off})"
proof (intro conjI)
  assume "scanned rnd s rs ds"
  then have inv: "scan_inv rnd s rs ds" by (rule scanned_inv)
  then have ok: "list_all2 (region_ok rnd (s_elementSize s)) (chunks s) rs" by (simp add: scan_inv_def)
  then show "list_all2 (\<lambda>c (b, spn, h). ch_base c = b \<and> ch_bytes c = snd (hd h) \<and>
     (\<forall>off. candidateAtOffset c off \<longleftrightarrow> off < spn \<and> survives rnd b h off)) (chunks s) rs"
    by (rule list_all2_mono) (auto simp: region_candidates, auto simp: region_ok_def)
  show "\<forall>(b, spn, h) \<in> set ds. \<forall>off < spn. \<not> survives rnd b h off" using inv by (simp add: scan_inv_def)
  have count: "ch_count c = (case r of (b, spn, h) \<Rightarrow> card {off. off < spn \<and> survives rnd b h off})"
    if "region_ok rnd (s_elementSize s) c r" for c r
  proof -
    obtain b spn h where r: "r = (b, spn, h)" by (cases r)
    have "distinct (filter (survives rnd b h) [0..<spn])" by simp
    from distinct_card [OF this] show ?thesis using that by (simp add: r region_ok_def)
  qed
  from ok have "map ch_count (chunks s) = map (\<lambda>(b, spn, h). card {off. off < spn \<and> survives rnd b h off}) rs"
    by (induction rule: list_all2_induct) (simp_all add: count)
  then show "candidateCount s = (\<Sum>(b, spn, h) \<leftarrow> rs. card {off. off < spn \<and> survives rnd b h off})"
    using inv by (simp add: scan_inv_def)
qed

lemma all_matches_length: "scan_inv rnd s rs ds \<Longrightarrow> length (all_matches s) = candidateCount s"
proof -
  assume inv: "scan_inv rnd s rs ds"
  then have "list_all2 (region_ok rnd (s_elementSize s)) (chunks s) rs" by (simp add: scan_inv_def)
  then have counts: "map ch_count (chunks s) = map (\<lambda>c. length (cands (candidateBitmap c))) (chunks s)"
    by (induction rule: list_all2_induct) (auto simp: region_ok_def)
  have "candidateCount s = sum_list (map ch_count (chunks s))" using inv by (simp add: scan_inv_def)
  then show ?thesis unfolding counts by (simp add: all_matches_def length_concat comp_def)
qed

lemma chunk_in_region:
  assumes "scan_inv rnd s rs ds" "c \<in> set (chunks s)"
  shows "ch_count c = length (cands (candidateBitmap c)) \<and> unat (ch_base c) + candidateSpan c < 2 ^ 64 \<and>
    (\<forall>k \<in> set (cands (candidateBitmap c)). k < candidateSpan c \<and> fits (s_elementSize s) (ch_bytes c) k)"
proof -
  have "list_all2 (region_ok rnd (s_elementSize s)) (chunks s) rs" using assms(1) by (simp add: scan_inv_def)
  then obtain r where r: "region_ok rnd (s_elementSize s) c r" using assms(2) by (metis list_all2_conv_all_nth in_set_conv_nth)
  then show ?thesis using region_ok_fits [OF r] by (auto simp: region_ok_def)
qed

lemma matches_ascending:
  assumes "\<forall>c \<in> set cs. unat (ch_base c) + candidateSpan c < 2 ^ 64 \<and> (\<forall>k \<in> set (cands (candidateBitmap c)). k < candidateSpan c)"
    "sorted_wrt owns_before cs"
  shows "sorted_wrt (\<lambda>m n. m_address m < m_address n)
    (concat (map (\<lambda>c. map (match_at es c) (cands (candidateBitmap c))) cs))"
  using assms
proof (induction cs)
  case (Cons c cs)
  have addr: "unat (m_address (match_at es d k)) = unat (ch_base d) + k \<and> k < candidateSpan d"
    if "d \<in> set (c # cs)" "k \<in> set (cands (candidateBitmap d))" for d k
  proof -
    have "unat (ch_base d) + candidateSpan d < 2 ^ 64" "k < candidateSpan d" using Cons.prems(1) that by blast+
    then show ?thesis
      by (simp add: match_at_def) (subst unat_add_no_wrap; simp add: unat_of_nat_u64)
  qed
  have "sorted_wrt (\<lambda>m n. m_address m < m_address n) (map (match_at es c) ks)"
    if "sorted_wrt (<) ks" "set ks \<subseteq> set (cands (candidateBitmap c))" for ks
    using that addr [of c] by (induction ks) (auto simp: word_less_nat_alt)
  then have "sorted_wrt (\<lambda>m n. m_address m < m_address n) (map (match_at es c) (cands (candidateBitmap c)))"
    using cands_sorted by blast
  moreover have "m_address (match_at es c k) < m_address (match_at es d j)"
    if "k \<in> set (cands (candidateBitmap c))" "d \<in> set cs" "j \<in> set (cands (candidateBitmap d))" for k d j
  proof -
    have "unat (ch_base c) + candidateSpan c \<le> unat (ch_base d)" using Cons.prems(2) that(2) by (simp add: owns_before_def)
    then show ?thesis using addr [of c k] addr [of d j] that by (simp add: word_less_nat_alt)
  qed
  ultimately show ?case using Cons by (auto simp: sorted_wrt_append simp del: set_cands)
qed simp

text \<open>C11: paging is a window onto one list: in every reachable state a page holds the matches from its first
  ordinal on, at most \<open>limit\<close> of them, with the bytes of the latest sample, in strictly ascending
  address order and so without repetition, and it says truthfully whether there are more.\<close>

theorem page_exact:
  assumes "scanned rnd s rs ds"
  shows "(let all = all_matches s; start = min first (length all); ms = take limit (drop first all)
     in page s first limit = \<lparr>p_first = start, p_next = start + length ms, p_total = length all,
          hasMore = (0 < limit \<and> start + length ms < length all), p_matches = ms\<rparr>) \<and>
     sorted_wrt (\<lambda>m n. m_address m < m_address n) (all_matches s)"
proof
  have inv: "scan_inv rnd s rs ds" by (rule scanned_inv [OF assms])
  show "sorted_wrt (\<lambda>m n. m_address m < m_address n) (all_matches s)"
    unfolding all_matches_def using chunk_in_region [OF inv] inv by (intro matches_ascending) (auto simp: scan_inv_def)
  have len: "candidateCount s = length (all_matches s)" using all_matches_length [OF inv] by simp
  have "page_chunks (s_elementSize s) limit (chunks s) n [] = take limit (drop n (all_matches s))" if "0 < limit" for n
    using page_chunks_paged [of "[]" limit "chunks s" "s_elementSize s" n] chunk_in_region [OF inv] that
    by (simp add: paged_def Let_def all_matches_def)
  then show "let all = all_matches s; start = min first (length all); ms = take limit (drop first all)
     in page s first limit = \<lparr>p_first = start, p_next = start + length ms, p_total = length all,
          hasMore = (0 < limit \<and> start + length ms < length all), p_matches = ms\<rparr>"
    by (cases "first < length (all_matches s)") (auto simp: page_def Let_def len min_def)
qed

section \<open>What a comparison means\<close>

text \<open>The modes, as relations between the current number, the previous one, and the needles.\<close>

fun mode_holds :: "MemoryScanMode \<Rightarrow> int \<Rightarrow> int \<Rightarrow> int \<Rightarrow> int \<Rightarrow> bool" where
  "mode_holds Exact x p v u = (x = v)"
| "mode_holds NotEqual x p v u = (x \<noteq> v)"
| "mode_holds GreaterThanValue x p v u = (x > v)"
| "mode_holds LessThanValue x p v u = (x < v)"
| "mode_holds Between x p v u = (v \<le> x \<and> x \<le> u)"
| "mode_holds Changed x p v u = (x \<noteq> p)"
| "mode_holds Unchanged x p v u = (x = p)"
| "mode_holds Increased x p v u = (x > p)"
| "mode_holds Decreased x p v u = (x < p)"
| "mode_holds IncreasedBy x p v u = (x = p + v)"
| "mode_holds DecreasedBy x p v u = (x = p - v)"
| "mode_holds UnknownInitial x p v u = True"

definition number_of :: "MemoryValueType \<Rightarrow> bytes \<Rightarrow> Numeric" where
  "number_of t bs =
     (case integerType t of
        Some (w, True) \<Rightarrow> Signed (signedFromBits (readLe bs w) w) w
      | Some (w, False) \<Rightarrow> Unsigned (readLe bs w) w
      | None \<Rightarrow> Unsigned 0 0)"

lemma integerType_facts:
  assumes "integerType t = Some (w, sg)"
  shows "MemoryValueTypeFixedSize t = w" "0 < w" "w \<le> 8" "\<not> MemoryValueTypeIsFloat t" "MemoryValueTypeIsNumeric t" "t \<noteq> ByteArray"
    "t \<noteq> Float32" "t \<noteq> Float64"
  using assms by (cases t; simp add: MemoryValueTypeIsFloat_def MemoryValueTypeIsNumeric_def; fail)+

lemma decodeNumeric_integer:
  assumes t: "integerType t = Some (w, sg)" and n: "w \<le> n"
  shows "decodeNumeric t bs n = Some (number_of t bs)"
  using integerType_facts [OF t] t n by (cases sg) (simp_all add: decodeNumeric_def number_of_def readLe_width Let_def)

lemma readLe_take: "w \<le> 8 \<Longrightarrow> w \<le> length bs \<Longrightarrow> readLe bs w = readLe (take w bs) w"
  by (intro bit_word_eqI) (auto simp: bit_readLe)

lemma int_value_eq_iff:
  assumes t: "integerType t = Some (w, sg)" and len: "w \<le> length a" "w \<le> length b"
  shows "int_value t a = int_value t b \<longleftrightarrow> take w a = take w b"
proof -
  note w = integerType_facts [OF t]
  have inj: "readLe a w = readLe b w \<longleftrightarrow> take w a = take w b"
  proof
    assume "readLe a w = readLe b w"
    then have "writeLe (readLe (take w a) w) w = writeLe (readLe (take w b) w) w"
      using w len by (simp add: readLe_take [symmetric])
    then show "take w a = take w b" using w len by (simp add: writeLe_readLe)
  qed (metis w(3) len readLe_take)
  have "signedFromBits (readLe a w) w = signedFromBits (readLe b w) w \<longleftrightarrow> readLe a w = readLe b w"
    using signedFromBits_inverse [OF w(2,3), of "readLe a w"] signedFromBits_inverse [OF w(2,3), of "readLe b w"] w(3)
    by (metis readLe_width)
  then show ?thesis using inj t by (cases sg) (auto simp: int_value_def word_uint_eq_iff)
qed

lemma take_eq_nth: "w \<le> length a \<Longrightarrow> w \<le> length b \<Longrightarrow> take w a = take w b \<longleftrightarrow> (\<forall>i < w. a ! i = b ! i)"
  by (metis nth_take nth_take_lemma)

lemma number_of_less:
  assumes t: "integerType t = Some (w, sg)"
  shows "lessNumeric rnd (number_of t a) (number_of t b) tol \<longleftrightarrow> int_value t a < int_value t b"
    "equalNumeric rnd (number_of t a) (number_of t b) tol \<longleftrightarrow> int_value t a = int_value t b"
  using t by (cases sg; simp add: number_of_def int_value_def word_less_def word_uint_eq_iff)+

lemma delta_integer:
  assumes t: "integerType t = Some (w, sg)" and d: "0 \<le> int_value t d"
  shows "delta_matches rnd tol inc (number_of t c) (number_of t r) (number_of t d) \<longleftrightarrow>
    int_value t c = (if inc then int_value t r + int_value t d else int_value t r - int_value t d)"
proof (cases sg)
  case True
  have "signedMinimum w \<le> signedFromBits (readLe c w) w \<and> signedFromBits (readLe c w) w \<le> signedMaximum w"
    using signedFromBits_range integerType_facts(2,3) [OF t] by blast
  then show ?thesis using t d True by (auto simp: delta_matches_def number_of_def int_value_def)
next
  case False
  let ?M = "widthMask w" and ?c = "readLe c w" and ?r = "readLe r w" and ?d = "readLe d w"
  have le: "readLe x w \<le> ?M" for x using readLe_width [OF integerType_facts(3) [OF t], of x] by (metis word_and_le1)
  have sub: "uint (x - y) = uint x - uint y" if "y \<le> x" for x y :: u64
    using that by (simp add: word_le_def uint_sub_lem [THEN iffD1])
  have inc: "\<not> ?r > ?M - ?d \<Longrightarrow> uint (?r + ?d) = uint ?r + uint ?d"
  proof -
    assume "\<not> ?r > ?M - ?d"
    then have "uint ?r + uint ?d \<le> uint ?M" using sub [OF le [of d]] by (simp add: word_less_def)
    then have "uint ?r + uint ?d < 2 ^ 64" using unsigned_less [of ?M, where ?'a = int] by simp
    then show ?thesis by (subst uint_add_lem [THEN iffD1]) simp_all
  qed
  have over: "?r > ?M - ?d \<Longrightarrow> uint ?c \<noteq> uint ?r + uint ?d"
    using sub [OF le [of d]] le [of c] by (auto simp: word_less_def word_le_def)
  have "uint ?r < uint ?d \<Longrightarrow> uint ?c \<noteq> uint ?r - uint ?d" using uint_ge_0 [of ?c] by linarith
  then show ?thesis
    using t False inc over sub [of ?d ?r]
    by (auto simp: delta_matches_def number_of_def int_value_def word_uint_eq_iff word_less_def word_le_def)
qed

text \<open>C9: on integer types of every width and sign, the predicate of an accepted configuration is the
  mathematical relation its mode names, between the numbers the bytes stand for: increases and decreases
  by a delta never match through a wrap-around.\<close>

theorem MemoryScanPredicate_integer:
  assumes t: "integerType (c_type config) = Some (w, sg)" and ok: "ValidateMemoryScanConfig rnd config = None"
    and cur: "w \<le> length cur" and prev: "w \<le> length prev"
  shows "MemoryScanPredicate rnd config (Some cur) (Some prev) \<longleftrightarrow>
    mode_holds (c_mode config) (int_value (c_type config) cur) (int_value (c_type config) prev)
      (int_value (c_type config) (v_bytes (c_value config))) (int_value (c_type config) (v_bytes (secondValue config)))"
proof -
  let ?t = "c_type config" and ?v = "v_bytes (c_value config)" and ?u = "v_bytes (secondValue config)"
  note T = integerType_facts [OF t]
  have es: "MemoryScanElementSize config = w" using T by (simp add: MemoryScanElementSize_def)
  have val: "modeNeedsValue (c_mode config) \<Longrightarrow> value_fits config (c_value config)"
    using ok by (auto simp: ValidateMemoryScanConfig_def Let_def split: if_splits option.splits)
  have sec: "c_mode config = Between \<Longrightarrow> value_fits config (secondValue config)"
    using ok by (auto simp: ValidateMemoryScanConfig_def bounds_error_def Let_def split: if_splits option.splits)
  have nonneg: "c_mode config = IncreasedBy \<or> c_mode config = DecreasedBy \<Longrightarrow> 0 \<le> int_value ?t ?v"
  proof -
    assume m: "c_mode config = IncreasedBy \<or> c_mode config = DecreasedBy"
    then have f: "v_type (c_value config) = ?t" "length ?v = w" using val es by (auto simp: modeNeedsValue_def value_fits_def)
    have "nonNegativeNeedle (c_value config)"
      using ok m by (auto simp: ValidateMemoryScanConfig_def Let_def split: if_splits option.splits)
    then show ?thesis
      using f t by (cases sg) (auto simp: nonNegativeNeedle_def numeric_of_def decodeNumeric_integer [OF t] number_of_def int_value_def)
  qed
  have vlen: "length ?v = w \<and> v_mask (c_value config) = []" if "modeNeedsValue (c_mode config)"
    using val [OF that] T es by (auto simp: value_fits_def value_valid_def split: if_splits)
  have ulen: "length ?u = w" if "c_mode config = Between" using sec [OF that] es by (simp add: value_fits_def)
  have masked: "maskedEqual cur (c_value config) w \<longleftrightarrow> int_value ?t cur = int_value ?t ?v" if "modeNeedsValue (c_mode config)"
  proof -
    have ff: "(0xFF :: u8) = - 1" by simp
    have "x AND 0xFF = x" for x :: u8 unfolding ff by simp
    then have "maskedEqual cur (c_value config) w \<longleftrightarrow> (\<forall>i < w. cur ! i = ?v ! i)"
      using vlen [OF that] by (auto simp: maskedEqual_def list_all_iff)
    also have "\<dots> \<longleftrightarrow> take w cur = take w ?v" using cur vlen [OF that] by (simp only: take_eq_nth order_refl)
    finally show ?thesis using int_value_eq_iff [OF t cur, of ?v] vlen [OF that] by simp
  qed
  have raw: "rawEqual cur prev w \<longleftrightarrow> int_value ?t cur = int_value ?t prev"
    using int_value_eq_iff [OF t cur prev] by (simp add: rawEqual_def)
  have dec: "decodeNumeric ?t cur w = Some (number_of ?t cur)" "decodeNumeric ?t prev w = Some (number_of ?t prev)"
    using decodeNumeric_integer [OF t] by simp_all
  have decv: "modeNeedsValue (c_mode config) \<Longrightarrow> decode_value config (c_value config) = Some (number_of ?t ?v)"
    using decodeNumeric_integer [OF t, of w ?v] vlen by (simp add: decode_value_def)
  have decu: "c_mode config = Between \<Longrightarrow> decode_value config (secondValue config) = Some (number_of ?t ?u)"
    using decodeNumeric_integer [OF t, of w ?u] ulen by (simp add: decode_value_def)
  have "MemoryScanPredicate rnd config (Some cur) (Some prev) = predicateUnchecked rnd config cur (Some prev) w"
    using es T(2) cur prev val sec by (auto simp: MemoryScanPredicate_def Let_def)
  also have "\<dots> \<longleftrightarrow> mode_holds (c_mode config) (int_value ?t cur) (int_value ?t prev) (int_value ?t ?v) (int_value ?t ?u)"
    using masked raw decv decu dec T(4) nonneg
    by (cases "c_mode config")
      (auto simp: predicateUnchecked_def modeNeedsValue_def greaterNumeric_def number_of_less [OF t] delta_integer [OF t] le_less Let_def)
  finally show ?thesis .
qed

section \<open>A scan\<close>

definition demo_scan :: MemoryScanConfig where
  "demo_scan = default_config\<lparr>c_type := Int16, c_mode := LessThanValue, alignment := 2,
     c_value := \<lparr>v_type = Int16, v_bytes = [0x05, 0x00], v_mask = [], nullTerminated = False\<rparr>\<rparr>"

definition demo_next :: MemoryScanConfig where
  "demo_next = demo_scan\<lparr>c_mode := IncreasedBy,
     c_value := \<lparr>v_type = Int16, v_bytes = [0x03, 0x00], v_mask = [], nullTerminated = False\<rparr>\<rparr>"

lemma demo_valid:
  "ValidateMemoryScanConfig Fin demo_scan = None" "ValidateMemoryScanConfig Fin demo_next = None"
  by code_simp+

theorem MemoryScanPredicate_integer_witness:
  "MemoryScanPredicate Fin demo_next (Some [0x01, 0x00]) (Some [0xFE, 0xFF])"
proof -
  have "integerType (c_type demo_next) = Some (2, True)" by (simp add: demo_next_def demo_scan_def)
  moreover have "2 \<le> length [0x01, 0x00 :: u8]" "2 \<le> length [0xFE, 0xFF :: u8]" by simp_all
  moreover have "int_value Int16 [0x01, 0x00] = 1" "int_value Int16 [0xFE, 0xFF] = - 2" "int_value Int16 [0x03, 0x00] = 3"
    by code_simp+
  ultimately show ?thesis
    using MemoryScanPredicate_integer [OF _ demo_valid(2), of 2 True "[0x01, 0x00]" "[0xFE, 0xFF]"]
    by (simp add: demo_next_def demo_scan_def)
qed

definition demo_sample :: bytes where "demo_sample = [0xFE, 0xFF, 0x09, 0x00, 0x01, 0x00]"
definition demo_sample2 :: bytes where "demo_sample2 = [0x01, 0x00, 0x0C, 0x00, 0x02, 0x00]"

definition demo_chunk :: "bytes \<Rightarrow> u64 \<Rightarrow> nat \<Rightarrow> MemoryScanChunk" where
  "demo_chunk sample bits count = \<lparr>ch_base = 0x1000, candidateSpan = 6, ch_bytes = sample, candidateBitmap = [bits], ch_count = count\<rparr>"

definition demo_state :: "MemoryScanChunk \<Rightarrow> MemoryScanSnapshot" where
  "demo_state c = \<lparr>shapeSet = True, s_type = Int16, s_elementSize = 2, s_alignment = 2, initialConfig = demo_scan,
     chunks = [c], candidateCount = ch_count c, hasLastOwnedRange = True, lastOwnedEnd = 0x1006\<rparr>"

lemma demo_evaluated:
  "initial_chunk Fin demo_scan 0x1000 demo_sample 6 = demo_chunk demo_sample 17 2"
  "refine_bits Fin demo_next (demo_chunk demo_sample 17 2) demo_sample2 = ([1], 1)"
  "cands [17] = [0, 4]" "cands [1] = [0]"
  by code_simp+

lemma demo_append: "appendInitialChunk Fin demo_scan 0x1000 demo_sample 6 scan_clear = Inr (demo_state (demo_chunk demo_sample 17 2))"
proof -
  have sizes: "length demo_sample = 6" "MemoryScanElementSize demo_scan = 2"
    by (simp_all add: demo_sample_def demo_scan_def MemoryScanElementSize_def)
  have count: "ch_count (demo_chunk demo_sample 17 2) = 2" by (simp add: demo_chunk_def)
  show ?thesis
    unfolding appendInitialChunk_def demo_valid option.case Let_def kWholeSample_def
    by (simp add: sizes count demo_evaluated scan_clear_def set_shape_def demo_state_def)
      (simp add: demo_scan_def)
qed

lemma demo_refine:
  "refineChunk Fin 0 demo_next demo_sample2 (demo_state (demo_chunk demo_sample 17 2)) = Inr (demo_state (demo_chunk demo_sample2 1 1))"
  by (simp add: refineChunk_def demo_valid demo_state_def demo_evaluated)
    (simp add: demo_chunk_def MemoryScanElementSize_def demo_next_def demo_scan_def)

lemma demo_scanned: "scanned Fin (demo_state (demo_chunk demo_sample 17 2)) [(0x1000, 6, [(demo_scan, demo_sample)])] []"
  using scanned.append [OF scanned.start demo_append] by (simp add: demo_state_def scan_clear_def owned_span_def kWholeSample_def)

theorem page_exact_witness:
  "page (demo_state (demo_chunk demo_sample 17 2)) 1 5 = \<lparr>p_first = 1, p_next = 2, p_total = 2, hasMore = False,
     p_matches = [\<lparr>m_address = 0x1004, m_bytes = [0x01, 0x00]\<rparr>]\<rparr>"
proof -
  have "all_matches (demo_state (demo_chunk demo_sample 17 2)) =
      [\<lparr>m_address = 0x1000, m_bytes = [0xFE, 0xFF]\<rparr>, \<lparr>m_address = 0x1004, m_bytes = [0x01, 0x00]\<rparr>]"
    by (simp add: all_matches_def demo_state_def demo_chunk_def demo_evaluated match_at_def demo_sample_def)
  with page_exact [OF demo_scanned, of 1 5] show ?thesis by (simp add: Let_def)
qed

theorem scan_history_exact_witness:
  "{off. off < 6 \<and> survives Fin 0x1000 [(demo_next, demo_sample2), (demo_scan, demo_sample)] off} = {0}"
proof -
  let ?h = "[(demo_next, demo_sample2), (demo_scan, demo_sample)]"
  have "scanned Fin (demo_state (demo_chunk demo_sample2 1 1)) [(0x1000, 6, ?h)] []"
    using scanned.refine [OF demo_scanned demo_refine] by simp
  from scan_history_exact [OF this]
  have "candidateAtOffset (demo_chunk demo_sample2 1 1) off \<longleftrightarrow> off < 6 \<and> survives Fin 0x1000 ?h off" for off
    by (simp add: demo_state_def)
  moreover have "candidateAtOffset (demo_chunk demo_sample2 1 1) off \<longleftrightarrow> off = 0" for off
    by (auto simp: candidateAtOffset_def demo_chunk_def bit_1_iff)
  ultimately show ?thesis by auto
qed

end
