(* ===== verification/Spec2Isabelle.thy ===== *)
theory Spec2Isabelle
  imports Address_Span Sig_Match Inflate_Correct Step_Logic Diff_Regions Patch_Refresh Listing_Index Cond Instruction_Model Trace_Coverage Trace_Plan Memory_Mutation Patch_Set Live_Patch Json Jdwp Path_Explore Synthesis Memory_Scan
begin

text \<open>
  Disasm Studio is a disassembler, debugger and patching workbench for Windows. Its user interface
  (\<open>src/src/Tabs\<close>, \<open>Ui\<close>, \<open>App.cpp\<close>) and its debugger (\<open>Core/Debugger*.cpp\<close>) drive a live process
  through the operating system; the decisions they take are kept in pure parts of \<open>src/src/Core\<close>
  that can be tested without a process. This development models those parts, function by function,
  and proves what they promise to the code that calls them.

  \<^bold>\<open>The parts and how they interact.\<close>

  \<^item> Decoding and searching bytes. \<open>Bit_Reader\<close>, \<open>Inflate\<close>, \<open>Huffman_Correct\<close>, \<open>Inflate_Correct\<close>:
    \<open>Inflate.cpp\<close>, the raw DEFLATE decoder used on packed resources. \<open>Sig_Match\<close>: \<open>SigMatch.{h,cpp}\<close>,
    the masked signature search. \<open>Diff_Regions\<close>: \<open>DiffRegions.h\<close>, the byte diff of two images.
    \<open>Address_Span\<close>: \<open>AddressSpan.h\<close>, the checked address arithmetic the other parts use.
  \<^item> Live memory. \<open>Scan_Value\<close> and \<open>Memory_Scan\<close>: \<open>MemoryScan.{h,cpp}\<close>, the typed values of the memory
    scanner (parser, formatter, UTF-8 and UTF-16), the comparison of one candidate, and the
    incremental scan over bitmaps with its pages. \<open>Memory_Mutation\<close>: \<open>DebuggerMemoryMutation.h\<close> and
    \<open>DebuggerExecutionPolicy.h\<close>, a write into another process with its rollback, and the update of
    debug registers.
  \<^item> Patches. \<open>Patch_Set\<close>: \<open>PatchSet.h\<close> with the records of \<open>Project.h\<close>, validation and selection of the
    patches of a project. \<open>Live_Patch\<close>: \<open>LivePatchOriginal.h\<close>, \<open>DebugTargetIdentity.h\<close>, the original
    bytes kept while patches are written to a process, and their restoration; it works on the records
    of \<open>Patch_Set\<close>. \<open>Patch_Refresh\<close>: \<open>PatchRefresh.h\<close>, which edits the listing has to re-analyse, and when.
  \<^item> Debugging. \<open>Cond\<close>: \<open>Cond.{h,cpp}\<close>, conditional breakpoints. \<open>Step_Logic\<close>: \<open>StepLogic.h\<close>, what a
    debug stop means for a pending step. \<open>Trace_Coverage\<close> and \<open>Trace_Plan\<close>: \<open>TraceCoverage.{h,cpp}\<close> and
    \<open>TracePlan.h\<close>, one-shot coverage breakpoints and the code spans they may be placed in.
    \<open>Instruction_Model\<close>: \<open>Disasm/IDisassembler.h\<close>, the instruction record every decoder fills and every
    analysis reads. \<open>Jdwp\<close>: \<open>Jdwp.{h,cpp}\<close>, the wire format of the Java debug protocol.
  \<^item> Symbolic execution. \<open>Expr_Ast\<close>: \<open>ExprAst.{h,cpp}\<close>, bit-vector expressions. \<open>Simplify\<close>:
    \<open>Simplify.{h,cpp}\<close>. \<open>Sym_Solver\<close>: the default solver of \<open>SymEngine.cpp\<close>, which substitutes and
    simplifies with the two before. \<open>Path_Explore\<close>: \<open>PathExplore.{h,cpp}\<close>, the tree of paths, on the
    solver. \<open>Seed_State\<close> and \<open>Synthesis\<close>: \<open>Synthesis.{h,cpp}\<close> with the seed types of \<open>SymEngine.h\<close>, the
    registers and memory a sample starts from, and a region of instructions rewritten as an expression and
    checked against its execution, on the solver and on \<open>Instruction_Model\<close>.
  \<^item> Storage and display. \<open>Json\<close>: \<open>Json.{h,cpp}\<close>, every file the program keeps. \<open>Listing_Index\<close>:
    \<open>ListingVirtualIndex.h\<close>, the row index of listings with millions of rows.
  \<^item> \<open>Prelude\<close>, \<open>C_Lib\<close> and \<open>Machine\<close> hold what the parts share: machine words, hash maps as
    association lists, the C library functions the code calls, and the locales of machines and
    refinements.

  \<^bold>\<open>How the code is read.\<close> A class or struct is a record, an enum a datatype with the source's names, a
  member function a function from the state to the new state. \<open>uint8_t\<close> to \<open>uint64_t\<close> are words, and
  wrap; a \<open>size_t\<close> that counts elements of a container is a natural number, and a signed integer whose
  computation cannot overflow is an integer, its range checks being kept. Early returns are branches,
  a \<open>bool\<close> with an output is an option, an error text a sum. Where C++ leaves the result of a computation
  undefined, that is said next to the definition: \<open>MemWrite\<close> has the value \<open>None\<close> there, the signed
  additions of \<open>Cond\<close> wrap and have predicates that say when they are defined. A \<open>std::unordered_map\<close> is an association
  list with distinct keys, and what is proved holds for every order. A loop is a structural
  recursion, a fold, or a function with a termination proof. Three loops need more. The JSON parser
  has fuel \<open>2 * length + 1\<close>, and \<open>parse_value_enough\<close> shows that it never runs out. The decoder and
  explorer loops are partial functions; \<open>Explore_terminates\<close> proves that exploration ends, whatever
  the program and the solver, by a measure on the node budget and the work list.

  \<^bold>\<open>The interfaces.\<close> \<open>machine\<close> and \<open>refinement\<close> (in \<open>Machine\<close>) hold what follows for whole histories from
  the laws of one step; the listing index, the patch-refresh debouncer, the trace coverage and the
  span builder are interpretations. \<open>row_index\<close> is what the viewport code relies on. \<open>codec\<close> is the
  contract between a JDWP writer and reader, interpreted for every field and record. \<open>path_solver\<close>
  is what the explorer relies on, interpreted for the default solver.

  \<^bold>\<open>What the groups of lemmas show.\<close>

  \<^item> DEFLATE: the canonical Huffman tables invert the code of RFC 1951 for every set of lengths that is
    not over-subscribed; stored blocks and fixed-code blocks of literals and overlapping matches
    decode to what they encode; no input makes the output exceed its cap.
  \<^item> Searching: the three paths of the signature search (short exact patterns, skip table, masked scan)
    all return the first occurrence; the diff counts and covers exactly the differing bytes.
  \<^item> Scanner values: whatever the parser accepts is formatted to text that parses to it; the UTF-8
    check accepts exactly the well-formed encodings.
  \<^item> Scanning: after any history of first and next scans the bitmaps hold exactly the addresses that
    passed every comparison; on integers a comparison is the relation its mode names; pages are
    windows onto one ascending list.
  \<^item> Remote writes: the span is as requested or as before, or an obligation to roll back is kept, and
    no other byte is touched, for every behaviour of the operating-system calls that obeys their
    documented contract (\<open>io_lawful\<close>, \<open>reads_truly\<close>).
  \<^item> Patches: a plan exists exactly for consistent projects within the comparison budget; what is
    captured before a live write is, byte for byte, what the target held before the first write to it;
    restoration writes the right byte at every
    address; the refresh request is full exactly when it has to be and covers exactly the edited
    addresses otherwise.
  \<^item> Debugging: a compiled condition means what its text says; an accepted breakpoint condition never
    falls back; a consumed coverage site is never armed again; spans contain exactly the accepted
    listing rows; JDWP packets, replies and events decode to what was encoded.
  \<^item> Symbolic execution: evaluation is the arithmetic it should be at every width; simplification keeps
    the value and the width; a model found satisfies the constraints and within the search bound of
    \<open>10^6\<close> assignments one is found whenever it exists; the tree of paths is finite, within its limits,
    its edges are those of the program, and the input computed for a node drives the program along the path
    to it; a sample counted for a synthesized expression is a run that ended with the expression's value in
    the output register, and an accepted region without computed branches cannot loop.
  \<^item> JSON: parsing inverts writing, numbers included, and no accepted document exceeds a limit or repeats a key.
  \<^item> Listing: after any history of updates rows and items correspond as sums of row counts say, and the
    lookup of an address finds the innermost item.

  \<^bold>\<open>Assumptions.\<close> Containers hold fewer than \<open>2^64\<close> elements. Running out of memory is outside the
  model, except where the code handles it (\<open>Patch_Refresh\<close>). A \<open>double\<close> in JSON is a parameter type with
  the library operations on it, of which \<open>double_ok\<close> states what the C standard promises (\<open>%.17g\<close> prints a
  JSON number, \<open>strtod\<close> reads it back); in the scanner a floating-point value is the rational it stands for,
  the rounding of \<open>long double\<close> arithmetic is a parameter, and so is the conversion from and to decimal
  text, with the round-trip law of the standard (\<open>float_text\<close>). The remote process is a state type
  with the operations of the adapter. The symbolic engine (\<open>TritonSymEngine\<close> of \<open>SymEngine.cpp\<close> is a
  binding to the Triton library), the random draws and the control-flow facade of the explorer are parameters:
  they are libraries, or interfaces filled by them.

  \<^bold>\<open>Not modelled.\<close> The user interface and the application loop (drawing, events, threads), the Win32
  debugger and process access (operating-system calls on shared mutable state; their decision parts
  are above), the decoder backends and the assembler (third-party libraries), job queues and caches
  of the analysis service. The decompiler, the data-flow pass, naming, annotation and triage are
  heuristics whose output has no specification in the sources beyond the code itself. API catalogues
  are constant tables. The image loader, the unpackers, the authorization tracer, semantic diff,
  class-file parsing, symbol lookup, pointer search, the control-flow graph and the cross-reference
  index are pure enough to be modelled and are not yet.
\<close>

end
